(* ===== verification/Prelude.thy ===== *)
theory Prelude
  imports Main "HOL-Library.Word"
begin

text \<open>
  Shared vocabulary of the development.

  \<^item> \<open>run\<close>: the outcome of a C++ function in a build where \<^verbatim>\<open>SK_CHECK\<close> is active
    (\<^verbatim>\<open>check.hxx\<close>): it returns, it aborts with the text of the failed check, or it does
    not return: a loop has used up the iterations the model grants it, or a coroutine is never
    resumed.
  \<^item> \<open>copy_at\<close>: \<^verbatim>\<open>std::copy\<close> / \<^verbatim>\<open>std::memcpy\<close> of a sequence into an array at an index.
  \<^item> \<open>segment\<close>: the elements of an array between two indices, what a \<^verbatim>\<open>std::span\<close> shows.
  \<^item> \<open>add64\<close>, \<open>sub64\<close>: arithmetic of \<^verbatim>\<open>std::uint64_t\<close> and of 64-bit \<^verbatim>\<open>std::size_t\<close>
    on naturals, with the wrap-around written out.

  The collections \<open>array_simps\<close> (facts on \<open>copy_at\<close> and \<open>segment\<close>) and \<open>run_simps\<close> carry
  most component proofs.
\<close>

named_theorems array_simps \<open>facts about array copies and segments\<close>
named_theorems run_simps \<open>facts about outcomes\<close>

type_synonym byte = "8 word"

subsection \<open>Outcomes\<close>

datatype 'a run = Ret 'a | Abort string | Diverge

definition sk_check :: "bool \<Rightarrow> string \<Rightarrow> 'a run \<Rightarrow> 'a run" where
  "sk_check cond msg rest = (if cond then rest else Abort msg)"

primrec bind_run :: "'a run \<Rightarrow> ('a \<Rightarrow> 'b run) \<Rightarrow> 'b run" where
  "bind_run (Ret x) f = f x"
| "bind_run (Abort m) f = Abort m"
| "bind_run Diverge f = Diverge"

definition returns :: "'a run \<Rightarrow> bool" where
  "returns r \<longleftrightarrow> (\<exists>x. r = Ret x)"

subsection \<open>Arrays\<close>

definition copy_at :: "'a list \<Rightarrow> nat \<Rightarrow> 'a list \<Rightarrow> 'a list" where
  "copy_at arr i xs = take i arr @ xs @ drop (i + length xs) arr"

definition segment :: "'a list \<Rightarrow> nat \<Rightarrow> nat \<Rightarrow> 'a list" where
  "segment arr i j = take (j - i) (drop i arr)"

subsection \<open>64-bit unsigned arithmetic\<close>

definition add64 :: "nat \<Rightarrow> nat \<Rightarrow> nat" where
  "add64 a b = (a + b) mod 2 ^ 64"

definition sub64 :: "nat \<Rightarrow> nat \<Rightarrow> nat" where
  "sub64 a b = (a + 2 ^ 64 - b) mod 2 ^ 64"

subsection \<open>Facts about outcomes\<close>

lemma sk_check_True [simp, run_simps]: "c \<Longrightarrow> sk_check c m r = r"
  by (simp add: sk_check_def)

lemma sk_check_False [simp, run_simps]: "\<not> c \<Longrightarrow> sk_check c m r = Abort m"
  by (simp add: sk_check_def)

lemma sk_check_eq_Ret [run_simps]: "sk_check c m r = Ret x \<longleftrightarrow> c \<and> r = Ret x"
  by (simp add: sk_check_def)

lemma bind_run_eq_Ret [run_simps]:
  "bind_run r f = Ret y \<longleftrightarrow> (\<exists>x. r = Ret x \<and> f x = Ret y)"
  by (cases r) auto

lemma bind_run_assoc: "bind_run (bind_run r f) g = bind_run r (\<lambda>x. bind_run (f x) g)"
  by (cases r) auto

lemma bind_run_Ret_right [simp]: "bind_run r Ret = r"
  by (cases r) auto

lemma returns_Ret [simp, intro]: "returns (Ret x)"
  by (auto simp: returns_def)

lemma not_returns [simp]: "\<not> returns (Abort m)" "\<not> returns Diverge"
  by (auto simp: returns_def)

subsection \<open>Facts about array copies and segments\<close>

lemma length_copy_at [simp, array_simps]:
  "i + length xs \<le> length arr \<Longrightarrow> length (copy_at arr i xs) = length arr"
  by (simp add: copy_at_def)

lemma copy_at_Nil [simp, array_simps]: "copy_at arr i [] = arr"
  by (simp add: copy_at_def)

lemma copy_at_full: "length xs = length arr \<Longrightarrow> copy_at arr 0 xs = xs"
  by (simp add: copy_at_def)

lemma copy_at_append:
  assumes "i + length xs + length ys \<le> length arr"
  shows "copy_at (copy_at arr i xs) (i + length xs) ys = copy_at arr i (xs @ ys)"
  using assms by (simp add: copy_at_def ac_simps)

lemma copy_at_snoc:
  assumes "i + length xs < length arr"
  shows "(copy_at arr i xs)[i + length xs := y] = copy_at arr i (xs @ [y])"
  using assms by (simp add: copy_at_def list_update_append Cons_nth_drop_Suc [symmetric])

lemma copy_at_Cons:
  assumes "i < length arr"
  shows "copy_at (arr[i := x]) (Suc i) ys = copy_at arr i (x # ys)"
  using assms by (simp add: copy_at_def take_Suc_conv_app_nth)

lemma append_take_drop_append [simp, array_simps]: "take n xs @ drop n xs @ ys = xs @ ys"
  by (simp flip: append_assoc)

lemma length_segment [simp, array_simps]:
  "j \<le> length arr \<Longrightarrow> length (segment arr i j) = j - i"
  by (simp add: segment_def)

lemma segment_same [simp, array_simps]: "segment arr i i = []"
  by (simp add: segment_def)

lemma segment_empty: "j \<le> i \<Longrightarrow> segment arr i j = []"
  by (simp add: segment_def)

lemma segment_full: "segment arr 0 (length arr) = arr"
  by (simp add: segment_def)

lemma segment_to_end: "segment arr i (length arr) = drop i arr"
  by (simp add: segment_def)

lemma segment_split:
  assumes "i \<le> j" "j \<le> k"
  shows "segment arr i k = segment arr i j @ segment arr j k"
proof -
  have k: "k - i = (j - i) + (k - j)" and d: "j - i + i = j" using assms by simp_all
  show ?thesis unfolding segment_def k take_add drop_drop d by simp
qed

lemma take_segment [array_simps]: "n \<le> j - i \<Longrightarrow> take n (segment arr i j) = segment arr i (i + n)"
  by (simp add: segment_def min_def)

lemma drop_segment [array_simps]: "drop n (segment arr i j) = segment arr (i + n) j"
  by (simp add: segment_def drop_take add.commute diff_diff_left)

lemma segment_copy_at [array_simps]:
  "i + length xs \<le> length arr \<Longrightarrow> segment (copy_at arr i xs) i (i + length xs) = xs"
  by (simp add: segment_def copy_at_def)

lemma segment_copy_at_before [array_simps]:
  "j \<le> i \<Longrightarrow> i \<le> length arr \<Longrightarrow> segment (copy_at arr i xs) k j = segment arr k j"
  by (cases "k \<le> j") (simp_all add: segment_def copy_at_def drop_take)

lemma segment_copy_at_after [array_simps]:
  "i + length xs \<le> k \<Longrightarrow> i + length xs \<le> length arr \<Longrightarrow>
    segment (copy_at arr i xs) k j = segment arr k j"
  by (simp add: segment_def copy_at_def)

lemma segment_extend [array_simps]:
  assumes "k \<le> i" "i + length xs \<le> length arr"
  shows "segment (copy_at arr i xs) k (i + length xs) = segment arr k i @ xs"
proof -
  have "segment (copy_at arr i xs) k (i + length xs) =
      segment (copy_at arr i xs) k i @ segment (copy_at arr i xs) i (i + length xs)"
    using assms by (intro segment_split) auto
  then show ?thesis using assms by (simp add: array_simps)
qed

lemma segment_extend_to [array_simps]:
  "k \<le> i \<Longrightarrow> i + length xs = j \<Longrightarrow> j \<le> length arr \<Longrightarrow>
    segment (copy_at arr i xs) k j = segment arr k i @ xs"
  using segment_extend by blast

lemma take_min_segment:
  "take n (segment xs i j) = segment xs i (i + min n (j - i))"
  by (cases "n \<le> j - i") (simp_all add: segment_def min_def)

subsection \<open>Facts about 64-bit arithmetic\<close>

lemma add64_small [simp]: "a + b < 2 ^ 64 \<Longrightarrow> add64 a b = a + b"
  by (simp add: add64_def)

lemma sub64_small [simp]:
  assumes "b \<le> a" "a < 2 ^ 64"
  shows "sub64 a b = a - b"
proof -
  have "a + 2 ^ 64 - b = (a - b) + 2 ^ 64" using assms(1) by simp
  then have "sub64 a b = ((a - b) + 2 ^ 64) mod 2 ^ 64" unfolding sub64_def by (rule arg_cong)
  also have "\<dots> = (a - b) mod 2 ^ 64" by (rule mod_add_self2)
  also have "\<dots> = a - b" using assms by (intro mod_less) simp
  finally show ?thesis .
qed

lemma sum_list_map_update:
  fixes f :: "'a \<Rightarrow> 'b::comm_monoid_add"
  assumes "i < length xs"
  shows "sum_list (map f (xs[i := y])) + f (xs ! i) = sum_list (map f xs) + f y"
  using assms by (induction xs arbitrary: i) (auto simp: ac_simps split: nat.splits)

end
