(* ===== verification/Channel_Types.thy ===== *)
theory Channel_Types
  imports Prelude
begin

text \<open>
  \<^verbatim>\<open>channel/types.hxx\<close>, \<^verbatim>\<open>channel/error.hxx\<close> and the channel concepts of
  \<^verbatim>\<open>channel/concepts.hxx\<close>.

  A \<^verbatim>\<open>std::error_code\<close> is a category and a value; the ones the library makes itself have
  the category \<^verbatim>\<open>cio\<close>. The Windows-only enumerators are left out.

  A channel is a state \<open>'c\<close> with operations on it. Reading into a span of \<open>n\<close> objects yields
  either an error code or the objects stored at the start of the span, whose number is the
  count the C++ function returns; writing a span yields an error code or the count written.
\<close>

definition unlimited :: nat where
  "unlimited = 2 ^ 64 - 1"

definition at_end :: nat where
  "at_end = 2 ^ 64 - 1"

datatype error =
    no_error
  | end_of_file
  | filechannel_invalid_flags
  | channel_already_open
  | channel_not_open
  | reactor_associate_failed
  | invalid_address_format

fun error_value :: "error \<Rightarrow> int" where
  "error_value no_error = 0"
| "error_value end_of_file = 1"
| "error_value filechannel_invalid_flags = 4"
| "error_value channel_already_open = 5"
| "error_value channel_not_open = 6"
| "error_value reactor_associate_failed = 9"
| "error_value invalid_address_format = 10"

datatype error_category = Cio_category | System_category | Other_category string

record error_code =
  ec_category :: error_category
  ec_value :: int

definition make_error_code :: "error \<Rightarrow> error_code" where
  "make_error_code e = \<lparr>ec_category = Cio_category, ec_value = error_value e\<rparr>"

text \<open>\<^verbatim>\<open>std::make_error_code(std::errc)\<close>.\<close>

definition generic_error :: "int \<Rightarrow> error_code" where
  "generic_error n = \<lparr>ec_category = Other_category ''generic'', ec_value = n\<rparr>"

text \<open>\<^verbatim>\<open>std::error_code()\<close>, and the conversion of an error code to \<^verbatim>\<open>bool\<close>.\<close>

definition default_error_code :: error_code where
  "default_error_code = \<lparr>ec_category = System_category, ec_value = 0\<rparr>"

definition is_error :: "error_code \<Rightarrow> bool" where
  "is_error ec \<longleftrightarrow> ec_value ec \<noteq> 0"

text \<open>\<^verbatim>\<open>cio_errc_category::message\<close>\<close>

definition cio_message :: "int \<Rightarrow> string" where
  "cio_message c =
     (if c = error_value no_error then ''success''
      else if c = error_value end_of_file then ''end of file''
      else if c = error_value filechannel_invalid_flags then ''invalid filechannel flags''
      else if c = error_value channel_already_open then ''channel is already open''
      else if c = error_value reactor_associate_failed
        then ''failed to associate the channel with the reactor''
      else if c = error_value invalid_address_format then ''invalid address format''
      else ''unknown error'')"

type_synonym ('c, 'a) read_op = "'c \<Rightarrow> nat \<Rightarrow> (error_code + 'a list) \<times> 'c"
type_synonym ('c, 'a) write_op = "'c \<Rightarrow> 'a list \<Rightarrow> (error_code + nat) \<times> 'c"

lemma error_value_inject [simp]: "error_value e = error_value e' \<longleftrightarrow> e = e'"
  by (cases e; cases e') simp_all

lemma is_error_make [simp]: "is_error (make_error_code e) \<longleftrightarrow> e \<noteq> no_error"
  by (cases e) (simp_all add: is_error_def make_error_code_def)

subsection \<open>The contracts of sequential channels\<close>

text \<open>
  \<open>seq_reader\<close>: \<open>stream c\<close> is what is still to be read. A read of a non-empty span yields a
  non-empty piece of it, possibly shorter than the span, or the error \<open>eof\<close> at the end.

  \<open>seq_writer\<close>: \<open>sent c\<close> is what has been written and \<open>space c\<close> what the channel still takes. A
  write of a non-empty span takes a non-empty initial part of it, or fails with \<open>full\<close>.
\<close>

locale seq_reader =
  fixes inv :: "'c \<Rightarrow> bool"
    and stream :: "'c \<Rightarrow> 'a list"
    and read_some :: "('c, 'a) read_op"
    and eof :: error_code
  assumes eof_error: "is_error eof"
    and read_progress: "inv c \<Longrightarrow> 0 < n \<Longrightarrow> stream c \<noteq> [] \<Longrightarrow>
      \<exists>k c'. read_some c n = (Inr (take k (stream c)), c') \<and> 0 < k \<and> k \<le> n \<and>
        k \<le> length (stream c) \<and> inv c' \<and> stream c' = drop k (stream c)"
    and read_eof: "inv c \<Longrightarrow> 0 < n \<Longrightarrow> stream c = [] \<Longrightarrow>
      \<exists>c'. read_some c n = (Inl eof, c') \<and> inv c' \<and> stream c' = []"

locale seq_writer =
  fixes inv :: "'c \<Rightarrow> bool"
    and sent :: "'c \<Rightarrow> 'a list"
    and space :: "'c \<Rightarrow> nat"
    and write_some :: "('c, 'a) write_op"
    and full :: error_code
  assumes full_error: "is_error full"
    and write_progress: "inv c \<Longrightarrow> xs \<noteq> [] \<Longrightarrow> 0 < space c \<Longrightarrow>
      \<exists>k c'. write_some c xs = (Inr k, c') \<and> 0 < k \<and> k \<le> length xs \<and> k \<le> space c \<and>
        inv c' \<and> sent c' = sent c @ take k xs \<and> space c' = space c - k"
    and write_full: "inv c \<Longrightarrow> xs \<noteq> [] \<Longrightarrow> space c = 0 \<Longrightarrow>
      \<exists>c'. write_some c xs = (Inl full, c') \<and> inv c' \<and> sent c' = sent c \<and> space c' = 0"

subsection \<open>Properties\<close>

text \<open>The message of an error code made from an enumerator is the enumerator's own text and
  different enumerators have different texts, with one gap: \<^verbatim>\<open>channel_not_open\<close> has no case and
  gets the text for unknown values.\<close>

theorem error_messages:
  "cio_message (ec_value (make_error_code e)) = ''unknown error'' \<longleftrightarrow> e = channel_not_open"
  by (cases e) (simp_all add: cio_message_def make_error_code_def)

end
