(* ===== verification/Memchannel.thy ===== *)
theory Memchannel
  imports Channel_Types
begin

text \<open>
  \<^verbatim>\<open>channel/memchannel.hxx\<close>: a region of memory as a channel. \<open>mc_memory\<close> is the span
  \<^verbatim>\<open>memory\<close>: \<open>None\<close> when its \<^verbatim>\<open>data()\<close> is null, which is how a closed channel is
  recognised. The coroutine variants complete without suspending, so their value is what the
  awaiting coroutine gets.
\<close>

record memchannel =
  mc_memory :: "byte list option"
  mc_read_position :: nat
  mc_write_position :: nat

definition memchannel_base :: "byte list \<Rightarrow> memchannel" where
  "memchannel_base mem = \<lparr>mc_memory = Some mem, mc_read_position = 0, mc_write_position = 0\<rparr>"

text \<open>The memory of the span; a null span has size zero.\<close>

definition mc_bytes :: "memchannel \<Rightarrow> byte list" where
  "mc_bytes c = (case mc_memory c of None \<Rightarrow> [] | Some m \<Rightarrow> m)"

definition memchannel_is_open :: "memchannel \<Rightarrow> bool" where
  "memchannel_is_open c \<longleftrightarrow> mc_memory c \<noteq> None"

definition memchannel_close :: "memchannel \<Rightarrow> (error_code + unit) \<times> memchannel" where
  "memchannel_close c = (Inr (), c\<lparr>mc_memory := None\<rparr>)"

definition memchannel_async_close :: "memchannel \<Rightarrow> (error_code + unit) \<times> memchannel" where
  "memchannel_async_close c = (Inr (), c\<lparr>mc_memory := None\<rparr>)"

definition memchannel_read_some_at :: "nat \<Rightarrow> (memchannel, byte) read_op" where
  "memchannel_read_some_at loc c bufsize =
     (if length (mc_bytes c) < loc then (Inl (make_error_code end_of_file), c)
      else let omem = drop loc (mc_bytes c);
               bufsize = (if length omem < bufsize then length omem else bufsize)
           in if bufsize = 0 then (Inl (make_error_code end_of_file), c)
              else (Inr (take bufsize omem), c))"

definition memchannel_read_some :: "(memchannel, byte) read_op" where
  "memchannel_read_some c bufsize =
     (case memchannel_read_some_at (mc_read_position c) c bufsize of
        (Inl e, c') \<Rightarrow> (Inl e, c')
      | (Inr xs, c') \<Rightarrow> (Inr xs, c'\<lparr>mc_read_position := add64 (mc_read_position c') (length xs)\<rparr>))"

definition memchannel_async_read_some :: "(memchannel, byte) read_op" where
  "memchannel_async_read_some c bufsize = memchannel_read_some c bufsize"

definition memchannel_write_some_at :: "nat \<Rightarrow> (memchannel, byte) write_op" where
  "memchannel_write_some_at loc c buf =
     (if length (mc_bytes c) < loc then (Inl (make_error_code end_of_file), c)
      else let omem = drop loc (mc_bytes c);
               buf = (if length omem < length buf then take (length omem) buf else buf)
           in if buf = [] then (Inl (make_error_code end_of_file), c)
              else (Inr (length buf), c\<lparr>mc_memory := Some (copy_at (mc_bytes c) loc buf)\<rparr>))"

definition memchannel_write_some :: "(memchannel, byte) write_op" where
  "memchannel_write_some c buf =
     (case memchannel_write_some_at (mc_write_position c) c buf of
        (Inl e, c') \<Rightarrow> (Inl e, c')
      | (Inr n, c') \<Rightarrow> (Inr n, c'\<lparr>mc_write_position := add64 (mc_write_position c') n\<rparr>))"

definition memchannel_async_write_some :: "(memchannel, byte) write_op" where
  "memchannel_async_write_some c buf = memchannel_write_some c buf"

definition memchannel_async_read_some_at :: "nat \<Rightarrow> (memchannel, byte) read_op" where
  "memchannel_async_read_some_at loc c bufsize = memchannel_read_some_at loc c bufsize"

definition memchannel_async_write_some_at :: "nat \<Rightarrow> (memchannel, byte) write_op" where
  "memchannel_async_write_some_at loc c buf = memchannel_write_some_at loc c buf"

text \<open>The factories view a range as its bytes; an element is the list of its bytes.\<close>

definition make_imemchannel :: "byte list list \<Rightarrow> memchannel" where
  "make_imemchannel rng = memchannel_base (concat rng)"

definition make_omemchannel :: "byte list list \<Rightarrow> memchannel" where
  "make_omemchannel rng = memchannel_base (concat rng)"

definition make_memchannel :: "byte list list \<Rightarrow> memchannel" where
  "make_memchannel rng = memchannel_base (concat rng)"

subsection \<open>The channel as a stream\<close>

text \<open>The size of a memory region is a \<^verbatim>\<open>std::size_t\<close>.\<close>

definition memchannel_inv :: "memchannel \<Rightarrow> bool" where
  "memchannel_inv c \<longleftrightarrow> mc_read_position c \<le> length (mc_bytes c) \<and>
     mc_write_position c \<le> length (mc_bytes c) \<and> length (mc_bytes c) < 2 ^ 64"

definition memchannel_stream :: "memchannel \<Rightarrow> byte list" where
  "memchannel_stream c = drop (mc_read_position c) (mc_bytes c)"

definition memchannel_sent :: "memchannel \<Rightarrow> byte list" where
  "memchannel_sent c = take (mc_write_position c) (mc_bytes c)"

definition memchannel_space :: "memchannel \<Rightarrow> nat" where
  "memchannel_space c = length (mc_bytes c) - mc_write_position c"

lemmas memchannel_defs =
  memchannel_inv_def memchannel_stream_def memchannel_sent_def memchannel_space_def Let_def

lemma mc_bytes_simps [simp]:
  "mc_bytes (c\<lparr>mc_memory := Some m\<rparr>) = m" "mc_bytes (c\<lparr>mc_memory := None\<rparr>) = []"
  "mc_bytes (c\<lparr>mc_read_position := r\<rparr>) = mc_bytes c" "mc_bytes (c\<lparr>mc_write_position := r\<rparr>) = mc_bytes c"
  "mc_bytes (memchannel_base mem) = mem"
  by (simp_all add: mc_bytes_def memchannel_base_def)

lemma memchannel_base_simps [simp]:
  "memchannel_inv (memchannel_base mem) \<longleftrightarrow> length mem < 2 ^ 64"
  "memchannel_stream (memchannel_base mem) = mem" "memchannel_sent (memchannel_base mem) = []"
  "memchannel_space (memchannel_base mem) = length mem"
  by (simp_all add: memchannel_inv_def memchannel_stream_def memchannel_sent_def memchannel_space_def)
    (simp_all add: memchannel_base_def)

lemma memchannel_read_eq:
  assumes "memchannel_inv c"
  shows "memchannel_read_some c n =
    (let k = min n (length (memchannel_stream c)) in
     if k = 0 then (Inl (make_error_code end_of_file), c)
     else (Inr (take k (memchannel_stream c)), c\<lparr>mc_read_position := mc_read_position c + k\<rparr>))"
  using assms
  by (auto simp: memchannel_read_some_def memchannel_read_some_at_def memchannel_defs min_def)

lemma memchannel_write_eq:
  assumes "memchannel_inv c"
  shows "memchannel_write_some c xs =
    (let k = min (length xs) (memchannel_space c) in
     if k = 0 then (Inl (make_error_code end_of_file), c)
     else (Inr k, c\<lparr>mc_memory := Some (copy_at (mc_bytes c) (mc_write_position c) (take k xs)),
                    mc_write_position := mc_write_position c + k\<rparr>))"
  using assms
  by (auto simp: memchannel_write_some_def memchannel_write_some_at_def memchannel_defs min_def)

interpretation mem_in: seq_reader memchannel_inv memchannel_stream memchannel_read_some
  "make_error_code end_of_file"
proof unfold_locales
  fix c and n :: nat
  assume c: "memchannel_inv c" and n: "0 < n"
  show "\<exists>k c'. memchannel_read_some c n = (Inr (take k (memchannel_stream c)), c') \<and> 0 < k \<and> k \<le> n \<and>
      k \<le> length (memchannel_stream c) \<and> memchannel_inv c' \<and> memchannel_stream c' = drop k (memchannel_stream c)"
    if "memchannel_stream c \<noteq> []"
  proof (intro exI conjI)
    let ?k = "min n (length (memchannel_stream c))"
    let ?c = "c\<lparr>mc_read_position := mc_read_position c + ?k\<rparr>"
    show "memchannel_read_some c n = (Inr (take ?k (memchannel_stream c)), ?c)" "0 < ?k"
      using memchannel_read_eq [OF c, of n] that n by (simp_all add: Let_def)
    show "memchannel_inv ?c" "memchannel_stream ?c = drop ?k (memchannel_stream c)"
      using c by (auto simp: memchannel_defs add.commute)
  qed simp_all
  show "\<exists>c'. memchannel_read_some c n = (Inl (make_error_code end_of_file), c') \<and> memchannel_inv c' \<and>
      memchannel_stream c' = []" if "memchannel_stream c = []"
    using memchannel_read_eq [OF c, of n] that c by (simp add: Let_def)
qed simp

interpretation mem_out: seq_writer memchannel_inv memchannel_sent memchannel_space memchannel_write_some
  "make_error_code end_of_file"
proof unfold_locales
  fix c and xs :: "byte list"
  assume c: "memchannel_inv c" and xs: "xs \<noteq> []"
  show "\<exists>k c'. memchannel_write_some c xs = (Inr k, c') \<and> 0 < k \<and> k \<le> length xs \<and> k \<le> memchannel_space c \<and>
      memchannel_inv c' \<and> memchannel_sent c' = memchannel_sent c @ take k xs \<and>
      memchannel_space c' = memchannel_space c - k" if "0 < memchannel_space c"
  proof (intro exI conjI)
    let ?k = "min (length xs) (memchannel_space c)"
    let ?c = "c\<lparr>mc_memory := Some (copy_at (mc_bytes c) (mc_write_position c) (take ?k xs)),
                mc_write_position := mc_write_position c + ?k\<rparr>"
    show "memchannel_write_some c xs = (Inr ?k, ?c)" "0 < ?k"
      using memchannel_write_eq [OF c, of xs] that xs by (simp_all add: Let_def)
    have fits: "mc_write_position c + length (take ?k xs) \<le> length (mc_bytes c)"
      using c by (auto simp: memchannel_defs)
    then show "memchannel_inv ?c" "memchannel_space ?c = memchannel_space c - ?k"
      using c by (auto simp: memchannel_defs)
    show "memchannel_sent ?c = memchannel_sent c @ take ?k xs"
      using fits by (auto simp: memchannel_sent_def copy_at_def)
  qed simp_all
  show "\<exists>c'. memchannel_write_some c xs = (Inl (make_error_code end_of_file), c') \<and> memchannel_inv c' \<and>
      memchannel_sent c' = memchannel_sent c \<and> memchannel_space c' = 0" if "memchannel_space c = 0"
    using memchannel_write_eq [OF c, of xs] that c by (simp add: Let_def)
qed simp

end
