(* ===== verification/Buffer_Interface.thy ===== *)
theory Buffer_Interface
  imports Prelude
begin

text \<open>
  The buffer concepts of \<^verbatim>\<open>buffer/buffer.hxx\<close> as interfaces.

  \<^verbatim>\<open>buffer.hxx\<close> names the operations of a readable and of a writable buffer but not their
  laws; the laws below are what the comments of the buffer headers promise and what the
  channel functions rely on. Every law speaks about \<open>content\<close>, the readable data as a list,
  so a buffer is specified as a first-in-first-out queue.

  \<^item> \<open>fifo_reader\<close>: \<^verbatim>\<open>read\<close> and \<^verbatim>\<open>discard\<close>.
  \<^item> \<open>fifo_writer\<close>: \<^verbatim>\<open>write\<close>; \<open>accepts b n\<close> is how many of \<open>n\<close> offered objects fit.
  \<^item> \<open>fifo_buffer\<close>: both, with what any sequence of writes and reads does.
  \<^item> \<open>queue_buffer\<close>: a \<open>fifo_buffer\<close> whose free room is a function of its contents; every
    sequence of operations then returns what the abstract queue \<open>queue_run\<close> returns.
  \<^item> \<open>window_reader\<close>, \<open>window_writer\<close>: \<^verbatim>\<open>readable_ranges\<close>, and filling the ranges
    returned by \<^verbatim>\<open>writable_ranges\<close> followed by \<^verbatim>\<open>commit\<close>.
\<close>

subsection \<open>buffer_write and buffer_read\<close>

text \<open>A contiguous range passed to these is its elements; \<^verbatim>\<open>buffer_read\<close> gets the size of
  the destination range and yields the elements copied to its start.\<close>

definition buffer_write :: "('b \<Rightarrow> 'a list \<Rightarrow> (nat \<times> 'b) run) \<Rightarrow> 'b \<Rightarrow> 'a list \<Rightarrow> (nat \<times> 'b) run" where
  "buffer_write write buf rng = write buf rng"

definition buffer_read :: "('b \<Rightarrow> nat \<Rightarrow> ('a list \<times> 'b) run) \<Rightarrow> 'b \<Rightarrow> 'a list \<Rightarrow> ('a list \<times> 'b) run" where
  "buffer_read read buf rng = read buf (length rng)"

subsection \<open>Sequences of operations\<close>

datatype 'a buffer_op = Write_op "'a list" | Read_op nat

text \<open>Runs a sequence of operations; yields the objects the writes accepted, the objects the
  reads returned, both in order, and the final buffer.\<close>

fun buffer_run ::
  "('b \<Rightarrow> 'a list \<Rightarrow> (nat \<times> 'b) run) \<Rightarrow> ('b \<Rightarrow> nat \<Rightarrow> ('a list \<times> 'b) run) \<Rightarrow>
   'b \<Rightarrow> 'a buffer_op list \<Rightarrow> ('a list \<times> 'a list \<times> 'b) run" where
  "buffer_run write read b [] = Ret ([], [], b)"
| "buffer_run write read b (Write_op xs # ops) =
     bind_run (write b xs) (\<lambda>(n, b1).
       bind_run (buffer_run write read b1 ops) (\<lambda>(ins, outs, b2). Ret (take n xs @ ins, outs, b2)))"
| "buffer_run write read b (Read_op n # ops) =
     bind_run (read b n) (\<lambda>(xs, b1).
       bind_run (buffer_run write read b1 ops) (\<lambda>(ins, outs, b2). Ret (ins, xs @ outs, b2)))"

text \<open>The abstract specification of such a run: a queue \<open>q\<close> in which a write of \<open>n\<close> objects
  adds the first \<open>room q n\<close> of them.\<close>

fun queue_run :: "('a list \<Rightarrow> nat \<Rightarrow> nat) \<Rightarrow> 'a list \<Rightarrow> 'a buffer_op list \<Rightarrow> 'a list \<times> 'a list \<times> 'a list" where
  "queue_run room q [] = ([], [], q)"
| "queue_run room q (Write_op xs # ops) =
     (let added = take (room q (length xs)) xs; (ins, outs, q') = queue_run room (q @ added) ops
      in (added @ ins, outs, q'))"
| "queue_run room q (Read_op n # ops) =
     (let (ins, outs, q') = queue_run room (drop n q) ops in (ins, take n q @ outs, q'))"

text \<open>Copies a sequence of objects into a list of writable ranges, in order.\<close>

fun fill_ranges :: "('b \<Rightarrow> 'r \<Rightarrow> 'a list \<Rightarrow> 'b) \<Rightarrow> ('r \<Rightarrow> nat) \<Rightarrow> 'b \<Rightarrow> 'r list \<Rightarrow> 'a list \<Rightarrow> 'b" where
  "fill_ranges poke len b [] xs = b"
| "fill_ranges poke len b (r # rs) xs =
     fill_ranges poke len (poke b r (take (len r) xs)) rs (drop (len r) xs)"

subsection \<open>The contracts\<close>

locale fifo_reader =
  fixes inv :: "'b \<Rightarrow> bool"
    and content :: "'b \<Rightarrow> 'a list"
    and read :: "'b \<Rightarrow> nat \<Rightarrow> ('a list \<times> 'b) run"
    and discard :: "'b \<Rightarrow> nat \<Rightarrow> (nat \<times> 'b) run"
  assumes read_fifo: "inv b \<Longrightarrow>
      \<exists>b'. read b n = Ret (take n (content b), b') \<and> inv b' \<and> content b' = drop n (content b)"
    and discard_fifo: "inv b \<Longrightarrow> n \<le> length (content b) \<Longrightarrow>
      \<exists>b'. discard b n = Ret (n, b') \<and> inv b' \<and> content b' = drop n (content b)"
begin

lemma read_then_read:
  assumes "inv b"
  shows "\<exists>b1 b2. read b m = Ret (take m (content b), b1) \<and>
    read b1 n = Ret (take n (drop m (content b)), b2) \<and> inv b2 \<and>
    content b2 = drop (m + n) (content b)"
proof -
  from read_fifo [OF assms, of m] obtain b1
    where b1: "read b m = Ret (take m (content b), b1)" "inv b1" "content b1 = drop m (content b)"
    by blast
  from read_fifo [OF b1(2), of n] obtain b2
    where b2: "read b1 n = Ret (take n (content b1), b2)" "inv b2" "content b2 = drop n (content b1)"
    by blast
  have "content b2 = drop (m + n) (content b)" using b1(3) b2(3) by (simp add: add.commute)
  with b1 b2 show ?thesis by auto
qed

text \<open>Reading and discarding the same number of objects leaves the same data.\<close>

lemma read_discard_same:
  assumes "inv b" "n \<le> length (content b)"
  shows "\<exists>xs b1 b2. read b n = Ret (xs, b1) \<and> discard b n = Ret (length xs, b2) \<and>
    content b1 = content b2"
  using read_fifo [OF assms(1), of n] discard_fifo [OF assms] assms(2) by fastforce

end

locale fifo_writer =
  fixes inv :: "'b \<Rightarrow> bool"
    and content :: "'b \<Rightarrow> 'a list"
    and accepts :: "'b \<Rightarrow> nat \<Rightarrow> nat"
    and "write" :: "'b \<Rightarrow> 'a list \<Rightarrow> (nat \<times> 'b) run"
  assumes accepts_le: "inv b \<Longrightarrow> accepts b n \<le> n"
    and write_fifo: "inv b \<Longrightarrow>
      \<exists>b'. write b xs = Ret (accepts b (length xs), b') \<and> inv b' \<and>
           content b' = content b @ take (accepts b (length xs)) xs"

locale fifo_buffer = fifo_reader inv content read discard + fifo_writer inv content accepts "write"
  for inv :: "'b \<Rightarrow> bool" and content :: "'b \<Rightarrow> 'a list" and read discard accepts "write"
begin

lemma write_then_read:
  assumes "inv b"
  shows "\<exists>n b1 b2. write b xs = Ret (n, b1) \<and> n \<le> length xs \<and>
    read b1 (length (content b) + n) = Ret (content b @ take n xs, b2) \<and> content b2 = []"
proof -
  from write_fifo [OF assms, of xs] obtain b1 where
    b1: "write b xs = Ret (accepts b (length xs), b1)" "inv b1"
      "content b1 = content b @ take (accepts b (length xs)) xs" by blast
  from read_fifo [OF b1(2), of "length (content b) + accepts b (length xs)"] obtain b2 where
    "read b1 (length (content b) + accepts b (length xs)) =
       Ret (take (length (content b) + accepts b (length xs)) (content b1), b2)"
    "content b2 = drop (length (content b) + accepts b (length xs)) (content b1)" by blast
  with b1 accepts_le [OF assms, of "length xs"] show ?thesis by auto
qed

theorem run_fifo:
  assumes "inv b"
  shows "\<exists>ins outs b'. buffer_run write read b ops = Ret (ins, outs, b') \<and> inv b' \<and>
    outs @ content b' = content b @ ins"
  using assms
proof (induction ops arbitrary: b)
  case Nil
  then show ?case by simp
next
  case (Cons oper ops)
  show ?case
  proof (cases oper)
    case (Write_op xs)
    from write_fifo [OF Cons.prems, of xs] obtain b1 where
      b1: "write b xs = Ret (accepts b (length xs), b1)" "inv b1"
        "content b1 = content b @ take (accepts b (length xs)) xs" by blast
    from Cons.IH [OF b1(2)] obtain ins outs b2 where
      "buffer_run write read b1 ops = Ret (ins, outs, b2)" "inv b2"
      "outs @ content b2 = content b1 @ ins" by blast
    with b1 Write_op show ?thesis by simp
  next
    case (Read_op n)
    from read_fifo [OF Cons.prems, of n] obtain b1 where
      b1: "read b n = Ret (take n (content b), b1)" "inv b1" "content b1 = drop n (content b)"
      by blast
    from Cons.IH [OF b1(2)] obtain ins outs b2 where
      "buffer_run write read b1 ops = Ret (ins, outs, b2)" "inv b2"
      "outs @ content b2 = content b1 @ ins" by blast
    with b1 Read_op show ?thesis by simp
  qed
qed

end

text \<open>A buffer whose free room depends on its contents only is a refinement of the queue.\<close>

locale queue_buffer = fifo_buffer inv content read discard accepts "write"
  for inv :: "'b \<Rightarrow> bool" and content :: "'b \<Rightarrow> 'a list" and read discard accepts "write" +
  fixes room :: "'a list \<Rightarrow> nat \<Rightarrow> nat"
  assumes accepts_room: "inv b \<Longrightarrow> accepts b n = room (content b) n"
begin

lemma run_refines_queue:
  assumes "inv b" "queue_run room (content b) ops = (ins, outs, q)"
  shows "\<exists>b'. buffer_run write read b ops = Ret (ins, outs, b') \<and> inv b' \<and> content b' = q"
  using assms
proof (induction ops arbitrary: b ins outs)
  case (Cons oper ops)
  show ?case
  proof (cases oper)
    case (Write_op xs)
    from write_fifo [OF Cons.prems(1), of xs] obtain b1 where
      b1: "write b xs = Ret (accepts b (length xs), b1)" "inv b1"
        "content b1 = content b @ take (room (content b) (length xs)) xs"
      by (auto simp: accepts_room [OF Cons.prems(1)])
    with Cons.prems(2) Write_op obtain ins' where
      "queue_run room (content b1) ops = (ins', outs, q)"
      "ins = take (room (content b) (length xs)) xs @ ins'" by (auto simp: Let_def split: prod.splits)
    with Cons.IH [OF b1(2)] b1(1) Write_op accepts_room [OF Cons.prems(1)] show ?thesis by fastforce
  next
    case (Read_op n)
    from read_fifo [OF Cons.prems(1), of n] obtain b1 where
      b1: "read b n = Ret (take n (content b), b1)" "inv b1" "content b1 = drop n (content b)" by blast
    with Cons.prems(2) Read_op obtain outs' where
      "queue_run room (content b1) ops = (ins, outs', q)" "outs = take n (content b) @ outs'"
      by (auto split: prod.splits)
    with Cons.IH [OF b1(2)] b1(1) Read_op show ?thesis by fastforce
  qed
qed simp

end

locale window_reader =
  fixes inv :: "'b \<Rightarrow> bool"
    and content :: "'b \<Rightarrow> 'a list"
    and readable_ranges :: "'b \<Rightarrow> 'r list run"
    and peek :: "'b \<Rightarrow> 'r \<Rightarrow> 'a list"
  assumes readable_prefix: "inv b \<Longrightarrow> content b \<noteq> [] \<Longrightarrow>
      \<exists>rs rest. readable_ranges b = Ret rs \<and> concat (map (peek b) rs) \<noteq> [] \<and>
        content b = concat (map (peek b) rs) @ rest"

locale window_writer =
  fixes inv :: "'b \<Rightarrow> bool"
    and content :: "'b \<Rightarrow> 'a list"
    and writable_ranges :: "'b \<Rightarrow> ('r list \<times> 'b) run"
    and poke :: "'b \<Rightarrow> 'r \<Rightarrow> 'a list \<Rightarrow> 'b"
    and len :: "'r \<Rightarrow> nat"
    and commit :: "'b \<Rightarrow> nat \<Rightarrow> (nat \<times> 'b) run"
  assumes writable_returns: "inv b \<Longrightarrow> returns (writable_ranges b)"
    and fill_commit: "inv b \<Longrightarrow> writable_ranges b = Ret (rs, b1) \<Longrightarrow>
      length xs \<le> sum_list (map len rs) \<Longrightarrow>
      \<exists>b'. commit (fill_ranges poke len b1 rs xs) (length xs) = Ret (length xs, b') \<and> inv b' \<and>
           content b' = content b @ xs"
begin

text \<open>Filling only the first range, as \<^verbatim>\<open>read_some\<close> does.\<close>

lemma fill_nothing: "(\<And>b r. poke b r [] = b) \<Longrightarrow> fill_ranges poke len b rs [] = b"
  by (induction rs arbitrary: b) simp_all

lemma fill_first_commit:
  assumes "inv b" "writable_ranges b = Ret (r # rs, b1)" "length xs \<le> len r"
    "\<And>b r. poke b r [] = b"
  shows "\<exists>b'. commit (poke b1 r xs) (length xs) = Ret (length xs, b') \<and> inv b' \<and>
           content b' = content b @ xs"
  using fill_commit [OF assms(1,2), of xs] assms(3,4) by (auto simp: fill_nothing)

end

end
