(* ===== verification/Static_Vector.thy ===== *)
theory Static_Vector
  imports Prelude
begin

text \<open>
  \<^verbatim>\<open>static_vector.hxx\<close>: the fixed-capacity vector the buffers return their ranges in.

  The header has two storages. The general one keeps raw memory and constructs and destroys
  its elements by hand, so a cell is modelled as \<open>Some x\<close> while an object lives in it and
  \<open>None\<close> while it is raw memory. The one for trivially copyable types (the one
  \<^verbatim>\<open>std::span\<close> uses) keeps a \<^verbatim>\<open>std::array\<close> whose unused cells hold arbitrary values.
  Both are shown to be bounded vectors (the locale \<open>bounded_vector\<close>), and the general one
  never leaks an object nor destroys one twice.
\<close>

subsection \<open>The general storage\<close>

record 'a static_vector =
  sv_data :: "'a option list"
  sv_size :: nat

definition sv_empty :: "nat \<Rightarrow> 'a static_vector" where
  "sv_empty max_size = \<lparr>sv_data = replicate max_size None, sv_size = 0\<rparr>"

definition sv_capacity :: "'a static_vector \<Rightarrow> nat" where
  "sv_capacity v = length (sv_data v)"

definition sv_index :: "'a static_vector \<Rightarrow> nat \<Rightarrow> 'a option" where
  "sv_index v n = (if n < length (sv_data v) then sv_data v ! n else None)"

definition sv_is_empty :: "'a static_vector \<Rightarrow> bool" where
  "sv_is_empty v \<longleftrightarrow> sv_size v = 0"

text \<open>\<^verbatim>\<open>new (&_data[_size++]) T(...)\<close>\<close>

definition sv_construct :: "'a static_vector \<Rightarrow> 'a \<Rightarrow> 'a static_vector" where
  "sv_construct v x =
     v\<lparr>sv_data := (sv_data v)[sv_size v := Some x], sv_size := Suc (sv_size v)\<rparr>"

fun sv_construct_all :: "'a static_vector \<Rightarrow> 'a list \<Rightarrow> 'a static_vector" where
  "sv_construct_all v [] = v"
| "sv_construct_all v (x # xs) = sv_construct_all (sv_construct v x) xs"

definition sv_init :: "nat \<Rightarrow> 'a list \<Rightarrow> 'a static_vector run" where
  "sv_init max_size items =
     sk_check (length items \<le> max_size) ''static_range: too many items''
       (Ret (sv_construct_all (sv_empty max_size) items))"

definition sv_push_back :: "'a static_vector \<Rightarrow> 'a \<Rightarrow> 'a static_vector run" where
  "sv_push_back v x =
     sk_check (sv_size v < sv_capacity v) ''static_range: no capacity''
       (Ret (sv_construct v x))"

text \<open>The element loops of the copy and move members, over the first \<open>n\<close> cells.\<close>

definition sv_destroy_cells :: "nat \<Rightarrow> 'a option list \<Rightarrow> 'a option list" where
  "sv_destroy_cells n cells = fold (\<lambda>i c. c[i := None]) [0..<n] cells"

definition sv_copy_cells :: "nat \<Rightarrow> 'a option list \<Rightarrow> 'a option list \<Rightarrow> 'a option list" where
  "sv_copy_cells n other cells = fold (\<lambda>i c. c[i := other ! i]) [0..<n] cells"

definition sv_move_cells ::
  "nat \<Rightarrow> 'a option list \<Rightarrow> 'a option list \<Rightarrow> 'a option list \<times> 'a option list" where
  "sv_move_cells n other cells =
     fold (\<lambda>i (c, d). (c[i := d ! i], d[i := None])) [0..<n] (cells, other)"

definition sv_copy :: "'a static_vector \<Rightarrow> 'a static_vector" where
  "sv_copy other =
     \<lparr>sv_data = sv_copy_cells (sv_size other) (sv_data other)
                  (replicate (length (sv_data other)) None),
      sv_size = sv_size other\<rparr>"

text \<open>The move members return the new vector and what is left of the source.\<close>

definition sv_move :: "'a static_vector \<Rightarrow> 'a static_vector \<times> 'a static_vector" where
  "sv_move other =
     (let (c, d) = sv_move_cells (sv_size other) (sv_data other)
                     (replicate (length (sv_data other)) None)
      in (\<lparr>sv_data = c, sv_size = sv_size other\<rparr>, \<lparr>sv_data = d, sv_size = 0\<rparr>))"

text \<open>Assignment first compares the addresses of the two objects: \<open>same\<close> is that test.\<close>

definition sv_copy_assign ::
  "bool \<Rightarrow> 'a static_vector \<Rightarrow> 'a static_vector \<Rightarrow> 'a static_vector" where
  "sv_copy_assign same this other =
     (if same then this else let cleared = sv_destroy_cells (sv_size this) (sv_data this)
      in \<lparr>sv_data = sv_copy_cells (sv_size other) (sv_data other) cleared,
          sv_size = sv_size other\<rparr>)"

definition sv_move_assign ::
  "bool \<Rightarrow> 'a static_vector \<Rightarrow> 'a static_vector \<Rightarrow> 'a static_vector \<times> 'a static_vector" where
  "sv_move_assign same this other =
     (if same then (this, this) else let cleared = sv_destroy_cells (sv_size this) (sv_data this);
          (c, d) = sv_move_cells (sv_size other) (sv_data other) cleared
      in (\<lparr>sv_data = c, sv_size = sv_size other\<rparr>, \<lparr>sv_data = d, sv_size = 0\<rparr>))"

definition sv_destructor :: "'a static_vector \<Rightarrow> 'a option list" where
  "sv_destructor v = sv_destroy_cells (sv_size v) (sv_data v)"

subsection \<open>The storage for trivially copyable types\<close>

record 'a trivial_vector =
  tv_data :: "'a list"
  tv_size :: nat

text \<open>The array is not initialised: \<open>raw\<close> stands for whatever the memory holds.\<close>

definition tv_empty :: "'a list \<Rightarrow> 'a trivial_vector" where
  "tv_empty raw = \<lparr>tv_data = raw, tv_size = 0\<rparr>"

definition tv_init :: "'a list \<Rightarrow> 'a list \<Rightarrow> 'a trivial_vector run" where
  "tv_init raw items =
     sk_check (length items \<le> length raw) ''static_range: too many items''
       (Ret \<lparr>tv_data = copy_at raw 0 items, tv_size = length items\<rparr>)"

definition tv_copy :: "'a list \<Rightarrow> 'a trivial_vector \<Rightarrow> 'a trivial_vector" where
  "tv_copy raw other = \<lparr>tv_data = copy_at raw 0 (tv_data other), tv_size = tv_size other\<rparr>"

definition tv_move :: "'a list \<Rightarrow> 'a trivial_vector \<Rightarrow> 'a trivial_vector \<times> 'a trivial_vector" where
  "tv_move raw other =
     (\<lparr>tv_data = copy_at raw 0 (take (tv_size other) (tv_data other)), tv_size = tv_size other\<rparr>,
      other\<lparr>tv_size := 0\<rparr>)"

definition tv_copy_assign ::
  "bool \<Rightarrow> 'a trivial_vector \<Rightarrow> 'a trivial_vector \<Rightarrow> 'a trivial_vector" where
  "tv_copy_assign same this other =
     (if same then this else
     \<lparr>tv_data = copy_at (tv_data this) 0 (take (tv_size other) (tv_data other)),
      tv_size = tv_size other\<rparr>)"

definition tv_move_assign ::
  "bool \<Rightarrow> 'a trivial_vector \<Rightarrow> 'a trivial_vector \<Rightarrow> 'a trivial_vector \<times> 'a trivial_vector" where
  "tv_move_assign same this other =
     (if same then (this, this)
      else (tv_copy_assign same this other, other\<lparr>tv_size := 0\<rparr>))"

definition tv_push_back :: "'a trivial_vector \<Rightarrow> 'a \<Rightarrow> 'a trivial_vector run" where
  "tv_push_back v x =
     sk_check (tv_size v < length (tv_data v)) ''static_range: no capacity''
       (Ret (v\<lparr>tv_data := (tv_data v)[tv_size v := x], tv_size := Suc (tv_size v)\<rparr>))"

subsection \<open>Contents and well-formedness\<close>

definition sv_wf :: "'a static_vector \<Rightarrow> bool" where
  "sv_wf v \<longleftrightarrow> sv_size v \<le> length (sv_data v) \<and>
     (\<forall>i < length (sv_data v). sv_data v ! i \<noteq> None \<longleftrightarrow> i < sv_size v)"

definition sv_list :: "'a static_vector \<Rightarrow> 'a list" where
  "sv_list v = map the (take (sv_size v) (sv_data v))"

definition tv_wf :: "'a trivial_vector \<Rightarrow> bool" where
  "tv_wf v \<longleftrightarrow> tv_size v \<le> length (tv_data v)"

definition tv_list :: "'a trivial_vector \<Rightarrow> 'a list" where
  "tv_list v = take (tv_size v) (tv_data v)"

text \<open>Appending a list of elements one by one, as the range loops of the buffers do.\<close>

fun push_all :: "('v \<Rightarrow> 'a \<Rightarrow> 'v run) \<Rightarrow> 'v \<Rightarrow> 'a list \<Rightarrow> 'v run" where
  "push_all push v [] = Ret v"
| "push_all push v (x # xs) = bind_run (push v x) (\<lambda>v'. push_all push v' xs)"

subsection \<open>The contract of a bounded vector\<close>

locale bounded_vector =
  fixes wf :: "'v \<Rightarrow> bool"
    and contents :: "'v \<Rightarrow> 'a list"
    and capacity :: "'v \<Rightarrow> nat"
    and push_back :: "'v \<Rightarrow> 'a \<Rightarrow> 'v run"
  assumes contents_le_capacity: "wf v \<Longrightarrow> length (contents v) \<le> capacity v"
    and push_back_room: "wf v \<Longrightarrow> length (contents v) < capacity v \<Longrightarrow>
      \<exists>v'. push_back v x = Ret v' \<and> wf v' \<and> contents v' = contents v @ [x] \<and>
           capacity v' = capacity v"
    and push_back_full: "wf v \<Longrightarrow> length (contents v) = capacity v \<Longrightarrow>
      push_back v x = Abort ''static_range: no capacity''"
begin

lemma push_all_room:
  assumes "wf v" "length (contents v) + length xs \<le> capacity v"
  shows "\<exists>v'. push_all push_back v xs = Ret v' \<and> wf v' \<and> contents v' = contents v @ xs \<and>
           capacity v' = capacity v"
  using assms
proof (induction xs arbitrary: v)
  case Nil
  then show ?case by simp
next
  case (Cons x xs)
  then obtain v1 where "push_back v x = Ret v1" "wf v1" "contents v1 = contents v @ [x]"
      "capacity v1 = capacity v"
    using push_back_room [of v x] by auto
  with Cons show ?case using Cons.IH [of v1] by auto
qed

lemma push_all_overflow:
  assumes "wf v" "capacity v < length (contents v) + length xs"
  shows "push_all push_back v xs = Abort ''static_range: no capacity''"
  using assms
proof (induction xs arbitrary: v)
  case Nil
  with contents_le_capacity [of v] show ?case by simp
next
  case (Cons x xs)
  show ?case
  proof (cases "length (contents v) = capacity v")
    case True
    with Cons.prems show ?thesis by (simp add: push_back_full)
  next
    case False
    with Cons.prems contents_le_capacity [of v]
    obtain v1 where "push_back v x = Ret v1" "wf v1" "contents v1 = contents v @ [x]"
        "capacity v1 = capacity v"
      using push_back_room [of v x] by auto
    with Cons show ?thesis using Cons.IH [of v1] by auto
  qed
qed

end

subsection \<open>The element loops\<close>

lemma nth_sv_destroy_cells:
  "n \<le> length c \<Longrightarrow> i < length c \<Longrightarrow>
    sv_destroy_cells n c ! i = (if i < n then None else c ! i)"
  "length (sv_destroy_cells n c) = length c"
  by (induction n) (auto simp: sv_destroy_cells_def nth_list_update)

lemma nth_sv_copy_cells:
  "n \<le> length c \<Longrightarrow> i < length c \<Longrightarrow>
    sv_copy_cells n d c ! i = (if i < n then d ! i else c ! i)"
  "length (sv_copy_cells n d c) = length c"
  by (induction n) (auto simp: sv_copy_cells_def nth_list_update)

lemma sv_move_cells_eq:
  "n \<le> length d \<Longrightarrow> sv_move_cells n d c = (sv_copy_cells n d c, sv_destroy_cells n d)"
proof (induction n)
  case 0
  show ?case by (simp add: sv_move_cells_def sv_copy_cells_def sv_destroy_cells_def)
next
  case (Suc n)
  have "sv_destroy_cells n d ! n = d ! n"
    using Suc.prems by (simp add: nth_sv_destroy_cells(1))
  then show ?case using Suc
    by (simp add: sv_move_cells_def sv_copy_cells_def sv_destroy_cells_def)
qed

lemmas sv_cells = nth_sv_destroy_cells nth_sv_copy_cells sv_move_cells_eq

lemma sv_list_eqI:
  assumes "sv_size v = sv_size w" "sv_size v \<le> length (sv_data v)" "sv_size w \<le> length (sv_data w)"
    "\<And>i. i < sv_size v \<Longrightarrow> sv_data v ! i = sv_data w ! i"
  shows "sv_list v = sv_list w"
  using assms by (auto simp: sv_list_def intro!: nth_equalityI)

subsection \<open>Both storages are bounded vectors\<close>

lemma sv_construct_wf:
  assumes "sv_wf v" "sv_size v < length (sv_data v)"
  shows "sv_wf (sv_construct v x)" "sv_list (sv_construct v x) = sv_list v @ [x]"
  using assms
  by (auto simp: sv_wf_def sv_list_def sv_construct_def nth_list_update take_Suc_conv_app_nth)

lemma sv_construct_data [simp]:
  "length (sv_data (sv_construct v x)) = length (sv_data v)"
  "sv_size (sv_construct v x) = Suc (sv_size v)"
  by (simp_all add: sv_construct_def)

lemma length_sv_list [simp]: "sv_wf v \<Longrightarrow> length (sv_list v) = sv_size v"
  by (simp add: sv_wf_def sv_list_def)

lemma sv_size_le: "sv_wf v \<Longrightarrow> sv_size v \<le> length (sv_data v)"
  by (simp add: sv_wf_def)

interpretation sv: bounded_vector sv_wf sv_list sv_capacity sv_push_back
  by unfold_locales
    (simp_all add: sv_push_back_def sv_capacity_def sv_construct_wf sv_size_le)

interpretation tv: bounded_vector tv_wf tv_list "\<lambda>v. length (tv_data v)" tv_push_back
  by unfold_locales
    (auto simp: tv_wf_def tv_list_def tv_push_back_def take_Suc_conv_app_nth)

subsection \<open>Copying and moving\<close>

lemma sv_destroy_all: "sv_wf v \<Longrightarrow> sv_destroy_cells (sv_size v) (sv_data v) = replicate (length (sv_data v)) None"
  by (rule nth_equalityI) (auto simp: sv_cells sv_wf_def)

lemma sv_copy_into_raw:
  assumes "sv_wf other"
  shows "sv_copy_cells (sv_size other) (sv_data other) (replicate (length (sv_data other)) None) = sv_data other"
  using assms by (intro nth_equalityI) (auto simp: sv_cells sv_wf_def)

lemma sv_emptied: "sv_wf \<lparr>sv_data = replicate n None, sv_size = 0\<rparr>"
  "sv_list \<lparr>sv_data = replicate n None, sv_size = 0\<rparr> = []"
  by (auto simp: sv_wf_def sv_list_def)

lemma sv_move_cells_into_raw:
  assumes "sv_wf other"
  shows "sv_move_cells (sv_size other) (sv_data other) (replicate (length (sv_data other)) None) =
    (sv_data other, replicate (length (sv_data other)) None)"
  using assms by (simp add: sv_move_cells_eq sv_size_le sv_copy_into_raw sv_destroy_all)

lemmas sv_lifetime = sv_destroy_all sv_copy_into_raw sv_emptied sv_move_cells_into_raw

subsection \<open>Properties\<close>

text \<open>C39: Pushing the elements of a list one by one onto an empty \<^verbatim>\<open>static_vector\<close> of capacity
  \<open>n\<close> gives a well-formed vector holding exactly that list when it fits, and aborts in the
  capacity check when it does not.\<close>

theorem static_vector_push_all:
  fixes xs :: "'a list"
  shows "case push_all sv_push_back (sv_empty n) xs of
     Ret v \<Rightarrow> length xs \<le> n \<and> sv_wf v \<and> sv_list v = xs
   | Abort m \<Rightarrow> n < length xs \<and> m = ''static_range: no capacity''
   | Diverge \<Rightarrow> False"
proof -
  let ?v = "sv_empty n :: 'a static_vector"
  have "sv_wf ?v" "sv_list ?v = []" "sv_capacity ?v = n" "sv_size ?v = 0"
    by (auto simp: sv_empty_def sv_wf_def sv_list_def sv_capacity_def)
  then show ?thesis
    using sv.push_all_room [of "sv_empty n" xs] sv.push_all_overflow [of "sv_empty n" xs]
    by (cases "length xs \<le> n") auto
qed

text \<open>Copy assignment and move assignment between two distinct vectors of the same capacity
  give the target the elements of the source; every old element of the target is destroyed and
  no cell past the new size holds an object; the moved-from vector is left empty, with none of
  its cells holding an object; self-assignment changes nothing.\<close>

theorem static_vector_assign:
  assumes "sv_wf this" "sv_wf other" "sv_capacity this = sv_capacity other"
  shows "sv_copy_assign False this other = other \<and> sv_copy other = other \<and>
    sv_move_assign False this other = (other, sv_empty (sv_capacity other)) \<and>
    sv_move other = (other, sv_empty (sv_capacity other)) \<and>
    sv_copy_assign True this this = this \<and> sv_move_assign True this this = (this, this) \<and>
    sv_destructor this = replicate (sv_capacity this) None"
  using assms
  by (simp add: sv_copy_assign_def sv_move_assign_def sv_copy_def sv_move_def sv_destructor_def
      sv_capacity_def sv_empty_def sv_lifetime)

theorem static_vector_assign_witness:
  "sv_copy_assign False \<lparr>sv_data = [Some (1::nat), Some 2, None], sv_size = 2\<rparr>
     \<lparr>sv_data = [Some 3, None, None], sv_size = 1\<rparr> = \<lparr>sv_data = [Some 3, None, None], sv_size = 1\<rparr>"
proof -
  have "sv_wf \<lparr>sv_data = [Some (1::nat), Some 2, None], sv_size = 2\<rparr>"
    "sv_wf \<lparr>sv_data = [Some (3::nat), None, None], sv_size = 1\<rparr>"
    by (auto simp: sv_wf_def less_Suc_eq numeral_3_eq_3 numeral_2_eq_2)
  from static_vector_assign [OF this] show ?thesis by (simp add: sv_capacity_def)
qed

end
