(* ===== verification/Fixed_Buffer.thy ===== *)
theory Fixed_Buffer
  imports Buffer_Interface Static_Vector
begin

text \<open>
  \<^verbatim>\<open>buffer/fixed_buffer.hxx\<close>: one array with a read and a write pointer that only move
  towards its end. Iterators into \<^verbatim>\<open>data\<close> are indices, \<^verbatim>\<open>data.begin()\<close> is 0 and
  \<^verbatim>\<open>data.end()\<close> is \<open>length fb_data\<close>. A \<^verbatim>\<open>std::span\<close> of the buffer is the pair of its
  first and past-the-end index.
\<close>

type_synonym range = "nat \<times> nat"

definition range_len :: "range \<Rightarrow> nat" where
  "range_len r = snd r - fst r"

record 'a fixed_buffer =
  fb_data :: "'a list"
  fb_read_pointer :: nat
  fb_write_pointer :: nat

text \<open>The array is not initialised: \<open>raw\<close> is what the memory holds.\<close>

definition fixed_buffer_new :: "'a list \<Rightarrow> 'a fixed_buffer" where
  "fixed_buffer_new raw = \<lparr>fb_data = raw, fb_read_pointer = 0, fb_write_pointer = 0\<rparr>"

definition fixed_buffer_writable :: "'a fixed_buffer \<Rightarrow> nat" where
  "fixed_buffer_writable b = length (fb_data b) - fb_write_pointer b"

definition fixed_buffer_readable :: "'a fixed_buffer \<Rightarrow> nat" where
  "fixed_buffer_readable b = fb_write_pointer b - fb_read_pointer b"

definition fixed_buffer_reset :: "'a fixed_buffer \<Rightarrow> 'a fixed_buffer" where
  "fixed_buffer_reset b = b\<lparr>fb_read_pointer := 0, fb_write_pointer := 0\<rparr>"

definition fixed_buffer_write :: "'a fixed_buffer \<Rightarrow> 'a list \<Rightarrow> (nat \<times> 'a fixed_buffer) run" where
  "fixed_buffer_write b xs =
     (let dsize = min (length xs) (fixed_buffer_writable b)
      in Ret (dsize, b\<lparr>fb_data := copy_at (fb_data b) (fb_write_pointer b) (take dsize xs),
                       fb_write_pointer := fb_write_pointer b + dsize\<rparr>))"

definition fixed_buffer_commit :: "'a fixed_buffer \<Rightarrow> nat \<Rightarrow> (nat \<times> 'a fixed_buffer) run" where
  "fixed_buffer_commit b n =
     (let n' = min n (fixed_buffer_writable b)
      in Ret (n', b\<lparr>fb_write_pointer := fb_write_pointer b + n'\<rparr>))"

definition fixed_buffer_read :: "'a fixed_buffer \<Rightarrow> nat \<Rightarrow> ('a list \<times> 'a fixed_buffer) run" where
  "fixed_buffer_read b n =
     (let dsize = min n (fixed_buffer_readable b)
      in Ret (segment (fb_data b) (fb_read_pointer b) (fb_read_pointer b + dsize),
              b\<lparr>fb_read_pointer := fb_read_pointer b + dsize\<rparr>))"

definition fixed_buffer_discard :: "'a fixed_buffer \<Rightarrow> nat \<Rightarrow> (nat \<times> 'a fixed_buffer) run" where
  "fixed_buffer_discard b n =
     (let n' = min n (fixed_buffer_readable b)
      in Ret (n', b\<lparr>fb_read_pointer := fb_read_pointer b + n'\<rparr>))"

text \<open>The one range is the content of a one-element \<open>static_vector\<close> built from an
  initializer list.\<close>

definition fixed_buffer_readable_ranges :: "'a fixed_buffer \<Rightarrow> range list run" where
  "fixed_buffer_readable_ranges b =
     bind_run (tv_init [(0, 0)] [(fb_read_pointer b, fb_write_pointer b)]) (\<lambda>v. Ret (tv_list v))"

definition fixed_buffer_writable_ranges ::
  "'a fixed_buffer \<Rightarrow> (range list \<times> 'a fixed_buffer) run" where
  "fixed_buffer_writable_ranges b =
     bind_run (tv_init [(0, 0)] [(fb_write_pointer b, length (fb_data b))])
       (\<lambda>v. Ret (tv_list v, b))"

subsection \<open>Contents, invariant, and access through a range\<close>

definition fixed_buffer_inv :: "'a fixed_buffer \<Rightarrow> bool" where
  "fixed_buffer_inv b \<longleftrightarrow>
     fb_read_pointer b \<le> fb_write_pointer b \<and> fb_write_pointer b \<le> length (fb_data b)"

definition fixed_buffer_content :: "'a fixed_buffer \<Rightarrow> 'a list" where
  "fixed_buffer_content b = segment (fb_data b) (fb_read_pointer b) (fb_write_pointer b)"

definition fixed_buffer_accepts :: "'a fixed_buffer \<Rightarrow> nat \<Rightarrow> nat" where
  "fixed_buffer_accepts b n = min n (length (fb_data b) - fb_write_pointer b)"

definition fixed_buffer_peek :: "'a fixed_buffer \<Rightarrow> range \<Rightarrow> 'a list" where
  "fixed_buffer_peek b r = segment (fb_data b) (fst r) (snd r)"

definition fixed_buffer_poke :: "'a fixed_buffer \<Rightarrow> range \<Rightarrow> 'a list \<Rightarrow> 'a fixed_buffer" where
  "fixed_buffer_poke b r xs = b\<lparr>fb_data := copy_at (fb_data b) (fst r) xs\<rparr>"

lemmas fixed_buffer_defs =
  fixed_buffer_writable_def fixed_buffer_readable_def fixed_buffer_reset_def
  fixed_buffer_write_def fixed_buffer_commit_def fixed_buffer_read_def fixed_buffer_discard_def
  fixed_buffer_readable_ranges_def fixed_buffer_writable_ranges_def
  fixed_buffer_inv_def fixed_buffer_content_def fixed_buffer_accepts_def
  fixed_buffer_peek_def fixed_buffer_poke_def tv_init_def tv_list_def copy_at_full
  range_len_def Let_def

interpretation fb: fifo_buffer fixed_buffer_inv fixed_buffer_content
  fixed_buffer_read fixed_buffer_discard fixed_buffer_accepts fixed_buffer_write
  by unfold_locales
    (auto simp: fixed_buffer_defs take_min_segment drop_segment min_def segment_empty segment_extend_to)

interpretation fbr: window_reader fixed_buffer_inv fixed_buffer_content
  fixed_buffer_readable_ranges fixed_buffer_peek
  by unfold_locales (auto simp: fixed_buffer_defs)

interpretation fbw: window_writer fixed_buffer_inv fixed_buffer_content
  fixed_buffer_writable_ranges fixed_buffer_poke range_len fixed_buffer_commit
  by unfold_locales (auto simp: fixed_buffer_defs min_def segment_extend_to)

subsection \<open>Properties\<close>

text \<open>Everything a sequence of operations tries to write, in order.\<close>

fun offered :: "'a buffer_op list \<Rightarrow> 'a list" where
  "offered [] = []"
| "offered (Write_op xs # ops) = xs @ offered ops"
| "offered (Read_op n # ops) = offered ops"

lemma take_of_appended:
  "take m (xs @ ys) = take (min (length xs) m) xs @ take (m - min (length xs) m) ys"
  by (simp add: min_def)

lemma fixed_buffer_run_accepts:
  assumes "fixed_buffer_inv b" "buffer_run fixed_buffer_write fixed_buffer_read b ops = Ret (ins, outs, b')"
  shows "ins = take (length (fb_data b) - fb_write_pointer b) (offered ops)"
  using assms
proof (induction ops arbitrary: b ins outs)
  case (Cons oper ops)
  show ?case
  proof (cases oper)
    case (Write_op xs)
    define k where "k = min (length xs) (fixed_buffer_writable b)"
    define b1 where "b1 = b\<lparr>fb_data := copy_at (fb_data b) (fb_write_pointer b) (take k xs),
        fb_write_pointer := fb_write_pointer b + k\<rparr>"
    have w: "fixed_buffer_write b xs = Ret (k, b1)"
      by (simp add: fixed_buffer_write_def k_def b1_def Let_def)
    with Cons.prems(2) Write_op obtain ins1 where
      run: "buffer_run fixed_buffer_write fixed_buffer_read b1 ops = Ret (ins1, outs, b')"
      and ins: "ins = take k xs @ ins1" by (auto simp: bind_run_eq_Ret)
    have inv: "fixed_buffer_inv b1" and len: "length (fb_data b1) = length (fb_data b)"
      using Cons.prems(1) by (auto simp: b1_def k_def fixed_buffer_inv_def fixed_buffer_writable_def)
    have "length (fb_data b1) - fb_write_pointer b1 = length (fb_data b) - fb_write_pointer b - k"
      using len by (simp add: b1_def)
    with Cons.IH [OF inv run] ins Write_op show ?thesis
      using take_of_appended [of "length (fb_data b) - fb_write_pointer b" xs "offered ops"]
      by (simp add: k_def fixed_buffer_writable_def)
  next
    case (Read_op n)
    define b1 where "b1 = b\<lparr>fb_read_pointer := fb_read_pointer b + min n (fixed_buffer_readable b)\<rparr>"
    have "\<exists>out. fixed_buffer_read b n = Ret (out, b1)"
      by (simp add: fixed_buffer_read_def Let_def b1_def)
    with Cons.prems(2) Read_op obtain outs1 where
      run: "buffer_run fixed_buffer_write fixed_buffer_read b1 ops = Ret (ins, outs1, b')"
      by (auto simp: bind_run_eq_Ret)
    have "fixed_buffer_inv b1"
      using Cons.prems(1) by (auto simp: b1_def fixed_buffer_inv_def fixed_buffer_readable_def)
    from Cons.IH [OF this run] Read_op show ?thesis by (simp add: b1_def)
  qed
qed simp

text \<open>Any sequence of writes and reads on a new \<^verbatim>\<open>fixed_buffer\<close> returns; it accepts exactly
  the first \<^verbatim>\<open>size\<close> of the objects offered, and what the reads return followed by what is left
  in the buffer is exactly what was accepted.\<close>

theorem fixed_buffer_run:
  "\<exists>outs b'. buffer_run fixed_buffer_write fixed_buffer_read (fixed_buffer_new raw) ops =
      Ret (take (length raw) (offered ops), outs, b') \<and>
    outs @ fixed_buffer_content b' = take (length raw) (offered ops)"
proof -
  have new: "fixed_buffer_inv (fixed_buffer_new raw)" "fixed_buffer_content (fixed_buffer_new raw) = []"
    by (simp_all add: fixed_buffer_new_def fixed_buffer_inv_def fixed_buffer_content_def)
  from fb.run_fifo [OF new(1), of ops] obtain ins outs b' where
    run: "buffer_run fixed_buffer_write fixed_buffer_read (fixed_buffer_new raw) ops = Ret (ins, outs, b')"
      "outs @ fixed_buffer_content b' = ins" using new(2) by auto
  moreover have "ins = take (length raw) (offered ops)"
    using fixed_buffer_run_accepts [OF new(1) run(1)] by (simp add: fixed_buffer_new_def)
  ultimately show ?thesis by auto
qed

end
