(* ===== verification/Circular_Buffer.thy ===== *)
theory Circular_Buffer
  imports Fixed_Buffer
begin

text \<open>
  \<^verbatim>\<open>buffer/circular_buffer.hxx\<close>: a ring buffer over an array of \<^verbatim>\<open>buffer_size + 1\<close> objects,
  one of which always stays free. Iterators are indices into \<open>cb_data\<close>; the operations
  keep the two-phase structure of the code (up to the end of the array, then from its start).
  The vectors of ranges are built with \<open>tv_push_back\<close> of \<open>Static_Vector\<close>.
\<close>

record 'a circular_buffer =
  cb_data :: "'a list"
  cb_read_pointer :: nat
  cb_write_pointer :: nat

definition circular_buffer_new :: "'a list \<Rightarrow> 'a circular_buffer" where
  "circular_buffer_new raw = \<lparr>cb_data = raw, cb_read_pointer = 0, cb_write_pointer = 0\<rparr>"

definition circular_buffer_clear :: "'a circular_buffer \<Rightarrow> 'a circular_buffer" where
  "circular_buffer_clear b = b\<lparr>cb_read_pointer := 0, cb_write_pointer := 0\<rparr>"

text \<open>\<^verbatim>\<open>wend\<close>: the last position a write may reach before wrapping.\<close>

definition circular_buffer_wend :: "'a circular_buffer \<Rightarrow> nat" where
  "circular_buffer_wend b =
     (if cb_read_pointer b = 0 then length (cb_data b) - 1 else length (cb_data b))"

fun circular_buffer_write_loop ::
  "'a circular_buffer \<Rightarrow> 'a list \<Rightarrow> nat \<times> 'a circular_buffer" where
  "circular_buffer_write_loop b [] = (0, b)"
| "circular_buffer_write_loop b (x # xs) =
     (if cb_write_pointer b < cb_read_pointer b - 1
      then let (n, b') = circular_buffer_write_loop
                 (b\<lparr>cb_data := (cb_data b)[cb_write_pointer b := x],
                    cb_write_pointer := Suc (cb_write_pointer b)\<rparr>) xs
           in (Suc n, b')
      else (0, b))"

definition circular_buffer_write ::
  "'a circular_buffer \<Rightarrow> 'a list \<Rightarrow> (nat \<times> 'a circular_buffer) run" where
  "circular_buffer_write b xs =
     (let (wr, b1) =
        (if cb_read_pointer b \<le> cb_write_pointer b
         then let wr = min (circular_buffer_wend b - cb_write_pointer b) (length xs);
                  w = cb_write_pointer b + wr
              in (wr, b\<lparr>cb_data := copy_at (cb_data b) (cb_write_pointer b) (take wr xs),
                        cb_write_pointer := (if w = length (cb_data b) then 0 else w)\<rparr>)
         else (0, b));
          (n, b2) =
        (if cb_read_pointer b1 > cb_write_pointer b1
         then circular_buffer_write_loop b1 (drop wr xs)
         else (0, b1))
      in Ret (wr + n, b2))"

definition push_unless_empty :: "range trivial_vector \<Rightarrow> range \<Rightarrow> range trivial_vector run" where
  "push_unless_empty v r = (if range_len r \<noteq> 0 then tv_push_back v r else Ret v)"

definition circular_buffer_writable_ranges ::
  "'a circular_buffer \<Rightarrow> (range list \<times> 'a circular_buffer) run" where
  "circular_buffer_writable_ranges b =
     (let len = length (cb_data b); r = cb_read_pointer b; ret = tv_empty [(0, 0), (0, 0)] in
      bind_run
        (if r \<le> cb_write_pointer b
         then let span = (cb_write_pointer b, circular_buffer_wend b) in
              bind_run (push_unless_empty ret span) (\<lambda>ret.
                let t = cb_write_pointer b + range_len span
                in Ret (ret, if t = len \<and> r \<noteq> 0 then 0 else t))
         else Ret (ret, cb_write_pointer b))
        (\<lambda>(ret, t).
           bind_run (if r > t then push_unless_empty ret (t, r - 1) else Ret ret)
             (\<lambda>ret. Ret (tv_list ret, b))))"

definition circular_buffer_commit ::
  "'a circular_buffer \<Rightarrow> nat \<Rightarrow> (nat \<times> 'a circular_buffer) run" where
  "circular_buffer_commit b n =
     (let (bytes_left, bytes_written, b1) =
        (if cb_read_pointer b \<le> cb_write_pointer b
         then let can_write = min (circular_buffer_wend b - cb_write_pointer b) n;
                  w = cb_write_pointer b + can_write
              in (n - can_write, can_write,
                  b\<lparr>cb_write_pointer :=
                      (if w = length (cb_data b) \<and> cb_read_pointer b \<noteq> 0 then 0 else w)\<rparr>)
         else (n, 0, b))
      in if cb_read_pointer b1 > cb_write_pointer b1
         then let can_write = min (cb_read_pointer b1 - 1) bytes_left;
                  b2 = b1\<lparr>cb_write_pointer := cb_write_pointer b1 + can_write\<rparr>
              in sk_check (cb_write_pointer b2 < cb_read_pointer b2)
                   ''INTERNAL ERROR: sk::circular_buffer::commit() pointer confusion''
                   (Ret (bytes_written + can_write, b2))
         else Ret (bytes_written, b1))"

definition circular_buffer_read ::
  "'a circular_buffer \<Rightarrow> nat \<Rightarrow> ('a list \<times> 'a circular_buffer) run" where
  "circular_buffer_read b dsize =
     (let (out1, b1) =
        (if cb_read_pointer b > cb_write_pointer b
         then let rd = min dsize (length (cb_data b) - cb_read_pointer b);
                  r = cb_read_pointer b + rd
              in (segment (cb_data b) (cb_read_pointer b) r,
                  b\<lparr>cb_read_pointer := (if r = length (cb_data b) then 0 else r)\<rparr>)
         else ([], b));
          (out2, b2) =
        (if cb_read_pointer b1 < cb_write_pointer b1
         then let rd = min (dsize - length out1) (cb_write_pointer b1 - cb_read_pointer b1);
                  r = cb_read_pointer b1 + rd
              in (segment (cb_data b1) (cb_read_pointer b1) r, b1\<lparr>cb_read_pointer := r\<rparr>)
         else ([], b1))
      in sk_check (cb_read_pointer b2 < length (cb_data b2))
           ''INTERNAL ERROR: sk::circular_buffer::read() pointer confusion''
           (Ret (out1 @ out2, b2)))"

definition circular_buffer_readable_ranges :: "'a circular_buffer \<Rightarrow> range list run" where
  "circular_buffer_readable_ranges b =
     (let len = length (cb_data b); w = cb_write_pointer b; ret = tv_empty [(0, 0), (0, 0)] in
      if cb_read_pointer b = w then Ret (tv_list ret)
      else bind_run
        (if cb_read_pointer b > w
         then let span = (cb_read_pointer b, len) in
              bind_run (push_unless_empty ret span) (\<lambda>ret.
                let t = cb_read_pointer b + (len - cb_read_pointer b)
                in Ret (ret, if t = len then 0 else t))
         else Ret (ret, cb_read_pointer b))
        (\<lambda>(ret, t).
           bind_run
             (if t < w
              then bind_run (push_unless_empty ret (t, w)) (\<lambda>ret. Ret (ret, t + (w - t)))
              else Ret (ret, t))
             (\<lambda>(ret, t).
                sk_check (t < len)
                  ''INTERNAL ERROR: sk::circular_buffer::readable_ranges() pointer confusion''
                  (Ret (tv_list ret)))))"

definition circular_buffer_discard ::
  "'a circular_buffer \<Rightarrow> nat \<Rightarrow> (nat \<times> 'a circular_buffer) run" where
  "circular_buffer_discard b n =
     (if cb_read_pointer b = cb_write_pointer b then Ret (0, b)
      else let (bytes_left, bytes_read, b1) =
             (if cb_read_pointer b > cb_write_pointer b
              then let can_read = min n (length (cb_data b) - cb_read_pointer b);
                       r = cb_read_pointer b + can_read
                   in (n - can_read, can_read,
                       b\<lparr>cb_read_pointer := (if r = length (cb_data b) then 0 else r)\<rparr>)
              else (n, 0, b));
               (bytes_read', b2) =
             (if cb_read_pointer b1 < cb_write_pointer b1
              then let can_read = min bytes_left (cb_write_pointer b1 - cb_read_pointer b1)
                   in (bytes_read + can_read,
                       b1\<lparr>cb_read_pointer := cb_read_pointer b1 + can_read\<rparr>)
              else (bytes_read, b1))
           in sk_check (cb_read_pointer b2 < length (cb_data b2))
                ''INTERNAL ERROR: sk::circular_buffer::readable_ranges() pointer confusion''
                (Ret (bytes_read', b2)))"

subsection \<open>Contents, invariant, and access through a range\<close>

definition circular_buffer_inv :: "'a circular_buffer \<Rightarrow> bool" where
  "circular_buffer_inv b \<longleftrightarrow>
     cb_read_pointer b < length (cb_data b) \<and> cb_write_pointer b < length (cb_data b)"

definition circular_buffer_content :: "'a circular_buffer \<Rightarrow> 'a list" where
  "circular_buffer_content b =
     (if cb_read_pointer b \<le> cb_write_pointer b
      then segment (cb_data b) (cb_read_pointer b) (cb_write_pointer b)
      else segment (cb_data b) (cb_read_pointer b) (length (cb_data b)) @
           segment (cb_data b) 0 (cb_write_pointer b))"

text \<open>\<^verbatim>\<open>buffer_size\<close> less the readable data.\<close>

definition circular_buffer_room :: "'a circular_buffer \<Rightarrow> nat" where
  "circular_buffer_room b = length (cb_data b) - 1 - length (circular_buffer_content b)"

definition circular_buffer_accepts :: "'a circular_buffer \<Rightarrow> nat \<Rightarrow> nat" where
  "circular_buffer_accepts b n = min n (circular_buffer_room b)"

definition circular_buffer_peek :: "'a circular_buffer \<Rightarrow> range \<Rightarrow> 'a list" where
  "circular_buffer_peek b r = segment (cb_data b) (fst r) (snd r)"

definition circular_buffer_poke :: "'a circular_buffer \<Rightarrow> range \<Rightarrow> 'a list \<Rightarrow> 'a circular_buffer" where
  "circular_buffer_poke b r xs = b\<lparr>cb_data := copy_at (cb_data b) (fst r) xs\<rparr>"

lemmas circular_buffer_defs =
  circular_buffer_inv_def circular_buffer_content_def circular_buffer_room_def
  circular_buffer_accepts_def circular_buffer_wend_def Let_def

lemma circular_buffer_room_eq:
  "circular_buffer_inv b \<Longrightarrow> circular_buffer_room b =
    (if cb_read_pointer b \<le> cb_write_pointer b
     then length (cb_data b) - 1 - (cb_write_pointer b - cb_read_pointer b)
     else cb_read_pointer b - 1 - cb_write_pointer b)"
  by (auto simp: circular_buffer_defs)

subsection \<open>write\<close>

lemma circular_buffer_write_loop_eq:
  assumes "cb_write_pointer b < cb_read_pointer b" "cb_read_pointer b < length (cb_data b)"
  defines "k xs \<equiv> min (length xs) (cb_read_pointer b - 1 - cb_write_pointer b)"
  shows "circular_buffer_write_loop b xs =
    (k xs, b\<lparr>cb_data := copy_at (cb_data b) (cb_write_pointer b) (take (k xs) xs),
             cb_write_pointer := cb_write_pointer b + k xs\<rparr>)"
  using assms(1,2) unfolding k_def
proof (induction xs arbitrary: b)
  case Nil
  then show ?case by simp
next
  case (Cons x xs)
  show ?case
  proof (cases "cb_write_pointer b < cb_read_pointer b - 1")
    case True
    then have "min (length (x # xs)) (cb_read_pointer b - 1 - cb_write_pointer b) =
        Suc (min (length xs) (cb_read_pointer b - 1 - Suc (cb_write_pointer b)))"
      by auto
    with True Cons.prems show ?thesis
      by (simp add: Cons.IH copy_at_Cons)
  next
    case False
    with Cons.prems show ?thesis by simp
  qed
qed

lemma circular_buffer_write_wrapped:
  assumes "circular_buffer_inv b" "cb_write_pointer b < cb_read_pointer b"
  shows "\<exists>b'. circular_buffer_write b xs = Ret (circular_buffer_accepts b (length xs), b') \<and>
    circular_buffer_inv b' \<and>
    circular_buffer_content b' = circular_buffer_content b @ take (circular_buffer_accepts b (length xs)) xs"
  using assms
  by (auto simp: circular_buffer_write_def circular_buffer_write_loop_eq circular_buffer_defs
      min_def array_simps)

lemma circular_buffer_write_linear:
  assumes "circular_buffer_inv b" "cb_read_pointer b \<le> cb_write_pointer b"
  shows "\<exists>b'. circular_buffer_write b xs = Ret (circular_buffer_accepts b (length xs), b') \<and>
    circular_buffer_inv b' \<and>
    circular_buffer_content b' = circular_buffer_content b @ take (circular_buffer_accepts b (length xs)) xs"
proof -
  let ?r = "cb_read_pointer b" and ?w = "cb_write_pointer b" and ?d = "cb_data b"
  have bounds: "?r \<le> ?w" "?w < length ?d" using assms by (simp_all add: circular_buffer_inv_def)
  define wr where "wr = min (circular_buffer_wend b - ?w) (length xs)"
  show ?thesis
  proof (cases "?w + wr = length ?d")
    case False
    then have "?w + wr < length ?d" "?r = 0 \<Longrightarrow> wr = min (length ?d - 1 - ?w) (length xs)"
      "?r \<noteq> 0 \<Longrightarrow> wr = length xs"
      using bounds by (auto simp: wr_def circular_buffer_wend_def min_def split: if_splits)
    moreover from this have "wr = circular_buffer_accepts b (length xs)"
      using assms by (cases "?r = 0") (auto simp: circular_buffer_accepts_def circular_buffer_room_eq)
    moreover define b1 where "b1 = b\<lparr>cb_data := copy_at ?d ?w (take wr xs), cb_write_pointer := ?w + wr\<rparr>"
    moreover have "circular_buffer_write b xs = Ret (wr, b1)"
      using False bounds by (simp add: circular_buffer_write_def Let_def b1_def flip: wr_def)
    moreover have "wr \<le> length xs" by (simp add: wr_def)
    ultimately show ?thesis using bounds
      by (auto simp: circular_buffer_inv_def circular_buffer_content_def array_simps)
  next
    case True
    then have r: "0 < ?r" "?w + wr = length ?d" "wr \<le> length xs"
      using bounds by (auto simp: wr_def circular_buffer_wend_def split: if_splits)
    define b1 where "b1 = b\<lparr>cb_data := copy_at ?d ?w (take wr xs), cb_write_pointer := 0\<rparr>"
    define k where "k = min (length (drop wr xs)) (?r - 1)"
    define b2 where "b2 = b1\<lparr>cb_data := copy_at (cb_data b1) 0 (take k (drop wr xs)),
        cb_write_pointer := k\<rparr>"
    have len1: "length (cb_data b1) = length ?d" using r by (simp add: b1_def)
    have k: "k < ?r" "k \<le> length xs - wr" using r by (auto simp: k_def)
    have "circular_buffer_write_loop b1 (drop wr xs) = (k, b2)"
      using r bounds by (simp add: circular_buffer_write_loop_eq b1_def b2_def k_def)
    then have "circular_buffer_write b xs = Ret (wr + k, b2)"
      using r bounds by (simp add: circular_buffer_write_def Let_def b1_def flip: wr_def)
    moreover have "wr + k = circular_buffer_accepts b (length xs)"
      using r bounds assms by (auto simp: circular_buffer_accepts_def circular_buffer_room_eq k_def)
    moreover have "circular_buffer_inv b2"
      using r bounds k len1 by (simp add: circular_buffer_inv_def b2_def b1_def)
    moreover have "circular_buffer_content b2 = circular_buffer_content b @ take (wr + k) xs"
    proof -
      have "segment (cb_data b2) ?r (length ?d) = segment ?d ?r ?w @ take wr xs"
        using r bounds k len1 by (simp add: b2_def array_simps) (simp add: b1_def array_simps)
      moreover have "segment (cb_data b2) 0 k = take k (drop wr xs)"
        using r bounds k len1 by (simp add: b2_def array_simps)
      moreover have "length (cb_data b2) = length ?d" "cb_read_pointer b2 = ?r" "cb_write_pointer b2 = k"
        using r bounds k len1 by (simp_all add: b2_def b1_def)
      ultimately show ?thesis using r bounds k by (simp add: circular_buffer_content_def take_add)
    qed
    ultimately show ?thesis by auto
  qed
qed

lemma circular_buffer_write_ok:
  "circular_buffer_inv b \<Longrightarrow>
    \<exists>b'. circular_buffer_write b xs = Ret (circular_buffer_accepts b (length xs), b') \<and>
      circular_buffer_inv b' \<and>
      circular_buffer_content b' = circular_buffer_content b @ take (circular_buffer_accepts b (length xs)) xs"
  using circular_buffer_write_linear circular_buffer_write_wrapped by (meson not_le_imp_less)

subsection \<open>read and discard\<close>

lemma circular_buffer_read_linear:
  assumes "circular_buffer_inv b" "cb_read_pointer b \<le> cb_write_pointer b"
  shows "circular_buffer_read b n =
      Ret (take n (circular_buffer_content b),
        b\<lparr>cb_read_pointer := min (cb_write_pointer b) (cb_read_pointer b + n)\<rparr>)"
proof -
  have "cb_read_pointer b + min n (cb_write_pointer b - cb_read_pointer b) =
      min (cb_write_pointer b) (cb_read_pointer b + n)"
    using assms(2) by auto
  with assms show ?thesis
    by (auto simp: circular_buffer_read_def circular_buffer_defs take_min_segment segment_empty)
qed

lemma circular_buffer_read_wrapped:
  assumes "circular_buffer_inv b" "cb_write_pointer b < cb_read_pointer b"
  shows "circular_buffer_read b n =
      Ret (take n (circular_buffer_content b),
        b\<lparr>cb_read_pointer :=
           (if n < length (cb_data b) - cb_read_pointer b then cb_read_pointer b + n
            else min (cb_write_pointer b) (n - (length (cb_data b) - cb_read_pointer b)))\<rparr>)"
  using assms
  by (auto simp: circular_buffer_read_def circular_buffer_defs take_min_segment segment_empty
      min_def)

lemma circular_buffer_read_content:
  assumes "circular_buffer_inv b" "cb_read_pointer b \<le> cb_write_pointer b"
  shows "circular_buffer_content
      (b\<lparr>cb_read_pointer := min (cb_write_pointer b) (cb_read_pointer b + n)\<rparr>) =
      drop n (circular_buffer_content b)"
  using assms by (auto simp: circular_buffer_defs drop_segment min_def segment_empty)

lemma circular_buffer_read_content_wrapped:
  assumes "circular_buffer_inv b" "cb_write_pointer b < cb_read_pointer b"
  shows "circular_buffer_content
      (b\<lparr>cb_read_pointer :=
           (if n < length (cb_data b) - cb_read_pointer b then cb_read_pointer b + n
            else min (cb_write_pointer b) (n - (length (cb_data b) - cb_read_pointer b)))\<rparr>) =
      drop n (circular_buffer_content b)"
  using assms by (auto simp: circular_buffer_defs drop_segment min_def segment_empty)

lemma circular_buffer_read_ok:
  assumes "circular_buffer_inv b"
  shows "\<exists>b'. circular_buffer_read b n = Ret (take n (circular_buffer_content b), b') \<and>
    circular_buffer_inv b' \<and> circular_buffer_content b' = drop n (circular_buffer_content b)"
proof (cases "cb_read_pointer b \<le> cb_write_pointer b")
  case True
  with assms show ?thesis
    by (auto simp: circular_buffer_read_linear circular_buffer_read_content circular_buffer_inv_def)
next
  case False
  then have "cb_write_pointer b < cb_read_pointer b" by simp
  note w = circular_buffer_read_wrapped [OF assms this, of n]
    circular_buffer_read_content_wrapped [OF assms this, of n]
  define r where "r = (if n < length (cb_data b) - cb_read_pointer b then cb_read_pointer b + n
    else min (cb_write_pointer b) (n - (length (cb_data b) - cb_read_pointer b)))"
  have "circular_buffer_inv (b\<lparr>cb_read_pointer := r\<rparr>)"
    using assms by (auto simp: circular_buffer_inv_def r_def)
  with w show ?thesis by (auto simp flip: r_def)
qed

text \<open>\<^verbatim>\<open>discard\<close> moves the read pointer exactly as \<^verbatim>\<open>read\<close> does.\<close>

lemma circular_buffer_discard_as_read:
  assumes "circular_buffer_inv b" "circular_buffer_read b n = Ret (xs, b')"
  shows "circular_buffer_discard b n = Ret (length xs, b')"
proof (cases "cb_read_pointer b \<le> cb_write_pointer b")
  case True
  with assms have "xs = take n (circular_buffer_content b)"
    "b' = b\<lparr>cb_read_pointer := min (cb_write_pointer b) (cb_read_pointer b + n)\<rparr>"
    by (simp_all add: circular_buffer_read_linear)
  with True assms(1) show ?thesis
    by (auto simp: circular_buffer_discard_def circular_buffer_defs min_def segment_empty)
next
  case False
  then have "cb_write_pointer b < cb_read_pointer b" by simp
  with assms show ?thesis
    by (auto simp: circular_buffer_discard_def circular_buffer_defs circular_buffer_read_wrapped
        min_def segment_empty)
qed

lemma circular_buffer_discard_ok:
  assumes "circular_buffer_inv b"
  shows "\<exists>b'. circular_buffer_discard b n = Ret (min n (length (circular_buffer_content b)), b') \<and>
    circular_buffer_inv b' \<and> circular_buffer_content b' = drop n (circular_buffer_content b)"
  using circular_buffer_read_ok [OF assms, of n] circular_buffer_discard_as_read [OF assms, of n]
  by (auto simp: min.commute)

interpretation cb: fifo_buffer circular_buffer_inv circular_buffer_content
  circular_buffer_read circular_buffer_discard circular_buffer_accepts circular_buffer_write
proof unfold_locales
  fix b :: "'a circular_buffer" and n and xs :: "'a list"
  assume b: "circular_buffer_inv b"
  show "\<exists>b'. circular_buffer_read b n = Ret (take n (circular_buffer_content b), b') \<and>
      circular_buffer_inv b' \<and> circular_buffer_content b' = drop n (circular_buffer_content b)"
    using b by (rule circular_buffer_read_ok)
  show "\<exists>b'. circular_buffer_discard b n = Ret (n, b') \<and>
      circular_buffer_inv b' \<and> circular_buffer_content b' = drop n (circular_buffer_content b)"
    if "n \<le> length (circular_buffer_content b)"
    using circular_buffer_discard_ok [OF b, of n] that by (simp add: min_def)
  show "circular_buffer_accepts b n \<le> n" by (simp add: circular_buffer_accepts_def)
  show "\<exists>b'. circular_buffer_write b xs = Ret (circular_buffer_accepts b (length xs), b') \<and>
      circular_buffer_inv b' \<and>
      circular_buffer_content b' = circular_buffer_content b @ take (circular_buffer_accepts b (length xs)) xs"
    using b by (rule circular_buffer_write_ok)
qed

subsection \<open>Ranges and commit\<close>

lemmas range_vector_defs =
  push_unless_empty_def tv_push_back_def tv_list_def tv_empty_def range_len_def

lemma circular_buffer_readable_ranges_eq:
  assumes "circular_buffer_inv b"
  shows "circular_buffer_readable_ranges b = Ret
    (if cb_read_pointer b = cb_write_pointer b then []
     else if cb_read_pointer b < cb_write_pointer b then [(cb_read_pointer b, cb_write_pointer b)]
     else if cb_write_pointer b = 0 then [(cb_read_pointer b, length (cb_data b))]
     else [(cb_read_pointer b, length (cb_data b)), (0, cb_write_pointer b)])"
  using assms
  by (auto simp: circular_buffer_readable_ranges_def circular_buffer_inv_def range_vector_defs Let_def)

lemma circular_buffer_readable_ranges_content:
  assumes "circular_buffer_inv b"
  shows "\<exists>rs. circular_buffer_readable_ranges b = Ret rs \<and>
    concat (map (circular_buffer_peek b) rs) = circular_buffer_content b"
  using assms
  by (auto simp: circular_buffer_readable_ranges_eq circular_buffer_content_def circular_buffer_peek_def)

lemma circular_buffer_writable_ranges_eq:
  assumes "circular_buffer_inv b"
  shows "circular_buffer_writable_ranges b = Ret
    (if cb_write_pointer b < cb_read_pointer b
     then (if cb_write_pointer b < cb_read_pointer b - 1
           then [(cb_write_pointer b, cb_read_pointer b - 1)] else [])
     else if cb_read_pointer b = 0
     then (if cb_write_pointer b < length (cb_data b) - 1
           then [(cb_write_pointer b, length (cb_data b) - 1)] else [])
     else (cb_write_pointer b, length (cb_data b)) #
          (if 1 < cb_read_pointer b then [(0, cb_read_pointer b - 1)] else []), b)"
  using assms
  by (auto simp: circular_buffer_writable_ranges_def circular_buffer_inv_def range_vector_defs
      circular_buffer_wend_def Let_def)

lemma circular_buffer_writable_ranges_room:
  assumes "circular_buffer_inv b"
  shows "\<exists>rs. circular_buffer_writable_ranges b = Ret (rs, b) \<and>
    sum_list (map range_len rs) = circular_buffer_room b"
  using assms
  by (auto simp: circular_buffer_writable_ranges_eq circular_buffer_room_eq range_len_def
      circular_buffer_inv_def)

text \<open>Committing no more than the room: the write pointer moves as \<^verbatim>\<open>write\<close> moves it.\<close>

lemma circular_buffer_commit_room:
  assumes "circular_buffer_inv b" "n \<le> circular_buffer_room b"
  shows "circular_buffer_commit b n = Ret (n, b\<lparr>cb_write_pointer :=
    (if cb_write_pointer b + n < length (cb_data b) then cb_write_pointer b + n
     else cb_write_pointer b + n - length (cb_data b))\<rparr>)"
proof (cases "cb_read_pointer b \<le> cb_write_pointer b")
  case True
  have w: "cb_write_pointer b < length (cb_data b)"
    and n: "n \<le> length (cb_data b) - 1 - (cb_write_pointer b - cb_read_pointer b)"
    using assms True by (simp_all add: circular_buffer_inv_def circular_buffer_room_eq)
  show ?thesis
  proof (cases "cb_write_pointer b + n < length (cb_data b)")
    case small: True
    then have "min (circular_buffer_wend b - cb_write_pointer b) n = n"
      using True w n by (auto simp: circular_buffer_wend_def)
    with small True show ?thesis by (simp add: circular_buffer_commit_def Let_def)
  next
    case False
    then have "cb_read_pointer b \<noteq> 0" using n True w by (cases "cb_read_pointer b = 0") auto
    moreover from this False
    have "min (circular_buffer_wend b - cb_write_pointer b) n = length (cb_data b) - cb_write_pointer b"
      by (auto simp: circular_buffer_wend_def)
    moreover have "min (cb_read_pointer b - 1) (n - (length (cb_data b) - cb_write_pointer b)) =
        n - (length (cb_data b) - cb_write_pointer b)"
      using n True w False by auto
    ultimately show ?thesis using True w False n
      by (auto simp: circular_buffer_commit_def Let_def)
  qed
next
  case False
  with assms show ?thesis
    by (auto simp: circular_buffer_commit_def circular_buffer_room_eq circular_buffer_inv_def Let_def
        min_def)
qed

text \<open>The array after filling the writable ranges with \<open>xs\<close>.\<close>

definition circular_buffer_filled :: "'a circular_buffer \<Rightarrow> 'a list \<Rightarrow> 'a list" where
  "circular_buffer_filled b xs =
     (if cb_write_pointer b + length xs < length (cb_data b)
      then copy_at (cb_data b) (cb_write_pointer b) xs
      else let k = length (cb_data b) - cb_write_pointer b
           in copy_at (copy_at (cb_data b) (cb_write_pointer b) (take k xs)) 0 (drop k xs))"

lemma circular_buffer_fill:
  assumes "circular_buffer_inv b" "length xs \<le> circular_buffer_room b"
    "circular_buffer_writable_ranges b = Ret (rs, b1)"
  shows "fill_ranges circular_buffer_poke range_len b1 rs xs = b\<lparr>cb_data := circular_buffer_filled b xs\<rparr>"
proof -
  have "\<not> cb_write_pointer b + length xs < length (cb_data b) \<Longrightarrow>
      length (cb_data b) - cb_write_pointer b \<le> length xs \<and> 0 < cb_read_pointer b \<and>
      cb_read_pointer b \<le> cb_write_pointer b"
    using assms(1,2) by (auto simp: circular_buffer_room_eq circular_buffer_inv_def split: if_splits)
  then show ?thesis using assms
    by (auto simp: circular_buffer_writable_ranges_eq circular_buffer_room_eq range_len_def
        circular_buffer_poke_def circular_buffer_filled_def circular_buffer_inv_def Let_def
        split: if_splits)
qed

lemma circular_buffer_commit_filled:
  assumes "circular_buffer_inv b" "length xs \<le> circular_buffer_room b"
  shows "\<exists>b'. circular_buffer_commit (b\<lparr>cb_data := circular_buffer_filled b xs\<rparr>) (length xs) =
      Ret (length xs, b') \<and> circular_buffer_inv b' \<and>
      circular_buffer_content b' = circular_buffer_content b @ xs"
proof -
  let ?b = "b\<lparr>cb_data := circular_buffer_filled b xs\<rparr>"
  let ?r = "cb_read_pointer b" and ?w = "cb_write_pointer b" and ?d = "cb_data b"
  have bounds: "?r < length ?d" "?w < length ?d" using assms by (simp_all add: circular_buffer_inv_def)
  have room: "length xs \<le> (if ?r \<le> ?w then length ?d - 1 - (?w - ?r) else ?r - 1 - ?w)"
    using assms by (simp add: circular_buffer_room_eq)
  have len: "length (circular_buffer_filled b xs) = length ?d"
    using bounds room by (auto simp: circular_buffer_filled_def Let_def split: if_splits)
  have inv: "circular_buffer_inv ?b" using bounds len by (simp add: circular_buffer_inv_def)
  have "length xs \<le> circular_buffer_room ?b"
    using room len inv by (simp add: circular_buffer_room_eq split: if_splits)
  note commit = circular_buffer_commit_room [OF inv this]
  show ?thesis
  proof (cases "?w + length xs < length ?d")
    case True
    then have "circular_buffer_content (b\<lparr>cb_data := copy_at ?d ?w xs, cb_write_pointer := ?w + length xs\<rparr>) =
        circular_buffer_content b @ xs"
      using bounds room by (auto simp: circular_buffer_content_def array_simps split: if_splits)
    then show ?thesis using True bounds len commit
      by (auto simp: circular_buffer_filled_def circular_buffer_inv_def)
  next
    case False
    define k where "k = length ?d - ?w"
    have k: "k \<le> length xs" "?w + k = length ?d" "?r \<le> ?w" "?w + length xs - length ?d = length xs - k"
        "length xs - k < ?r"
      using False bounds room by (auto simp: k_def split: if_splits)
    have "circular_buffer_content (b\<lparr>cb_data := copy_at (copy_at ?d ?w (take k xs)) 0 (drop k xs),
        cb_write_pointer := length xs - k\<rparr>) = circular_buffer_content b @ xs"
      using bounds k by (simp add: circular_buffer_content_def array_simps)
    then show ?thesis using False bounds len commit k
      by (auto simp: circular_buffer_filled_def circular_buffer_inv_def Let_def simp flip: k_def)
  qed
qed

interpretation cbr: window_reader circular_buffer_inv circular_buffer_content
  circular_buffer_readable_ranges circular_buffer_peek
proof unfold_locales
  fix b :: "'a circular_buffer"
  assume "circular_buffer_inv b" "circular_buffer_content b \<noteq> []"
  with circular_buffer_readable_ranges_content [of b] obtain rs
    where "circular_buffer_readable_ranges b = Ret rs"
      "concat (map (circular_buffer_peek b) rs) = circular_buffer_content b" by blast
  with \<open>circular_buffer_content b \<noteq> []\<close>
  show "\<exists>rs rest. circular_buffer_readable_ranges b = Ret rs \<and>
      concat (map (circular_buffer_peek b) rs) \<noteq> [] \<and>
      circular_buffer_content b = concat (map (circular_buffer_peek b) rs) @ rest"
    by (intro exI [of _ rs] exI [of _ "[]"]) (simp del: concat_eq_Nil_conv)
qed

interpretation cbw: window_writer circular_buffer_inv circular_buffer_content
  circular_buffer_writable_ranges circular_buffer_poke range_len circular_buffer_commit
proof unfold_locales
  fix b :: "'a circular_buffer" and rs b1 and xs :: "'a list"
  assume b: "circular_buffer_inv b"
  note ranges = circular_buffer_writable_ranges_room [OF b]
  then show "returns (circular_buffer_writable_ranges b)" by auto
  assume w: "circular_buffer_writable_ranges b = Ret (rs, b1)" and "length xs \<le> sum_list (map range_len rs)"
  with ranges have "length xs \<le> circular_buffer_room b" by auto
  with b w show "\<exists>b'. circular_buffer_commit (fill_ranges circular_buffer_poke range_len b1 rs xs) (length xs) =
      Ret (length xs, b') \<and> circular_buffer_inv b' \<and>
      circular_buffer_content b' = circular_buffer_content b @ xs"
    by (simp add: circular_buffer_fill circular_buffer_commit_filled)
qed

text \<open>Committing more than the room of a wrapped buffer: the bound of the second phase is
  \<^verbatim>\<open>read_pointer - data.begin() - 1\<close>, not the distance to the write pointer.\<close>

lemma circular_buffer_commit_wrapped:
  assumes "circular_buffer_inv b" "cb_write_pointer b < cb_read_pointer b"
  shows "circular_buffer_commit b n =
    (if cb_write_pointer b + min (cb_read_pointer b - 1) n < cb_read_pointer b
     then Ret (min (cb_read_pointer b - 1) n,
       b\<lparr>cb_write_pointer := cb_write_pointer b + min (cb_read_pointer b - 1) n\<rparr>)
     else Abort ''INTERNAL ERROR: sk::circular_buffer::commit() pointer confusion'')"
  using assms by (simp add: circular_buffer_commit_def sk_check_def Let_def)

subsection \<open>Refinement of a bounded queue\<close>

lemma length_circular_buffer_write_loop:
  "circular_buffer_write_loop b xs = (n, b') \<Longrightarrow> length (cb_data b') = length (cb_data b)"
  by (induction b xs arbitrary: n rule: circular_buffer_write_loop.induct)
    (auto simp: Let_def split: prod.splits if_splits)

lemma circular_buffer_lengths:
  assumes "circular_buffer_inv b"
  shows "circular_buffer_write b xs = Ret (n, b') \<Longrightarrow> length (cb_data b') = length (cb_data b)"
    "circular_buffer_read b k = Ret (ys, b') \<Longrightarrow> cb_data b' = cb_data b"
proof -
  define wr where "wr = min (circular_buffer_wend b - cb_write_pointer b) (length xs)"
  have wr: "length (copy_at (cb_data b) (cb_write_pointer b) (take wr xs)) = length (cb_data b)"
    using assms by (intro length_copy_at) (auto simp: wr_def circular_buffer_defs)
  show "circular_buffer_write b xs = Ret (n, b') \<Longrightarrow> length (cb_data b') = length (cb_data b)"
    using wr
    by (auto simp: circular_buffer_write_def Let_def simp flip: wr_def split: prod.splits if_splits
        dest: length_circular_buffer_write_loop)
  show "circular_buffer_read b k = Ret (ys, b') \<Longrightarrow> cb_data b' = cb_data b"
    by (auto simp: circular_buffer_read_def Let_def sk_check_eq_Ret split: if_splits prod.splits)
qed

text \<open>Rings of \<open>N\<close> usable objects.\<close>

definition circular_buffer_of_size :: "nat \<Rightarrow> 'a circular_buffer \<Rightarrow> bool" where
  "circular_buffer_of_size N b \<longleftrightarrow> circular_buffer_inv b \<and> length (cb_data b) = Suc N"

interpretation cbq: queue_buffer "circular_buffer_of_size N" circular_buffer_content
  circular_buffer_read circular_buffer_discard circular_buffer_accepts circular_buffer_write
  "\<lambda>q n. min n (N - length q)" for N
proof unfold_locales
  fix b :: "'a circular_buffer" and n and xs :: "'a list"
  assume "circular_buffer_of_size N b"
  then have b: "circular_buffer_inv b" and len: "length (cb_data b) = Suc N"
    by (auto simp: circular_buffer_of_size_def)
  show "\<exists>b'. circular_buffer_read b n = Ret (take n (circular_buffer_content b), b') \<and>
      circular_buffer_of_size N b' \<and> circular_buffer_content b' = drop n (circular_buffer_content b)"
    using circular_buffer_read_ok [OF b, of n] circular_buffer_lengths(2) [OF b, of n] len
    unfolding circular_buffer_of_size_def by metis
  show "circular_buffer_accepts b n = min n (N - length (circular_buffer_content b))"
    using len by (simp add: circular_buffer_accepts_def circular_buffer_room_def)
  show "circular_buffer_accepts b n \<le> n" by (simp add: circular_buffer_accepts_def)
  show "\<exists>b'. circular_buffer_write b xs = Ret (circular_buffer_accepts b (length xs), b') \<and>
      circular_buffer_of_size N b' \<and>
      circular_buffer_content b' = circular_buffer_content b @ take (circular_buffer_accepts b (length xs)) xs"
    using circular_buffer_write_ok [OF b, of xs] circular_buffer_lengths(1) [OF b, of xs] len
    unfolding circular_buffer_of_size_def by metis
  assume "n \<le> length (circular_buffer_content b)"
  then show "\<exists>b'. circular_buffer_discard b n = Ret (n, b') \<and> circular_buffer_of_size N b' \<and>
      circular_buffer_content b' = drop n (circular_buffer_content b)"
    using circular_buffer_read_ok [OF b, of n] circular_buffer_lengths(2) [OF b, of n] len
      circular_buffer_discard_as_read [OF b, of n]
    unfolding circular_buffer_of_size_def by (metis length_take min.absorb2)
qed

subsection \<open>Properties\<close>

text \<open>C2: A \<^verbatim>\<open>circular_buffer\<close> over an array of \<open>N + 1\<close> objects refines a bounded queue of
  \<open>N\<close> objects: any sequence of writes and reads on a new buffer returns, accepts and yields
  exactly the objects the queue does, across every wrap of the array, and leaves the queue's
  contents in the buffer.\<close>

theorem circular_buffer_refines_queue:
  "case queue_run (\<lambda>q n. min n (length raw - length q)) [] ops of (ins, outs, q) \<Rightarrow>
     \<exists>b'. buffer_run circular_buffer_write circular_buffer_read (circular_buffer_new (x # raw)) ops =
       Ret (ins, outs, b') \<and> circular_buffer_inv b' \<and> circular_buffer_content b' = q"
proof -
  have new: "circular_buffer_of_size (length raw) (circular_buffer_new (x # raw))"
    "circular_buffer_content (circular_buffer_new (x # raw)) = []"
    by (simp_all add: circular_buffer_new_def circular_buffer_of_size_def circular_buffer_defs)
  obtain ins outs q where "queue_run (\<lambda>q n. min n (length raw - length q)) [] ops = (ins, outs, q)"
    by (cases "queue_run (\<lambda>q n. min n (length raw - length q)) [] ops")
  with cbq.run_refines_queue [OF new(1), of ops ins outs q] new(2) show ?thesis
    by (auto simp: circular_buffer_of_size_def)
qed

text \<open>\<^verbatim>\<open>readable_ranges\<close> of a circular buffer show exactly the readable data in order, and
  \<^verbatim>\<open>writable_ranges\<close> have room for exactly the free part of the buffer.\<close>

theorem circular_buffer_ranges:
  assumes "circular_buffer_inv b"
  shows "\<exists>rs ws. circular_buffer_readable_ranges b = Ret rs \<and>
    concat (map (circular_buffer_peek b) rs) = circular_buffer_content b \<and>
    circular_buffer_writable_ranges b = Ret (ws, b) \<and>
    sum_list (map range_len ws) + length (circular_buffer_content b) = length (cb_data b) - 1"
proof -
  have "length (circular_buffer_content b) \<le> length (cb_data b) - 1"
    using assms by (auto simp: circular_buffer_defs)
  then show ?thesis
    using circular_buffer_readable_ranges_content [OF assms] circular_buffer_writable_ranges_room [OF assms]
    by (auto simp: circular_buffer_room_def)
qed

theorem circular_buffer_ranges_witness:
  "\<exists>rs ws. circular_buffer_readable_ranges \<lparr>cb_data = ''abcd'', cb_read_pointer = 3, cb_write_pointer = 1\<rparr> = Ret rs \<and>
    concat (map (circular_buffer_peek \<lparr>cb_data = ''abcd'', cb_read_pointer = 3, cb_write_pointer = 1\<rparr>) rs) = ''da'' \<and>
    circular_buffer_writable_ranges \<lparr>cb_data = ''abcd'', cb_read_pointer = 3, cb_write_pointer = 1\<rparr> =
      Ret (ws, \<lparr>cb_data = ''abcd'', cb_read_pointer = 3, cb_write_pointer = 1\<rparr>) \<and>
    sum_list (map range_len ws) = 1"
  using circular_buffer_ranges [of "\<lparr>cb_data = ''abcd'', cb_read_pointer = 3, cb_write_pointer = 1\<rparr>"]
  by (auto simp: circular_buffer_inv_def circular_buffer_content_def segment_def)

text \<open>Copying data into the ranges of \<^verbatim>\<open>writable_ranges\<close> and committing its size appends
  exactly that data to what a circular buffer holds.\<close>

theorem circular_buffer_fill_commit:
  assumes "circular_buffer_inv b" "circular_buffer_writable_ranges b = Ret (rs, b1)"
    "length xs \<le> sum_list (map range_len rs)"
  shows "\<exists>b'. circular_buffer_commit (fill_ranges circular_buffer_poke range_len b1 rs xs) (length xs) =
      Ret (length xs, b') \<and> circular_buffer_inv b' \<and>
      circular_buffer_content b' = circular_buffer_content b @ xs"
  by (rule cbw.fill_commit [OF assms])

theorem circular_buffer_fill_commit_witness:
  "\<exists>b'. circular_buffer_commit (fill_ranges circular_buffer_poke range_len
      \<lparr>cb_data = ''abcd'', cb_read_pointer = 2, cb_write_pointer = 3\<rparr> [(3, 4), (0, 1)] ''xy'') 2 = Ret (2, b') \<and>
    circular_buffer_inv b' \<and> circular_buffer_content b' = ''cxy''"
proof -
  let ?b = "\<lparr>cb_data = ''abcd'', cb_read_pointer = 2, cb_write_pointer = 3\<rparr>"
  have "circular_buffer_inv ?b" by (simp add: circular_buffer_inv_def)
  moreover from this have "circular_buffer_writable_ranges ?b = Ret ([(3, 4), (0, 1)], ?b)"
    by (simp add: circular_buffer_writable_ranges_eq)
  moreover have "length ''xy'' \<le> sum_list (map range_len [(3, 4), (0, 1)])" by (simp add: range_len_def)
  moreover have "circular_buffer_content ?b = ''c''" by (simp add: circular_buffer_content_def segment_def)
  ultimately show ?thesis using circular_buffer_fill_commit [of ?b "[(3, 4), (0, 1)]" ?b "''xy''"]
    by (simp add: numeral_2_eq_2)
qed

text \<open>What \<^verbatim>\<open>commit(n)\<close> does for every \<open>n\<close>: it commits the smaller of \<open>n\<close> and the free room,
  except when the written data has wrapped past the start of the array and \<open>n\<close> is more than the
  free room; then the second phase takes the distance from the start of the array for the
  distance from the write pointer and the final check aborts.\<close>

theorem circular_buffer_commit_total:
  assumes "circular_buffer_inv b"
  shows "if 0 < cb_write_pointer b \<and> cb_write_pointer b < cb_read_pointer b \<and> circular_buffer_room b < n
    then circular_buffer_commit b n = Abort ''INTERNAL ERROR: sk::circular_buffer::commit() pointer confusion''
    else \<exists>b'. circular_buffer_commit b n = Ret (min n (circular_buffer_room b), b') \<and> circular_buffer_inv b'"
proof (cases "n \<le> circular_buffer_room b")
  case True
  then have "n < length (cb_data b)" using assms by (auto simp: circular_buffer_room_def circular_buffer_inv_def)
  with True show ?thesis
    using assms circular_buffer_commit_room [OF assms True]
    by (auto simp: circular_buffer_inv_def)
next
  case False
  show ?thesis
  proof (cases "cb_write_pointer b < cb_read_pointer b")
    case True
    then show ?thesis
      using False assms circular_buffer_commit_wrapped [OF assms True, of n] circular_buffer_room_eq [OF assms]
      by (auto simp: circular_buffer_inv_def min_def)
  next
    case linear: False
    let ?l = "length (cb_data b)" and ?r = "cb_read_pointer b" and ?w = "cb_write_pointer b"
    have room: "circular_buffer_room b = ?l - 1 - (?w - ?r)" and bounds: "?r \<le> ?w" "?w < ?l"
      using linear assms circular_buffer_room_eq [OF assms] by (auto simp: circular_buffer_inv_def)
    have "\<exists>b'. circular_buffer_commit b n = Ret (circular_buffer_room b, b') \<and> circular_buffer_inv b'"
    proof (cases "?r = 0")
      case True
      then have "min (circular_buffer_wend b - ?w) n = ?l - 1 - ?w" and "?l - 1 < ?l"
        using False room bounds by (auto simp: circular_buffer_wend_def)
      then show ?thesis using True room bounds
        by (auto simp: circular_buffer_commit_def Let_def circular_buffer_inv_def)
    next
      case pos: False
      then have c: "min (circular_buffer_wend b - ?w) n = ?l - ?w"
        "min (?r - Suc 0) (n + ?w - ?l) = ?r - 1" "circular_buffer_room b = ?l - ?w + (?r - 1)"
        using False room bounds by (auto simp: circular_buffer_wend_def)
      show ?thesis using pos bounds unfolding c(3)
        by (simp add: circular_buffer_commit_def Let_def circular_buffer_inv_def c(1,2))
    qed
    then show ?thesis using False linear by auto
  qed
qed

theorem circular_buffer_commit_total_witness:
  "circular_buffer_commit \<lparr>cb_data = ''abcd'', cb_read_pointer = 3, cb_write_pointer = 1\<rparr> 2 =
    Abort ''INTERNAL ERROR: sk::circular_buffer::commit() pointer confusion''"
  using circular_buffer_commit_total
    [of "\<lparr>cb_data = ''abcd'', cb_read_pointer = 3, cb_write_pointer = 1\<rparr>" 2]
  by (simp add: circular_buffer_inv_def circular_buffer_room_eq)

end
