(* ===== verification/Range_Buffer.thy ===== *)
theory Range_Buffer
  imports Fixed_Buffer
begin

text \<open>
  \<^verbatim>\<open>buffer/range_buffer.hxx\<close>: existing ranges seen as buffers.

  \<^verbatim>\<open>readable_range_buffer::read\<close> copies with \<^verbatim>\<open>std::memcpy\<close>, which counts bytes, so an
  element is modelled as the list of its bytes and \<^verbatim>\<open>read\<close> yields the bytes stored at
  \<^verbatim>\<open>dptr\<close>. \<^verbatim>\<open>writable_range_buffer\<close> is the range and the index where its
  \<^verbatim>\<open>write_window\<close> starts.
\<close>

record readable_range_buffer =
  rrb_read_window :: "byte list list"

definition make_readable_range_buffer :: "byte list list \<Rightarrow> readable_range_buffer" where
  "make_readable_range_buffer rng = \<lparr>rrb_read_window = rng\<rparr>"

definition rrb_discard ::
  "readable_range_buffer \<Rightarrow> nat \<Rightarrow> (nat \<times> readable_range_buffer) run" where
  "rrb_discard b n =
     (let will_discard = min n (length (rrb_read_window b))
      in Ret (will_discard, b\<lparr>rrb_read_window := drop will_discard (rrb_read_window b)\<rparr>))"

text \<open>The result is the bytes copied to \<^verbatim>\<open>dptr\<close> and the buffer; \<open>rrb_read_count\<close> is the
  number \<^verbatim>\<open>read\<close> returns.\<close>

definition rrb_read_count :: "readable_range_buffer \<Rightarrow> nat \<Rightarrow> nat" where
  "rrb_read_count b dsize = min dsize (length (rrb_read_window b))"

definition rrb_read ::
  "readable_range_buffer \<Rightarrow> nat \<Rightarrow> (byte list \<times> readable_range_buffer) run" where
  "rrb_read b dsize =
     (let can_read = rrb_read_count b dsize;
          will_read = take can_read (rrb_read_window b);
          read_size = length will_read
      in bind_run (rrb_discard b can_read)
           (\<lambda>(_, b'). Ret (take read_size (concat will_read), b')))"

definition rrb_readable_ranges :: "readable_range_buffer \<Rightarrow> byte list list list run" where
  "rrb_readable_ranges b = Ret [rrb_read_window b]"

record 'a writable_range_buffer =
  wrb_range :: "'a list"
  wrb_start :: nat

definition make_writable_range_buffer :: "'a list \<Rightarrow> 'a writable_range_buffer" where
  "make_writable_range_buffer rng = \<lparr>wrb_range = rng, wrb_start = 0\<rparr>"

definition wrb_window_size :: "'a writable_range_buffer \<Rightarrow> nat" where
  "wrb_window_size b = length (wrb_range b) - wrb_start b"

definition wrb_commit ::
  "'a writable_range_buffer \<Rightarrow> nat \<Rightarrow> (nat \<times> 'a writable_range_buffer) run" where
  "wrb_commit b n =
     (let will_commit = min (wrb_window_size b) n
      in Ret (will_commit, b\<lparr>wrb_start := wrb_start b + will_commit\<rparr>))"

definition wrb_write ::
  "'a writable_range_buffer \<Rightarrow> 'a list \<Rightarrow> (nat \<times> 'a writable_range_buffer) run" where
  "wrb_write b xs =
     (let can_write = min (wrb_window_size b) (length xs);
          b1 = b\<lparr>wrb_range := copy_at (wrb_range b) (wrb_start b) (take can_write xs)\<rparr>
      in bind_run (wrb_commit b1 can_write) (\<lambda>(_, b'). Ret (can_write, b')))"

definition wrb_writable_ranges ::
  "'a writable_range_buffer \<Rightarrow> (range list \<times> 'a writable_range_buffer) run" where
  "wrb_writable_ranges b = Ret ([(wrb_start b, length (wrb_range b))], b)"

subsection \<open>Contents and invariants\<close>

text \<open>Character ranges: every element is one byte.\<close>

definition rrb_chars :: "readable_range_buffer \<Rightarrow> bool" where
  "rrb_chars b \<longleftrightarrow> (\<forall>e \<in> set (rrb_read_window b). length e = 1)"

definition rrb_content :: "readable_range_buffer \<Rightarrow> byte list" where
  "rrb_content b = concat (rrb_read_window b)"

definition wrb_inv :: "'a writable_range_buffer \<Rightarrow> bool" where
  "wrb_inv b \<longleftrightarrow> wrb_start b \<le> length (wrb_range b)"

definition wrb_content :: "'a writable_range_buffer \<Rightarrow> 'a list" where
  "wrb_content b = segment (wrb_range b) 0 (wrb_start b)"

definition wrb_accepts :: "'a writable_range_buffer \<Rightarrow> nat \<Rightarrow> nat" where
  "wrb_accepts b n = min (length (wrb_range b) - wrb_start b) n"

definition wrb_poke :: "'a writable_range_buffer \<Rightarrow> range \<Rightarrow> 'a list \<Rightarrow> 'a writable_range_buffer" where
  "wrb_poke b r xs = b\<lparr>wrb_range := copy_at (wrb_range b) (fst r) xs\<rparr>"

lemmas range_buffer_defs =
  rrb_discard_def rrb_read_count_def rrb_read_def rrb_readable_ranges_def rrb_chars_def
  rrb_content_def wrb_window_size_def wrb_commit_def wrb_write_def wrb_writable_ranges_def
  wrb_inv_def wrb_content_def wrb_accepts_def wrb_poke_def range_len_def Let_def

subsection \<open>Runs of one-byte elements\<close>

lemma concat_singletons:
  assumes "\<forall>e \<in> set es. length e = 1"
  shows "length (concat es) = length es" "take n (concat es) = concat (take n es)"
    "drop n (concat es) = concat (drop n es)"
proof -
  have eq: "concat es = map hd es" if "\<forall>e \<in> set es. length e = 1" for es :: "'a list list"
    using that by (induction es) (auto simp: length_Suc_conv)
  have t: "\<forall>e \<in> set (take n es). length e = 1" and d: "\<forall>e \<in> set (drop n es). length e = 1"
    using assms by (auto dest: in_set_takeD in_set_dropD)
  show "length (concat es) = length es" "take n (concat es) = concat (take n es)"
    "drop n (concat es) = concat (drop n es)"
    by (simp_all add: eq [OF assms] eq [OF t] eq [OF d] take_map drop_map)
qed

lemma rrb_chars_drop: "rrb_chars b \<Longrightarrow> rrb_chars (b\<lparr>rrb_read_window := drop n (rrb_read_window b)\<rparr>)"
  by (auto simp: rrb_chars_def dest: in_set_dropD)

lemma take_drop_min_length:
  "take (min n (length xs)) xs = take n xs" "drop (min n (length xs)) xs = drop n xs"
  by (simp_all add: min_def)

lemma rrb_read_chars:
  assumes "rrb_chars b"
  shows "rrb_read b n = Ret (take n (rrb_content b), b\<lparr>rrb_read_window := drop n (rrb_read_window b)\<rparr>)"
    "rrb_content (b\<lparr>rrb_read_window := drop n (rrb_read_window b)\<rparr>) = drop n (rrb_content b)"
proof -
  have one: "\<forall>e \<in> set (rrb_read_window b). length e = 1" using assms by (simp add: rrb_chars_def)
  then have "\<forall>e \<in> set (take n (rrb_read_window b)). length e = 1" by (auto dest: in_set_takeD)
  with one show "rrb_read b n = Ret (take n (rrb_content b), b\<lparr>rrb_read_window := drop n (rrb_read_window b)\<rparr>)"
    by (simp add: range_buffer_defs concat_singletons take_drop_min_length)
  show "rrb_content (b\<lparr>rrb_read_window := drop n (rrb_read_window b)\<rparr>) = drop n (rrb_content b)"
    using one by (simp add: rrb_content_def concat_singletons)
qed

subsection \<open>The buffer contracts\<close>

interpretation rrb: fifo_reader rrb_chars rrb_content rrb_read rrb_discard
proof unfold_locales
  fix b n assume b: "rrb_chars b"
  show "\<exists>b'. rrb_read b n = Ret (take n (rrb_content b), b') \<and> rrb_chars b' \<and>
      rrb_content b' = drop n (rrb_content b)"
    using rrb_read_chars [OF b] rrb_chars_drop [OF b] by blast
  assume "n \<le> length (rrb_content b)"
  then have "n \<le> length (rrb_read_window b)"
    using b by (simp add: rrb_chars_def rrb_content_def concat_singletons)
  then show "\<exists>b'. rrb_discard b n = Ret (n, b') \<and> rrb_chars b' \<and>
      rrb_content b' = drop n (rrb_content b)"
    using rrb_read_chars(2) [OF b] rrb_chars_drop [OF b] by (simp add: rrb_discard_def)
qed

interpretation rrbr: window_reader rrb_chars rrb_content rrb_readable_ranges "\<lambda>b r. concat r"
  by unfold_locales (auto simp: rrb_content_def rrb_readable_ranges_def)

interpretation wrb: fifo_writer wrb_inv wrb_content wrb_accepts wrb_write
  by unfold_locales (auto simp: range_buffer_defs min_def segment_extend_to)

interpretation wrbw: window_writer wrb_inv wrb_content wrb_writable_ranges wrb_poke range_len wrb_commit
  by unfold_locales (auto simp: range_buffer_defs min_def segment_extend_to)

subsection \<open>Properties\<close>

text \<open>Reading a range of one-byte elements through \<^verbatim>\<open>readable_range_buffer\<close> in two steps
  yields its bytes in order, and \<^verbatim>\<open>discard\<close> drops what \<^verbatim>\<open>read\<close> would return.\<close>

theorem readable_range_buffer_chars:
  assumes "\<forall>e \<in> set rng. length e = 1" "n \<le> length rng"
  shows "\<exists>b1 b2 b3. rrb_read (make_readable_range_buffer rng) n = Ret (take n (concat rng), b1) \<and>
    rrb_read b1 m = Ret (take m (drop n (concat rng)), b2) \<and>
    rrb_discard (make_readable_range_buffer rng) n = Ret (n, b3) \<and> rrb_content b3 = rrb_content b1"
proof -
  let ?b = "make_readable_range_buffer rng"
  have b: "rrb_chars ?b" "rrb_content ?b = concat rng"
    using assms(1) by (simp_all add: make_readable_range_buffer_def rrb_chars_def rrb_content_def)
  have n: "n \<le> length (rrb_content ?b)" using assms b(2) by (simp add: concat_singletons(1))
  from rrb.read_then_read [OF b(1), of n m] rrb.read_discard_same [OF b(1) n] b(2) n
  show ?thesis by force
qed

theorem readable_range_buffer_chars_witness:
  "\<exists>b1 b2 b3. rrb_read (make_readable_range_buffer [[1], [2], [3]]) 2 = Ret ([1, 2], b1) \<and>
    rrb_read b1 5 = Ret ([3], b2) \<and>
    rrb_discard (make_readable_range_buffer [[1], [2], [3]]) 2 = Ret (2, b3) \<and> rrb_content b3 = rrb_content b1"
  using readable_range_buffer_chars [of "[[1], [2], [3]]" 2 5] by simp

text \<open>With elements of \<open>k\<close> bytes each, \<^verbatim>\<open>read\<close> reports \<open>c\<close> elements read but copies only \<open>c\<close>
  bytes, the number of elements, so for \<open>k\<close> larger than one and anything to read part of the
  data is lost: the buffer drops \<open>c * k\<close> bytes.\<close>

theorem readable_range_buffer_wide:
  assumes "\<forall>e \<in> set rng. length e = k" "0 < k"
  shows "\<exists>out b'. rrb_read (make_readable_range_buffer rng) n = Ret (out, b') \<and>
    length out = rrb_read_count (make_readable_range_buffer rng) n \<and>
    length (rrb_content b') + rrb_read_count (make_readable_range_buffer rng) n * k = length (concat rng)"
proof -
  define c where "c = rrb_read_count (make_readable_range_buffer rng) n"
  have c: "c \<le> length rng" by (simp add: c_def rrb_read_count_def make_readable_range_buffer_def)
  have len: "length (concat es) = length es * k" if "\<forall>e \<in> set es. length e = k" for es :: "byte list list"
    using that by (induction es) auto
  have "\<forall>e \<in> set (take c rng). length e = k" using assms(1) by (auto dest: in_set_takeD)
  from len [OF this] c have taken: "length (concat (take c rng)) = c * k" by simp
  then have out: "length (take c (concat (take c rng))) = c" using assms(2) by simp
  have "concat rng = concat (take c rng) @ concat (drop c rng)"
    by (metis append_take_drop_id concat_append)
  then have total: "length (concat (drop c rng)) + c * k = length (concat rng)" using taken by simp
  have "rrb_read (make_readable_range_buffer rng) n =
      Ret (take c (concat (take c rng)), \<lparr>rrb_read_window = drop c rng\<rparr>)"
    using c unfolding rrb_read_def rrb_discard_def c_def [symmetric] Let_def
    by (simp add: make_readable_range_buffer_def)
  then show ?thesis using out total unfolding c_def [symmetric] by (auto simp: rrb_content_def)
qed

theorem readable_range_buffer_wide_witness:
  "\<exists>out b'. rrb_read (make_readable_range_buffer [[1, 2], [3, 4]]) 2 = Ret (out, b') \<and>
    length out = 2 \<and> length (rrb_content b') + 4 = 4"
  using readable_range_buffer_wide [of "[[1, 2], [3, 4]]" 2 2]
  by (simp add: rrb_read_count_def make_readable_range_buffer_def numeral_2_eq_2)

end
