(* ===== verification/Channel_IO.thy ===== *)
theory Channel_IO
  imports Memchannel Circular_Buffer Range_Buffer
begin

text \<open>
  \<^verbatim>\<open>channel/read.hxx\<close> and \<^verbatim>\<open>channel/write.hxx\<close>: the read and write functions over any
  channel and any range or buffer.

  The channel operation is an argument of each function. A destination range is its size and
  the result is the data stored at its start; a source range is its elements. A buffer is given
  by its operations, collected in \<open>wbuf\<close> (a writable buffer) and \<open>rbuf\<close> (a readable buffer).
  The limit \<open>n\<close> and the running totals are 64-bit unsigned numbers.

  The constraints of the templates are left to the uses. \<^verbatim>\<open>read_all\<close> and its coroutine require an
  \<^verbatim>\<open>oseqchannel\<close>, so they accept channels for both directions only, and are used on those here.

  Each coroutine differs from its synchronous twin in awaiting the channel's coroutine; its
  definition takes that coroutine's operation and is written out again.

  The loops of \<^verbatim>\<open>read_all\<close> and \<^verbatim>\<open>write_all\<close> go on for as long as the channel returns without
  an error, so they have fuel, one unit per call of the channel. On a channel that keeps the
  contract \<open>seq_reader\<close> or \<open>seq_writer\<close>, one unit more than the size of the range is enough.
\<close>

record ('b, 'r, 'a) wbuf =
  wb_writable_ranges :: "'b \<Rightarrow> ('r list \<times> 'b) run"
  wb_poke :: "'b \<Rightarrow> 'r \<Rightarrow> 'a list \<Rightarrow> 'b"
  wb_len :: "'r \<Rightarrow> nat"
  wb_commit :: "'b \<Rightarrow> nat \<Rightarrow> (nat \<times> 'b) run"

record ('b, 'r, 'a) rbuf =
  rb_readable_ranges :: "'b \<Rightarrow> 'r list run"
  rb_peek :: "'b \<Rightarrow> 'r \<Rightarrow> 'a list"
  rb_discard :: "'b \<Rightarrow> nat \<Rightarrow> (nat \<times> 'b) run"

subsection \<open>read_some\<close>

definition span_first :: "nat \<Rightarrow> nat \<Rightarrow> nat" where
  "span_first sz n = (if n < sz then n else sz)"

definition read_some :: "('c, 'a) read_op \<Rightarrow> 'c \<Rightarrow> nat \<Rightarrow> nat \<Rightarrow> (error_code + 'a list) \<times> 'c" where
  "read_some chan_read c sz n = chan_read c (span_first sz n)"

definition async_read_some :: "('c, 'a) read_op \<Rightarrow> 'c \<Rightarrow> nat \<Rightarrow> nat \<Rightarrow> (error_code + 'a list) \<times> 'c" where
  "async_read_some chan_async_read c sz n = chan_async_read c (span_first sz n)"

definition read_some_buffer ::
  "('c, 'a) read_op \<Rightarrow> ('b, 'r, 'a) wbuf \<Rightarrow> 'c \<Rightarrow> 'b \<Rightarrow> nat \<Rightarrow> ((error_code + nat) \<times> 'c \<times> 'b) run" where
  "read_some_buffer chan_read W c b n =
     bind_run (wb_writable_ranges W b) (\<lambda>(ranges, b).
       case ranges of
         [] \<Rightarrow> Ret (Inr 0, c, b)
       | first_range # _ \<Rightarrow>
           (case read_some chan_read c (wb_len W first_range) n of
              (Inl e, c) \<Rightarrow> Ret (Inl e, c, b)
            | (Inr xs, c) \<Rightarrow>
                bind_run (wb_commit W (wb_poke W b first_range xs) (length xs))
                  (\<lambda>(_, b). Ret (Inr (length xs), c, b))))"

definition async_read_some_buffer ::
  "('c, 'a) read_op \<Rightarrow> ('b, 'r, 'a) wbuf \<Rightarrow> 'c \<Rightarrow> 'b \<Rightarrow> nat \<Rightarrow> ((error_code + nat) \<times> 'c \<times> 'b) run" where
  "async_read_some_buffer chan_async_read W c b n =
     bind_run (wb_writable_ranges W b) (\<lambda>(ranges, b).
       case ranges of
         [] \<Rightarrow> Ret (Inr 0, c, b)
       | first_range # _ \<Rightarrow>
           (case async_read_some chan_async_read c (wb_len W first_range) n of
              (Inl e, c) \<Rightarrow> Ret (Inl e, c, b)
            | (Inr xs, c) \<Rightarrow>
                bind_run (wb_commit W (wb_poke W b first_range xs) (length xs))
                  (\<lambda>(_, b). Ret (Inr (length xs), c, b))))"

subsection \<open>read_some_at\<close>

definition read_some_at ::
  "(nat \<Rightarrow> ('c, 'a) read_op) \<Rightarrow> 'c \<Rightarrow> nat \<Rightarrow> nat \<Rightarrow> nat \<Rightarrow> (error_code + 'a list) \<times> 'c" where
  "read_some_at chan_read_at c loc sz n = chan_read_at loc c (span_first sz n)"

definition async_read_some_at ::
  "(nat \<Rightarrow> ('c, 'a) read_op) \<Rightarrow> 'c \<Rightarrow> nat \<Rightarrow> nat \<Rightarrow> nat \<Rightarrow> (error_code + 'a list) \<times> 'c" where
  "async_read_some_at chan_async_read_at c loc sz n = chan_async_read_at loc c (span_first sz n)"

definition read_some_at_buffer ::
  "(nat \<Rightarrow> ('c, 'a) read_op) \<Rightarrow> ('b, 'r, 'a) wbuf \<Rightarrow> 'c \<Rightarrow> nat \<Rightarrow> 'b \<Rightarrow> nat \<Rightarrow>
   ((error_code + nat) \<times> 'c \<times> 'b) run" where
  "read_some_at_buffer chan_read_at W c loc b n =
     bind_run (wb_writable_ranges W b) (\<lambda>(ranges, b).
       case ranges of
         [] \<Rightarrow> Ret (Inr 0, c, b)
       | first_range # _ \<Rightarrow>
           (case read_some_at chan_read_at c loc (wb_len W first_range) n of
              (Inl e, c) \<Rightarrow> Ret (Inl e, c, b)
            | (Inr xs, c) \<Rightarrow>
                bind_run (wb_commit W (wb_poke W b first_range xs) (length xs))
                  (\<lambda>(_, b). Ret (Inr (length xs), c, b))))"

definition async_read_some_at_buffer ::
  "(nat \<Rightarrow> ('c, 'a) read_op) \<Rightarrow> ('b, 'r, 'a) wbuf \<Rightarrow> 'c \<Rightarrow> nat \<Rightarrow> 'b \<Rightarrow> nat \<Rightarrow>
   ((error_code + nat) \<times> 'c \<times> 'b) run" where
  "async_read_some_at_buffer chan_async_read_at W c loc b n =
     bind_run (wb_writable_ranges W b) (\<lambda>(ranges, b).
       case ranges of
         [] \<Rightarrow> Ret (Inr 0, c, b)
       | first_range # _ \<Rightarrow>
           (case async_read_some_at chan_async_read_at c loc (wb_len W first_range) n of
              (Inl e, c) \<Rightarrow> Ret (Inl e, c, b)
            | (Inr xs, c) \<Rightarrow>
                bind_run (wb_commit W (wb_poke W b first_range xs) (length xs))
                  (\<lambda>(_, b). Ret (Inr (length xs), c, b))))"

subsection \<open>read_all\<close>

text \<open>The data read so far stands for \<^verbatim>\<open>nread\<close>, its length; \<^verbatim>\<open>subspan\<close> past the end of the
  span is undefined behaviour and aborts in the model.\<close>

fun read_all_loop ::
  "nat \<Rightarrow> ('c, 'a) read_op \<Rightarrow> 'c \<Rightarrow> nat \<Rightarrow> 'a list \<Rightarrow> ('a list \<times> error_code \<times> 'c) run" where
  "read_all_loop fuel chan_read c 0 acc = Ret (acc, make_error_code no_error, c)"
| "read_all_loop 0 chan_read c (Suc sz) acc = Diverge"
| "read_all_loop (Suc fuel) chan_read c (Suc sz) acc =
     (case chan_read c (Suc sz) of
        (Inl e, c) \<Rightarrow> Ret (acc, e, c)
      | (Inr xs, c) \<Rightarrow>
          sk_check (length xs \<le> Suc sz) ''subspan''
            (read_all_loop fuel chan_read c (Suc sz - length xs) (acc @ xs)))"

definition read_all ::
  "nat \<Rightarrow> ('c, 'a) read_op \<Rightarrow> 'c \<Rightarrow> nat \<Rightarrow> nat \<Rightarrow> ('a list \<times> error_code \<times> 'c) run" where
  "read_all fuel chan_read c sz n = read_all_loop fuel chan_read c (span_first sz n) []"

fun async_read_all_loop ::
  "nat \<Rightarrow> ('c, 'a) read_op \<Rightarrow> 'c \<Rightarrow> nat \<Rightarrow> 'a list \<Rightarrow> ('a list \<times> error_code \<times> 'c) run" where
  "async_read_all_loop fuel chan_async_read c 0 acc = Ret (acc, make_error_code no_error, c)"
| "async_read_all_loop 0 chan_async_read c (Suc sz) acc = Diverge"
| "async_read_all_loop (Suc fuel) chan_async_read c (Suc sz) acc =
     (case chan_async_read c (Suc sz) of
        (Inl e, c) \<Rightarrow> Ret (acc, e, c)
      | (Inr xs, c) \<Rightarrow>
          sk_check (length xs \<le> Suc sz) ''subspan''
            (async_read_all_loop fuel chan_async_read c (Suc sz - length xs) (acc @ xs)))"

definition async_read_all ::
  "nat \<Rightarrow> ('c, 'a) read_op \<Rightarrow> 'c \<Rightarrow> nat \<Rightarrow> nat \<Rightarrow> ('a list \<times> error_code \<times> 'c) run" where
  "async_read_all fuel chan_async_read c sz n =
     async_read_all_loop fuel chan_async_read c (span_first sz n) []"

fun read_all_ranges ::
  "nat \<Rightarrow> ('c, 'a) read_op \<Rightarrow> ('b, 'r, 'a) wbuf \<Rightarrow> 'c \<Rightarrow> 'b \<Rightarrow> 'r list \<Rightarrow> nat \<Rightarrow> nat \<Rightarrow> error_code \<Rightarrow>
   (nat \<times> error_code \<times> 'c \<times> 'b) run" where
  "read_all_ranges fuel chan_read W c b [] n nread ret = Ret (nread, ret, c, b)"
| "read_all_ranges fuel chan_read W c b (r # ranges) n nread ret =
     bind_run (read_all fuel chan_read c (wb_len W r) (sub64 n nread)) (\<lambda>(xs, ret, c).
       let b = wb_poke W b r xs; nread = add64 nread (length xs)
       in if length xs = 0 \<or> is_error ret \<or> nread = n then Ret (nread, ret, c, b)
          else read_all_ranges fuel chan_read W c b ranges n nread ret)"

definition read_all_buffer ::
  "nat \<Rightarrow> ('c, 'a) read_op \<Rightarrow> ('b, 'r, 'a) wbuf \<Rightarrow> 'c \<Rightarrow> 'b \<Rightarrow> nat \<Rightarrow> (nat \<times> error_code \<times> 'c \<times> 'b) run" where
  "read_all_buffer fuel chan_read W c b n =
     bind_run (wb_writable_ranges W b) (\<lambda>(ranges, b).
       bind_run (read_all_ranges fuel chan_read W c b ranges n 0 default_error_code)
         (\<lambda>(nread, ret, c, b).
            bind_run (wb_commit W b nread) (\<lambda>(_, b). Ret (nread, ret, c, b))))"

fun async_read_all_ranges ::
  "nat \<Rightarrow> ('c, 'a) read_op \<Rightarrow> ('b, 'r, 'a) wbuf \<Rightarrow> 'c \<Rightarrow> 'b \<Rightarrow> 'r list \<Rightarrow> nat \<Rightarrow> nat \<Rightarrow> error_code \<Rightarrow>
   (nat \<times> error_code \<times> 'c \<times> 'b) run" where
  "async_read_all_ranges fuel chan_async_read W c b [] n nread ret = Ret (nread, ret, c, b)"
| "async_read_all_ranges fuel chan_async_read W c b (r # ranges) n nread ret =
     bind_run (async_read_all fuel chan_async_read c (wb_len W r) (sub64 n nread)) (\<lambda>(xs, ret, c).
       let b = wb_poke W b r xs; nread = add64 nread (length xs)
       in if length xs = 0 \<or> is_error ret \<or> n = nread then Ret (nread, ret, c, b)
          else async_read_all_ranges fuel chan_async_read W c b ranges n nread ret)"

definition async_read_all_buffer ::
  "nat \<Rightarrow> ('c, 'a) read_op \<Rightarrow> ('b, 'r, 'a) wbuf \<Rightarrow> 'c \<Rightarrow> 'b \<Rightarrow> nat \<Rightarrow> (nat \<times> error_code \<times> 'c \<times> 'b) run" where
  "async_read_all_buffer fuel chan_async_read W c b n =
     bind_run (wb_writable_ranges W b) (\<lambda>(ranges, b).
       bind_run (async_read_all_ranges fuel chan_async_read W c b ranges n 0 default_error_code)
         (\<lambda>(nread, ret, c, b).
            bind_run (wb_commit W b nread) (\<lambda>(_, b). Ret (nread, ret, c, b))))"

subsection \<open>write_some\<close>

definition write_some :: "('c, 'a) write_op \<Rightarrow> 'c \<Rightarrow> 'a list \<Rightarrow> nat \<Rightarrow> (error_code + nat) \<times> 'c" where
  "write_some chan_write c rng n = chan_write c (if n < length rng then take n rng else rng)"

definition async_write_some :: "('c, 'a) write_op \<Rightarrow> 'c \<Rightarrow> 'a list \<Rightarrow> nat \<Rightarrow> (error_code + nat) \<times> 'c" where
  "async_write_some chan_async_write c rng n =
     chan_async_write c (if n < length rng then take n rng else rng)"

definition async_write_some_buffer ::
  "('c, 'a) write_op \<Rightarrow> ('b, 'r, 'a) rbuf \<Rightarrow> 'c \<Rightarrow> 'b \<Rightarrow> nat \<Rightarrow> ((error_code + nat) \<times> 'c \<times> 'b) run" where
  "async_write_some_buffer chan_async_write R c b n =
     bind_run (rb_readable_ranges R b) (\<lambda>ranges.
       case ranges of
         [] \<Rightarrow> Ret (Inr 0, c, b)
       | first_range # _ \<Rightarrow>
           let span = rb_peek R b first_range;
               span = (if n < length span then take n span else span)
           in (case async_write_some chan_async_write c span unlimited of
                 (Inl e, c) \<Rightarrow> Ret (Inl e, c, b)
               | (Inr nwritten, c) \<Rightarrow>
                   bind_run (rb_discard R b nwritten) (\<lambda>(_, b). Ret (Inr nwritten, c, b))))"

subsection \<open>write_all\<close>

fun write_all_loop ::
  "nat \<Rightarrow> ('c, 'a) write_op \<Rightarrow> 'c \<Rightarrow> 'a list \<Rightarrow> nat \<Rightarrow> (nat \<times> error_code \<times> 'c) run" where
  "write_all_loop fuel chan_write c [] nwritten = Ret (nwritten, make_error_code no_error, c)"
| "write_all_loop 0 chan_write c (x # xs) nwritten = Diverge"
| "write_all_loop (Suc fuel) chan_write c (x # xs) nwritten =
     (case chan_write c (x # xs) of
        (Inl e, c) \<Rightarrow> Ret (nwritten, e, c)
      | (Inr k, c) \<Rightarrow>
          sk_check (k \<le> length (x # xs)) ''subspan''
            (write_all_loop fuel chan_write c (drop k (x # xs)) (add64 nwritten k)))"

definition write_all ::
  "nat \<Rightarrow> ('c, 'a) write_op \<Rightarrow> 'c \<Rightarrow> 'a list \<Rightarrow> nat \<Rightarrow> (nat \<times> error_code \<times> 'c) run" where
  "write_all fuel chan_write c rng n =
     write_all_loop fuel chan_write c (if n < length rng then take n rng else rng) 0"

fun async_write_all_loop ::
  "nat \<Rightarrow> ('c, 'a) write_op \<Rightarrow> 'c \<Rightarrow> 'a list \<Rightarrow> nat \<Rightarrow> (nat \<times> error_code \<times> 'c) run" where
  "async_write_all_loop fuel chan_async_write c [] nwritten = Ret (nwritten, make_error_code no_error, c)"
| "async_write_all_loop 0 chan_async_write c (x # xs) nwritten = Diverge"
| "async_write_all_loop (Suc fuel) chan_async_write c (x # xs) nwritten =
     (case chan_async_write c (x # xs) of
        (Inl e, c) \<Rightarrow> Ret (nwritten, e, c)
      | (Inr k, c) \<Rightarrow>
          sk_check (k \<le> length (x # xs)) ''subspan''
            (async_write_all_loop fuel chan_async_write c (drop k (x # xs)) (add64 nwritten k)))"

definition async_write_all ::
  "nat \<Rightarrow> ('c, 'a) write_op \<Rightarrow> 'c \<Rightarrow> 'a list \<Rightarrow> nat \<Rightarrow> (nat \<times> error_code \<times> 'c) run" where
  "async_write_all fuel chan_async_write c rng n =
     async_write_all_loop fuel chan_async_write c (if n < length rng then take n rng else rng) 0"

fun write_all_ranges ::
  "nat \<Rightarrow> ('c, 'a) write_op \<Rightarrow> 'c \<Rightarrow> 'a list list \<Rightarrow> nat \<Rightarrow> nat \<Rightarrow> error_code \<Rightarrow>
   (nat \<times> error_code \<times> 'c) run" where
  "write_all_ranges fuel chan_write c [] n nwritten ret = Ret (nwritten, ret, c)"
| "write_all_ranges fuel chan_write c (rng # ranges) n nwritten ret =
     bind_run (write_all fuel chan_write c rng (sub64 n nwritten)) (\<lambda>(k, ret, c).
       let nwritten = add64 nwritten k
       in if k = 0 \<or> is_error ret \<or> nwritten = n then Ret (nwritten, ret, c)
          else write_all_ranges fuel chan_write c ranges n nwritten ret)"

definition write_all_buffer ::
  "nat \<Rightarrow> ('c, 'a) write_op \<Rightarrow> ('b, 'r, 'a) rbuf \<Rightarrow> 'c \<Rightarrow> 'b \<Rightarrow> nat \<Rightarrow> (nat \<times> error_code \<times> 'c \<times> 'b) run" where
  "write_all_buffer fuel chan_write R c b n =
     bind_run (rb_readable_ranges R b) (\<lambda>ranges.
       bind_run (write_all_ranges fuel chan_write c (map (rb_peek R b) ranges) n 0 default_error_code)
         (\<lambda>(nwritten, ret, c).
            bind_run (rb_discard R b nwritten) (\<lambda>(_, b). Ret (nwritten, ret, c, b))))"

fun async_write_all_ranges ::
  "nat \<Rightarrow> ('c, 'a) write_op \<Rightarrow> 'c \<Rightarrow> 'a list list \<Rightarrow> nat \<Rightarrow> nat \<Rightarrow> error_code \<Rightarrow>
   (nat \<times> error_code \<times> 'c) run" where
  "async_write_all_ranges fuel chan_async_write c [] n nwritten ret = Ret (nwritten, ret, c)"
| "async_write_all_ranges fuel chan_async_write c (rng # ranges) n nwritten ret =
     bind_run (async_write_all fuel chan_async_write c rng (sub64 n nwritten)) (\<lambda>(k, ret, c).
       let nwritten = add64 nwritten k
       in if k = 0 \<or> is_error ret \<or> nwritten = n then Ret (nwritten, ret, c)
          else async_write_all_ranges fuel chan_async_write c ranges n nwritten ret)"

definition async_write_all_buffer ::
  "nat \<Rightarrow> ('c, 'a) write_op \<Rightarrow> ('b, 'r, 'a) rbuf \<Rightarrow> 'c \<Rightarrow> 'b \<Rightarrow> nat \<Rightarrow> (nat \<times> error_code \<times> 'c \<times> 'b) run" where
  "async_write_all_buffer fuel chan_async_write R c b n =
     bind_run (rb_readable_ranges R b) (\<lambda>ranges.
       bind_run (async_write_all_ranges fuel chan_async_write c (map (rb_peek R b) ranges) n 0 default_error_code)
         (\<lambda>(nwritten, ret, c).
            bind_run (rb_discard R b nwritten) (\<lambda>(_, b). Ret (nwritten, ret, c, b))))"

subsection \<open>write_some_at\<close>

definition write_some_at ::
  "(nat \<Rightarrow> ('c, 'a) write_op) \<Rightarrow> 'c \<Rightarrow> nat \<Rightarrow> 'a list \<Rightarrow> nat \<Rightarrow> (error_code + nat) \<times> 'c" where
  "write_some_at chan_write_at c loc rng n = chan_write_at loc c (if n < length rng then take n rng else rng)"

definition async_write_some_at ::
  "(nat \<Rightarrow> ('c, 'a) write_op) \<Rightarrow> 'c \<Rightarrow> nat \<Rightarrow> 'a list \<Rightarrow> nat \<Rightarrow> (error_code + nat) \<times> 'c" where
  "async_write_some_at chan_async_write_at c loc rng n =
     chan_async_write_at loc c (if n < length rng then take n rng else rng)"

subsection \<open>The coroutines compute what their synchronous twins compute\<close>

lemma async_read_all_loop_eq: "async_read_all_loop fuel chan c sz acc = read_all_loop fuel chan c sz acc"
  by (induction fuel chan c sz acc rule: read_all_loop.induct) (auto split: sum.splits prod.splits simp: sk_check_def)

lemma async_read_all_eq: "async_read_all = read_all"
  by (intro ext) (simp add: async_read_all_def read_all_def async_read_all_loop_eq)

lemma async_read_all_ranges_eq:
  "async_read_all_ranges fuel chan W c b rs n nread ret = read_all_ranges fuel chan W c b rs n nread ret"
  by (induction rs arbitrary: c b nread ret) (simp_all add: async_read_all_eq eq_commute [of n] Let_def cong: if_cong)

lemma async_write_all_loop_eq: "async_write_all_loop fuel chan c xs k = write_all_loop fuel chan c xs k"
  by (induction fuel chan c xs k rule: write_all_loop.induct) (auto split: sum.splits prod.splits simp: sk_check_def)

lemma async_write_all_eq: "async_write_all = write_all"
  by (intro ext) (simp add: async_write_all_def write_all_def async_write_all_loop_eq)

lemma async_write_all_ranges_eq:
  "async_write_all_ranges fuel chan c rs n k ret = write_all_ranges fuel chan c rs n k ret"
  by (induction rs arbitrary: c k ret) (simp_all add: async_write_all_eq Let_def cong: if_cong)

lemmas async_eqs =
  async_read_all_eq async_read_all_ranges_eq async_write_all_eq async_write_all_ranges_eq

subsection \<open>read_all and write_all over a range\<close>

lemma span_first_min [simp]: "span_first sz n = min sz n"
  by (simp add: span_first_def min_def)

lemma take_or_all [simp]: "(if n < length xs then take n xs else xs) = take n xs"
  by simp

context seq_reader
begin

lemma read_all_loop_ok:
  assumes "inv c" "sz \<le> fuel"
  shows "\<exists>c'. read_all_loop fuel read_some c sz acc =
      Ret (acc @ take sz (stream c),
        if length (stream c) < sz then eof else make_error_code no_error, c') \<and>
    inv c' \<and> stream c' = drop sz (stream c)"
  using assms
proof (induction fuel arbitrary: c sz acc)
  case 0
  then show ?case by simp
next
  case (Suc fuel)
  show ?case
  proof (cases sz)
    case 0
    then show ?thesis using Suc.prems by simp
  next
    case sz: (Suc m)
    show ?thesis
    proof (cases "stream c = []")
      case True
      then show ?thesis using read_eof [OF Suc.prems(1) _ True, of "Suc m"] sz by auto
    next
      case False
      from read_progress [OF Suc.prems(1) _ False, of "Suc m"] obtain k c1 where
        k: "read_some c (Suc m) = (Inr (take k (stream c)), c1)" "0 < k" "k \<le> Suc m" "k \<le> length (stream c)"
        and c1: "inv c1" "stream c1 = drop k (stream c)" by auto
      have "Suc m - k \<le> fuel" using k Suc.prems(2) sz by simp
      from Suc.IH [OF c1(1) this, of "acc @ take k (stream c)"] obtain c2 where
        c2: "read_all_loop fuel read_some c1 (Suc m - k) (acc @ take k (stream c)) =
            Ret ((acc @ take k (stream c)) @ take (Suc m - k) (stream c1),
              if length (stream c1) < Suc m - k then eof else make_error_code no_error, c2)"
          "inv c2" "stream c2 = drop (Suc m - k) (stream c1)" by blast
      have join: "take k (stream c) @ take (Suc m - k) (drop k (stream c)) = take (Suc m) (stream c)"
        using k(3) by (metis le_add_diff_inverse take_add)
      have "length (stream c1) < Suc m - k \<longleftrightarrow> length (stream c) < Suc m"
        using c1(2) k(3,4) by auto
      with c2 k c1(2) sz join show ?thesis by (auto simp: min_def)
    qed
  qed
qed

lemma read_all_ok:
  assumes "inv c" "min sz n \<le> fuel"
  shows "\<exists>c'. read_all fuel read_some c sz n =
      Ret (take (min sz n) (stream c),
        if length (stream c) < min sz n then eof else make_error_code no_error, c') \<and>
    inv c' \<and> stream c' = drop (min sz n) (stream c)"
  using read_all_loop_ok [OF assms, of "[]"] by (simp add: read_all_def)

end

context seq_writer
begin

lemma write_all_loop_ok:
  assumes "inv c" "length xs \<le> fuel" "nw + length xs < 2 ^ 64"
  shows "\<exists>c'. write_all_loop fuel write_some c xs nw =
      Ret (nw + min (length xs) (space c),
        if space c < length xs then full else make_error_code no_error, c') \<and>
    inv c' \<and> sent c' = sent c @ take (space c) xs \<and> space c' = space c - length xs"
  using assms
proof (induction fuel arbitrary: c xs nw)
  case 0
  then show ?case by simp
next
  case (Suc fuel)
  show ?case
  proof (cases xs)
    case Nil
    then show ?thesis using Suc.prems by simp
  next
    case xs: (Cons y ys)
    show ?thesis
    proof (cases "space c = 0")
      case True
      then show ?thesis using write_full [OF Suc.prems(1) _ True, of xs] xs by auto
    next
      case False
      from write_progress [OF Suc.prems(1), of xs] False xs obtain k c1 where
        k: "write_some c xs = (Inr k, c1)" "0 < k" "k \<le> length xs" "k \<le> space c"
        and c1: "inv c1" "sent c1 = sent c @ take k xs" "space c1 = space c - k" by auto
      have le: "length (drop k xs) \<le> fuel" "nw + k + length (drop k xs) < 2 ^ 64"
        using k(2,3) Suc.prems(2,3) xs by auto
      from Suc.IH [OF c1(1) le] obtain c2 where
        c2: "write_all_loop fuel write_some c1 (drop k xs) (nw + k) =
            Ret (nw + k + min (length (drop k xs)) (space c1),
              if space c1 < length (drop k xs) then full else make_error_code no_error, c2)"
          "inv c2" "sent c2 = sent c1 @ take (space c1) (drop k xs)"
          "space c2 = space c1 - length (drop k xs)" by blast
      have "take k xs @ take (space c - k) (drop k xs) = take (space c) xs"
        using k(4) by (metis le_add_diff_inverse take_add)
      moreover have "k + min (length xs - k) (space c - k) = min (length xs) (space c)"
        using k(3,4) by simp
      moreover have "space c - k < length xs - k \<longleftrightarrow> space c < length xs" using k(3,4) by auto
      moreover have "add64 nw k = nw + k" using le(2) by (intro add64_small) simp
      ultimately show ?thesis using c2 k(1,3) c1 xs Suc.prems(3)
        by (simp add: add.assoc)
    qed
  qed
qed

lemma write_all_ok:
  assumes "inv c" "min (length xs) n \<le> fuel" "min (length xs) n < 2 ^ 64"
  shows "\<exists>c'. write_all fuel write_some c xs n =
      Ret (min (min (length xs) n) (space c),
        if space c < min (length xs) n then full else make_error_code no_error, c') \<and>
    inv c' \<and> sent c' = sent c @ take (space c) (take n xs) \<and> space c' = space c - min (length xs) n"
  using write_all_loop_ok [OF assms(1), of "take n xs" fuel 0] assms(2,3) by (simp add: write_all_def min.commute)

end

end
