(* ===== verification/Channel_Transfer.thy ===== *)
theory Channel_Transfer
  imports Channel_IO
begin

text \<open>
  What \<^verbatim>\<open>read_all\<close> and \<^verbatim>\<open>write_all\<close> do between a channel and a buffer, proved once for every
  channel that keeps the contract of \<open>seq_reader\<close> or \<open>seq_writer\<close> and every buffer that keeps
  the window contract, and then instantiated with memory channels and the buffers.
\<close>

subsection \<open>From a channel into a buffer\<close>

locale channel_to_buffer =
  seq_reader inv stream read_some eof +
  window_writer binv content "wb_writable_ranges W" "wb_poke W" "wb_len W" "wb_commit W"
  for inv :: "'c \<Rightarrow> bool" and stream :: "'c \<Rightarrow> 'a list" and read_some :: "('c, 'a) read_op" and eof
    and binv :: "'b \<Rightarrow> bool" and content :: "'b \<Rightarrow> 'a list" and W :: "('b, 'r, 'a) wbuf" +
  assumes poke_nothing: "wb_poke W b r [] = b"
    and ranges_nonempty: "binv b \<Longrightarrow> wb_writable_ranges W b = Ret (rs, b1) \<Longrightarrow>
      \<forall>r \<in> set (butlast rs). 0 < wb_len W r"
begin

lemma fill_none: "fill_ranges (wb_poke W) (wb_len W) b rs [] = b"
  by (rule fill_nothing) (rule poke_nothing)

lemma fill_one: "length xs \<le> wb_len W r \<Longrightarrow>
    fill_ranges (wb_poke W) (wb_len W) b (r # rs) xs = wb_poke W b r xs"
  by (simp add: fill_none)

lemma read_all_ranges_ok:
  assumes "inv c" "nread \<le> n" "n < 2 ^ 64" "sum_list (map (wb_len W) rs) \<le> fuel"
    "\<forall>r \<in> set (butlast rs). 0 < wb_len W r"
  defines "m \<equiv> min (n - nread) (sum_list (map (wb_len W) rs))"
  shows "\<exists>c'. read_all_ranges fuel read_some W c b rs n nread ret =
      Ret (nread + min m (length (stream c)),
        (if length (stream c) < m then eof else if rs = [] then ret else make_error_code no_error),
        c', fill_ranges (wb_poke W) (wb_len W) b rs (take m (stream c))) \<and>
    inv c' \<and> stream c' = drop m (stream c)"
  using assms(1-5) unfolding m_def
proof (induction rs arbitrary: c b nread ret)
  case Nil
  then show ?case by simp
next
  case (Cons r rs)
  define sz where "sz = min (wb_len W r) (n - nread)"
  have sub: "sub64 n nread = n - nread" using Cons.prems(2,3) by simp
  have "min (wb_len W r) (sub64 n nread) \<le> fuel" using Cons.prems(4) by auto
  from read_all_ok [OF Cons.prems(1) this] obtain c1 where
    c1: "read_all fuel read_some c (wb_len W r) (sub64 n nread) = Ret (take sz (stream c),
        if length (stream c) < sz then eof else make_error_code no_error, c1)"
      "inv c1" "stream c1 = drop sz (stream c)" unfolding sub sz_def [symmetric] by auto
  define xs where "xs = take sz (stream c)"
  have len: "length xs = min sz (length (stream c))" by (simp add: xs_def min.commute)
  have add: "add64 nread (length xs) = nread + length xs"
    using Cons.prems(2,3) len by (intro add64_small) (auto simp: sz_def)
  let ?m = "min (n - nread) (sum_list (map (wb_len W) (r # rs)))"
  have m_sz: "sz \<le> ?m" by (auto simp: sz_def)
  show ?case
  proof (cases "xs = [] \<or> length (stream c) < sz \<or> nread + length xs = n")
    case stop: True
    have eq: "take ?m (stream c) = xs \<and> length xs = min ?m (length (stream c)) \<and>
        (length (stream c) < ?m \<longleftrightarrow> length (stream c) < sz) \<and> drop ?m (stream c) = drop sz (stream c)"
    proof (cases "length (stream c) < sz")
      case True
      then show ?thesis using m_sz by (simp add: xs_def)
    next
      case False
      have "?m = sz"
      proof (cases "xs = []")
        case True
        then have "sz = 0" using False by (auto simp: xs_def)
        moreover have "?m = 0" if "wb_len W r = 0" using that Cons.prems(5) by (cases rs) auto
        ultimately show ?thesis unfolding sz_def by linarith
      next
        case ne: False
        then have "nread + sz = n" using stop False len by auto
        then show ?thesis by (auto simp: sz_def)
      qed
      then show ?thesis using False by (auto simp: xs_def min_def)
    qed
    have "fill_ranges (wb_poke W) (wb_len W) b (r # rs) xs = wb_poke W b r xs"
      using len by (intro fill_one) (auto simp: sz_def)
    then show ?thesis using stop eq c1 add by (auto simp: xs_def [symmetric] eof_error)
  next
    case False
    then have full: "length xs = sz" "sz = wb_len W r" "nread + sz < n" "sz \<le> length (stream c)"
      using len Cons.prems(2) by (auto simp: sz_def min_def split: if_splits)
    have pos: "\<forall>r \<in> set (butlast rs). 0 < wb_len W r" using Cons.prems(5) by (cases rs) auto
    have "nread + sz \<le> n" "sum_list (map (wb_len W) rs) \<le> fuel" using full Cons.prems(4) by auto
    from Cons.IH [OF c1(2) this(1) Cons.prems(3) this(2) pos, of "wb_poke W b r xs" "make_error_code no_error"]
    obtain c2 where c2: "read_all_ranges fuel read_some W c1 (wb_poke W b r xs) rs n (nread + sz) (make_error_code no_error) =
        Ret (nread + sz + min (min (n - (nread + sz)) (sum_list (map (wb_len W) rs))) (length (stream c1)),
          (if length (stream c1) < min (n - (nread + sz)) (sum_list (map (wb_len W) rs)) then eof
           else make_error_code no_error),
          c2, fill_ranges (wb_poke W) (wb_len W) (wb_poke W b r xs) rs
            (take (min (n - (nread + sz)) (sum_list (map (wb_len W) rs))) (stream c1)))"
      "inv c2" "stream c2 = drop (min (n - (nread + sz)) (sum_list (map (wb_len W) rs))) (stream c1)" by auto
    define m' where "m' = min (n - (nread + sz)) (sum_list (map (wb_len W) rs))"
    have m: "?m = sz + m'" using full by (auto simp: m'_def)
    have fill: "fill_ranges (wb_poke W) (wb_len W) b (r # rs) (take ?m (stream c)) =
        fill_ranges (wb_poke W) (wb_len W) (wb_poke W b r xs) rs (take m' (drop sz (stream c)))"
      unfolding m using full by (simp add: xs_def take_drop add.commute)
    have "read_all_ranges fuel read_some W c b (r # rs) n nread ret =
        read_all_ranges fuel read_some W c1 (wb_poke W b r xs) rs n (nread + sz) (make_error_code no_error)"
      using False c1(1) add full unfolding xs_def [symmetric] by (simp add: Let_def)
    moreover have "length (stream c) < ?m \<longleftrightarrow> length (stream c1) < m'"
      "nread + min ?m (length (stream c)) = nread + sz + min m' (length (stream c1))"
      "drop ?m (stream c) = drop m' (stream c1)"
      using c1(3) full(4) unfolding m by (auto simp: add.commute)
    ultimately show ?thesis
      using c2 unfolding fill m'_def [symmetric] c1(3) by auto
  qed
qed

lemma read_all_buffer_ok:
  assumes "inv c" "binv b" "n < 2 ^ 64" "wb_writable_ranges W b = Ret (rs, b1)"
    "sum_list (map (wb_len W) rs) \<le> fuel"
  defines "m \<equiv> min n (sum_list (map (wb_len W) rs))"
  shows "\<exists>c' b'. read_all_buffer fuel read_some W c b n =
      Ret (min m (length (stream c)),
        (if length (stream c) < m then eof else if rs = [] then default_error_code else make_error_code no_error),
        c', b') \<and>
    inv c' \<and> stream c' = drop m (stream c) \<and> binv b' \<and> content b' = content b @ take m (stream c)"
proof -
  have pos: "\<forall>r \<in> set (butlast rs). 0 < wb_len W r" by (rule ranges_nonempty [OF assms(2,4)])
  from read_all_ranges_ok [OF assms(1) _ assms(3,5) pos, of 0 b1 default_error_code] obtain c' where
    c': "read_all_ranges fuel read_some W c b1 rs n 0 default_error_code =
        Ret (min m (length (stream c)),
          (if length (stream c) < m then eof else if rs = [] then default_error_code else make_error_code no_error),
          c', fill_ranges (wb_poke W) (wb_len W) b1 rs (take m (stream c)))"
      "inv c'" "stream c' = drop m (stream c)" unfolding m_def by auto
  have "length (take m (stream c)) \<le> sum_list (map (wb_len W) rs)" by (simp add: m_def)
  from fill_commit [OF assms(2,4) this] c' assms(4) show ?thesis
    by (auto simp: read_all_buffer_def min.commute)
qed

end

subsection \<open>From a buffer into a channel\<close>

locale buffer_to_channel =
  seq_writer inv sent space write_some full +
  fifo_reader binv content read "rb_discard R"
  for inv :: "'c \<Rightarrow> bool" and sent :: "'c \<Rightarrow> 'a list" and space and write_some :: "('c, 'a) write_op" and full
    and binv :: "'b \<Rightarrow> bool" and content :: "'b \<Rightarrow> 'a list" and read and R :: "('b, 'r, 'a) rbuf" +
  assumes shows_prefix: "binv b \<Longrightarrow>
      \<exists>rs rest. rb_readable_ranges R b = Ret rs \<and> content b = concat (map (rb_peek R b) rs) @ rest \<and>
        (\<forall>r \<in> set (butlast rs). rb_peek R b r \<noteq> [])"
begin

lemma write_all_ranges_ok:
  assumes "inv c" "nw \<le> n" "n < 2 ^ 64" "length (concat rngs) \<le> fuel"
    "\<forall>r \<in> set (butlast rngs). r \<noteq> []"
  defines "m \<equiv> min (n - nw) (length (concat rngs))"
  shows "\<exists>c'. write_all_ranges fuel write_some c rngs n nw ret =
      Ret (nw + min m (space c),
        (if space c < m then full else if rngs = [] then ret else make_error_code no_error), c') \<and>
    inv c' \<and> sent c' = sent c @ take (min m (space c)) (concat rngs) \<and> space c' = space c - m"
  using assms(1-5) unfolding m_def
proof (induction rngs arbitrary: c nw ret)
  case Nil
  then show ?case by simp
next
  case (Cons r rs)
  define sz where "sz = min (length r) (n - nw)"
  have sub: "sub64 n nw = n - nw" using Cons.prems(2,3) by simp
  have "min (length r) (sub64 n nw) \<le> fuel" "min (length r) (sub64 n nw) < 2 ^ 64"
    using Cons.prems(3,4) sub by auto
  from write_all_ok [OF Cons.prems(1) this] obtain c1 where
    c1: "write_all fuel write_some c r (sub64 n nw) = Ret (min sz (space c),
        if space c < sz then full else make_error_code no_error, c1)"
      "inv c1" "sent c1 = sent c @ take (space c) (take (n - nw) r)" "space c1 = space c - sz"
    unfolding sub sz_def [symmetric] by auto
  define k where "k = min sz (space c)"
  have add: "add64 nw k = nw + k"
    using Cons.prems(2,3) by (intro add64_small) (auto simp: k_def sz_def)
  let ?m = "min (n - nw) (length (concat (r # rs)))"
  have m_sz: "sz \<le> ?m" by (auto simp: sz_def)
  have sent1: "take (space c) (take (n - nw) r) = take k r" by (simp add: k_def sz_def min_def)
  show ?case
  proof (cases "k = 0 \<or> space c < sz \<or> nw + k = n")
    case stop: True
    have eq: "min ?m (space c) = k \<and> (space c < ?m \<longleftrightarrow> space c < sz) \<and> space c - ?m = space c - sz"
    proof (cases "space c < sz")
      case True
      then show ?thesis using m_sz by (simp add: k_def)
    next
      case False
      have "?m = sz"
      proof (cases "k = 0")
        case True
        then have "sz = 0" using False by (auto simp: k_def)
        moreover have "?m = 0" if "r = []" using that Cons.prems(5) by (cases rs) auto
        ultimately show ?thesis unfolding sz_def
          by (cases "r = []") (auto simp: min_def split: if_splits)
      next
        case ne: False
        then have "nw + sz = n" using stop False by (auto simp: k_def)
        then show ?thesis by (auto simp: sz_def)
      qed
      then show ?thesis using False by (auto simp: k_def min_def)
    qed
    have "take k (concat (r # rs)) = take k r" by (simp add: k_def sz_def)
    with stop eq c1 sent1 add show ?thesis by (auto simp: k_def [symmetric] full_error Let_def)
  next
    case False
    then have fl: "k = sz" "sz = length r" "nw + sz < n" "sz \<le> space c"
      using Cons.prems(2) by (auto simp: k_def sz_def min_def split: if_splits)
    have pos: "\<forall>r \<in> set (butlast rs). r \<noteq> []" using Cons.prems(5) by (cases rs) auto
    have "nw + sz \<le> n" "length (concat rs) \<le> fuel" using fl Cons.prems(4) by auto
    from Cons.IH [OF c1(2) this(1) Cons.prems(3) this(2) pos, of "make_error_code no_error"] obtain c2 where
      c2: "write_all_ranges fuel write_some c1 rs n (nw + sz) (make_error_code no_error) =
          Ret (nw + sz + min (min (n - (nw + sz)) (length (concat rs))) (space c1),
            (if space c1 < min (n - (nw + sz)) (length (concat rs)) then full else make_error_code no_error), c2)"
        "inv c2" "sent c2 = sent c1 @ take (min (min (n - (nw + sz)) (length (concat rs))) (space c1)) (concat rs)"
        "space c2 = space c1 - min (n - (nw + sz)) (length (concat rs))" by auto
    define m' where "m' = min (n - (nw + sz)) (length (concat rs))"
    have m: "?m = sz + m'" using fl by (auto simp: m'_def)
    have "write_all_ranges fuel write_some c (r # rs) n nw ret =
        write_all_ranges fuel write_some c1 rs n (nw + sz) (make_error_code no_error)"
      using False c1(1) add fl by (auto simp: k_def [symmetric] Let_def)
    moreover have "space c < ?m \<longleftrightarrow> space c1 < m'" "nw + min ?m (space c) = nw + sz + min m' (space c1)"
      "space c - ?m = space c1 - m'" "min ?m (space c) = sz + min m' (space c1)"
      using c1(4) fl(4) unfolding m by auto
    moreover have "take (sz + j) (concat (r # rs)) = take k r @ take j (concat rs)" for j
      using fl by simp
    ultimately show ?thesis using c2 c1(3) sent1 unfolding m'_def [symmetric] by auto
  qed
qed

lemma write_all_buffer_ok:
  assumes "inv c" "binv b" "n < 2 ^ 64" "length (content b) \<le> fuel"
  shows "\<exists>rs ec c' b' m. rb_readable_ranges R b = Ret rs \<and>
    m = min (min n (length (concat (map (rb_peek R b) rs)))) (space c) \<and>
    write_all_buffer fuel write_some R c b n = Ret (m, ec, c', b') \<and>
    inv c' \<and> sent c' = sent c @ take m (content b) \<and> space c' = space c - m \<and>
    binv b' \<and> content b' = drop m (content b)"
proof -
  from shows_prefix [OF assms(2)] obtain rs rest where
    rs: "rb_readable_ranges R b = Ret rs" "content b = concat (map (rb_peek R b) rs) @ rest"
      "\<forall>r \<in> set (butlast rs). rb_peek R b r \<noteq> []" by blast
  let ?rngs = "map (rb_peek R b) rs"
  have "length (concat ?rngs) \<le> fuel" "\<forall>r \<in> set (butlast ?rngs). r \<noteq> []"
    using rs(2,3) assms(4) by (auto simp: map_butlast [symmetric])
  from write_all_ranges_ok [OF assms(1) _ assms(3) this, of 0 default_error_code] obtain ec c' where
    c': "write_all_ranges fuel write_some c ?rngs n 0 default_error_code =
        Ret (min (min n (length (concat ?rngs))) (space c), ec, c')"
      "inv c'" "sent c' = sent c @ take (min (min n (length (concat ?rngs))) (space c)) (concat ?rngs)"
      "space c' = space c - min n (length (concat ?rngs))" by auto
  define m where "m = min (min n (length (concat ?rngs))) (space c)"
  have m: "m \<le> length (concat ?rngs)" "m \<le> length (content b)" using rs(2) by (auto simp: m_def)
  have "take m (content b) = take m (concat ?rngs)" using m(1) rs(2) by simp
  moreover have "space c - min n (length (concat ?rngs)) = space c - m" by (auto simp: m_def)
  moreover from discard_fifo [OF assms(2) m(2)] obtain b' where
    "rb_discard R b m = Ret (m, b')" "binv b'" "content b' = drop m (content b)" by blast
  ultimately show ?thesis using rs(1) c' by (auto simp: write_all_buffer_def m_def)
qed

end


subsection \<open>Memory channels and the buffers\<close>

definition circular_wbuf :: "('a circular_buffer, range, 'a) wbuf" where
  "circular_wbuf = \<lparr>wb_writable_ranges = circular_buffer_writable_ranges, wb_poke = circular_buffer_poke,
     wb_len = range_len, wb_commit = circular_buffer_commit\<rparr>"

definition circular_rbuf :: "('a circular_buffer, range, 'a) rbuf" where
  "circular_rbuf = \<lparr>rb_readable_ranges = circular_buffer_readable_ranges, rb_peek = circular_buffer_peek,
     rb_discard = circular_buffer_discard\<rparr>"

definition fixed_wbuf :: "('a fixed_buffer, range, 'a) wbuf" where
  "fixed_wbuf = \<lparr>wb_writable_ranges = fixed_buffer_writable_ranges, wb_poke = fixed_buffer_poke,
     wb_len = range_len, wb_commit = fixed_buffer_commit\<rparr>"

definition fixed_rbuf :: "('a fixed_buffer, range, 'a) rbuf" where
  "fixed_rbuf = \<lparr>rb_readable_ranges = fixed_buffer_readable_ranges, rb_peek = fixed_buffer_peek,
     rb_discard = fixed_buffer_discard\<rparr>"

lemma wbuf_simps [simp]:
  "wb_writable_ranges circular_wbuf = circular_buffer_writable_ranges"
  "wb_poke circular_wbuf = circular_buffer_poke" "wb_len circular_wbuf = range_len"
  "wb_commit circular_wbuf = circular_buffer_commit"
  "wb_writable_ranges fixed_wbuf = fixed_buffer_writable_ranges"
  "wb_poke fixed_wbuf = fixed_buffer_poke" "wb_len fixed_wbuf = range_len"
  "wb_commit fixed_wbuf = fixed_buffer_commit"
  by (simp_all add: circular_wbuf_def fixed_wbuf_def)

lemma rbuf_simps [simp]:
  "rb_readable_ranges circular_rbuf = circular_buffer_readable_ranges"
  "rb_peek circular_rbuf = circular_buffer_peek" "rb_discard circular_rbuf = circular_buffer_discard"
  "rb_readable_ranges fixed_rbuf = fixed_buffer_readable_ranges"
  "rb_peek fixed_rbuf = fixed_buffer_peek" "rb_discard fixed_rbuf = fixed_buffer_discard"
  by (simp_all add: circular_rbuf_def fixed_rbuf_def)

interpretation mem_to_ring: channel_to_buffer memchannel_inv memchannel_stream memchannel_read_some
  "make_error_code end_of_file" circular_buffer_inv circular_buffer_content circular_wbuf
proof unfold_locales
  fix b :: "byte circular_buffer" and rs b1 r
  assume b: "circular_buffer_inv b"
  then show "returns (wb_writable_ranges circular_wbuf b)"
    using cbw.writable_returns by simp
  show "\<exists>b'. wb_commit circular_wbuf (fill_ranges (wb_poke circular_wbuf) (wb_len circular_wbuf) b1 rs xs) (length xs) =
      Ret (length xs, b') \<and> circular_buffer_inv b' \<and> circular_buffer_content b' = circular_buffer_content b @ xs"
    if "wb_writable_ranges circular_wbuf b = Ret (rs, b1)" "length xs \<le> sum_list (map (wb_len circular_wbuf) rs)"
    for xs
    using cbw.fill_commit [OF b] that by simp
  show "\<forall>r \<in> set (butlast rs). 0 < wb_len circular_wbuf r" if "wb_writable_ranges circular_wbuf b = Ret (rs, b1)"
    using that b
    by (auto simp: circular_buffer_writable_ranges_eq range_len_def circular_buffer_inv_def split: if_splits)
qed (simp add: circular_buffer_poke_def)

interpretation mem_to_fixed: channel_to_buffer memchannel_inv memchannel_stream memchannel_read_some
  "make_error_code end_of_file" fixed_buffer_inv fixed_buffer_content fixed_wbuf
proof unfold_locales
  fix b :: "byte fixed_buffer" and rs b1 r
  assume b: "fixed_buffer_inv b"
  then show "returns (wb_writable_ranges fixed_wbuf b)"
    using fbw.writable_returns by simp
  show "\<exists>b'. wb_commit fixed_wbuf (fill_ranges (wb_poke fixed_wbuf) (wb_len fixed_wbuf) b1 rs xs) (length xs) =
      Ret (length xs, b') \<and> fixed_buffer_inv b' \<and> fixed_buffer_content b' = fixed_buffer_content b @ xs"
    if "wb_writable_ranges fixed_wbuf b = Ret (rs, b1)" "length xs \<le> sum_list (map (wb_len fixed_wbuf) rs)"
    for xs
    using fbw.fill_commit [OF b] that by simp
  show "\<forall>r \<in> set (butlast rs). 0 < wb_len fixed_wbuf r" if "wb_writable_ranges fixed_wbuf b = Ret (rs, b1)"
    using that by (auto simp: fixed_buffer_defs)
qed (simp add: fixed_buffer_poke_def)

interpretation ring_to_mem: buffer_to_channel memchannel_inv memchannel_sent memchannel_space
  memchannel_write_some "make_error_code end_of_file" circular_buffer_inv circular_buffer_content
  circular_buffer_read circular_rbuf
proof unfold_locales
  fix b :: "byte circular_buffer"
  assume b: "circular_buffer_inv b"
  from circular_buffer_readable_ranges_content [OF b] obtain rs where
    rs: "circular_buffer_readable_ranges b = Ret rs"
      "concat (map (circular_buffer_peek b) rs) = circular_buffer_content b" by blast
  moreover have "\<forall>r \<in> set (butlast rs). circular_buffer_peek b r \<noteq> []"
    using rs(1) b
    by (auto simp: circular_buffer_readable_ranges_eq circular_buffer_peek_def circular_buffer_inv_def
        segment_def split: if_splits)
  ultimately show "\<exists>rs rest. rb_readable_ranges circular_rbuf b = Ret rs \<and>
      circular_buffer_content b = concat (map (rb_peek circular_rbuf b) rs) @ rest \<and>
      (\<forall>r \<in> set (butlast rs). rb_peek circular_rbuf b r \<noteq> [])" by auto
qed (simp_all add: cb.read_fifo cb.discard_fifo)

interpretation fixed_to_mem: buffer_to_channel memchannel_inv memchannel_sent memchannel_space
  memchannel_write_some "make_error_code end_of_file" fixed_buffer_inv fixed_buffer_content
  fixed_buffer_read fixed_rbuf
  by unfold_locales (simp_all add: fb.read_fifo fb.discard_fifo, auto simp: fixed_buffer_defs)

subsection \<open>Properties\<close>

text \<open>C3: \<^verbatim>\<open>read_all\<close> from a memory channel into a circular buffer with limit \<open>n\<close> moves exactly the
  first \<open>m\<close> bytes the channel still holds to the end of the buffer, where \<open>m\<close> is the smallest of
  \<open>n\<close>, the free room of the buffer and the bytes available; it returns \<open>m\<close>, and the end-of-file
  error exactly when the channel ran out before the limit and the room did.\<close>

theorem read_all_memchannel_ring:
  assumes "memchannel_inv c" "circular_buffer_inv b" "n < 2 ^ 64" "circular_buffer_room b \<le> fuel"
  shows "\<exists>ec c' b'. read_all_buffer fuel memchannel_read_some circular_wbuf c b n =
      Ret (min (min n (circular_buffer_room b)) (length (memchannel_stream c)), ec, c', b') \<and>
    (ec = make_error_code end_of_file \<longleftrightarrow>
       length (memchannel_stream c) < min n (circular_buffer_room b)) \<and>
    memchannel_stream c' = drop (min n (circular_buffer_room b)) (memchannel_stream c) \<and>
    circular_buffer_inv b' \<and>
    circular_buffer_content b' = circular_buffer_content b @
      take (min n (circular_buffer_room b)) (memchannel_stream c)"
proof -
  from circular_buffer_writable_ranges_room [OF assms(2)] obtain rs where
    "circular_buffer_writable_ranges b = Ret (rs, b)" "sum_list (map range_len rs) = circular_buffer_room b"
    by blast
  with mem_to_ring.read_all_buffer_ok [OF assms(1-3), of rs b fuel] assms(4) show ?thesis
    by (fastforce simp: default_error_code_def make_error_code_def)
qed

theorem read_all_memchannel_ring_witness:
  "\<exists>ec c' b'. read_all_buffer 2 memchannel_read_some circular_wbuf (memchannel_base [7, 8, 9])
      \<lparr>cb_data = [1, 2, 3, 4], cb_read_pointer = 2, cb_write_pointer = 3\<rparr> unlimited = Ret (2, ec, c', b') \<and>
    memchannel_stream c' = [9] \<and> circular_buffer_content b' = [3, 7, 8]"
proof -
  let ?b = "\<lparr>cb_data = [1, 2, 3, 4 :: byte], cb_read_pointer = 2, cb_write_pointer = 3\<rparr>"
  have b: "circular_buffer_inv ?b" by (simp add: circular_buffer_inv_def)
  moreover have "unlimited < 2 ^ 64" by (simp add: unlimited_def)
  moreover have "circular_buffer_room ?b = 2" using circular_buffer_room_eq [OF b] by simp
  moreover have "circular_buffer_content ?b = [3]" by (simp add: circular_buffer_content_def segment_def)
  moreover have "min unlimited 2 = 2" by (simp add: unlimited_def)
  ultimately show ?thesis
    using read_all_memchannel_ring [of "memchannel_base [7, 8, 9]" ?b unlimited 2] by auto
qed

text \<open>C4: \<^verbatim>\<open>write_all\<close> from a circular buffer to a memory channel with limit \<open>n\<close> writes exactly the
  first \<open>m\<close> bytes of the buffer behind what the channel holds already and removes exactly these
  from the buffer, where \<open>m\<close> is the smallest of \<open>n\<close>, the data in the buffer and the space left.\<close>

theorem write_all_ring_memchannel:
  assumes "memchannel_inv c" "circular_buffer_inv b" "n < 2 ^ 64" "length (circular_buffer_content b) \<le> fuel"
  shows "\<exists>ec c' b' m. m = min (min n (length (circular_buffer_content b))) (memchannel_space c) \<and>
    write_all_buffer fuel memchannel_write_some circular_rbuf c b n = Ret (m, ec, c', b') \<and>
    memchannel_inv c' \<and> memchannel_sent c' = memchannel_sent c @ take m (circular_buffer_content b) \<and>
    circular_buffer_inv b' \<and> circular_buffer_content b' = drop m (circular_buffer_content b)"
proof -
  from circular_buffer_readable_ranges_content [OF assms(2)] obtain rs where
    "circular_buffer_readable_ranges b = Ret rs"
    "concat (map (circular_buffer_peek b) rs) = circular_buffer_content b" by blast
  with ring_to_mem.write_all_buffer_ok [OF assms] show ?thesis by auto
qed

theorem write_all_ring_memchannel_witness:
  "\<exists>ec c' b'. write_all_buffer 3 memchannel_write_some circular_rbuf (memchannel_base [0, 0])
      \<lparr>cb_data = [1, 2, 3, 4], cb_read_pointer = 3, cb_write_pointer = 2\<rparr> unlimited = Ret (2, ec, c', b') \<and>
    memchannel_sent c' = [4, 1] \<and> circular_buffer_content b' = [2]"
proof -
  let ?b = "\<lparr>cb_data = [1, 2, 3, 4 :: byte], cb_read_pointer = 3, cb_write_pointer = 2\<rparr>"
  have b: "circular_buffer_inv ?b" by (simp add: circular_buffer_inv_def)
  moreover have "unlimited < 2 ^ 64" "\<not> unlimited \<le> 2" "min unlimited 3 = 3" by (simp_all add: unlimited_def)
  moreover have "circular_buffer_content ?b = [4, 1, 2]" by (simp add: circular_buffer_content_def segment_def)
  ultimately show ?thesis
    using write_all_ring_memchannel [of "memchannel_base [0, 0]" ?b unlimited 3]
    by (auto simp: numeral_3_eq_3 numeral_2_eq_2)
qed

text \<open>Written through a memory channel and read back: \<^verbatim>\<open>write_all\<close> of a range that fits stores
  it, and \<^verbatim>\<open>read_all\<close> of the same number of bytes from a channel on the same memory, positioned
  at the start, returns the range.\<close>

theorem memchannel_write_read_roundtrip:
  assumes "length xs \<le> length mem" "length mem < 2 ^ 64"
  shows "\<exists>c'. write_all (length xs) memchannel_write_some (memchannel_base mem) xs unlimited =
      Ret (length xs, make_error_code no_error, c') \<and>
    (\<exists>c''. read_all (length xs) memchannel_read_some (memchannel_base (mc_bytes c')) (length xs) unlimited =
      Ret (xs, make_error_code no_error, c''))"
proof -
  let ?c = "memchannel_base mem"
  have c: "memchannel_inv ?c" "memchannel_space ?c = length mem" "memchannel_sent ?c = []"
    using assms(2) by simp_all
  have lim: "length xs \<le> unlimited" using assms by (simp add: unlimited_def)
  have "min (length xs) unlimited \<le> length xs" "min (length xs) unlimited < 2 ^ 64" using assms by auto
  from mem_out.write_all_ok [OF c(1) this] obtain c' where
    w: "write_all (length xs) memchannel_write_some ?c xs unlimited = Ret (length xs, make_error_code no_error, c')"
      "memchannel_inv c'" "memchannel_sent c' = xs" using c assms lim by auto
  then obtain rest where bytes: "mc_bytes c' = xs @ rest"
    unfolding memchannel_sent_def by (metis append_take_drop_id)
  let ?d = "memchannel_base (mc_bytes c')"
  have d: "memchannel_inv ?d" "memchannel_stream ?d = xs @ rest"
    using w(2) bytes unfolding memchannel_base_simps by (simp_all add: memchannel_inv_def)
  from mem_in.read_all_ok [OF d(1), of "length xs" unlimited "length xs"] d(2) lim w(1) show ?thesis by auto
qed

theorem memchannel_write_read_roundtrip_witness:
  "\<exists>c'. write_all 2 memchannel_write_some (memchannel_base [0, 0, 0]) [5, 6] unlimited =
      Ret (2, make_error_code no_error, c') \<and>
    (\<exists>c''. read_all 2 memchannel_read_some (memchannel_base (mc_bytes c')) 2 unlimited =
      Ret ([5, 6], make_error_code no_error, c''))"
  using memchannel_write_read_roundtrip [of "[5, 6]" "[0, 0, 0]"] by (simp flip: numeral_2_eq_2)

text \<open>The coroutine functions compute the same results as their synchronous twins whenever the
  channel's coroutine computes what its synchronous operation computes, as it does for memory
  channels.\<close>

theorem async_twins_agree:
  "async_read_all_buffer fuel memchannel_async_read_some W c b n =
     read_all_buffer fuel memchannel_read_some W c b n \<and>
   async_read_some_buffer memchannel_async_read_some W c b n = read_some_buffer memchannel_read_some W c b n \<and>
   async_read_some_at_buffer memchannel_async_read_some_at W c loc b n =
     read_some_at_buffer memchannel_read_some_at W c loc b n \<and>
   async_write_all_buffer fuel memchannel_async_write_some R c b' n =
     write_all_buffer fuel memchannel_write_some R c b' n"
proof -
  have same: "memchannel_async_read_some = memchannel_read_some"
    "memchannel_async_read_some_at = memchannel_read_some_at"
    "memchannel_async_write_some = memchannel_write_some"
    by (simp_all add: fun_eq_iff memchannel_async_read_some_def memchannel_async_read_some_at_def
        memchannel_async_write_some_def)
  show ?thesis
    unfolding same async_read_all_buffer_def read_all_buffer_def async_read_some_buffer_def
      read_some_buffer_def async_read_some_at_buffer_def read_some_at_buffer_def
      async_write_all_buffer_def write_all_buffer_def async_eqs async_read_some_def read_some_def
      async_read_some_at_def read_some_at_def by simp
qed

end
