(* ===== verification/Dynamic_Buffer.thy ===== *)
theory Dynamic_Buffer
  imports Buffer_Interface Static_Vector
begin

text \<open>
  \<^verbatim>\<open>buffer/dynamic_buffer.hxx\<close>: a buffer made of a linked list of extents.

  The extents live in an explicit store, \<open>db_heap\<close>: a cell is \<open>Some e\<close> while the extent
  is allocated and \<open>None\<close> once it is deleted; a pointer is the index of its cell, the null
  pointer is \<open>None\<close>. Inside an extent the read and write pointers are indices into its array.
  \<open>db_xsize\<close> and \<open>db_max_ranges\<close> are the template parameters (the static assertion of the
  header makes \<open>db_xsize\<close> positive) and \<open>db_indet\<close> stands for the indeterminate contents
  of a new array. Following a null or deleted pointer aborts in the model.

  The checks named \<^verbatim>\<open>dsize overflow\<close> concern the addresses of the caller's array, which a real
  array never violates. Loops have fuel: one iteration per remaining object and one to leave the loop, which the
  theorems show to be enough.
\<close>

subsection \<open>Extents\<close>

record 'a extent =
  x_next :: "nat option"
  x_read_pointer :: nat
  x_write_pointer :: nat
  x_data :: "'a list"

definition x_new :: "nat \<Rightarrow> 'a \<Rightarrow> 'a extent" where
  "x_new xsize indet =
     \<lparr>x_next = None, x_read_pointer = 0, x_write_pointer = 0, x_data = replicate xsize indet\<rparr>"

definition x_readable :: "'a extent \<Rightarrow> nat" where
  "x_readable e = x_write_pointer e - x_read_pointer e"

definition x_empty :: "'a extent \<Rightarrow> bool" where
  "x_empty e \<longleftrightarrow> x_write_pointer e = 0"

definition x_writable :: "'a extent \<Rightarrow> nat" where
  "x_writable e = length (x_data e) - x_write_pointer e"

definition x_dead :: "'a extent \<Rightarrow> bool" where
  "x_dead e \<longleftrightarrow> x_readable e = 0 \<and> x_writable e = 0"

definition x_clear :: "'a extent \<Rightarrow> 'a extent" where
  "x_clear e = e\<lparr>x_read_pointer := 0, x_write_pointer := 0\<rparr>"

text \<open>The extent sizes the templates compute, with 8-byte pointers, in \<^verbatim>\<open>std::size_t\<close>
  arithmetic: \<open>extent_capacity\<close> is \<^verbatim>\<open>xsize\<close>. The number of bytes passes through an \<^verbatim>\<open>int\<close>.\<close>

definition extent_size_from_bytes :: "nat \<Rightarrow> 32 word \<Rightarrow> nat" where
  "extent_size_from_bytes char_size nbytes =
     add64 (sub64 (unat (scast nbytes :: 64 word)) (8 * 3) div char_size) (8 * 3)"

definition dynamic_buffer_size :: "nat \<Rightarrow> nat" where
  "dynamic_buffer_size n = add64 n (8 * 3)"

definition extent_capacity :: "nat \<Rightarrow> nat \<Rightarrow> nat" where
  "extent_capacity char_size extent_bytes = sub64 (extent_size_from_bytes char_size (word_of_nat extent_bytes)) (8 + 8 + 8)"

subsection \<open>The buffer and its store\<close>

record 'a dynamic_buffer =
  db_heap :: "'a extent option list"
  db_head :: "nat option"
  db_tail :: "nat option"
  db_xsize :: nat
  db_max_ranges :: nat
  db_indet :: 'a

definition deref :: "'a extent option list \<Rightarrow> nat option \<Rightarrow> (nat \<times> 'a extent) run" where
  "deref heap p =
     (case p of None \<Rightarrow> Abort ''null pointer''
      | Some a \<Rightarrow>
          if a < length heap
          then (case heap ! a of None \<Rightarrow> Abort ''dangling pointer'' | Some e \<Rightarrow> Ret (a, e))
          else Abort ''dangling pointer'')"

definition db_store :: "'a dynamic_buffer \<Rightarrow> nat \<Rightarrow> 'a extent \<Rightarrow> 'a dynamic_buffer" where
  "db_store b a e = b\<lparr>db_heap := (db_heap b)[a := Some e]\<rparr>"

text \<open>\<^verbatim>\<open>dynamic_buffer()\<close>\<close>

definition dynamic_buffer_new :: "nat \<Rightarrow> nat \<Rightarrow> 'a \<Rightarrow> 'a dynamic_buffer" where
  "dynamic_buffer_new xsize max_ranges indet =
     \<lparr>db_heap = [Some (x_new xsize indet)], db_head = Some 0, db_tail = Some 0,
      db_xsize = xsize, db_max_ranges = max_ranges, db_indet = indet\<rparr>"

definition db_make_tail :: "'a dynamic_buffer \<Rightarrow> 'a dynamic_buffer run" where
  "db_make_tail b =
     bind_run (deref (db_heap b) (db_tail b)) (\<lambda>(t, te).
       if x_next te \<noteq> None
       then bind_run (deref (db_heap b) (x_next te)) (\<lambda>(n, ne).
              sk_check (x_empty ne)
                ''INTERNAL ERROR: dynamic_buffer::_make_tail: next tail not empty''
                (Ret (b\<lparr>db_tail := x_next te\<rparr>)))
       else let a = length (db_heap b);
                new_tail = (x_new (db_xsize b) (db_indet b))\<lparr>x_next := x_next te\<rparr>
            in Ret (b\<lparr>db_heap := (db_heap b @ [Some new_tail])[t := Some (te\<lparr>x_next := Some a\<rparr>)],
                      db_tail := Some a\<rparr>))"

definition db_kill_head :: "'a dynamic_buffer \<Rightarrow> 'a dynamic_buffer run" where
  "db_kill_head b =
     bind_run (deref (db_heap b) (db_head b)) (\<lambda>(h, he).
       sk_check (x_dead he)
         ''INTERNAL ERROR: dynamic_buffer::_kill_head() trying to remove active head''
         (sk_check (db_head b \<noteq> db_tail b)
           ''INTERNAL ERROR: dynamic_buffer::_kill_head() trying to remove our only head''
           (bind_run (deref (db_heap b) (db_tail b)) (\<lambda>(t, te).
              let b1 = (db_store b t (te\<lparr>x_next := Some h\<rparr>))\<lparr>db_head := x_next he\<rparr>
              in Ret (db_store b1 h (x_clear (he\<lparr>x_next := x_next te\<rparr>)))))))"

text \<open>\<^verbatim>\<open>if (_head->dead()) ...\<close>, shared by \<^verbatim>\<open>read\<close> and \<^verbatim>\<open>discard\<close>; \<open>he\<close> is the head
  extent after its read pointer moved.\<close>

definition db_retire_head :: "'a dynamic_buffer \<Rightarrow> nat \<Rightarrow> 'a extent \<Rightarrow> 'a dynamic_buffer run" where
  "db_retire_head b h he =
     (if x_dead he
      then if db_head b \<noteq> db_tail b then db_kill_head b
           else Ret (db_store b h (x_clear he))
      else Ret b)"

text \<open>\<^verbatim>\<open>delete _head\<close>: the destructor of an extent deletes the next one first.\<close>

fun db_delete :: "nat \<Rightarrow> 'a extent option list \<Rightarrow> nat option \<Rightarrow> 'a extent option list run" where
  "db_delete 0 heap p = Diverge"
| "db_delete (Suc fuel) heap None = Ret heap"
| "db_delete (Suc fuel) heap (Some a) =
     bind_run (deref heap (Some a)) (\<lambda>(a, e).
       bind_run (db_delete fuel heap (x_next e)) (\<lambda>heap'. Ret (heap'[a := None])))"

definition db_xfree :: "'a dynamic_buffer \<Rightarrow> 'a dynamic_buffer run" where
  "db_xfree b =
     bind_run (db_delete (Suc (length (db_heap b))) (db_heap b) (db_head b))
       (\<lambda>heap. Ret (b\<lparr>db_heap := heap, db_head := None, db_tail := None\<rparr>))"

text \<open>Move construction: the new buffer takes the pointers, the source keeps null pointers.\<close>

definition dynamic_buffer_move ::
  "'a dynamic_buffer \<Rightarrow> 'a dynamic_buffer \<times> 'a dynamic_buffer" where
  "dynamic_buffer_move other = (other, other\<lparr>db_head := None, db_tail := None\<rparr>)"

text \<open>Move assignment; the two buffers' extents live in one store. The C++ function has no
  return statement, so only its effect on the buffers is modelled.\<close>

definition dynamic_buffer_move_assign ::
  "'a dynamic_buffer \<Rightarrow> 'a dynamic_buffer \<Rightarrow> ('a dynamic_buffer \<times> 'a dynamic_buffer) run" where
  "dynamic_buffer_move_assign this other =
     bind_run (db_xfree this) (\<lambda>this.
       Ret (this\<lparr>db_head := db_head other, db_tail := db_tail other\<rparr>,
            other\<lparr>db_heap := db_heap this, db_head := None, db_tail := None\<rparr>))"

subsection \<open>Writing and reading\<close>

fun db_write_loop :: "nat \<Rightarrow> 'a dynamic_buffer \<Rightarrow> 'a list \<Rightarrow> (nat \<times> 'a dynamic_buffer) run" where
  "db_write_loop 0 b xs = Diverge"
| "db_write_loop (Suc fuel) b xs =
     (if xs = [] then Ret (0, b)
      else bind_run (deref (db_heap b) (db_tail b)) (\<lambda>(_, te).
           bind_run (if x_writable te = 0 then db_make_tail b else Ret b) (\<lambda>b.
           bind_run (deref (db_heap b) (db_tail b)) (\<lambda>(t, te).
             let wr = min (length xs) (x_writable te) in
             sk_check (x_write_pointer te + wr \<le> length (x_data te) \<and> wr \<le> length xs)
               ''INTERNAL ERROR: dynamic_buffer: write: overflow''
               (bind_run
                 (db_write_loop fuel
                   (db_store b t (te\<lparr>x_data := copy_at (x_data te) (x_write_pointer te) (take wr xs),
                                     x_write_pointer := x_write_pointer te + wr\<rparr>))
                   (drop wr xs))
                 (\<lambda>(n, b). Ret (wr + n, b)))))))"

definition dynamic_buffer_write ::
  "'a dynamic_buffer \<Rightarrow> 'a list \<Rightarrow> (nat \<times> 'a dynamic_buffer) run" where
  "dynamic_buffer_write b xs =
     bind_run (db_write_loop (Suc (length xs)) b xs) (\<lambda>(n, b).
       sk_check (n = length xs) ''dynamic_buffer::write(): short write'' (Ret (length xs, b)))"

fun db_read_loop :: "nat \<Rightarrow> 'a dynamic_buffer \<Rightarrow> nat \<Rightarrow> ('a list \<times> 'a dynamic_buffer) run" where
  "db_read_loop 0 b n = Diverge"
| "db_read_loop (Suc fuel) b n =
     (if n = 0 then Ret ([], b)
      else bind_run (deref (db_heap b) (db_head b)) (\<lambda>(h, he).
        sk_check (\<not> x_dead he) ''INTERNAL ERROR: dynamic_buffer::read: unexpected dead head''
        (if x_readable he = 0 then Ret ([], b)
         else let rd = min n (x_readable he);
                  he' = he\<lparr>x_read_pointer := x_read_pointer he + rd\<rparr>
              in sk_check (x_read_pointer he + rd \<le> x_write_pointer he \<and> rd \<le> n)
                   ''INTERNAL ERROR: dynamic_buffer: read: overflow''
                   (bind_run (db_retire_head (db_store b h he') h he') (\<lambda>b.
                    bind_run (db_read_loop fuel b (n - rd)) (\<lambda>(out, b).
                      Ret (segment (x_data he) (x_read_pointer he) (x_read_pointer he + rd) @ out, b)))))))"

definition dynamic_buffer_read ::
  "'a dynamic_buffer \<Rightarrow> nat \<Rightarrow> ('a list \<times> 'a dynamic_buffer) run" where
  "dynamic_buffer_read b n = db_read_loop (Suc n) b n"

fun db_discard_loop :: "nat \<Rightarrow> 'a dynamic_buffer \<Rightarrow> nat \<Rightarrow> (nat \<times> 'a dynamic_buffer) run" where
  "db_discard_loop 0 b left = Diverge"
| "db_discard_loop (Suc fuel) b left =
     (if left = 0 then Ret (0, b)
      else bind_run (deref (db_heap b) (db_head b)) (\<lambda>(h, he).
        sk_check (0 < x_readable he) ''INTERNAL ERROR: dynamic_buffer::discard: unreadable head''
        (let candisc = min left (x_readable he);
             he' = he\<lparr>x_read_pointer := x_read_pointer he + candisc\<rparr>
         in bind_run (db_retire_head (db_store b h he') h he') (\<lambda>b.
              db_discard_loop fuel b (left - candisc)))))"

definition dynamic_buffer_discard ::
  "'a dynamic_buffer \<Rightarrow> nat \<Rightarrow> (nat \<times> 'a dynamic_buffer) run" where
  "dynamic_buffer_discard b n =
     bind_run (db_discard_loop (Suc n) b n) (\<lambda>(left, b). Ret (n - left, b))"

subsection \<open>Ranges\<close>

text \<open>A range is an extent with a first and a past-the-end index.\<close>

type_synonym xrange = "nat \<times> nat \<times> nat"

definition xrange_len :: "xrange \<Rightarrow> nat" where
  "xrange_len r = snd (snd r) - fst (snd r)"

definition db_ensure_minfree :: "'a dynamic_buffer \<Rightarrow> 'a dynamic_buffer run" where
  "db_ensure_minfree b =
     bind_run (deref (db_heap b) (db_tail b)) (\<lambda>(t, te).
       if x_empty te then Ret b
       else if x_next te \<noteq> None
       then bind_run (deref (db_heap b) (x_next te)) (\<lambda>(n, ne).
              sk_check (x_empty ne)
                ''INTERNAL ERROR: dynamic_buffer::_ensure_minfree: next tail not empty''
                (Ret b))
       else db_make_tail b)"

fun db_writable_loop ::
  "nat \<Rightarrow> 'a dynamic_buffer \<Rightarrow> xrange trivial_vector \<Rightarrow> nat option \<Rightarrow> xrange trivial_vector run" where
  "db_writable_loop 0 b ret tptr = Diverge"
| "db_writable_loop (Suc fuel) b ret tptr =
     (if tv_size ret = length (tv_data ret) then Ret ret
      else if tptr = None then Ret ret
      else bind_run (deref (db_heap b) tptr) (\<lambda>(t, te).
        sk_check (0 < x_writable te)
          ''INTERNAL ERROR: dynamic_buffer::writable_ranges: unexpected full tail''
          (bind_run (tv_push_back ret (t, x_write_pointer te, length (x_data te)))
            (\<lambda>ret. db_writable_loop fuel b ret (x_next te)))))"

definition dynamic_buffer_writable_ranges ::
  "'a dynamic_buffer \<Rightarrow> (xrange list \<times> 'a dynamic_buffer) run" where
  "dynamic_buffer_writable_ranges b =
     bind_run (db_ensure_minfree b) (\<lambda>b.
       sk_check (db_tail b \<noteq> None) ''INTERNAL ERROR: dynamic_buffer::writable_ranges: no tail?''
         (bind_run (db_writable_loop (Suc (db_max_ranges b)) b
             (tv_empty (replicate (db_max_ranges b) (0, 0, 0))) (db_tail b))
           (\<lambda>ret. Ret (tv_list ret, b))))"

fun db_commit_loop :: "nat \<Rightarrow> 'a dynamic_buffer \<Rightarrow> nat \<Rightarrow> (nat \<times> 'a dynamic_buffer) run" where
  "db_commit_loop 0 b cn = Diverge"
| "db_commit_loop (Suc fuel) b cn =
     (if cn = 0 then Ret (0, b)
      else bind_run (deref (db_heap b) (db_tail b)) (\<lambda>(_, te).
           bind_run
             (if x_writable te = 0
              then sk_check (x_next te \<noteq> None) ''dynamic_buffer::commit(): no tail''
                     (Ret (b\<lparr>db_tail := x_next te\<rparr>))
              else Ret b) (\<lambda>b.
           bind_run (deref (db_heap b) (db_tail b)) (\<lambda>(t, te).
             let cancommit = min cn (x_writable te)
             in db_commit_loop fuel
                  (db_store b t (te\<lparr>x_write_pointer := x_write_pointer te + cancommit\<rparr>))
                  (cn - cancommit)))))"

definition dynamic_buffer_commit ::
  "'a dynamic_buffer \<Rightarrow> nat \<Rightarrow> (nat \<times> 'a dynamic_buffer) run" where
  "dynamic_buffer_commit b n =
     bind_run (db_commit_loop (Suc n) b n) (\<lambda>(cn, b).
       sk_check (cn = 0) ''dynamic_buffer::commit(): short commit'' (Ret (n - cn, b)))"

fun db_readable_loop ::
  "nat \<Rightarrow> 'a dynamic_buffer \<Rightarrow> xrange trivial_vector \<Rightarrow> nat option \<Rightarrow> xrange trivial_vector run" where
  "db_readable_loop 0 b ret hptr = Diverge"
| "db_readable_loop (Suc fuel) b ret hptr =
     (if tv_size ret < length (tv_data ret)
      then bind_run (deref (db_heap b) (db_head b)) (\<lambda>(_, head).
        sk_check (0 < x_readable head)
          ''INTERNAL ERROR: dynamic_buffer::readable_ranges: unreadable head''
          (bind_run (deref (db_heap b) hptr) (\<lambda>(h, he).
           bind_run (tv_push_back ret (h, x_read_pointer he, x_write_pointer he)) (\<lambda>ret.
             if x_next he = None then Ret ret else db_readable_loop fuel b ret (x_next he)))))
      else Ret ret)"

definition dynamic_buffer_readable_ranges :: "'a dynamic_buffer \<Rightarrow> xrange list run" where
  "dynamic_buffer_readable_ranges b =
     bind_run (db_readable_loop (Suc (db_max_ranges b)) b
         (tv_empty (replicate (db_max_ranges b) (0, 0, 0))) (db_head b))
       (\<lambda>ret. Ret (tv_list ret))"

subsection \<open>Paths through the store\<close>

definition valid_ref :: "'a extent option list \<Rightarrow> nat \<Rightarrow> bool" where
  "valid_ref heap a \<longleftrightarrow> a < length heap \<and> heap ! a \<noteq> None"

definition ext :: "'a extent option list \<Rightarrow> nat \<Rightarrow> 'a extent" where
  "ext heap a = the (heap ! a)"

text \<open>\<open>xpath heap p as q\<close>: following \<^verbatim>\<open>next\<close> from \<open>p\<close> visits \<open>as\<close> and arrives at \<open>q\<close>.\<close>

fun xpath :: "'a extent option list \<Rightarrow> nat option \<Rightarrow> nat list \<Rightarrow> nat option \<Rightarrow> bool" where
  "xpath heap p [] q \<longleftrightarrow> p = q"
| "xpath heap p (a # as) q \<longleftrightarrow> p = Some a \<and> valid_ref heap a \<and> xpath heap (x_next (ext heap a)) as q"

fun xwalk :: "nat \<Rightarrow> 'a extent option list \<Rightarrow> nat option \<Rightarrow> nat list" where
  "xwalk 0 heap p = []"
| "xwalk (Suc fuel) heap None = []"
| "xwalk (Suc fuel) heap (Some a) =
     (if a < length heap
      then (case heap ! a of None \<Rightarrow> [] | Some e \<Rightarrow> a # xwalk fuel heap (x_next e))
      else [])"

text \<open>The readable data: what the extents hold, from the head on.\<close>

definition x_content :: "'a extent \<Rightarrow> 'a list" where
  "x_content e = segment (x_data e) (x_read_pointer e) (x_write_pointer e)"

definition dynamic_buffer_content :: "'a dynamic_buffer \<Rightarrow> 'a list" where
  "dynamic_buffer_content b =
     concat (map (\<lambda>a. x_content (ext (db_heap b) a)) (xwalk (length (db_heap b)) (db_heap b) (db_head b)))"

text \<open>The invariant of the header comment: extents before the tail are full and not read
  to the end, the tail is not dead, extents after it are empty.\<close>

definition x_full :: "nat \<Rightarrow> 'a extent \<Rightarrow> bool" where
  "x_full n e \<longleftrightarrow> length (x_data e) = n \<and> x_write_pointer e = n \<and> x_read_pointer e < n"

definition x_active :: "nat \<Rightarrow> 'a extent \<Rightarrow> bool" where
  "x_active n e \<longleftrightarrow> length (x_data e) = n \<and> x_write_pointer e \<le> n \<and>
     x_read_pointer e \<le> x_write_pointer e \<and> x_read_pointer e < n"

definition x_spare :: "nat \<Rightarrow> 'a extent \<Rightarrow> bool" where
  "x_spare n e \<longleftrightarrow> length (x_data e) = n \<and> x_write_pointer e = 0 \<and> x_read_pointer e = 0"

definition db_shape :: "'a dynamic_buffer \<Rightarrow> nat list \<Rightarrow> nat \<Rightarrow> nat list \<Rightarrow> bool" where
  "db_shape b bs t cs \<longleftrightarrow>
     xpath (db_heap b) (db_head b) (bs @ t # cs) None \<and> distinct (bs @ t # cs) \<and>
     db_tail b = Some t \<and> 0 < db_xsize b \<and>
     (\<forall>a \<in> set bs. x_full (db_xsize b) (ext (db_heap b) a)) \<and>
     x_active (db_xsize b) (ext (db_heap b) t) \<and>
     (\<forall>a \<in> set cs. x_spare (db_xsize b) (ext (db_heap b) a))"

definition dynamic_buffer_inv :: "'a dynamic_buffer \<Rightarrow> bool" where
  "dynamic_buffer_inv b \<longleftrightarrow> (\<exists>bs t cs. db_shape b bs t cs)"

lemmas extent_defs =
  x_readable_def x_empty_def x_writable_def x_dead_def x_clear_def x_new_def
  x_full_def x_active_def x_spare_def x_content_def

subsection \<open>Facts about paths\<close>

lemma valid_ref_update [simp]: "valid_ref (heap[a := Some e]) c \<longleftrightarrow> c < length heap \<and> (c = a \<or> valid_ref heap c)"
  by (cases "c = a") (auto simp: valid_ref_def)

lemma valid_ref_length [simp]: "valid_ref heap a \<Longrightarrow> a < length heap"
  by (simp add: valid_ref_def)

lemma ext_update [simp]:
  "a < length heap \<Longrightarrow> ext (heap[a := Some e]) a = e"
  "c \<noteq> a \<Longrightarrow> ext (heap[a := Some e]) c = ext heap c"
  by (auto simp: ext_def)

lemma ext_append [simp]:
  "a < length heap \<Longrightarrow> ext (heap @ [x]) a = ext heap a"
  "ext (heap @ [Some e]) (length heap) = e"
  by (auto simp: ext_def nth_append)

lemma valid_ref_append [simp]:
  "valid_ref heap a \<Longrightarrow> valid_ref (heap @ [x]) a"
  "valid_ref (heap @ [Some e]) (length heap)"
  by (auto simp: valid_ref_def nth_append)

lemma deref_valid [simp]: "valid_ref heap a \<Longrightarrow> deref heap (Some a) = Ret (a, ext heap a)"
  by (auto simp: deref_def valid_ref_def ext_def)

lemma xpath_append:
  "xpath heap p (as @ cs) q \<longleftrightarrow> (\<exists>m. xpath heap p as m \<and> xpath heap m cs q)"
  by (induction as arbitrary: p) auto

lemma xpath_valid: "xpath heap p as q \<Longrightarrow> a \<in> set as \<Longrightarrow> valid_ref heap a"
  by (induction as arbitrary: p) auto

lemma xpath_update [simp]:
  "a \<notin> set as \<Longrightarrow> a < length heap \<Longrightarrow> xpath (heap[a := Some e]) p as q = xpath heap p as q"
  by (induction as arbitrary: p) (auto simp: ext_update)

lemma xpath_update_same:
  "x_next e = x_next (ext heap a) \<Longrightarrow> valid_ref heap a \<Longrightarrow>
    xpath (heap[a := Some e]) p as q = xpath heap p as q"
proof (induction as arbitrary: p)
  case (Cons c as)
  then show ?case by (cases "c = a") (auto simp: valid_ref_def)
qed simp

lemma xpath_heap_append:
  "xpath heap p as q \<Longrightarrow> xpath (heap @ [x]) p as q"
  by (induction as arbitrary: p) auto

lemma xpath_distinct_length:
  assumes "xpath heap p as q" "distinct as"
  shows "length as \<le> length heap"
proof -
  have "set as \<subseteq> {..<length heap}" using xpath_valid [OF assms(1)] by (auto dest: valid_ref_length)
  then have "card (set as) \<le> length heap" by (metis card_lessThan card_mono finite_lessThan)
  then show ?thesis using assms(2) by (simp add: distinct_card)
qed

lemma xwalk_xpath: "xpath heap p as None \<Longrightarrow> length as \<le> fuel \<Longrightarrow> xwalk fuel heap p = as"
proof (induction as arbitrary: p fuel)
  case Nil
  then show ?case by (cases fuel) auto
next
  case (Cons a as)
  then show ?case by (cases fuel) (auto simp: valid_ref_def ext_def split: option.splits)
qed

lemma db_shape_content:
  assumes "db_shape b bs t cs"
  shows "dynamic_buffer_content b =
    concat (map (\<lambda>a. x_content (ext (db_heap b) a)) bs) @ x_content (ext (db_heap b) t)"
proof -
  have "xwalk (length (db_heap b)) (db_heap b) (db_head b) = bs @ t # cs"
    using assms by (intro xwalk_xpath xpath_distinct_length) (auto simp: db_shape_def)
  moreover have "concat (map (\<lambda>a. x_content (ext (db_heap b) a)) cs) = []"
    using assms by (auto simp: db_shape_def x_spare_def x_content_def)
  ultimately show ?thesis by (simp add: dynamic_buffer_content_def)
qed

lemma db_shapeD:
  assumes "db_shape b bs t cs"
  shows "db_tail b = Some t" "valid_ref (db_heap b) t" "0 < db_xsize b"
    "x_active (db_xsize b) (ext (db_heap b) t)" "t \<notin> set bs" "t \<notin> set cs" "set bs \<inter> set cs = {}"
    "\<And>a. a \<in> set bs \<Longrightarrow> x_full (db_xsize b) (ext (db_heap b) a) \<and> valid_ref (db_heap b) a"
    "\<And>a. a \<in> set cs \<Longrightarrow> x_spare (db_xsize b) (ext (db_heap b) a) \<and> valid_ref (db_heap b) a"
proof -
  have v: "valid_ref (db_heap b) a" if "a \<in> set (bs @ t # cs)" for a
    using assms that unfolding db_shape_def by (blast intro: xpath_valid)
  show "db_tail b = Some t" "0 < db_xsize b" "x_active (db_xsize b) (ext (db_heap b) t)"
    "t \<notin> set bs" "t \<notin> set cs" "set bs \<inter> set cs = {}"
    using assms by (simp_all add: db_shape_def)
  show "valid_ref (db_heap b) t" by (rule v) simp
  show "x_full (db_xsize b) (ext (db_heap b) a) \<and> valid_ref (db_heap b) a" if "a \<in> set bs" for a
    using assms that v [of a] by (simp add: db_shape_def)
  show "x_spare (db_xsize b) (ext (db_heap b) a) \<and> valid_ref (db_heap b) a" if "a \<in> set cs" for a
    using assms that v [of a] by (simp add: db_shape_def)
qed

subsection \<open>Changing one extent\<close>

lemma db_store_simps [simp]:
  "db_heap (db_store b a e) = (db_heap b)[a := Some e]" "db_head (db_store b a e) = db_head b"
  "db_tail (db_store b a e) = db_tail b" "db_xsize (db_store b a e) = db_xsize b"
  "db_max_ranges (db_store b a e) = db_max_ranges b"
  by (simp_all add: db_store_def)

lemma x_content_next [simp]: "x_content (e\<lparr>x_next := p\<rparr>) = x_content e"
  "x_full n (e\<lparr>x_next := p\<rparr>) = x_full n e" "x_active n (e\<lparr>x_next := p\<rparr>) = x_active n e"
  by (simp_all add: extent_defs)

lemma map_ext_update [simp]:
  "a \<notin> set as \<Longrightarrow> map (\<lambda>c. x_content (ext (heap[a := Some e]) c)) as =
    map (\<lambda>c. x_content (ext heap c)) as"
  by (rule map_cong [OF refl]) (metis ext_update(2))

lemma db_store_tail:
  assumes "db_shape b bs t cs" "x_next e = x_next (ext (db_heap b) t)" "x_active (db_xsize b) e"
  shows "db_shape (db_store b t e) bs t cs"
    "dynamic_buffer_content (db_store b t e) =
      concat (map (\<lambda>a. x_content (ext (db_heap b) a)) bs) @ x_content e"
proof -
  note d = db_shapeD [OF assms(1)]
  have ne: "a \<noteq> t" if "a \<in> set bs \<or> a \<in> set cs" for a using that d by auto
  show shape: "db_shape (db_store b t e) bs t cs"
    using assms d ne unfolding db_shape_def by (auto simp: xpath_update_same)
  show "dynamic_buffer_content (db_store b t e) =
      concat (map (\<lambda>a. x_content (ext (db_heap b) a)) bs) @ x_content e"
    using db_shape_content [OF shape] d by simp
qed

lemma db_store_head:
  assumes "db_shape b (h # bs) t cs" "x_next e = x_next (ext (db_heap b) h)" "x_full (db_xsize b) e"
  shows "db_shape (db_store b h e) (h # bs) t cs"
    "dynamic_buffer_content (db_store b h e) =
      x_content e @ concat (map (\<lambda>a. x_content (ext (db_heap b) a)) bs) @ x_content (ext (db_heap b) t)"
proof -
  note d = db_shapeD [OF assms(1)]
  have h: "valid_ref (db_heap b) h" "h \<notin> set bs" "h \<noteq> t" "h \<notin> set cs"
    using assms(1) d(8) [of h] unfolding db_shape_def by auto
  have ne: "a \<noteq> h" if "a \<in> set bs \<or> a = t \<or> a \<in> set cs" for a using that h by auto
  show shape: "db_shape (db_store b h e) (h # bs) t cs"
    using assms h ne unfolding db_shape_def by (auto simp: xpath_update_same)
  show "dynamic_buffer_content (db_store b h e) =
      x_content e @ concat (map (\<lambda>a. x_content (ext (db_heap b) a)) bs) @ x_content (ext (db_heap b) t)"
    using db_shape_content [OF shape] h by simp
qed

subsection \<open>A new tail\<close>

lemma db_make_tail_spare:
  assumes "db_shape b bs t (c # cs)" "x_full (db_xsize b) (ext (db_heap b) t)"
  shows "db_make_tail b = Ret (b\<lparr>db_tail := Some c\<rparr>)"
    "db_shape (b\<lparr>db_tail := Some c\<rparr>) (bs @ [t]) c cs"
proof -
  note d = db_shapeD [OF assms(1)]
  have next_t: "x_next (ext (db_heap b) t) = Some c"
    using assms(1) by (auto simp: db_shape_def xpath_append)
  show "db_make_tail b = Ret (b\<lparr>db_tail := Some c\<rparr>)"
    using d(1,2) d(9) [of c] next_t by (simp add: db_make_tail_def extent_defs)
  show "db_shape (b\<lparr>db_tail := Some c\<rparr>) (bs @ [t]) c cs"
    using assms unfolding db_shape_def by (auto simp: x_active_def x_spare_def)
qed

lemma xpath_snoc_new:
  assumes "xpath heap p (bs @ [t]) None" "t \<notin> set bs" "valid_ref heap t"
  shows "xpath ((heap @ [Some new])[t := Some (e\<lparr>x_next := Some (length heap)\<rparr>)]) p
    (bs @ [t, length heap]) (x_next new)"
proof -
  have "xpath heap p bs (Some t)" using assms(1) by (auto simp: xpath_append)
  then have "xpath (heap @ [Some new]) p bs (Some t)" by (rule xpath_heap_append)
  moreover have "t < length heap" using assms(3) by simp
  ultimately show ?thesis using assms(2)
    by (auto simp: xpath_append ext_def nth_append valid_ref_def)
qed

lemma db_make_tail_alloc:
  assumes "db_shape b bs t []" "x_full (db_xsize b) (ext (db_heap b) t)"
  defines "a \<equiv> length (db_heap b)"
  defines "b' \<equiv> b\<lparr>db_heap := (db_heap b @ [Some (x_new (db_xsize b) (db_indet b))])
      [t := Some ((ext (db_heap b) t)\<lparr>x_next := Some a\<rparr>)], db_tail := Some a\<rparr>"
  shows "db_make_tail b = Ret b'" "db_shape b' (bs @ [t]) a []"
    "ext (db_heap b') a = x_new (db_xsize b) (db_indet b)"
    "dynamic_buffer_content b' = dynamic_buffer_content b"
proof -
  note d = db_shapeD [OF assms(1)]
  have next_t: "x_next (ext (db_heap b) t) = None"
    using assms(1) by (auto simp: db_shape_def xpath_append)
  have new: "(x_new n i)\<lparr>x_next := None\<rparr> = x_new n i" for n and i :: 'a by (simp add: x_new_def)
  show "db_make_tail b = Ret b'"
    using d(1,2) next_t by (simp add: db_make_tail_def b'_def a_def new Let_def)
  have t: "t < length (db_heap b)" and lt: "c < length (db_heap b)" if "c \<in> set bs" for c
    using d(2) d(8) [of c] that by auto
  have t_lt: "t < length (db_heap b)" using d(2) by simp
  have ext_bs: "ext (db_heap b') c = ext (db_heap b) c" if "c \<in> set bs" for c
  proof -
    have "c \<noteq> t" using that d(5) by auto
    then show ?thesis using lt [OF that] by (simp add: b'_def)
  qed
  have ext_t: "ext (db_heap b') t = (ext (db_heap b) t)\<lparr>x_next := Some a\<rparr>"
    using t_lt by (simp add: b'_def)
  show ext_a: "ext (db_heap b') a = x_new (db_xsize b) (db_indet b)"
    using t_lt by (simp add: b'_def a_def ext_def nth_append)
  have path: "xpath (db_heap b') (db_head b') (bs @ [t, a]) None"
    using xpath_snoc_new [of "db_heap b" "db_head b" bs t "x_new (db_xsize b) (db_indet b)"
        "ext (db_heap b) t"] assms(1) d(2,5)
    by (simp add: db_shape_def b'_def a_def x_new_def)
  have "distinct (bs @ [t, a])"
    using assms(1) lt t_lt by (auto simp: db_shape_def a_def dest!: lt)
  moreover have "db_tail b' = Some a" "db_xsize b' = db_xsize b" by (simp_all add: b'_def)
  ultimately show shape: "db_shape b' (bs @ [t]) a []"
    using path ext_bs ext_t ext_a assms(2) d(3) d(8)
    unfolding db_shape_def by (auto simp: x_active_def x_new_def)
  show "dynamic_buffer_content b' = dynamic_buffer_content b"
    using ext_bs ext_t ext_a
    by (simp add: db_shape_content [OF shape] db_shape_content [OF assms(1)] cong: map_cong)
      (simp add: x_content_def x_new_def)
qed

lemma db_make_tail_ok:
  assumes "db_shape b bs t cs" "x_full (db_xsize b) (ext (db_heap b) t)"
  shows "\<exists>b' t' cs'. db_make_tail b = Ret b' \<and> db_shape b' (bs @ [t]) t' cs' \<and>
    x_spare (db_xsize b') (ext (db_heap b') t') \<and> dynamic_buffer_content b' = dynamic_buffer_content b"
proof (cases cs)
  case Nil
  then show ?thesis
    using db_make_tail_alloc [of b bs t] assms by (fastforce simp: x_spare_def x_new_def)
next
  case (Cons c cs')
  note s = db_make_tail_spare [OF assms(1) [unfolded Cons] assms(2)]
  have spare: "x_spare (db_xsize b) (ext (db_heap b) c)"
    using db_shapeD(9) [OF assms(1)] Cons by simp
  then have "dynamic_buffer_content (b\<lparr>db_tail := Some c\<rparr>) = dynamic_buffer_content b"
    using db_shape_content [OF s(2)] db_shape_content [OF assms(1)]
    by (simp add: x_spare_def x_content_def)
  with s spare show ?thesis by fastforce
qed

subsection \<open>write\<close>

lemma db_write_step:
  assumes "db_shape b bs t cs" "0 < x_writable (ext (db_heap b) t)" "wr \<le> length xs"
    "wr \<le> x_writable (ext (db_heap b) t)"
  defines "te \<equiv> ext (db_heap b) t"
  defines "te' \<equiv> te\<lparr>x_data := copy_at (x_data te) (x_write_pointer te) (take wr xs),
      x_write_pointer := x_write_pointer te + wr\<rparr>"
  shows "db_shape (db_store b t te') bs t cs"
    "dynamic_buffer_content (db_store b t te') = dynamic_buffer_content b @ take wr xs"
proof -
  have act: "x_active (db_xsize b) te" using db_shapeD(4) [OF assms(1)] by (simp add: te_def)
  then have act': "x_active (db_xsize b) te'" and cont: "x_content te' = x_content te @ take wr xs"
    using assms(3,4) by (auto simp: te'_def te_def [symmetric] extent_defs array_simps)
  have next': "x_next te' = x_next (ext (db_heap b) t)" by (simp add: te'_def te_def)
  show "db_shape (db_store b t te') bs t cs"
    by (rule db_store_tail(1) [OF assms(1) next' act'])
  show "dynamic_buffer_content (db_store b t te') = dynamic_buffer_content b @ take wr xs"
    using db_store_tail(2) [OF assms(1) next' act'] db_shape_content [OF assms(1)] cont
    by (simp add: te_def)
qed

lemma db_room_for_write:
  assumes "dynamic_buffer_inv b"
  obtains bs t cs b1 where "valid_ref (db_heap b) (the (db_tail b))" "db_tail b \<noteq> None"
    "(if x_writable (ext (db_heap b) (the (db_tail b))) = 0 then db_make_tail b else Ret b) = Ret b1"
    "db_shape b1 bs t cs" "0 < x_writable (ext (db_heap b1) t)"
    "dynamic_buffer_content b1 = dynamic_buffer_content b"
proof -
  obtain bs t cs where shape: "db_shape b bs t cs" using assms by (auto simp: dynamic_buffer_inv_def)
  note d = db_shapeD [OF shape]
  show thesis
  proof (cases "x_writable (ext (db_heap b) t) = 0")
    case True
    then have "x_full (db_xsize b) (ext (db_heap b) t)" using d(4) by (auto simp: extent_defs)
    from db_make_tail_ok [OF shape this] obtain b1 t1 cs1 where
      "db_make_tail b = Ret b1" "db_shape b1 (bs @ [t]) t1 cs1"
      "x_spare (db_xsize b1) (ext (db_heap b1) t1)"
      "dynamic_buffer_content b1 = dynamic_buffer_content b" by blast
    moreover from this have "0 < x_writable (ext (db_heap b1) t1)"
      using db_shapeD(3) by (auto simp: x_spare_def x_writable_def)
    ultimately show thesis using that d(1,2) True by simp
  next
    case False
    then show thesis using that shape d(1,2) by simp
  qed
qed

lemma db_write_loop_ok:
  assumes "dynamic_buffer_inv b" "length xs < fuel"
  shows "\<exists>b'. db_write_loop fuel b xs = Ret (length xs, b') \<and> dynamic_buffer_inv b' \<and>
    dynamic_buffer_content b' = dynamic_buffer_content b @ xs"
  using assms
proof (induction fuel arbitrary: b xs)
  case 0
  then show ?case by simp
next
  case (Suc fuel)
  show ?case
  proof (cases "xs = []")
    case True
    with Suc.prems show ?thesis by simp
  next
    case False
    from db_room_for_write [OF Suc.prems(1)] obtain bs t cs b1 where
      tail: "valid_ref (db_heap b) (the (db_tail b))" "db_tail b \<noteq> None"
      and b1: "(if x_writable (ext (db_heap b) (the (db_tail b))) = 0 then db_make_tail b else Ret b) = Ret b1"
        "db_shape b1 bs t cs" "0 < x_writable (ext (db_heap b1) t)"
        "dynamic_buffer_content b1 = dynamic_buffer_content b" .
    define te where "te = ext (db_heap b1) t"
    define wr where "wr = min (length xs) (x_writable te)"
    define b2 where "b2 = db_store b1 t (te\<lparr>x_data := copy_at (x_data te) (x_write_pointer te) (take wr xs),
        x_write_pointer := x_write_pointer te + wr\<rparr>)"
    note d = db_shapeD [OF b1(2)]
    have "db_shape b2 bs t cs" "dynamic_buffer_content b2 = dynamic_buffer_content b1 @ take wr xs"
      unfolding b2_def te_def by (rule db_write_step [OF b1(2,3)]; simp add: wr_def te_def)+
    then have b2: "dynamic_buffer_inv b2" "dynamic_buffer_content b2 = dynamic_buffer_content b @ take wr xs"
      using b1(4) by (auto simp: dynamic_buffer_inv_def)
    have wr: "0 < wr" "wr \<le> length xs" using False b1(3) by (auto simp: wr_def te_def)
    then have "length (drop wr xs) < fuel" using Suc.prems(2) by simp
    from Suc.IH [OF b2(1) this] obtain b3 where
      b3: "db_write_loop fuel b2 (drop wr xs) = Ret (length xs - wr, b3)" "dynamic_buffer_inv b3"
        "dynamic_buffer_content b3 = dynamic_buffer_content b @ xs" using b2 by auto
    have "x_write_pointer te + wr \<le> length (x_data te)"
      using d(4) by (auto simp: wr_def te_def extent_defs)
    moreover obtain a where "db_tail b = Some a" using tail(2) by blast
    ultimately have "db_write_loop (Suc fuel) b xs = Ret (length xs, b3)"
      using False tail(1) b1(1) d(1,2) b3(1) wr
      by (simp add: Let_def flip: te_def b2_def wr_def)
    with b3 show ?thesis by blast
  qed
qed

lemma dynamic_buffer_write_ok:
  assumes "dynamic_buffer_inv b"
  shows "\<exists>b'. dynamic_buffer_write b xs = Ret (length xs, b') \<and> dynamic_buffer_inv b' \<and>
    dynamic_buffer_content b' = dynamic_buffer_content b @ xs"
  using db_write_loop_ok [OF assms, of xs "Suc (length xs)"] by (auto simp: dynamic_buffer_write_def)

subsection \<open>Retiring the head extent\<close>

lemma xpath_rotate:
  assumes "xpath heap (Some h) (h # bs @ t # cs) None" "distinct (h # bs @ t # cs)"
  shows "xpath (heap[t := Some (te\<lparr>x_next := Some h\<rparr>), h := Some he])
      (x_next (ext heap h)) (bs @ [t, h]) (x_next he)"
    "x_next he = x_next (ext heap t) \<Longrightarrow>
     xpath (heap[t := Some (te\<lparr>x_next := Some h\<rparr>), h := Some he]) (x_next he) cs None"
  using assms by (auto simp: xpath_append)

lemma db_kill_head_ok:
  assumes shape: "db_shape b (h # bs) t cs"
  defines "he \<equiv> (ext (db_heap b) h)\<lparr>x_read_pointer := db_xsize b\<rparr>"
  shows "\<exists>b'. db_kill_head (db_store b h he) = Ret b' \<and> db_shape b' bs t (h # cs) \<and>
    dynamic_buffer_content b' =
      concat (map (\<lambda>a. x_content (ext (db_heap b) a)) bs) @ x_content (ext (db_heap b) t)"
proof -
  note d = db_shapeD [OF shape]
  define te where "te = ext (db_heap b) t"
  define hp where "hp = (db_heap b)[t := Some (te\<lparr>x_next := Some h\<rparr>),
      h := Some (x_clear (he\<lparr>x_next := x_next te\<rparr>))]"
  define b' where "b' = b\<lparr>db_heap := hp, db_head := x_next he\<rparr>"
  have h: "valid_ref (db_heap b) h" "x_full (db_xsize b) (ext (db_heap b) h)"
    using d(8) [of h] by simp_all
  have dist: "distinct (h # bs @ t # cs)" and head: "db_head b = Some h"
    and path: "xpath (db_heap b) (Some h) (h # bs @ t # cs) None"
    using shape by (simp_all add: db_shape_def)
  have lens: "h < length (db_heap b)" "t < length (db_heap b)" "h \<noteq> t" using h d(2) dist by auto
  have dead: "x_dead he" using h(2) by (simp add: he_def extent_defs)
  have "(db_heap b)[h := Some he, t := Some (te\<lparr>x_next := Some h\<rparr>),
      h := Some (x_clear (he\<lparr>x_next := x_next te\<rparr>))] = hp"
    unfolding hp_def using lens by (metis list_update_overwrite list_update_swap)
  then have kill: "db_kill_head (db_store b h he) = Ret b'"
    using lens dead h d(1,2) head
    by (simp add: db_kill_head_def Let_def te_def [symmetric] b'_def db_store_def)
  have ext_bs: "ext hp a = ext (db_heap b) a" if "a \<in> set bs \<or> a \<in> set cs" for a
  proof -
    have "a \<noteq> h" "a \<noteq> t" using that dist by auto
    then show ?thesis by (simp add: hp_def)
  qed
  have ext_t: "ext hp t = te\<lparr>x_next := Some h\<rparr>" and ext_h: "ext hp h = x_clear (he\<lparr>x_next := x_next te\<rparr>)"
    using lens by (simp_all add: hp_def)
  have spare: "x_spare (db_xsize b) (ext hp h)" using h(2) by (simp add: ext_h he_def extent_defs)
  have nxt: "x_next (x_clear (he\<lparr>x_next := x_next te\<rparr>)) = x_next (ext (db_heap b) t)"
    by (simp add: x_clear_def te_def)
  have "xpath hp (x_next he) (bs @ [t, h]) (x_next (ext hp h))" "xpath hp (x_next (ext hp h)) cs None"
    using xpath_rotate(1) [OF path dist, of te "x_clear (he\<lparr>x_next := x_next te\<rparr>)"]
      xpath_rotate(2) [OF path dist nxt, of te] by (simp_all add: hp_def [symmetric] ext_h)
      (simp_all add: he_def)
  then have "xpath hp (x_next he) (bs @ t # h # cs) None"
    unfolding xpath_append by auto
  then have shape': "db_shape b' bs t (h # cs)"
    using d(1,3,4,8,9) dist ext_bs ext_t spare unfolding db_shape_def b'_def
    by (auto simp: te_def)
  have "dynamic_buffer_content b' = concat (map (\<lambda>a. x_content (ext (db_heap b) a)) bs) @ x_content te"
    using db_shape_content [OF shape'] ext_bs ext_t by (simp add: b'_def cong: map_cong)
  with kill shape' show ?thesis by (auto simp: te_def)
qed

lemma x_content_advance:
  "x_content (e\<lparr>x_read_pointer := x_read_pointer e + k\<rparr>) = drop k (x_content e)"
  by (simp add: x_content_def drop_segment)

lemma db_retire_head_full:
  assumes shape: "db_shape b (h # bs) t cs" and rd: "rd \<le> x_readable (ext (db_heap b) h)"
  defines "he \<equiv> (ext (db_heap b) h)\<lparr>x_read_pointer := x_read_pointer (ext (db_heap b) h) + rd\<rparr>"
  shows "\<exists>b'. db_retire_head (db_store b h he) h he = Ret b' \<and> dynamic_buffer_inv b' \<and>
    dynamic_buffer_content b' = drop rd (dynamic_buffer_content b)"
proof -
  note d = db_shapeD [OF shape]
  have full: "x_full (db_xsize b) (ext (db_heap b) h)" using d(8) [of h] by simp
  have content: "dynamic_buffer_content b = x_content (ext (db_heap b) h) @
      concat (map (\<lambda>a. x_content (ext (db_heap b) a)) bs) @ x_content (ext (db_heap b) t)"
    using db_shape_content [OF shape] by simp
  have len: "rd \<le> length (x_content (ext (db_heap b) h))" using full rd by (simp add: extent_defs)
  show ?thesis
  proof (cases "x_dead he")
    case True
    then have eq: "he = (ext (db_heap b) h)\<lparr>x_read_pointer := db_xsize b\<rparr>"
      and all: "rd = length (x_content (ext (db_heap b) h))"
      using full rd by (auto simp: he_def extent_defs)
    have "db_head b \<noteq> db_tail b" using shape by (auto simp: db_shape_def)
    moreover from db_kill_head_ok [OF shape] obtain b' where
      "db_kill_head (db_store b h he) = Ret b'" "db_shape b' bs t (h # cs)"
      "dynamic_buffer_content b' =
        concat (map (\<lambda>a. x_content (ext (db_heap b) a)) bs) @ x_content (ext (db_heap b) t)"
      unfolding eq by blast
    ultimately show ?thesis using True content all
      by (auto simp: db_retire_head_def dynamic_buffer_inv_def)
  next
    case False
    then have "x_full (db_xsize b) he" using full rd by (auto simp: he_def extent_defs)
    then have "db_shape (db_store b h he) (h # bs) t cs"
      "dynamic_buffer_content (db_store b h he) = drop rd (dynamic_buffer_content b)"
      using db_store_head [OF shape, of he] content len by (auto simp: he_def x_content_advance)
    with False show ?thesis by (auto simp: db_retire_head_def dynamic_buffer_inv_def)
  qed
qed

lemma db_retire_head_only:
  assumes shape: "db_shape b [] t cs" and rd: "rd \<le> x_readable (ext (db_heap b) t)"
  defines "he \<equiv> (ext (db_heap b) t)\<lparr>x_read_pointer := x_read_pointer (ext (db_heap b) t) + rd\<rparr>"
  shows "\<exists>b'. db_retire_head (db_store b t he) t he = Ret b' \<and> dynamic_buffer_inv b' \<and>
    dynamic_buffer_content b' = drop rd (dynamic_buffer_content b)"
proof -
  note d = db_shapeD [OF shape]
  have content: "dynamic_buffer_content b = x_content (ext (db_heap b) t)"
    using db_shape_content [OF shape] by simp
  have only: "db_head b = db_tail b" using shape by (auto simp: db_shape_def)
  show ?thesis
  proof (cases "x_dead he")
    case True
    then have "x_active (db_xsize b) (x_clear he)" and all: "length (x_content (ext (db_heap b) t)) \<le> rd"
      using d(3,4) rd by (auto simp: he_def extent_defs)
    then have "db_shape (db_store b t (x_clear he)) [] t cs"
      "dynamic_buffer_content (db_store b t (x_clear he)) = x_content (x_clear he)"
      using db_store_tail [OF shape, of "x_clear he"] by (auto simp: he_def x_clear_def)
    moreover have "db_store (db_store b t he) t (x_clear he) = db_store b t (x_clear he)"
      by (simp add: db_store_def)
    moreover have "x_content (x_clear he) = []" by (simp add: x_content_def x_clear_def)
    ultimately show ?thesis using True only content all
      by (auto simp: db_retire_head_def dynamic_buffer_inv_def)
  next
    case False
    then have "x_active (db_xsize b) he" using d(4) rd by (auto simp: he_def extent_defs)
    then have "db_shape (db_store b t he) [] t cs"
      "dynamic_buffer_content (db_store b t he) = drop rd (dynamic_buffer_content b)"
      using db_store_tail [OF shape, of he] content by (auto simp: he_def x_content_advance)
    with False show ?thesis by (auto simp: db_retire_head_def dynamic_buffer_inv_def)
  qed
qed

subsection \<open>Reading and discarding\<close>

text \<open>The head of a non-empty buffer is readable, and moving its read pointer forward by at
  most what it holds, followed by the treatment of a dead head, drops that much data.\<close>

definition db_front :: "'a dynamic_buffer \<Rightarrow> nat \<Rightarrow> 'a extent \<Rightarrow> bool" where
  "db_front b h he \<longleftrightarrow>
     deref (db_heap b) (db_head b) = Ret (h, he) \<and> \<not> x_dead he \<and>
     x_read_pointer he \<le> x_write_pointer he \<and> length (x_content he) = x_readable he \<and>
     (x_readable he = 0 \<longrightarrow> dynamic_buffer_content b = []) \<and>
     (\<exists>rest. dynamic_buffer_content b = x_content he @ rest) \<and>
     (\<forall>rd \<le> x_readable he. \<exists>b'.
        db_retire_head (db_store b h (he\<lparr>x_read_pointer := x_read_pointer he + rd\<rparr>)) h
          (he\<lparr>x_read_pointer := x_read_pointer he + rd\<rparr>) = Ret b' \<and> dynamic_buffer_inv b' \<and>
        dynamic_buffer_content b' = drop rd (dynamic_buffer_content b))"

lemma db_head_step:
  assumes "dynamic_buffer_inv b"
  shows "\<exists>h he. db_front b h he"
proof -
  from assms obtain bs t cs where shape: "db_shape b bs t cs" by (auto simp: dynamic_buffer_inv_def)
  note d = db_shapeD [OF shape]
  show ?thesis
  proof (cases bs)
    case Nil
    then have "db_head b = Some t" using shape by (simp add: db_shape_def)
    moreover have "\<not> x_dead (ext (db_heap b) t)"
      "x_read_pointer (ext (db_heap b) t) \<le> x_write_pointer (ext (db_heap b) t)"
      "length (x_content (ext (db_heap b) t)) = x_readable (ext (db_heap b) t)"
      using d(4) by (auto simp: extent_defs)
    moreover have "dynamic_buffer_content b = x_content (ext (db_heap b) t)"
      using db_shape_content [OF shape] Nil by simp
    ultimately have "db_front b t (ext (db_heap b) t)"
      using d(2) db_retire_head_only [OF shape [unfolded Nil]] unfolding db_front_def by auto
    then show ?thesis by blast
  next
    case (Cons h bs')
    then have "db_head b = Some h" using shape by (simp add: db_shape_def)
    moreover have "\<not> x_dead (ext (db_heap b) h)" "0 < x_readable (ext (db_heap b) h)"
      "x_read_pointer (ext (db_heap b) h) \<le> x_write_pointer (ext (db_heap b) h)"
      "length (x_content (ext (db_heap b) h)) = x_readable (ext (db_heap b) h)"
      using d(8) [of h] Cons by (auto simp: extent_defs)
    moreover have "\<exists>rest. dynamic_buffer_content b = x_content (ext (db_heap b) h) @ rest"
      using db_shape_content [OF shape] Cons by simp
    ultimately have "db_front b h (ext (db_heap b) h)"
      using d(8) [of h] Cons db_retire_head_full [OF shape [unfolded Cons]] unfolding db_front_def
      by auto
    then show ?thesis by blast
  qed
qed

lemma db_read_loop_ok:
  assumes "dynamic_buffer_inv b" "n < fuel"
  shows "\<exists>b'. db_read_loop fuel b n = Ret (take n (dynamic_buffer_content b), b') \<and>
    dynamic_buffer_inv b' \<and> dynamic_buffer_content b' = drop n (dynamic_buffer_content b)"
  using assms
proof (induction fuel arbitrary: b n)
  case (Suc fuel)
  from db_head_step [OF Suc.prems(1)] obtain h he where front: "db_front b h he" by blast
  note h = front [unfolded db_front_def]
  have der: "deref (db_heap b) (db_head b) = Ret (h, he)" "\<not> x_dead he"
    and ptrs: "x_read_pointer he \<le> x_write_pointer he"
    using h by simp_all
  show ?case
  proof (cases "n = 0 \<or> x_readable he = 0")
    case True
    then show ?thesis using h Suc.prems(1) by auto
  next
    case False
    define rd where "rd = min n (x_readable he)"
    have rd: "0 < rd" "rd \<le> n" "rd \<le> x_readable he" using False by (auto simp: rd_def)
    with h obtain b1 where
      b1: "db_retire_head (db_store b h (he\<lparr>x_read_pointer := x_read_pointer he + rd\<rparr>)) h
             (he\<lparr>x_read_pointer := x_read_pointer he + rd\<rparr>) = Ret b1"
        "dynamic_buffer_inv b1" "dynamic_buffer_content b1 = drop rd (dynamic_buffer_content b)"
      by blast
    have "n - rd < fuel" using rd Suc.prems(2) by simp
    from Suc.IH [OF b1(2) this] obtain b2 where
      b2: "db_read_loop fuel b1 (n - rd) = Ret (take (n - rd) (dynamic_buffer_content b1), b2)"
        "dynamic_buffer_inv b2" "dynamic_buffer_content b2 = drop (n - rd) (dynamic_buffer_content b1)"
      by blast
    have ptr: "x_read_pointer he + rd \<le> x_write_pointer he"
      using rd(3) ptrs by (simp add: x_readable_def)
    have "segment (x_data he) (x_read_pointer he) (x_read_pointer he + rd) = take rd (x_content he)"
      using ptr by (simp add: x_content_def take_segment)
    also have "\<dots> = take rd (dynamic_buffer_content b)" using h rd(3) by auto
    finally have seg: "segment (x_data he) (x_read_pointer he) (x_read_pointer he + rd) @
        take (n - rd) (dynamic_buffer_content b1) = take n (dynamic_buffer_content b)"
      using rd b1(3) by (simp flip: take_add)
    have "db_read_loop (Suc fuel) b n = Ret (take n (dynamic_buffer_content b), b2)"
      using False der ptr rd b1(1) b2(1) seg
      by (simp add: Let_def flip: rd_def)
    moreover have "dynamic_buffer_content b2 = drop n (dynamic_buffer_content b)"
      using b2(3) b1(3) rd by simp
    ultimately show ?thesis using b2(2) by blast
  qed
qed simp

lemma dynamic_buffer_read_ok:
  assumes "dynamic_buffer_inv b"
  shows "\<exists>b'. dynamic_buffer_read b n = Ret (take n (dynamic_buffer_content b), b') \<and>
    dynamic_buffer_inv b' \<and> dynamic_buffer_content b' = drop n (dynamic_buffer_content b)"
  using db_read_loop_ok [OF assms, of n "Suc n"] by (simp add: dynamic_buffer_read_def)

lemma db_discard_loop_ok:
  assumes "dynamic_buffer_inv b" "n \<le> length (dynamic_buffer_content b)" "n < fuel"
  shows "\<exists>b'. db_discard_loop fuel b n = Ret (0, b') \<and> dynamic_buffer_inv b' \<and>
    dynamic_buffer_content b' = drop n (dynamic_buffer_content b)"
  using assms
proof (induction fuel arbitrary: b n)
  case (Suc fuel)
  from db_head_step [OF Suc.prems(1)] obtain h he where front: "db_front b h he" by blast
  note h = front [unfolded db_front_def]
  have der: "deref (db_heap b) (db_head b) = Ret (h, he)" "\<not> x_dead he"
    and ptrs: "x_read_pointer he \<le> x_write_pointer he"
    using h by simp_all
  show ?case
  proof (cases "n = 0")
    case False
    then have readable: "0 < x_readable he" using h Suc.prems(2) by auto
    define rd where "rd = min n (x_readable he)"
    have rd: "0 < rd" "rd \<le> n" "rd \<le> x_readable he" using False readable by (auto simp: rd_def)
    with h obtain b1 where
      b1: "db_retire_head (db_store b h (he\<lparr>x_read_pointer := x_read_pointer he + rd\<rparr>)) h
             (he\<lparr>x_read_pointer := x_read_pointer he + rd\<rparr>) = Ret b1"
        "dynamic_buffer_inv b1" "dynamic_buffer_content b1 = drop rd (dynamic_buffer_content b)"
      by blast
    have "n - rd \<le> length (dynamic_buffer_content b1)" "n - rd < fuel"
      using rd Suc.prems(2,3) b1(3) by simp_all
    from Suc.IH [OF b1(2) this] b1(3) rd False readable b1(1) der show ?thesis
      by (simp add: Let_def flip: rd_def)
  qed (use Suc.prems in simp)
qed simp

lemma dynamic_buffer_discard_ok:
  assumes "dynamic_buffer_inv b" "n \<le> length (dynamic_buffer_content b)"
  shows "\<exists>b'. dynamic_buffer_discard b n = Ret (n, b') \<and> dynamic_buffer_inv b' \<and>
    dynamic_buffer_content b' = drop n (dynamic_buffer_content b)"
  using db_discard_loop_ok [OF assms, of "Suc n"] by (auto simp: dynamic_buffer_discard_def)

interpretation db: queue_buffer dynamic_buffer_inv dynamic_buffer_content dynamic_buffer_read
  dynamic_buffer_discard "\<lambda>b n. n" dynamic_buffer_write "\<lambda>q n. n"
  by unfold_locales
    (simp_all add: dynamic_buffer_read_ok dynamic_buffer_discard_ok dynamic_buffer_write_ok)

subsection \<open>readable_ranges\<close>

definition db_peek :: "'a dynamic_buffer \<Rightarrow> xrange \<Rightarrow> 'a list" where
  "db_peek b r = segment (x_data (ext (db_heap b) (fst r))) (fst (snd r)) (snd (snd r))"

definition x_readable_range :: "'a extent option list \<Rightarrow> nat \<Rightarrow> xrange" where
  "x_readable_range heap a = (a, x_read_pointer (ext heap a), x_write_pointer (ext heap a))"

lemma db_peek_readable [simp]: "db_peek b (x_readable_range (db_heap b) a) = x_content (ext (db_heap b) a)"
  by (simp add: db_peek_def x_readable_range_def x_content_def)

lemma tv_push_room:
  assumes "tv_wf v" "tv_size v < length (tv_data v)"
  shows "\<exists>v'. tv_push_back v x = Ret v' \<and> tv_wf v' \<and> tv_list v' = tv_list v @ [x] \<and>
    length (tv_data v') = length (tv_data v) \<and> tv_size v' = Suc (tv_size v)"
  using assms
  by (auto simp: tv_wf_def tv_list_def tv_push_back_def take_Suc_conv_app_nth)

lemma db_readable_loop_ok:
  assumes "tv_wf ret" "xpath (db_heap b) p as None" "as \<noteq> []"
    "deref (db_heap b) (db_head b) = Ret (h, he)" "0 < x_readable he"
    "length (tv_data ret) - tv_size ret < fuel"
  shows "\<exists>v. db_readable_loop fuel b ret p = Ret v \<and>
    tv_list v = tv_list ret @
      map (x_readable_range (db_heap b)) (take (length (tv_data ret) - tv_size ret) as)"
  using assms
proof (induction fuel arbitrary: ret p as)
  case (Suc fuel)
  then obtain a as' where as: "as = a # as'" and p: "p = Some a" "valid_ref (db_heap b) a"
    "xpath (db_heap b) (x_next (ext (db_heap b) a)) as' None" by (cases as) auto
  show ?case
  proof (cases "tv_size ret < length (tv_data ret)")
    case True
    from tv_push_room [OF Suc.prems(1) True, of "x_readable_range (db_heap b) a"] obtain v where
      v: "tv_push_back ret (a, x_read_pointer (ext (db_heap b) a), x_write_pointer (ext (db_heap b) a)) = Ret v"
        "tv_wf v" "tv_list v = tv_list ret @ [x_readable_range (db_heap b) a]"
        "length (tv_data v) = length (tv_data ret)" "tv_size v = Suc (tv_size ret)"
      by (auto simp: x_readable_range_def)
    have room: "length (tv_data ret) - tv_size ret = Suc (length (tv_data v) - tv_size v)"
      using True v(4,5) by simp
    show ?thesis
    proof (cases as')
      case Nil
      then show ?thesis using True Suc.prems(4,5) p v as room by auto
    next
      case (Cons c as'')
      then have nn: "x_next (ext (db_heap b) a) \<noteq> None" "as' \<noteq> []" using p(3) by auto
      have "length (tv_data v) - tv_size v < fuel" using room Suc.prems(6) by simp
      from Suc.IH [OF v(2) p(3) nn(2) Suc.prems(4,5) this] show ?thesis
        using True Suc.prems(4,5) p(1,2) v(1,3) nn(1) as room by auto
    qed
  qed (use Suc.prems in auto)
qed simp

lemma tv_empty_wf [simp]: "tv_wf (tv_empty raw)" "tv_list (tv_empty raw) = []"
  "tv_size (tv_empty raw) = 0" "tv_data (tv_empty raw) = raw"
  by (simp_all add: tv_wf_def tv_empty_def tv_list_def)

lemma dynamic_buffer_readable_ranges_ok:
  assumes "db_shape b bs t cs" "dynamic_buffer_content b \<noteq> []"
  shows "dynamic_buffer_readable_ranges b =
    Ret (map (x_readable_range (db_heap b)) (take (db_max_ranges b) (bs @ t # cs)))"
proof -
  have inv: "dynamic_buffer_inv b" using assms(1) by (auto simp: dynamic_buffer_inv_def)
  from db_head_step [OF inv] obtain h he where "db_front b h he" by blast
  then have "deref (db_heap b) (db_head b) = Ret (h, he)" "0 < x_readable he"
    using assms(2) unfolding db_front_def by auto
  moreover have "xpath (db_heap b) (db_head b) (bs @ t # cs) None" using assms(1) by (simp add: db_shape_def)
  ultimately show ?thesis
    using db_readable_loop_ok [of "tv_empty (replicate (db_max_ranges b) (0, 0, 0))" b "db_head b"
        "bs @ t # cs" h he "Suc (db_max_ranges b)"]
    by (auto simp: dynamic_buffer_readable_ranges_def)
qed

lemma db_readable_prefix:
  assumes "dynamic_buffer_inv b" "0 < db_max_ranges b" "dynamic_buffer_content b \<noteq> []"
  shows "\<exists>rs rest. dynamic_buffer_readable_ranges b = Ret rs \<and> concat (map (db_peek b) rs) \<noteq> [] \<and>
    dynamic_buffer_content b = concat (map (db_peek b) rs) @ rest"
proof -
  from assms(1) obtain bs t cs where shape: "db_shape b bs t cs" by (auto simp: dynamic_buffer_inv_def)
  define m where "m = db_max_ranges b"
  define f where "f = (\<lambda>a. x_content (ext (db_heap b) a))"
  have spare: "concat (map f cs) = []"
    using db_shapeD(9) [OF shape] by (auto simp: f_def extent_defs)
  have "dynamic_buffer_content b = concat (map f (bs @ t # cs))"
    using db_shape_content [OF shape] spare by (simp add: f_def)
  also have "\<dots> = concat (map f (take m (bs @ t # cs))) @ concat (map f (drop m (bs @ t # cs)))"
    by (metis append_take_drop_id concat_append map_append)
  finally have split: "dynamic_buffer_content b =
    concat (map f (take m (bs @ t # cs))) @ concat (map f (drop m (bs @ t # cs)))" .
  have peek: "map (db_peek b) (map (x_readable_range (db_heap b)) as) = map f as" for as
    by (simp add: f_def)
  have "concat (map f (take m (bs @ t # cs))) \<noteq> []"
  proof (cases bs)
    case Nil
    then show ?thesis
      using assms(2,3) db_shape_content [OF shape] by (cases m) (auto simp: f_def m_def)
  next
    case (Cons h bs')
    have "f h \<noteq> []" using db_shapeD(8) [OF shape, of h] Cons by (auto simp: f_def extent_defs segment_def)
    then show ?thesis using assms(2) Cons by (cases m) (auto simp: m_def)
  qed
  then show ?thesis
    using dynamic_buffer_readable_ranges_ok [OF shape assms(3)] split unfolding peek [symmetric] m_def
    by blast
qed

interpretation dbr: window_reader "\<lambda>b. dynamic_buffer_inv b \<and> 0 < db_max_ranges b"
  dynamic_buffer_content dynamic_buffer_readable_ranges db_peek
  by unfold_locales (blast intro!: db_readable_prefix)

subsection \<open>commit\<close>

text \<open>The writable part of a list of extents, as the data the arrays hold there.\<close>

definition x_room :: "'a extent \<Rightarrow> 'a list" where
  "x_room e = drop (x_write_pointer e) (x_data e)"

definition db_room :: "'a dynamic_buffer \<Rightarrow> nat list \<Rightarrow> 'a list" where
  "db_room b as = concat (map (\<lambda>a. x_room (ext (db_heap b) a)) as)"

lemma db_room_simps [simp]: "db_room b [] = []" "db_room b (a # as) = x_room (ext (db_heap b) a) @ db_room b as"
  "db_room b (as @ cs) = db_room b as @ db_room b cs"
  by (simp_all add: db_room_def)

lemma length_x_room [simp]: "length (x_room e) = x_writable e"
  by (simp add: x_room_def x_writable_def)

lemma db_room_store [simp]: "a \<notin> set as \<Longrightarrow> db_room (db_store b a e) as = db_room b as"
  unfolding db_room_def by (rule arg_cong [where f = concat], rule map_cong [OF refl]) (metis db_store_simps(1) ext_update(2))

lemma db_room_tail [simp]: "db_room (b\<lparr>db_tail := p\<rparr>) as = db_room b as"
  by (simp add: db_room_def)

lemma db_commit_tail:
  assumes "db_shape b bs t cs" "0 < length (db_room b (t # cs))"
  obtains b1 bs1 t1 cs1 where
    "(if x_writable (ext (db_heap b) t) = 0
      then sk_check (x_next (ext (db_heap b) t) \<noteq> None) ''dynamic_buffer::commit(): no tail''
             (Ret (b\<lparr>db_tail := x_next (ext (db_heap b) t)\<rparr>))
      else Ret b) = Ret b1"
    "db_shape b1 bs1 t1 cs1" "0 < x_writable (ext (db_heap b1) t1)"
    "db_room b1 (t1 # cs1) = db_room b (t # cs)" "dynamic_buffer_content b1 = dynamic_buffer_content b"
proof (cases "x_writable (ext (db_heap b) t) = 0")
  case True
  then have full: "x_full (db_xsize b) (ext (db_heap b) t)" and empty: "x_room (ext (db_heap b) t) = []"
    using db_shapeD(4) [OF assms(1)] by (auto simp: extent_defs x_room_def)
  from assms(2) empty obtain c cs' where cs: "cs = c # cs'" by (cases cs) auto
  note shape = db_make_tail_spare(2) [OF assms(1) [unfolded cs] full]
  have nxt: "x_next (ext (db_heap b) t) = Some c"
    using assms(1) cs by (auto simp: db_shape_def xpath_append)
  have spare: "x_spare (db_xsize b) (ext (db_heap b) c)" using db_shapeD(9) [OF assms(1)] cs by simp
  then have "0 < x_writable (ext (db_heap b) c)"
    using db_shapeD(3) [OF assms(1)] by (simp add: extent_defs)
  moreover have "dynamic_buffer_content (b\<lparr>db_tail := Some c\<rparr>) = dynamic_buffer_content b"
    using db_shape_content [OF shape] db_shape_content [OF assms(1)] spare by (simp add: extent_defs)
  ultimately show thesis using True nxt shape empty cs by (intro that [of "b\<lparr>db_tail := Some c\<rparr>"]) auto
next
  case False
  then show thesis using assms(1) by (intro that [of b]) auto
qed

lemma db_commit_step:
  assumes "db_shape b bs t cs" "k \<le> x_writable (ext (db_heap b) t)"
  defines "te \<equiv> ext (db_heap b) t"
  defines "b' \<equiv> db_store b t (te\<lparr>x_write_pointer := x_write_pointer te + k\<rparr>)"
  shows "db_shape b' bs t cs" "db_room b' (t # cs) = drop k (db_room b (t # cs))"
    "dynamic_buffer_content b' = dynamic_buffer_content b @ take k (db_room b (t # cs))"
proof -
  note d = db_shapeD [OF assms(1)]
  define te' where "te' = te\<lparr>x_write_pointer := x_write_pointer te + k\<rparr>"
  have act: "x_active (db_xsize b) te'" and len: "k \<le> length (x_room te)"
    using d(4) assms(2) by (auto simp: te'_def te_def extent_defs x_room_def)
  have "segment (x_data te) (x_read_pointer te) (x_write_pointer te + k) = x_content te @ take k (x_room te)"
    using segment_split [of "x_read_pointer te" "x_write_pointer te" "x_write_pointer te + k" "x_data te"] d(4)
    by (simp add: te_def extent_defs x_room_def segment_def)
  then have cont: "x_content te' = x_content te @ take k (x_room te)" by (simp add: te'_def x_content_def)
  have nxt: "x_next te' = x_next (ext (db_heap b) t)" by (simp add: te'_def te_def)
  have room: "x_room te' = drop k (x_room te)" by (simp add: te'_def x_room_def add.commute)
  show "db_shape b' bs t cs" using db_store_tail(1) [OF assms(1) nxt act] by (simp add: b'_def te'_def)
  show "db_room b' (t # cs) = drop k (db_room b (t # cs))"
    using d(2,6) room len by (simp add: b'_def te'_def te_def)
  show "dynamic_buffer_content b' = dynamic_buffer_content b @ take k (db_room b (t # cs))"
    using db_store_tail(2) [OF assms(1) nxt act] db_shape_content [OF assms(1)] cont len
    by (simp add: b'_def te'_def [symmetric] te_def [symmetric])
qed

lemma db_commit_loop_ok:
  assumes "db_shape b bs t cs" "n \<le> length (db_room b (t # cs))" "n < fuel"
  shows "\<exists>b'. db_commit_loop fuel b n = Ret (0, b') \<and> dynamic_buffer_inv b' \<and>
    dynamic_buffer_content b' = dynamic_buffer_content b @ take n (db_room b (t # cs))"
  using assms
proof (induction fuel arbitrary: b bs t cs n)
  case (Suc fuel)
  show ?case
  proof (cases "n = 0")
    case True
    then show ?thesis using Suc.prems(1) by (auto simp: dynamic_buffer_inv_def)
  next
    case False
    then have "0 < length (db_room b (t # cs))" using Suc.prems(2) by linarith
    from db_commit_tail [OF Suc.prems(1) this] obtain b1 bs1 t1 cs1 where b1:
      "(if x_writable (ext (db_heap b) t) = 0
        then sk_check (x_next (ext (db_heap b) t) \<noteq> None) ''dynamic_buffer::commit(): no tail''
               (Ret (b\<lparr>db_tail := x_next (ext (db_heap b) t)\<rparr>))
        else Ret b) = Ret b1"
      "db_shape b1 bs1 t1 cs1" "0 < x_writable (ext (db_heap b1) t1)"
      "db_room b1 (t1 # cs1) = db_room b (t # cs)" "dynamic_buffer_content b1 = dynamic_buffer_content b" .
    define te where "te = ext (db_heap b1) t1"
    define k where "k = min n (x_writable te)"
    define b2 where "b2 = db_store b1 t1 (te\<lparr>x_write_pointer := x_write_pointer te + k\<rparr>)"
    have k: "0 < k" "k \<le> n" "k \<le> x_writable (ext (db_heap b1) t1)"
      using False b1(3) by (auto simp: k_def te_def)
    note b2 = db_commit_step [OF b1(2) k(3), folded te_def, folded b2_def]
    have "n - k \<le> length (db_room b2 (t1 # cs1))" "n - k < fuel"
      using k Suc.prems(2,3) unfolding b2(2) b1(4) length_drop by linarith+
    from Suc.IH [OF b2(1) this] obtain b3 where
      "db_commit_loop fuel b2 (n - k) = Ret (0, b3)" "dynamic_buffer_inv b3"
      "dynamic_buffer_content b3 = dynamic_buffer_content b2 @ take (n - k) (db_room b2 (t1 # cs1))" by blast
    moreover from this b2(2,3) b1(4,5) k(2) have
      "dynamic_buffer_content b3 = dynamic_buffer_content b @ take n (db_room b (t # cs))"
      by (simp flip: take_add del: db_room_simps)
    moreover have "deref (db_heap b) (db_tail b) = Ret (t, ext (db_heap b) t)"
      "deref (db_heap b1) (db_tail b1) = Ret (t1, te)"
      using db_shapeD(1,2) [OF Suc.prems(1)] db_shapeD(1,2) [OF b1(2)] by (simp_all add: te_def)
    ultimately show ?thesis using False b1(1) by (simp add: Let_def flip: k_def b2_def)
  qed
qed simp

lemma dynamic_buffer_commit_ok:
  assumes "db_shape b bs t cs" "n \<le> length (db_room b (t # cs))"
  shows "\<exists>b'. dynamic_buffer_commit b n = Ret (n, b') \<and> dynamic_buffer_inv b' \<and>
    dynamic_buffer_content b' = dynamic_buffer_content b @ take n (db_room b (t # cs))"
  using db_commit_loop_ok [OF assms, of "Suc n"] by (auto simp: dynamic_buffer_commit_def)

subsection \<open>writable_ranges\<close>

definition db_poke :: "'a dynamic_buffer \<Rightarrow> xrange \<Rightarrow> 'a list \<Rightarrow> 'a dynamic_buffer" where
  "db_poke b r xs =
     (let e = ext (db_heap b) (fst r)
      in db_store b (fst r) (e\<lparr>x_data := copy_at (x_data e) (fst (snd r)) xs\<rparr>))"

definition x_writable_range :: "'a extent option list \<Rightarrow> nat \<Rightarrow> xrange" where
  "x_writable_range heap a = (a, x_write_pointer (ext heap a), length (x_data (ext heap a)))"

lemma xrange_len_writable [simp]: "xrange_len (x_writable_range heap a) = x_writable (ext heap a)"
  by (simp add: xrange_len_def x_writable_range_def x_writable_def)

lemma db_writable_loop_ok:
  assumes "tv_wf ret" "xpath (db_heap b) p as None"
    "\<And>a. a \<in> set as \<Longrightarrow> 0 < x_writable (ext (db_heap b) a)"
    "length (tv_data ret) - tv_size ret < fuel"
  shows "\<exists>v. db_writable_loop fuel b ret p = Ret v \<and>
    tv_list v = tv_list ret @
      map (x_writable_range (db_heap b)) (take (length (tv_data ret) - tv_size ret) as)"
  using assms
proof (induction fuel arbitrary: ret p as)
  case (Suc fuel)
  show ?case
  proof (cases "tv_size ret = length (tv_data ret) \<or> p = None")
    case True
    then show ?thesis using Suc.prems(2) by (cases as) auto
  next
    case False
    then obtain a as' where as: "as = a # as'" and p: "p = Some a" "valid_ref (db_heap b) a"
      "xpath (db_heap b) (x_next (ext (db_heap b) a)) as' None" using Suc.prems(2) by (cases as) auto
    have size: "tv_size ret < length (tv_data ret)"
      using False Suc.prems(1) by (auto simp: tv_wf_def)
    from tv_push_room [OF Suc.prems(1) size, of "x_writable_range (db_heap b) a"] obtain v where
      v: "tv_push_back ret (a, x_write_pointer (ext (db_heap b) a), length (x_data (ext (db_heap b) a))) = Ret v"
        "tv_wf v" "tv_list v = tv_list ret @ [x_writable_range (db_heap b) a]"
        "length (tv_data v) = length (tv_data ret)" "tv_size v = Suc (tv_size ret)"
      by (auto simp: x_writable_range_def)
    have room: "length (tv_data ret) - tv_size ret = Suc (length (tv_data v) - tv_size v)"
      using size v(4,5) by simp
    have "length (tv_data v) - tv_size v < fuel" using room Suc.prems(4) by simp
    from Suc.IH [OF v(2) p(3) _ this] show ?thesis
      using False Suc.prems(3) p(1,2) v(1,3) as room by auto
  qed
qed simp

text \<open>The states in which \<^verbatim>\<open>writable_ranges\<close> keeps the invariant: the tail is empty, or it
  has room left and there is a spare extent after it, or it is full and the last extent.\<close>

definition db_window_ready :: "'a dynamic_buffer \<Rightarrow> bool" where
  "db_window_ready b \<longleftrightarrow>
     (let te = ext (db_heap b) (the (db_tail b))
      in x_empty te \<or> (x_next te = None \<longleftrightarrow> x_writable te = 0))"

lemma db_ensure_minfree_ok:
  assumes "dynamic_buffer_inv b" "db_window_ready b"
  shows "\<exists>b1 bs t cs. db_ensure_minfree b = Ret b1 \<and> db_shape b1 bs t cs \<and>
    db_max_ranges b1 = db_max_ranges b \<and> dynamic_buffer_content b1 = dynamic_buffer_content b \<and>
    0 < x_writable (ext (db_heap b1) t)"
proof -
  from assms(1) obtain bs t cs where shape: "db_shape b bs t cs" by (auto simp: dynamic_buffer_inv_def)
  note d = db_shapeD [OF shape]
  define te where "te = ext (db_heap b) t"
  have ready: "x_empty te \<or> (x_next te = None \<longleftrightarrow> x_writable te = 0)"
    using assms(2) d(1) by (simp add: db_window_ready_def te_def Let_def)
  have path: "xpath (db_heap b) (x_next te) cs None"
    using shape by (auto simp: db_shape_def xpath_append te_def)
  show ?thesis
  proof (cases "x_empty te \<or> x_writable te \<noteq> 0")
    case True
    then have "0 < x_writable te" using d(3,4) by (auto simp: te_def extent_defs)
    moreover have "db_ensure_minfree b = Ret b"
    proof (cases cs)
      case Nil
      then show ?thesis using True ready path d(1,2) by (auto simp: db_ensure_minfree_def te_def)
    next
      case (Cons c cs')
      then show ?thesis using path d(1,2) d(9) [of c]
        by (auto simp: db_ensure_minfree_def te_def x_spare_def x_empty_def)
    qed
    ultimately show ?thesis using shape by (auto simp: te_def)
  next
    case False
    then have full: "x_full (db_xsize b) te" and nxt: "x_next te = None" and ne: "\<not> x_empty te"
      using d(4) ready by (auto simp: te_def extent_defs)
    have "cs = []" using path nxt by (cases cs) auto
    note alloc = db_make_tail_alloc [OF shape [unfolded this] full [unfolded te_def]]
    have "db_ensure_minfree b = db_make_tail b"
      using d(1,2) ne nxt by (simp add: db_ensure_minfree_def te_def)
    with alloc d(3) show ?thesis by (fastforce simp: x_new_def x_writable_def)
  qed
qed

lemma dynamic_buffer_writable_ranges_ok:
  assumes "dynamic_buffer_inv b" "db_window_ready b"
  shows "\<exists>b1 bs t cs. db_shape b1 bs t cs \<and> dynamic_buffer_content b1 = dynamic_buffer_content b \<and>
    dynamic_buffer_writable_ranges b =
      Ret (map (x_writable_range (db_heap b1)) (take (db_max_ranges b) (t # cs)), b1)"
proof -
  from db_ensure_minfree_ok [OF assms] obtain b1 bs t cs where
    b1: "db_ensure_minfree b = Ret b1" "db_shape b1 bs t cs" "db_max_ranges b1 = db_max_ranges b"
      "dynamic_buffer_content b1 = dynamic_buffer_content b" "0 < x_writable (ext (db_heap b1) t)" by blast
  note d = db_shapeD [OF b1(2)]
  have path: "xpath (db_heap b1) (db_tail b1) (t # cs) None"
    using b1(2) d(1) by (auto simp: db_shape_def xpath_append)
  have "0 < x_writable (ext (db_heap b1) a)" if "a \<in> set (t # cs)" for a
    using that b1(5) d(3) d(9) [of a] by (auto simp: extent_defs)
  from db_writable_loop_ok [OF _ path this, of "tv_empty (replicate (db_max_ranges b) (0, 0, 0))"
      "Suc (db_max_ranges b)"]
  have "dynamic_buffer_writable_ranges b =
      Ret (map (x_writable_range (db_heap b1)) (take (db_max_ranges b) (t # cs)), b1)"
    using b1(1,3) d(1) by (auto simp: dynamic_buffer_writable_ranges_def)
  with b1 show ?thesis by blast
qed

subsection \<open>Filling the ranges and committing\<close>

lemma db_store_spare:
  assumes "db_shape b bs t cs" "a \<in> set cs" "x_next e = x_next (ext (db_heap b) a)" "x_spare (db_xsize b) e"
  shows "db_shape (db_store b a e) bs t cs" "dynamic_buffer_content (db_store b a e) = dynamic_buffer_content b"
proof -
  note d = db_shapeD [OF assms(1)]
  have a: "valid_ref (db_heap b) a" "a \<notin> set bs" "a \<noteq> t" using d assms(2) by auto
  have ext: "ext ((db_heap b)[a := Some e]) c = ext (db_heap b) c" if "c \<in> set bs \<or> c = t" for c
    using that a by (metis ext_update(2))
  have spare: "x_spare (db_xsize b) (ext ((db_heap b)[a := Some e]) c)" if "c \<in> set cs" for c
    using that d(9) assms(4) a(1) by (cases "c = a") auto
  show shape: "db_shape (db_store b a e) bs t cs"
    using assms(1) ext spare xpath_update_same [OF assms(3) a(1)] unfolding db_shape_def by simp
  show "dynamic_buffer_content (db_store b a e) = dynamic_buffer_content b"
    using db_shape_content [OF shape] db_shape_content [OF assms(1)] a by simp
qed

lemma db_poke_ok:
  assumes "db_shape b bs t cs" "a \<in> set (t # cs)" "length xs \<le> x_writable (ext (db_heap b) a)"
  defines "b' \<equiv> db_poke b (x_writable_range (db_heap b) a) xs"
  shows "db_shape b' bs t cs" "dynamic_buffer_content b' = dynamic_buffer_content b"
    "\<And>c. c \<noteq> a \<Longrightarrow> ext (db_heap b') c = ext (db_heap b) c"
    "x_room (ext (db_heap b') a) = copy_at (x_room (ext (db_heap b) a)) 0 xs"
proof -
  note d = db_shapeD [OF assms(1)]
  define e where "e = ext (db_heap b) a"
  define e' where "e' = e\<lparr>x_data := copy_at (x_data e) (x_write_pointer e) xs\<rparr>"
  have b': "b' = db_store b a e'" by (simp add: b'_def db_poke_def x_writable_range_def e'_def e_def Let_def)
  have nxt: "x_next e' = x_next (ext (db_heap b) a)" by (simp add: e'_def e_def)
  have valid: "valid_ref (db_heap b) a" and wp: "x_write_pointer e \<le> length (x_data e)"
    using assms(2) d(2,4) d(9) [of a] by (auto simp: e_def extent_defs)
  have len: "length (x_data e') = length (x_data e)" using assms(3) wp by (simp add: e'_def e_def x_writable_def)
  show "ext (db_heap b') c = ext (db_heap b) c" if "c \<noteq> a" for c using that by (simp add: b')
  show "x_room (ext (db_heap b') a) = copy_at (x_room (ext (db_heap b) a)) 0 xs"
    using valid wp by (simp add: b' e'_def x_room_def copy_at_def e_def [symmetric] add.commute)
  show "db_shape b' bs t cs" "dynamic_buffer_content b' = dynamic_buffer_content b"
  proof (atomize (full), cases "a = t")
    case True
    have "x_active (db_xsize b) e'" using d(4) True len by (auto simp: e_def e'_def x_active_def)
    moreover have "x_content e' = x_content e"
      using wp by (simp add: e'_def x_content_def segment_copy_at_before)
    ultimately show "db_shape b' bs t cs \<and> dynamic_buffer_content b' = dynamic_buffer_content b"
      using db_store_tail [OF assms(1), of e'] db_shape_content [OF assms(1)] nxt True
      by (simp add: b' e_def)
  next
    case False
    then have a: "a \<in> set cs" using assms(2) by simp
    have "x_spare (db_xsize b) e'" using d(9) [OF a] len by (auto simp: e_def e'_def x_spare_def)
    then show "db_shape b' bs t cs \<and> dynamic_buffer_content b' = dynamic_buffer_content b"
      using db_store_spare [OF assms(1) a nxt] by (simp add: b')
  qed
qed

lemma db_fill_ok:
  assumes "db_shape b bs t cs" "set as \<subseteq> set (t # cs)" "distinct as" "length xs \<le> length (db_room b as)"
  defines "b' \<equiv> fill_ranges db_poke xrange_len b (map (x_writable_range (db_heap b)) as) xs"
  shows "db_shape b' bs t cs \<and> dynamic_buffer_content b' = dynamic_buffer_content b \<and>
    (\<forall>c. c \<notin> set as \<longrightarrow> ext (db_heap b') c = ext (db_heap b) c) \<and>
    db_room b' as = copy_at (db_room b as) 0 xs"
  using assms(1-4) unfolding b'_def
proof (induction as arbitrary: b xs)
  case (Cons a as)
  define k where "k = x_writable (ext (db_heap b) a)"
  define b1 where "b1 = db_poke b (x_writable_range (db_heap b) a) (take k xs)"
  have "a \<in> set (t # cs)" "length (take k xs) \<le> x_writable (ext (db_heap b) a)"
    using Cons.prems(2) by (auto simp: k_def)
  note poke = db_poke_ok [OF Cons.prems(1) this, folded b1_def]
  have same: "ext (db_heap b1) c = ext (db_heap b) c" if "c \<in> set as" for c
    using that Cons.prems(3) poke(3) [of c] by auto
  then have rooms: "db_room b1 as = db_room b as" and ranges: "map (x_writable_range (db_heap b)) as =
      map (x_writable_range (db_heap b1)) as"
    unfolding db_room_def x_writable_range_def by (simp_all cong: map_cong)
  have "length (drop k xs) \<le> length (db_room b1 as)"
    using Cons.prems(4) rooms by (simp add: k_def)
  from Cons.IH [OF poke(1) _ _ this] Cons.prems(2,3) obtain
    IH: "db_shape (fill_ranges db_poke xrange_len b1 (map (x_writable_range (db_heap b1)) as) (drop k xs)) bs t cs"
      "dynamic_buffer_content (fill_ranges db_poke xrange_len b1 (map (x_writable_range (db_heap b1)) as) (drop k xs))
         = dynamic_buffer_content b1"
      "\<And>c. c \<notin> set as \<Longrightarrow> ext (db_heap (fill_ranges db_poke xrange_len b1
         (map (x_writable_range (db_heap b1)) as) (drop k xs))) c = ext (db_heap b1) c"
      "db_room (fill_ranges db_poke xrange_len b1 (map (x_writable_range (db_heap b1)) as) (drop k xs)) as
         = copy_at (db_room b1 as) 0 (drop k xs)" by auto
  have eq: "fill_ranges db_poke xrange_len b (map (x_writable_range (db_heap b)) (a # as)) xs =
      fill_ranges db_poke xrange_len b1 (map (x_writable_range (db_heap b1)) as) (drop k xs)"
    unfolding ranges [symmetric] by (simp add: k_def b1_def)
  have "copy_at (x_room (ext (db_heap b) a)) 0 (take k xs) @ copy_at (db_room b as) 0 (drop k xs) =
      copy_at (x_room (ext (db_heap b) a) @ db_room b as) 0 xs"
    by (cases "length xs \<le> k") (simp_all add: copy_at_def k_def)
  then show ?case unfolding eq using IH poke rooms Cons.prems(3) by simp
qed simp

lemma db_fill_commit:
  assumes "dynamic_buffer_inv b" "db_window_ready b" "dynamic_buffer_writable_ranges b = Ret (rs, b1)"
    "length xs \<le> sum_list (map xrange_len rs)"
  shows "\<exists>b'. dynamic_buffer_commit (fill_ranges db_poke xrange_len b1 rs xs) (length xs) = Ret (length xs, b') \<and>
    dynamic_buffer_inv b' \<and> dynamic_buffer_content b' = dynamic_buffer_content b @ xs"
proof -
  from dynamic_buffer_writable_ranges_ok [OF assms(1,2)] assms(3) obtain bs t cs where
    shape: "db_shape b1 bs t cs" "dynamic_buffer_content b1 = dynamic_buffer_content b"
    and rs: "rs = map (x_writable_range (db_heap b1)) (take (db_max_ranges b) (t # cs))" by auto
  define as where "as = take (db_max_ranges b) (t # cs)"
  define b2 where "b2 = fill_ranges db_poke xrange_len b1 rs xs"
  have len: "length xs \<le> length (db_room b1 as)"
    using assms(4) by (simp add: rs as_def db_room_def length_concat comp_def)
  have "distinct as" using shape(1) unfolding as_def db_shape_def by (intro distinct_take) simp
  moreover have "set as \<subseteq> set (t # cs)" unfolding as_def by (rule set_take_subset)
  ultimately have b2: "db_shape b2 bs t cs" "dynamic_buffer_content b2 = dynamic_buffer_content b"
    "db_room b2 as = copy_at (db_room b1 as) 0 xs"
    using db_fill_ok [OF shape(1) _ _ len] shape(2) unfolding b2_def rs as_def by auto
  have room: "db_room b2 (t # cs) = copy_at (db_room b1 as) 0 xs @ db_room b2 (drop (db_max_ranges b) (t # cs))"
    using b2(3) unfolding as_def by (metis append_take_drop_id db_room_simps(3))
  then have "length xs \<le> length (db_room b2 (t # cs))" "take (length xs) (db_room b2 (t # cs)) = xs"
    unfolding room by (simp_all add: copy_at_def)
  with dynamic_buffer_commit_ok [OF b2(1), of "length xs"] b2(2) show ?thesis unfolding b2_def by auto
qed

subsection \<open>Construction, destruction, and the states the ranges get wrong\<close>

lemma dynamic_buffer_new_shape:
  assumes "0 < xsize"
  shows "db_shape (dynamic_buffer_new xsize m i) [] 0 []"
    "dynamic_buffer_content (dynamic_buffer_new xsize m i) = []"
proof -
  show shape: "db_shape (dynamic_buffer_new xsize m i) [] 0 []"
    using assms by (simp add: dynamic_buffer_new_def db_shape_def valid_ref_def ext_def x_new_def x_active_def)
  show "dynamic_buffer_content (dynamic_buffer_new xsize m i) = []"
    using db_shape_content [OF shape]
    by (simp add: dynamic_buffer_new_def ext_def x_new_def x_content_def)
qed

lemma db_delete_ok:
  assumes "xpath heap p as None" "distinct as" "length as < fuel"
  shows "\<exists>heap'. db_delete fuel heap p = Ret heap' \<and> length heap' = length heap \<and>
    (\<forall>a \<in> set as. heap' ! a = None) \<and> (\<forall>a. a \<notin> set as \<longrightarrow> heap' ! a = heap ! a)"
  using assms
proof (induction as arbitrary: p fuel)
  case Nil
  then show ?case by (cases fuel) auto
next
  case (Cons a as)
  then obtain f where f: "fuel = Suc f" "length as < f" by (cases fuel) auto
  have a: "p = Some a" "valid_ref heap a" "xpath heap (x_next (ext heap a)) as None" "a \<notin> set as"
    using Cons.prems(1,2) by auto
  from Cons.IH [OF a(3) _ f(2)] Cons.prems(2) obtain h where
    h: "db_delete f heap (x_next (ext heap a)) = Ret h" "length h = length heap"
      "\<forall>a \<in> set as. h ! a = None" "\<forall>a. a \<notin> set as \<longrightarrow> h ! a = heap ! a" by auto
  have "db_delete fuel heap p = Ret (h[a := None])" using f(1) a(1,2) h(1) by simp
  moreover have "(h[a := None]) ! c = (if c = a then None else h ! c)" for c
    using a(2) h(2) by simp
  ultimately show ?case using h(2-4) by auto
qed

lemma db_xfree_ok:
  assumes "db_shape b bs t cs"
  shows "\<exists>heap. db_xfree b = Ret (b\<lparr>db_heap := heap, db_head := None, db_tail := None\<rparr>) \<and>
    length heap = length (db_heap b) \<and>
    (\<forall>a. heap ! a = (if a \<in> set (bs @ t # cs) then None else db_heap b ! a))"
proof -
  have path: "xpath (db_heap b) (db_head b) (bs @ t # cs) None" "distinct (bs @ t # cs)"
    using assms by (simp_all add: db_shape_def)
  from db_delete_ok [OF path, of "Suc (length (db_heap b))"] xpath_distinct_length [OF path]
  show ?thesis by (auto simp: db_xfree_def)
qed

text \<open>The head extent decides what \<^verbatim>\<open>read\<close> returns: an extent that is not full is never
  dead, so a read does not go past it.\<close>

lemma db_read_stops_at_partial_head:
  assumes "db_head b = Some h" "valid_ref (db_heap b) h"
    "x_read_pointer (ext (db_heap b) h) \<le> x_write_pointer (ext (db_heap b) h)"
    "x_write_pointer (ext (db_heap b) h) < length (x_data (ext (db_heap b) h))"
  shows "\<exists>b'. dynamic_buffer_read b n = Ret (take n (x_content (ext (db_heap b) h)), b')"
proof -
  define he where "he = ext (db_heap b) h"
  define rd where "rd = min n (x_readable he)"
  define he' where "he' = he\<lparr>x_read_pointer := x_read_pointer he + rd\<rparr>"
  have alive: "\<not> x_dead he" "\<not> x_dead he'"
    using assms(4) by (auto simp: he_def he'_def x_dead_def x_writable_def)
  have der: "deref (db_heap b) (db_head b) = Ret (h, he)" using assms(1,2) by (simp add: he_def)
  have der': "deref (db_heap (db_store b h he')) (db_head (db_store b h he')) = Ret (h, he')"
    using assms(1,2) by simp
  have again: "db_read_loop f (db_store b h he') (n - rd) = Ret ([], db_store b h he')"
    if "0 < f" for f
  proof (cases "n \<le> x_readable he")
    case True
    with that show ?thesis by (cases f) (simp_all add: rd_def)
  next
    case False
    then have "x_readable he' = 0" by (simp add: he'_def rd_def x_readable_def)
    with that der' alive show ?thesis by (cases f) simp_all
  qed
  have seg: "segment (x_data he) (x_read_pointer he) (x_read_pointer he + rd) = take n (x_content he)"
    by (simp add: x_content_def take_min_segment rd_def x_readable_def)
  show ?thesis
  proof (cases "n = 0 \<or> x_readable he = 0")
    case True
    then show ?thesis using der alive
      by (auto simp: dynamic_buffer_read_def x_content_def x_readable_def segment_empty simp flip: he_def)
  next
    case False
    then have "0 < n" "0 < rd" "rd \<le> n" "x_read_pointer he + rd \<le> x_write_pointer he"
      using assms(3) by (auto simp: rd_def x_readable_def he_def)
    then show ?thesis using False der alive again [of n] seg
      by (auto simp: dynamic_buffer_read_def db_retire_head_def Let_def simp flip: he_def rd_def he'_def)
  qed
qed

lemma db_discard_loop_beyond:
  assumes "dynamic_buffer_inv b" "length (dynamic_buffer_content b) < n" "n < fuel"
  shows "db_discard_loop fuel b n = Abort ''INTERNAL ERROR: dynamic_buffer::discard: unreadable head''"
  using assms
proof (induction fuel arbitrary: b n)
  case (Suc fuel)
  from db_head_step [OF Suc.prems(1)] obtain h he where front: "db_front b h he" by blast
  note h = front [unfolded db_front_def]
  have der: "deref (db_heap b) (db_head b) = Ret (h, he)" and n: "n \<noteq> 0" using h Suc.prems(2) by simp_all
  show ?case
  proof (cases "x_readable he = 0")
    case True
    then show ?thesis using der n by simp
  next
    case False
    have le: "x_readable he < n" using h Suc.prems(2) by auto
    with h obtain b1 where
      b1: "db_retire_head (db_store b h (he\<lparr>x_read_pointer := x_read_pointer he + x_readable he\<rparr>)) h
             (he\<lparr>x_read_pointer := x_read_pointer he + x_readable he\<rparr>) = Ret b1"
        "dynamic_buffer_inv b1" "dynamic_buffer_content b1 = drop (x_readable he) (dynamic_buffer_content b)"
      by blast
    have "length (dynamic_buffer_content b1) < n - x_readable he" "n - x_readable he < fuel"
      using b1(3) h le False Suc.prems(2,3) by auto
    from Suc.IH [OF b1(2) this] show ?thesis using der n False le b1(1) by (simp add: Let_def)
  qed
qed simp

lemma db_writable_full_tail:
  assumes "db_shape b bs t (c # cs)" "x_writable (ext (db_heap b) t) = 0" "0 < db_max_ranges b"
  shows "dynamic_buffer_writable_ranges b =
    Abort ''INTERNAL ERROR: dynamic_buffer::writable_ranges: unexpected full tail''"
proof -
  note d = db_shapeD [OF assms(1)]
  have nxt: "x_next (ext (db_heap b) t) = Some c"
    using assms(1) by (auto simp: db_shape_def xpath_append)
  have "\<not> x_empty (ext (db_heap b) t)" using assms(2) d(3,4) by (auto simp: extent_defs)
  then have "db_ensure_minfree b = Ret b"
    using d(1,2) d(9) [of c] nxt by (simp add: db_ensure_minfree_def x_spare_def x_empty_def)
  then show ?thesis using d(1,2) assms(2,3)
    by (simp add: dynamic_buffer_writable_ranges_def tv_empty_def)
qed

lemma extent_capacity_eq:
  assumes "24 \<le> extent_bytes" "extent_bytes < 2 ^ 31" "0 < char_size"
  shows "extent_capacity char_size extent_bytes = (extent_bytes - 24) div char_size"
proof -
  have "sint (word_of_nat extent_bytes :: 32 word) = int extent_bytes"
    using assms(2) by (simp add: signed_of_nat signed_take_bit_int_eq_self)
  then have n: "unat (scast (word_of_nat extent_bytes :: 32 word) :: 64 word) = extent_bytes"
    using assms(2) by (simp add: scast_eq unat_of_nat take_bit_nat_eq_self)
  have "(extent_bytes - 24) div char_size \<le> extent_bytes - 24" by (rule div_le_dividend)
  moreover have "extent_bytes < 2 ^ 64" using assms(2) by simp
  ultimately have "(extent_bytes - 24) div char_size + 24 < 2 ^ 64" using assms(1) by linarith
  then show ?thesis using assms n by (simp add: extent_capacity_def extent_size_from_bytes_def)
qed

subsection \<open>Properties\<close>

text \<open>C1: A \<^verbatim>\<open>dynamic_buffer\<close> refines an unbounded queue: any sequence of writes and reads on a
  new buffer, whatever the extent size, returns, accepts everything offered, yields the objects
  in order and leaves the rest in the buffer; no internal check fires, no null or deleted extent
  is followed, and both loops end.\<close>

theorem dynamic_buffer_refines_queue:
  "case queue_run (\<lambda>q n. n) [] ops of (ins, outs, q) \<Rightarrow>
     \<exists>b'. buffer_run dynamic_buffer_write dynamic_buffer_read (dynamic_buffer_new (Suc x) m i) ops =
       Ret (ins, outs, b') \<and> dynamic_buffer_inv b' \<and> dynamic_buffer_content b' = q"
proof -
  have new: "dynamic_buffer_inv (dynamic_buffer_new (Suc x) m i)"
    "dynamic_buffer_content (dynamic_buffer_new (Suc x) m i) = []"
    using dynamic_buffer_new_shape [of "Suc x" m i] by (auto simp: dynamic_buffer_inv_def)
  obtain ins outs q where "queue_run (\<lambda>q n. n) [] ops = (ins, outs, q)"
    by (cases "queue_run (\<lambda>q n. n) [] ops")
  with db.run_refines_queue [OF new(1), of ops ins outs q] new(2) show ?thesis by auto
qed

text \<open>\<^verbatim>\<open>discard(n)\<close> removes the first \<open>n\<close> objects when the buffer holds that many; for a larger
  \<open>n\<close> it does not stop at the end of the data but aborts on the unreadable head.\<close>

theorem dynamic_buffer_discard_total:
  assumes "dynamic_buffer_inv b"
  shows "if n \<le> length (dynamic_buffer_content b)
    then \<exists>b'. dynamic_buffer_discard b n = Ret (n, b') \<and> dynamic_buffer_inv b' \<and>
           dynamic_buffer_content b' = drop n (dynamic_buffer_content b)
    else dynamic_buffer_discard b n = Abort ''INTERNAL ERROR: dynamic_buffer::discard: unreadable head''"
  using dynamic_buffer_discard_ok [OF assms, of n] db_discard_loop_beyond [OF assms, of n "Suc n"]
  by (auto simp: dynamic_buffer_discard_def)

theorem dynamic_buffer_discard_total_witness:
  "dynamic_buffer_discard (dynamic_buffer_new 4 2 (0::nat)) 1 =
    Abort ''INTERNAL ERROR: dynamic_buffer::discard: unreadable head''"
  using dynamic_buffer_discard_total [of "dynamic_buffer_new 4 2 (0::nat)" 1]
    dynamic_buffer_new_shape [of 4 2 "0::nat"] by (auto simp: dynamic_buffer_inv_def)

text \<open>In the states named by \<open>db_window_ready\<close>, copying data into the ranges of
  \<^verbatim>\<open>writable_ranges\<close> and committing its size appends exactly that data, across as many extents
  as the ranges span.\<close>

theorem dynamic_buffer_fill_commit:
  assumes "dynamic_buffer_inv b" "db_window_ready b" "dynamic_buffer_writable_ranges b = Ret (rs, b1)"
    "length xs \<le> sum_list (map xrange_len rs)"
  shows "\<exists>b'. dynamic_buffer_commit (fill_ranges db_poke xrange_len b1 rs xs) (length xs) = Ret (length xs, b') \<and>
    dynamic_buffer_inv b' \<and> dynamic_buffer_content b' = dynamic_buffer_content b @ xs"
  by (rule db_fill_commit [OF assms])

theorem dynamic_buffer_fill_commit_witness:
  "\<exists>b'. dynamic_buffer_commit (fill_ranges db_poke xrange_len (dynamic_buffer_new 4 2 CHR ''.'') [(0, 0, 4)] ''abc'') 3 =
      Ret (3, b') \<and> dynamic_buffer_inv b' \<and> dynamic_buffer_content b' = ''abc''"
proof -
  let ?b = "dynamic_buffer_new 4 2 CHR ''.''"
  have "dynamic_buffer_inv ?b" "dynamic_buffer_content ?b = []"
    using dynamic_buffer_new_shape [of 4 2 "CHR ''.''"] by (auto simp: dynamic_buffer_inv_def)
  moreover have "db_window_ready ?b"
    by (simp add: db_window_ready_def dynamic_buffer_new_def ext_def x_new_def x_empty_def)
  moreover have "dynamic_buffer_writable_ranges ?b = Ret ([(0, 0, 4)], ?b)"
    by code_simp
  ultimately show ?thesis using dynamic_buffer_fill_commit [of ?b "[(0, 0, 4)]" ?b "''abc''"]
    by (simp add: xrange_len_def numeral_3_eq_3)
qed

text \<open>When the last extent is the tail and is exactly full but spare extents follow it, which
  reading and writing on produces, \<^verbatim>\<open>writable_ranges\<close> aborts although it could return the spare ones.\<close>

theorem dynamic_buffer_writable_ranges_full_tail:
  assumes "dynamic_buffer_inv b" "db_tail b = Some t" "x_writable (ext (db_heap b) t) = 0"
    "x_next (ext (db_heap b) t) \<noteq> None" "0 < db_max_ranges b"
  shows "dynamic_buffer_writable_ranges b =
    Abort ''INTERNAL ERROR: dynamic_buffer::writable_ranges: unexpected full tail''"
proof -
  from assms(1,2) obtain bs cs where shape: "db_shape b bs t cs"
    using db_shapeD(1) by (fastforce simp: dynamic_buffer_inv_def)
  then have "xpath (db_heap b) (x_next (ext (db_heap b) t)) cs None"
    by (auto simp: db_shape_def xpath_append)
  with assms(4) obtain c cs' where "cs = c # cs'" by (cases cs) auto
  with shape db_writable_full_tail assms(3,5) show ?thesis by blast
qed

theorem dynamic_buffer_writable_ranges_full_tail_witness:
  "\<exists>b1 b2. dynamic_buffer_write (dynamic_buffer_new 2 8 (0::nat)) [1, 2, 3, 4] = Ret (4, b1) \<and>
     dynamic_buffer_read b1 2 = Ret ([1, 2], b2) \<and>
     dynamic_buffer_writable_ranges b2 =
       Abort ''INTERNAL ERROR: dynamic_buffer::writable_ranges: unexpected full tail''"
proof -
  define b2 where "b2 = \<lparr>db_heap = [Some \<lparr>x_next = None, x_read_pointer = 0, x_write_pointer = 0, x_data = [1::nat, 2]\<rparr>,
      Some \<lparr>x_next = Some 0, x_read_pointer = 0, x_write_pointer = 2, x_data = [3, 4]\<rparr>],
      db_head = Some 1, db_tail = Some 1, db_xsize = 2, db_max_ranges = 8, db_indet = 0\<rparr>"
  have run: "case dynamic_buffer_write (dynamic_buffer_new 2 8 (0::nat)) [1, 2, 3, 4] of
      Ret (n, b1) \<Rightarrow> n = 4 \<and> dynamic_buffer_read b1 2 = Ret ([1, 2], b2) | _ \<Rightarrow> False"
    unfolding b2_def by code_simp
  have "db_shape b2 [] 1 [0]"
    by (simp add: b2_def db_shape_def valid_ref_def ext_def x_active_def x_spare_def)
  then have "dynamic_buffer_inv b2" by (auto simp: dynamic_buffer_inv_def)
  then have "dynamic_buffer_writable_ranges b2 =
      Abort ''INTERNAL ERROR: dynamic_buffer::writable_ranges: unexpected full tail''"
    by (rule dynamic_buffer_writable_ranges_full_tail [where t = 1])
      (simp_all add: b2_def ext_def x_writable_def)
  with run show ?thesis by (auto split: run.splits)
qed

lemma db_commit_new_tail:
  assumes "deref (db_heap b) (db_tail b) = Ret (a, e)" "n \<le> x_writable e" "0 < x_writable e"
  shows "dynamic_buffer_commit b n =
    Ret (n, if n = 0 then b else db_store b a (e\<lparr>x_write_pointer := x_write_pointer e + n\<rparr>))"
proof (cases n)
  case (Suc k)
  have "db_commit_loop (Suc k) b' 0 = Ret (0, b')" for b' :: "'a dynamic_buffer" by simp
  with Suc assms show ?thesis by (simp add: dynamic_buffer_commit_def Let_def)
qed (simp add: dynamic_buffer_commit_def)

text \<open>Asking for writable ranges when the only extent is partly filled makes a fresh extent the
  tail although the old one is not full; data committed to the new range is then never read:
  every later read stops at the end of the old extent.\<close>

theorem dynamic_buffer_window_strands:
  assumes "dynamic_buffer_inv b" "db_head b = Some t" "db_tail b = Some t"
    "0 < x_write_pointer (ext (db_heap b) t)" "0 < x_writable (ext (db_heap b) t)"
    "x_next (ext (db_heap b) t) = None" "0 < db_max_ranges b" "length xs \<le> db_xsize b"
  shows "\<exists>r b1 b2. dynamic_buffer_writable_ranges b = Ret ([r], b1) \<and>
    dynamic_buffer_commit (db_poke b1 r xs) (length xs) = Ret (length xs, b2) \<and>
    (\<forall>n. \<exists>b3. dynamic_buffer_read b2 n = Ret (take n (dynamic_buffer_content b), b3))"
proof -
  from assms(1,3) obtain bs cs where shape: "db_shape b bs t cs"
    using db_shapeD(1) by (fastforce simp: dynamic_buffer_inv_def)
  note d = db_shapeD [OF shape]
  have "bs = []" using shape assms(2) by (cases bs) (auto simp: db_shape_def)
  then have content: "dynamic_buffer_content b = x_content (ext (db_heap b) t)"
    using db_shape_content [OF shape] by simp
  define a where "a = length (db_heap b)"
  define te where "te = (ext (db_heap b) t)\<lparr>x_next := Some a\<rparr>"
  define new where "new = x_new (db_xsize b) (db_indet b)"
  define b1 where "b1 = b\<lparr>db_heap := (db_heap b @ [Some new])[t := Some te], db_tail := Some a\<rparr>"
  have t: "t < length (db_heap b)" "t \<noteq> a" using valid_ref_length [OF d(2)] by (auto simp: a_def)
  have b1: "valid_ref (db_heap b1) a" "ext (db_heap b1) a = new" "valid_ref (db_heap b1) t"
    "ext (db_heap b1) t = te" "db_tail b1 = Some a" "db_head b1 = Some t"
    using t assms(2) by (auto simp: b1_def a_def valid_ref_def ext_def nth_append)
  have new: "x_next new = None" "x_write_pointer new = 0" "length (x_data new) = db_xsize b"
    by (simp_all add: new_def x_new_def)
  have "db_ensure_minfree b = Ret b1"
    using assms(3,4,6) d(2) by (simp add: db_ensure_minfree_def db_make_tail_def x_empty_def b1_def te_def
        new_def a_def Let_def x_new_def)
  moreover have "\<exists>v. db_writable_loop (Suc (db_max_ranges b)) b1
      (tv_empty (replicate (db_max_ranges b) (0, 0, 0))) (Some a) = Ret v \<and>
      tv_list v = [x_writable_range (db_heap b1) a]"
    using db_writable_loop_ok [of "tv_empty (replicate (db_max_ranges b) (0, 0, 0))" b1 "Some a" "[a]"
        "Suc (db_max_ranges b)"] b1 new d(3) assms(7) by (cases "db_max_ranges b") (auto simp: x_writable_def)
  moreover have b1_max: "db_max_ranges b1 = db_max_ranges b" by (simp add: b1_def)
  ultimately have ranges: "dynamic_buffer_writable_ranges b = Ret ([x_writable_range (db_heap b1) a], b1)"
    using b1(5) by (auto simp: dynamic_buffer_writable_ranges_def b1_max simp del: db_writable_loop.simps)
  define e where "e = new\<lparr>x_data := copy_at (x_data new) 0 xs\<rparr>"
  have poke: "db_poke b1 (x_writable_range (db_heap b1) a) xs = db_store b1 a e"
    using b1 new by (simp add: db_poke_def x_writable_range_def e_def Let_def)
  have e: "x_writable e = db_xsize b" using assms(8) new by (simp add: e_def x_writable_def)
  define b2 where "b2 = (if xs = [] then db_store b1 a e
      else db_store (db_store b1 a e) a (e\<lparr>x_write_pointer := x_write_pointer e + length xs\<rparr>))"
  have "dynamic_buffer_commit (db_store b1 a e) (length xs) = Ret (length xs, b2)"
    using db_commit_new_tail [of "db_store b1 a e" a e "length xs"] b1 e assms(8) d(3) by (simp add: b2_def)
  moreover have "\<exists>b3. dynamic_buffer_read b2 n = Ret (take n (dynamic_buffer_content b), b3)" for n
  proof -
    have "db_head b2 = Some t" "valid_ref (db_heap b2) t" "ext (db_heap b2) t = te"
      using b1 t by (auto simp: b2_def)
    moreover have "x_read_pointer te \<le> x_write_pointer te" "x_write_pointer te < length (x_data te)"
      using d(4) assms(5) by (auto simp: te_def x_active_def x_writable_def)
    ultimately show ?thesis using db_read_stops_at_partial_head [of b2 t n] content by (simp add: te_def)
  qed
  ultimately show ?thesis using ranges poke by auto
qed

theorem dynamic_buffer_window_strands_witness:
  "\<exists>b r b1 b2 b3. dynamic_buffer_write (dynamic_buffer_new 4 8 (0::nat)) [1, 2] = Ret (2, b) \<and>
    dynamic_buffer_writable_ranges b = Ret ([r], b1) \<and>
    dynamic_buffer_commit (db_poke b1 r [3, 4]) 2 = Ret (2, b2) \<and>
    dynamic_buffer_read b2 4 = Ret ([1, 2], b3)"
proof -
  define b where "b = \<lparr>db_heap = [Some \<lparr>x_next = None, x_read_pointer = 0, x_write_pointer = 2, x_data = [1::nat, 2, 0, 0]\<rparr>],
      db_head = Some 0, db_tail = Some 0, db_xsize = 4, db_max_ranges = 8, db_indet = 0\<rparr>"
  have "dynamic_buffer_write (dynamic_buffer_new 4 8 (0::nat)) [1, 2] = Ret (2, b)"
    unfolding b_def by code_simp
  moreover have shape: "db_shape b [] 0 []"
    by (simp add: b_def db_shape_def valid_ref_def ext_def x_active_def)
  moreover have "dynamic_buffer_content b = [1, 2]"
    using db_shape_content [OF shape] by (simp add: b_def ext_def x_content_def segment_def)
  moreover have "dynamic_buffer_inv b" using shape by (auto simp: dynamic_buffer_inv_def)
  ultimately show ?thesis
    using dynamic_buffer_window_strands [of b 0 "[3, 4]"]
    by (auto simp: b_def ext_def x_writable_def numeral_2_eq_2 dest!: spec [where x = 4])
qed

end
