(* ===== verification/Safeint.thy ===== *)
theory Safeint
  imports Prelude
begin

unbundle bit_operations_syntax

text \<open>
  \<^verbatim>\<open>detail/safeint.hxx\<close>, the checked integer conversions, and \<^verbatim>\<open>flagset.hxx\<close>, the type-safe
  flag sets. Integers are words of the width of their C++ type; \<open>umax\<close>, \<open>smax\<close> and \<open>smin\<close> are
  the limits \<^verbatim>\<open>std::numeric_limits\<close> gives for the unsigned and the signed reading. Calling
  \<^verbatim>\<open>unexpected\<close> ends the program.
\<close>

subsection \<open>Integer conversions\<close>

abbreviation umax :: "'a::len word" where
  "umax \<equiv> - 1"

definition smax :: "'a::len word" where
  "smax = word_of_int (2 ^ (LENGTH('a) - 1) - 1)"

definition smin :: "'a::len word" where
  "smin = word_of_int (- (2 ^ (LENGTH('a) - 1)))"

definition int_cast :: "'from::len word \<Rightarrow> 'to::len word" where
  "int_cast v =
     (let v' = (if unat v > unat (umax :: 'to word) then ucast (umax :: 'to word) else v)
      in ucast v')"

definition clamped_max :: "'t::len word \<Rightarrow> 'u::len word \<Rightarrow> 'r::len word" where
  "clamped_max a b = max (int_cast a) (int_cast b)"

definition can_add :: "'t::len word \<Rightarrow> 't word \<Rightarrow> bool" where
  "can_add a b = (let could_add = umax - a in b \<le> could_add)"

text \<open>\<^verbatim>\<open>safe_add(a, b, &r)\<close>: the result is the flag it returns and the new value of \<open>r\<close>.\<close>

definition safe_add :: "'t::len word \<Rightarrow> 't word \<Rightarrow> 't word \<Rightarrow> bool \<times> 't word" where
  "safe_add a b r = (if \<not> can_add a b then (False, r) else (True, a + b))"

definition widen :: "'from::len word \<Rightarrow> 'to::len word" where
  "widen v = ucast v"

definition swiden :: "'from::len word \<Rightarrow> 'to::len word" where
  "swiden v = scast v"

definition narrow :: "'from::len word \<Rightarrow> 'to::len word run" where
  "narrow v =
     (if v > widen (umax :: 'to word) then Abort ''narrow() would truncate'' else Ret (ucast v))"

definition snarrow :: "'from::len word \<Rightarrow> 'to::len word run" where
  "snarrow v =
     (if sint v > sint (swiden (smax :: 'to word) :: 'from word) \<or>
         sint v < sint (swiden (smin :: 'to word) :: 'from word)
      then Abort ''narrow() would truncate'' else Ret (scast v))"

definition truncate_word :: "'from::len word \<Rightarrow> 'to::len word" where
  "truncate_word v = (if v > widen (umax :: 'to word) then umax else ucast v)"

definition truncate_signed :: "'from::len word \<Rightarrow> 'to::len word" where
  "truncate_signed v = (if v > ucast (smax :: 'to word) then smax else ucast v)"

subsection \<open>Flags\<close>

record 'w flag =
  flag_value :: 'w

record 'w flagset =
  flags_value :: 'w

definition flagset_of :: "'t::len word flag \<Rightarrow> 't word flagset" where
  "flagset_of v = \<lparr>flags_value = flag_value v\<rparr>"

definition flag_or :: "'t::len word flag \<Rightarrow> 't word flag \<Rightarrow> 't word flagset" where
  "flag_or a b = \<lparr>flags_value = flag_value a OR flag_value b\<rparr>"

definition flagset_or :: "'t::len word flagset \<Rightarrow> 't word flag \<Rightarrow> 't word flagset" where
  "flagset_or a b = \<lparr>flags_value = flags_value a OR flag_value b\<rparr>"

definition flagset_or_assign :: "'t::len word flagset \<Rightarrow> 't word flag \<Rightarrow> 't word flagset" where
  "flagset_or_assign a b = a\<lparr>flags_value := flags_value a OR flag_value b\<rparr>"

definition flagset_union_assign :: "'t::len word flagset \<Rightarrow> 't word flagset \<Rightarrow> 't word flagset" where
  "flagset_union_assign a b = a\<lparr>flags_value := flags_value a OR flags_value b\<rparr>"

definition flagset_and_assign :: "'t::len word flagset \<Rightarrow> 't word flag \<Rightarrow> 't word flagset" where
  "flagset_and_assign a b = a\<lparr>flags_value := flags_value a AND flag_value b\<rparr>"

definition flagset_and :: "'t::len word flagset \<Rightarrow> 't word flag \<Rightarrow> 't word flagset" where
  "flagset_and a b = \<lparr>flags_value = flags_value a AND flag_value b\<rparr>"

definition is_set :: "'t::len word flagset \<Rightarrow> 't word flag \<Rightarrow> bool" where
  "is_set a b \<longleftrightarrow> flags_value a AND flag_value b \<noteq> 0"

definition any_set :: "'t::len word flagset \<Rightarrow> 't word flagset \<Rightarrow> bool" where
  "any_set a b \<longleftrightarrow> flags_value a AND flags_value b \<noteq> 0"

definition all_set :: "'t::len word flagset \<Rightarrow> 't word flagset \<Rightarrow> bool" where
  "all_set a b \<longleftrightarrow> flags_value a AND flags_value b = flags_value b"

lemma is_set_or:
  "any_set f (flag_or a b) \<longleftrightarrow> is_set f a \<or> is_set f b"
  "any_set f (flagset_or s b) \<longleftrightarrow> any_set f s \<or> is_set f b"
proof -
  have "x AND (y OR z) = 0 \<longleftrightarrow> x AND y = 0 \<and> x AND z = 0" for x y z :: "'a::len word"
    by (auto simp: bit_eq_iff bit_simps)
  then show "any_set f (flag_or a b) \<longleftrightarrow> is_set f a \<or> is_set f b"
    "any_set f (flagset_or s b) \<longleftrightarrow> any_set f s \<or> is_set f b"
    by (auto simp: any_set_def is_set_def flag_or_def flagset_or_def)
qed

subsection \<open>Limits and casts as numbers\<close>

lemma unat_umax: "unat (umax :: 'a::len word) = 2 ^ LENGTH('a) - 1"
  by transfer (simp add: take_bit_minus_one_eq_mask nat_mask_eq mask_eq_exp_minus_1 nat_diff_distrib nat_power_eq)

lemma unat_ucast_small:
  "unat v < 2 ^ LENGTH('b) \<Longrightarrow> unat (ucast (v :: 'a::len word) :: 'b::len word) = unat v"
  by (simp add: unsigned_ucast_eq take_bit_nat_eq_self)

lemma unat_ucast_up:
  assumes "LENGTH('b) \<le> LENGTH('a)"
  shows "unat (ucast (v :: 'b::len word) :: 'a::len word) = unat v"
proof (rule unat_ucast_small)
  have "unat v < 2 ^ LENGTH('b)" by (rule unsigned_less)
  also have "(2 :: nat) ^ LENGTH('b) \<le> 2 ^ LENGTH('a)" using assms by (simp add: power_increasing)
  finally show "unat v < 2 ^ LENGTH('a)" .
qed

lemma sint_limits:
  "sint (smax :: 'a::len word) = 2 ^ (LENGTH('a) - 1) - 1"
  "sint (smin :: 'a::len word) = - (2 ^ (LENGTH('a) - 1))"
  unfolding smax_def smin_def sint_sbintrunc' by (rule signed_take_bit_int_eq_self; simp)+

lemma sint_scast_up:
  assumes "LENGTH('b) \<le> LENGTH('a)"
  shows "sint (scast (v :: 'b::len word) :: 'a::len word) = sint v"
proof -
  have "(2 :: int) ^ (LENGTH('b) - 1) \<le> 2 ^ (LENGTH('a) - 1)"
    using assms by (intro power_increasing) auto
  moreover have "- (2 ^ (LENGTH('b) - 1)) \<le> sint v" "sint v < 2 ^ (LENGTH('b) - 1)"
    using sint_ge [of v] sint_lt [of v] by auto
  ultimately have "- (2 ^ (LENGTH('a) - 1)) \<le> sint v" "sint v < 2 ^ (LENGTH('a) - 1)" by linarith+
  then show ?thesis unfolding signed_scast_eq by (intro signed_take_bit_int_eq_self) simp_all
qed

lemma sint_scast_fits:
  "- (2 ^ (LENGTH('b) - 1)) \<le> sint v \<Longrightarrow> sint v < 2 ^ (LENGTH('b) - 1) \<Longrightarrow>
    sint (scast (v :: 'a::len word) :: 'b::len word) = sint v"
  by (simp add: signed_scast_eq signed_take_bit_int_eq_self)

subsection \<open>Properties\<close>

text \<open>\<^verbatim>\<open>int_cast\<close> saturates: the result is the value itself or, when that does not fit, the
  largest value of the target type; so does \<^verbatim>\<open>clamped_max\<close>, which is the larger of two
  arguments so clamped.\<close>

theorem int_cast_saturates:
  "unat (int_cast (v :: 'a::len word) :: 'b::len word) = min (unat v) (2 ^ LENGTH('b) - 1) \<and>
   unat (clamped_max (v :: 'a word) (w :: 'c::len word) :: 'b word) =
     min (max (unat v) (unat w)) (2 ^ LENGTH('b) - 1)"
proof -
  have cast: "unat (int_cast (x :: 'x::len word) :: 'b word) = min (unat x) (2 ^ LENGTH('b) - 1)" for x :: "'x::len word"
  proof (cases "unat x > unat (umax :: 'b word)")
    case True
    have "unat (umax :: 'b word) < 2 ^ LENGTH('x)"
      using True unsigned_less [of x, where ?'a = nat] by linarith
    then have up: "unat (ucast (umax :: 'b word) :: 'x word) = unat (umax :: 'b word)" by (rule unat_ucast_small)
    then have "unat (ucast (ucast (umax :: 'b word) :: 'x word) :: 'b word) = unat (umax :: 'b word)"
      using unsigned_less [of "umax :: 'b word", where ?'a = nat] by (subst unat_ucast_small) simp_all
    then show ?thesis using True unfolding int_cast_def Let_def by (simp add: unat_umax)
  next
    case False
    have "(0::nat) < 2 ^ LENGTH('b)" by simp
    with False have "unat x < 2 ^ LENGTH('b)" unfolding unat_umax by linarith
    then show ?thesis using False unfolding int_cast_def Let_def by (simp add: unat_ucast_small unat_umax)
  qed
  have "unat (max x y) = max (unat x) (unat y)" for x y :: "'b word"
    by (simp add: max_def word_le_nat_alt)
  then show ?thesis unfolding clamped_max_def by (auto simp: cast min_def max_def)
qed

text \<open>\<^verbatim>\<open>safe_add\<close> succeeds exactly when the sum of the two numbers fits the type, and then
  stores the true sum; otherwise it leaves the result variable alone.\<close>

theorem safe_add_exact:
  "safe_add (a :: 'a::len word) b r =
     (if unat a + unat b < 2 ^ LENGTH('a) then (True, a + b) else (False, r)) \<and>
   (unat a + unat b < 2 ^ LENGTH('a) \<longleftrightarrow> unat (a + b) = unat a + unat b)"
proof -
  have "a \<le> umax" by simp
  then have "unat (umax - a) = unat (umax :: 'a word) - unat a" by (rule unat_sub)
  moreover have "unat a < 2 ^ LENGTH('a)" by (rule unsigned_less)
  ultimately have "can_add a b \<longleftrightarrow> unat a + unat b < 2 ^ LENGTH('a)"
    unfolding can_add_def Let_def word_le_nat_alt unat_umax by linarith
  then show ?thesis by (auto simp: safe_add_def unat_add_lem)
qed

text \<open>\<^verbatim>\<open>narrow\<close> to a smaller type, unsigned or signed, ends the program exactly when the value
  does not fit the smaller type and otherwise returns the same value; \<^verbatim>\<open>truncate\<close> clamps instead.\<close>

theorem narrow_exact:
  assumes "LENGTH('b::len) < LENGTH('a::len)"
  shows "(case narrow (v :: 'a word) of
       Ret (r :: 'b word) \<Rightarrow> unat r = unat v | Abort m \<Rightarrow> 2 ^ LENGTH('b) \<le> unat v | Diverge \<Rightarrow> False) \<and>
     (case snarrow v of
       Ret (r :: 'b word) \<Rightarrow> sint r = sint v
     | Abort m \<Rightarrow> sint v < - (2 ^ (LENGTH('b) - 1)) \<or> 2 ^ (LENGTH('b) - 1) \<le> sint v | Diverge \<Rightarrow> False) \<and>
     unat (truncate_word v :: 'b word) = min (unat v) (2 ^ LENGTH('b) - 1)"
proof (intro conjI)
  have wide: "unat (widen (umax :: 'b word) :: 'a word) = 2 ^ LENGTH('b) - 1"
    unfolding widen_def using assms by (subst unat_ucast_up) (simp_all add: unat_umax)
  have over: "v > widen (umax :: 'b word) \<longleftrightarrow> 2 ^ LENGTH('b) \<le> unat v"
    unfolding word_less_nat_alt wide using zero_less_power [of "2::nat" "LENGTH('b)"] by linarith
  show "case narrow v of Ret (r :: 'b word) \<Rightarrow> unat r = unat v | Abort m \<Rightarrow> 2 ^ LENGTH('b) \<le> unat v | Diverge \<Rightarrow> False"
    using over by (auto simp: narrow_def unat_ucast_small)
  show "unat (truncate_word v :: 'b word) = min (unat v) (2 ^ LENGTH('b) - 1)"
    using over by (auto simp: truncate_word_def unat_ucast_small unat_umax)
  have "sint (swiden (smax :: 'b word) :: 'a word) = 2 ^ (LENGTH('b) - 1) - 1"
    "sint (swiden (smin :: 'b word) :: 'a word) = - (2 ^ (LENGTH('b) - 1))"
    using assms by (simp_all add: swiden_def sint_scast_up sint_limits)
  then show "case snarrow v of Ret (r :: 'b word) \<Rightarrow> sint r = sint v
     | Abort m \<Rightarrow> sint v < - (2 ^ (LENGTH('b) - 1)) \<or> 2 ^ (LENGTH('b) - 1) \<le> sint v | Diverge \<Rightarrow> False"
    by (auto simp: snarrow_def sint_scast_fits)
qed

theorem narrow_exact_witness:
  "narrow (300 :: 16 word) = (Abort ''narrow() would truncate'' :: 8 word run) \<and>
   unat (truncate_word (300 :: 16 word) :: 8 word) = 255"
  using narrow_exact [where ?'a = 16 and ?'b = 8, of 300]
  by (auto simp: narrow_def split: run.splits if_splits)

text \<open>A flag set built with the operators has exactly the flags put in: every bit test answers
  as if the set were the set of bits of its value.\<close>

theorem flagset_as_sets:
  fixes a b :: "'a::len word flagset" and f :: "'a word flag"
  defines "bits w \<equiv> {i. bit w i}"
  shows "bits (flags_value (flagset_or a f)) = bits (flags_value a) \<union> bits (flag_value f) \<and>
    bits (flags_value (flagset_and a f)) = bits (flags_value a) \<inter> bits (flag_value f) \<and>
    bits (flags_value (flagset_union_assign a b)) = bits (flags_value a) \<union> bits (flags_value b) \<and>
    (is_set a f \<longleftrightarrow> bits (flags_value a) \<inter> bits (flag_value f) \<noteq> {}) \<and>
    (any_set a b \<longleftrightarrow> bits (flags_value a) \<inter> bits (flags_value b) \<noteq> {}) \<and>
    (all_set a b \<longleftrightarrow> bits (flags_value b) \<subseteq> bits (flags_value a))"
proof -
  have nz: "w \<noteq> 0 \<longleftrightarrow> {i. bit w i} \<noteq> {}" for w :: "'a word"
    using bit_imp_le_length [of w] by (fastforce simp: bit_eq_iff)
  have sub: "v AND w = w \<longleftrightarrow> {i. bit w i} \<subseteq> {i. bit v i}" for v w :: "'a word"
    using bit_imp_le_length [of w] by (fastforce simp: bit_eq_iff bit_and_iff)
  show ?thesis
    unfolding bits_def is_set_def any_set_def all_set_def nz sub
    by (auto simp: flagset_or_def flagset_and_def flagset_union_assign_def bit_or_iff bit_and_iff)
qed

end
