(* ===== verification/Strparse.thy ===== *)
theory Strparse
  imports Prelude
begin

text \<open>
  \<^verbatim>\<open>detail/strparse.hxx\<close>: numbers at the start of strings, with the part of
  \<^verbatim>\<open>std::from_chars\<close> and \<^verbatim>\<open>std::to_chars\<close> it and the address code use: unsigned types
  given by their largest value, bases 2 to 36. \<^verbatim>\<open>from_chars\<close> takes the longest run of digits of
  the base, in either case; \<^verbatim>\<open>to_chars\<close> writes lower-case digits without leading zeros.
\<close>

datatype errc = invalid_argument | result_out_of_range

definition digit_value :: "char \<Rightarrow> nat option" where
  "digit_value c =
     (let n = of_char c :: nat in
      if 48 \<le> n \<and> n \<le> 57 then Some (n - 48)
      else if 97 \<le> n \<and> n \<le> 122 then Some (n - 87)
      else if 65 \<le> n \<and> n \<le> 90 then Some (n - 55)
      else None)"

definition is_digit :: "nat \<Rightarrow> char \<Rightarrow> bool" where
  "is_digit base c = (case digit_value c of None \<Rightarrow> False | Some d \<Rightarrow> d < base)"

definition digits_to_nat :: "nat \<Rightarrow> string \<Rightarrow> nat" where
  "digits_to_nat base ds = foldl (\<lambda>acc c. acc * base + the (digit_value c)) 0 ds"

definition from_chars :: "nat \<Rightarrow> nat \<Rightarrow> string \<Rightarrow> errc + nat \<times> string" where
  "from_chars max_value base s =
     (let ds = takeWhile (is_digit base) s; v = digits_to_nat base ds in
      if ds = [] then Inl invalid_argument
      else if v > max_value then Inl result_out_of_range
      else Inr (v, dropWhile (is_digit base) s))"

definition digit_char :: "nat \<Rightarrow> char" where
  "digit_char d = (if d < 10 then char_of (48 + d) else char_of (87 + d))"

function to_chars :: "nat \<Rightarrow> nat \<Rightarrow> string" where
  "to_chars base n =
     (if base < 2 \<or> n < base then [digit_char n]
      else to_chars base (n div base) @ [digit_char (n mod base)])"
  by pat_completeness auto
termination
  by (relation "measure snd") auto

declare to_chars.simps [simp del]

definition span_number :: "nat \<Rightarrow> nat \<Rightarrow> string \<Rightarrow> nat option \<times> string" where
  "span_number max_value base v =
     (case from_chars max_value base v of
        Inl ec \<Rightarrow> (None, v)
      | Inr (i, rest) \<Rightarrow> (Some i, rest))"

definition strtoi :: "nat \<Rightarrow> nat \<Rightarrow> string \<Rightarrow> errc + nat" where
  "strtoi max_value base v =
     (case from_chars max_value base v of
        Inl ec \<Rightarrow> Inl ec
      | Inr (i, rest) \<Rightarrow> if rest \<noteq> [] then Inl invalid_argument else Inr i)"

subsection \<open>Printing and parsing\<close>

lemma digit_value_char: "d < 36 \<Longrightarrow> digit_value (digit_char d) = Some d"
  by (auto simp: digit_value_def digit_char_def Let_def of_char_of)

lemma is_digit_char: "d < base \<Longrightarrow> base \<le> 36 \<Longrightarrow> is_digit base (digit_char d)"
  by (simp add: is_digit_def digit_value_char)

lemma to_chars_digits:
  assumes "2 \<le> base" "base \<le> 36"
  shows "\<forall>c \<in> set (to_chars base n). is_digit base c" "to_chars base n \<noteq> []"
    "digits_to_nat base (to_chars base n) = n"
proof (atomize (full), induction n rule: less_induct)
  case (less n)
  show ?case
  proof (cases "n < base")
    case True
    then show ?thesis using assms
      by (simp add: to_chars.simps [of base n] is_digit_char digits_to_nat_def digit_value_char)
  next
    case False
    then have "n div base < n" using assms(1) by (intro div_less_dividend) auto
    note IH = less.IH [OF this]
    have m: "n mod base < base" using assms(1) by simp
    have "to_chars base n = to_chars base (n div base) @ [digit_char (n mod base)]"
      using False assms(1) by (simp add: to_chars.simps [of base n])
    moreover have "digit_value (digit_char (n mod base)) = Some (n mod base)"
      using m assms(2) by (intro digit_value_char) linarith
    ultimately show ?thesis using IH m assms
      by (auto simp: digits_to_nat_def is_digit_char)
  qed
qed

text \<open>A rest that does not continue the number.\<close>

definition no_digit :: "nat \<Rightarrow> string \<Rightarrow> bool" where
  "no_digit base s \<longleftrightarrow> (case s of [] \<Rightarrow> True | c # _ \<Rightarrow> \<not> is_digit base c)"

lemma from_chars_to_chars:
  assumes "2 \<le> base" "base \<le> 36" "no_digit base rest"
  shows "from_chars m base (to_chars base n @ rest) =
    (if n \<le> m then Inr (n, rest) else Inl result_out_of_range)"
proof -
  note d = to_chars_digits [OF assms(1,2), of n]
  have "takeWhile (is_digit base) rest = []" "dropWhile (is_digit base) rest = rest"
    using assms(3) by (cases rest; simp add: no_digit_def)+
  with d(1) have "takeWhile (is_digit base) (to_chars base n @ rest) = to_chars base n"
    "dropWhile (is_digit base) (to_chars base n @ rest) = rest" by auto
  then show ?thesis using d(2,3) by (auto simp: from_chars_def Let_def)
qed

lemma span_number_to_chars:
  "2 \<le> base \<Longrightarrow> base \<le> 36 \<Longrightarrow> no_digit base rest \<Longrightarrow> n \<le> m \<Longrightarrow>
    span_number m base (to_chars base n @ rest) = (Some n, rest)"
  by (simp add: span_number_def from_chars_to_chars)

lemma takeWhile_no_digit: "no_digit base (dropWhile (is_digit base) s)"
  by (induction s) (auto simp: no_digit_def)

lemma span_number_iff:
  "span_number m base s = (Some v, rest) \<longleftrightarrow>
    (\<exists>d. d \<noteq> [] \<and> (\<forall>c \<in> set d. is_digit base c) \<and> digits_to_nat base d = v \<and> v \<le> m \<and>
         s = d @ rest \<and> no_digit base rest)"
proof
  assume "span_number m base s = (Some v, rest)"
  then show "\<exists>d. d \<noteq> [] \<and> (\<forall>c \<in> set d. is_digit base c) \<and> digits_to_nat base d = v \<and> v \<le> m \<and>
      s = d @ rest \<and> no_digit base rest"
    by (intro exI [of _ "takeWhile (is_digit base) s"])
      (auto simp: span_number_def from_chars_def Let_def takeWhile_no_digit
         split: sum.splits if_splits dest: set_takeWhileD)
next
  assume "\<exists>d. d \<noteq> [] \<and> (\<forall>c \<in> set d. is_digit base c) \<and> digits_to_nat base d = v \<and> v \<le> m \<and>
      s = d @ rest \<and> no_digit base rest"
  then obtain d where d: "d \<noteq> []" "\<forall>c \<in> set d. is_digit base c" "digits_to_nat base d = v" "v \<le> m"
    "s = d @ rest" "no_digit base rest" by blast
  from d(6) have "takeWhile (is_digit base) rest = []" "dropWhile (is_digit base) rest = rest"
    by (cases rest; simp add: no_digit_def)+
  with d show "span_number m base s = (Some v, rest)"
    by (simp add: span_number_def from_chars_def Let_def)
qed

subsection \<open>Properties\<close>

text \<open>Printing a number and parsing it back: \<^verbatim>\<open>strtoi\<close> returns the number when it fits the type
  and the out-of-range error when it does not, and rejects any trailing text; \<^verbatim>\<open>span_number\<close>
  splits the number off whatever follows it.\<close>

theorem strtoi_roundtrip:
  assumes "2 \<le> base" "base \<le> 36" "no_digit base rest"
  shows "strtoi m base (to_chars base n) = (if n \<le> m then Inr n else Inl result_out_of_range) \<and>
    (n \<le> m \<and> rest \<noteq> [] \<longrightarrow> strtoi m base (to_chars base n @ rest) = Inl invalid_argument) \<and>
    span_number m base (to_chars base n @ rest) =
      (if n \<le> m then (Some n, rest) else (None, to_chars base n @ rest))"
  using from_chars_to_chars [OF assms, of m n] from_chars_to_chars [OF assms(1,2), of "[]" m n]
  by (simp add: strtoi_def span_number_def no_digit_def)

theorem strtoi_roundtrip_witness:
  "span_number 255 10 (to_chars 10 192 @ ''.168'') = (Some 192, ''.168'') \<and>
   strtoi 255 10 (to_chars 10 300) = Inl result_out_of_range"
  using strtoi_roundtrip [of 10 "''.168''" 255 192] strtoi_roundtrip [of 10 "[]" 255 300]
  by (simp add: no_digit_def is_digit_def digit_value_def)

end
