(* ===== verification/Uri.thy ===== *)
theory Uri
  imports Safeint Strparse
begin

text \<open>
  \<^verbatim>\<open>net/uri.hxx\<close>: parsing and printing URIs.

  A \<^verbatim>\<open>std::string_view\<close> is modelled as the string it shows. The parsed parts of a URI are
  disjoint pieces of one copy of the input (\<^verbatim>\<open>original_data\<close>), and percent-decoding works in place
  inside the piece it decodes; \<open>decode_loop\<close> is that loop over the characters of the piece as an
  array, with a read and a write index. Plain \<^verbatim>\<open>char\<close> is signed, so \<^verbatim>\<open>*p < 0\<close> tests the high bit.
  The failure of the allocation is not modelled.
\<close>

subsection \<open>Errors and data\<close>

datatype uri_errors =
    uri_no_error
  | parse_failed
  | invalid_port
  | no_data
  | relative
  | protocol_relative
  | invalid_encoding

fun uri_error_value :: "uri_errors \<Rightarrow> int" where
  "uri_error_value uri_no_error = 0"
| "uri_error_value parse_failed = 1"
| "uri_error_value invalid_port = 2"
| "uri_error_value no_data = 3"
| "uri_error_value relative = 4"
| "uri_error_value protocol_relative = 5"
| "uri_error_value invalid_encoding = 6"

definition uri_message :: "int \<Rightarrow> string" where
  "uri_message c =
     (if c = uri_error_value uri_no_error then ''no error''
      else if c = uri_error_value parse_failed then ''cannot parse URI''
      else if c = uri_error_value invalid_port then ''invalid port''
      else if c = uri_error_value no_data then ''URI is empty''
      else if c = uri_error_value relative then ''relative URI not allowed''
      else if c = uri_error_value protocol_relative then ''protocol-relative URI not allowed''
      else if c = uri_error_value invalid_encoding then ''URI encoding is invalid''
      else ''unknown URI error'')"

record uri_authority =
  ua_username :: "string option"
  ua_password :: "string option"
  ua_hostname :: string
  ua_port :: "nat option"

record uri_path =
  up_path :: string
  up_query :: "string option"
  up_fragment :: "string option"

record uri =
  u_scheme :: "string option"
  u_authority :: "uri_authority option"
  u_path :: "uri_path option"

definition is_absolute :: "uri \<Rightarrow> bool" where
  "is_absolute u \<longleftrightarrow> u_scheme u \<noteq> None \<and> u_authority u \<noteq> None"

definition is_relative :: "uri \<Rightarrow> bool" where
  "is_relative u \<longleftrightarrow> u_scheme u = None \<and> u_authority u = None"

definition is_protocol_relative :: "uri \<Rightarrow> bool" where
  "is_protocol_relative u \<longleftrightarrow> u_authority u \<noteq> None \<and> u_scheme u = None"

subsection \<open>Character classes\<close>

definition hostc :: int where "hostc = 2"
definition userc :: int where "userc = 4"
definition pathc :: int where "pathc = 8"
definition highc :: int where "highc = 16"
definition schemec :: int where "schemec = 32"
definition numc :: int where "numc = 64"
definition queryc :: int where "queryc = 128"
definition fragc :: int where "fragc = 256"
definition ip6c :: int where "ip6c = 512"

text \<open>The table, as runs of equal entries. The initializer has 240 entries: the rows C0 to CF
  are missing, so the rest of the array of 256 is zero.\<close>

definition uri_chars :: "int list" where
  "uri_chars =
     replicate 33 0 @
     [userc OR hostc OR pathc OR queryc OR fragc] @
     replicate 2 0 @
     [userc OR hostc OR pathc OR queryc OR fragc] @
     [pathc OR queryc OR fragc] @
     replicate 5 (userc OR hostc OR pathc OR queryc OR fragc) @
     [schemec OR userc OR hostc OR pathc OR queryc OR fragc] @
     [userc OR hostc OR pathc OR queryc OR fragc] @
     replicate 2 (schemec OR userc OR hostc OR pathc OR queryc OR fragc) @
     [pathc OR queryc OR fragc] @
     replicate 10 (schemec OR hostc OR userc OR pathc OR numc OR queryc OR fragc OR ip6c) @
     [pathc OR queryc OR fragc OR ip6c] @
     [userc OR hostc OR pathc OR queryc OR fragc] @
     [0] @
     [userc OR hostc OR pathc OR queryc OR fragc] @
     [0] @
     [queryc OR fragc] @
     [pathc OR queryc OR fragc] @
     replicate 6 (schemec OR hostc OR userc OR pathc OR queryc OR fragc OR ip6c) @
     replicate 20 (schemec OR hostc OR userc OR pathc OR queryc OR fragc) @
     replicate 4 0 @
     [schemec OR userc OR hostc OR pathc OR queryc OR fragc] @
     [0] @
     replicate 6 (schemec OR hostc OR userc OR pathc OR queryc OR fragc OR ip6c) @
     replicate 20 (schemec OR hostc OR userc OR pathc OR queryc OR fragc) @
     replicate 3 0 @
     [schemec OR userc OR hostc OR pathc OR queryc OR fragc] @
     [0] @
     replicate 112 highc @
     replicate 16 0"

definition isc :: "int \<Rightarrow> char \<Rightarrow> bool" where
  "isc what c \<longleftrightarrow> uri_chars ! of_char c AND what \<noteq> 0"

definition uri_span :: "string \<Rightarrow> int \<Rightarrow> string \<times> string" where
  "uri_span s what = (takeWhile (isc what) s, dropWhile (isc what) s)"

subsection \<open>Matching the parts\<close>

definition match_scheme :: "string \<Rightarrow> string option \<times> string" where
  "match_scheme s =
     (let (scheme, rest) = uri_span s schemec in
      if rest = [] \<or> hd rest \<noteq> CHR '':'' then (None, s) else (Some scheme, tl rest))"

definition match_username_password :: "string \<Rightarrow> string option \<times> string option \<times> string" where
  "match_username_password s =
     (let (username, v) = uri_span s userc in
      if username = [] \<or> v = [] then (None, None, s)
      else if hd v = CHR ''@'' then (Some username, None, tl v)
      else if hd v \<noteq> CHR '':'' then (None, None, s)
      else let (password, v) = uri_span (tl v) userc in
           if v = [] \<or> hd v \<noteq> CHR ''@'' then (None, None, s)
           else (Some username, Some password, tl v))"

definition match_number :: "string \<Rightarrow> nat option \<times> string" where
  "match_number s =
     (let (istr, rest) = uri_span s numc in
      if istr = [] then (None, s)
      else case from_chars (2 ^ 32 - 1) 10 istr of
             Inl ec \<Rightarrow> (None, s)
           | Inr (i, p) \<Rightarrow> if p \<noteq> [] then (None, s) else (Some i, rest))"

definition match_ip6_host :: "string \<Rightarrow> string \<times> string" where
  "match_ip6_host s =
     (if s = [] \<or> hd s \<noteq> CHR ''['' then ([], s)
      else let (host, rest) = uri_span (tl s) ip6c in
           if host = [] \<or> rest = [] \<or> hd rest \<noteq> CHR '']'' then ([], s) else (host, tl rest))"

definition match_host :: "string \<Rightarrow> string \<times> nat option \<times> string" where
  "match_host s =
     (if s = [] then ([], None, s)
      else let (host, rest) = match_ip6_host s;
               (host, rest) = (if host = [] then uri_span s hostc else (host, rest)) in
           if host = [] then ([], None, s)
           else if rest = [] \<or> hd rest \<noteq> CHR '':'' then (host, None, rest)
           else let (port, rest') = match_number (tl rest) in (host, port, rest'))"

definition match_path_only :: "string \<Rightarrow> string option \<times> string" where
  "match_path_only s =
     (if s = [] \<or> hd s \<noteq> CHR ''/'' then (None, s)
      else let (path, s) = uri_span s (pathc OR highc) in (Some path, s))"

definition match_path_query :: "string \<Rightarrow> string option \<times> string" where
  "match_path_query s =
     (if s = [] \<or> hd s \<noteq> CHR ''?'' then (None, s)
      else let (query, s) = uri_span (tl s) (queryc OR highc) in (Some query, s))"

definition match_path_frag :: "string \<Rightarrow> string option \<times> string" where
  "match_path_frag s =
     (if s = [] \<or> hd s \<noteq> CHR ''#'' then (None, s)
      else let (frag, s) = uri_span (tl s) (fragc OR highc) in (Some frag, s))"

definition match_path :: "string \<Rightarrow> uri_path option \<times> string" where
  "match_path s =
     (let (path_only, s) = match_path_only s in
      case path_only of
        None \<Rightarrow> (None, s)
      | Some p \<Rightarrow>
          let (query, s) = match_path_query s; (fragment, s) = match_path_frag s
          in (Some \<lparr>up_path = p, up_query = query, up_fragment = fragment\<rparr>, s))"

definition match_authority :: "string \<Rightarrow> uri_authority option \<times> string" where
  "match_authority s =
     (if length s < 2 \<or> take 2 s \<noteq> ''//'' then (None, s)
      else let (username, password, v) = match_username_password (drop 2 s);
               (hostname, port, v) = match_host v
           in if hostname = [] then (None, s)
              else (Some \<lparr>ua_username = username, ua_password = password,
                          ua_hostname = hostname, ua_port = port\<rparr>, v))"

subsection \<open>Percent-decoding\<close>

definition dehex_char :: "char \<Rightarrow> int" where
  "dehex_char c =
     (let n = int (of_char c :: nat) in
      if 48 \<le> n \<and> n \<le> 57 then n - 48
      else if 65 \<le> n \<and> n \<le> 70 then n - 65 + 10
      else if 97 \<le> n \<and> n \<le> 102 then n - 97 + 10
      else - 1)"

definition dehex :: "char \<Rightarrow> char \<Rightarrow> int" where
  "dehex c d =
     (let a = dehex_char c; b = dehex_char d in
      if a = - 1 \<or> b = - 1 then - 1 else push_bit 4 a OR b)"

function decode_loop :: "string \<Rightarrow> nat \<Rightarrow> nat \<Rightarrow> (string \<times> nat) option" where
  "decode_loop arr p q =
     (if p < length arr
      then if 128 \<le> (of_char (arr ! p) :: nat) then None
           else if arr ! p \<noteq> CHR ''%'' then decode_loop (arr[q := arr ! p]) (Suc p) (Suc q)
           else if length arr - Suc p < 2 then None
           else let n = dehex (arr ! Suc p) (arr ! Suc (Suc p)) in
                if n = - 1 then None
                else decode_loop (arr[q := char_of n]) (Suc p + 2) (Suc q)
      else Some (arr, q))"
  by pat_completeness auto
termination
  by (relation "measure (\<lambda>(arr, p, q). length arr - p)") auto

declare decode_loop.simps [simp del]

definition decode_path :: "string \<Rightarrow> string option" where
  "decode_path path_view =
     (case decode_loop path_view 0 0 of None \<Rightarrow> None | Some (arr, q) \<Rightarrow> Some (take q arr))"

subsection \<open>Parsing and printing\<close>

definition raw_parse_uri :: "string \<Rightarrow> uri_errors + uri" where
  "raw_parse_uri s =
     (if s = [] then Inl no_data
      else let (scheme, v) = match_scheme s;
               (authority, v) = match_authority v;
               (path, v) = match_path v
           in if v \<noteq> [] then Inl parse_failed
              else Inr \<lparr>u_scheme = scheme, u_authority = authority, u_path = path\<rparr>)"

type_synonym urioption = "8 word flag"

definition uri_none :: urioption where "uri_none = \<lparr>flag_value = 0\<rparr>"
definition allow_relative :: urioption where "allow_relative = \<lparr>flag_value = 1\<rparr>"
definition allow_protocol_relative :: urioption where "allow_protocol_relative = \<lparr>flag_value = 2\<rparr>"
definition skip_path_decode :: urioption where "skip_path_decode = \<lparr>flag_value = 4\<rparr>"

definition decode_opt :: "string option \<Rightarrow> string option option" where
  "decode_opt v = (case v of None \<Rightarrow> Some None | Some s \<Rightarrow> map_option Some (decode_path s))"

definition parse_uri :: "string \<Rightarrow> 8 word flagset \<Rightarrow> uri_errors + uri" where
  "parse_uri s options =
     (case raw_parse_uri s of
        Inl e \<Rightarrow> Inl e
      | Inr ret \<Rightarrow>
          if (case u_authority ret of
                None \<Rightarrow> False
              | Some a \<Rightarrow> (case ua_port a of None \<Rightarrow> False | Some port \<Rightarrow> port > 65535))
          then Inl invalid_port
          else if is_protocol_relative ret \<and> \<not> is_set options allow_protocol_relative
          then Inl protocol_relative
          else if \<not> is_absolute ret \<and> \<not> any_set options (flag_or allow_relative allow_protocol_relative)
          then Inl relative
          else if u_scheme ret \<noteq> None \<and> u_authority ret = None then Inl parse_failed
          else case u_path ret of
                 None \<Rightarrow> Inr ret
               | Some path \<Rightarrow>
                   if is_set options skip_path_decode then Inr ret
                   else case decode_path (up_path path) of
                          None \<Rightarrow> Inl invalid_encoding
                        | Some p \<Rightarrow>
                            (case decode_opt (up_query path) of
                               None \<Rightarrow> Inl invalid_encoding
                             | Some q \<Rightarrow>
                                 (case decode_opt (up_fragment path) of
                                    None \<Rightarrow> Inl invalid_encoding
                                  | Some f \<Rightarrow> Inr (ret\<lparr>u_path := Some \<lparr>up_path = p, up_query = q,
                                                up_fragment = f\<rparr>\<rparr>))))"

definition opt_str :: "string \<Rightarrow> string option \<Rightarrow> string" where
  "opt_str prefix v = (case v of None \<Rightarrow> [] | Some s \<Rightarrow> prefix @ s)"

definition uri_str :: "uri \<Rightarrow> string" where
  "uri_str u =
     (case u_scheme u of None \<Rightarrow> [] | Some s \<Rightarrow> s @ '':'') @
     (case u_authority u of
        None \<Rightarrow> []
      | Some a \<Rightarrow>
          ''//'' @
          (case ua_username a of
             None \<Rightarrow> []
           | Some name \<Rightarrow> name @ opt_str '':'' (ua_password a) @ ''@'') @
          (if CHR '':'' \<in> set (ua_hostname a) then ''['' @ ua_hostname a @ '']'' else ua_hostname a) @
          (case ua_port a of None \<Rightarrow> [] | Some port \<Rightarrow> '':'' @ to_chars 10 port)) @
     (case u_path u of
        None \<Rightarrow> []
      | Some p \<Rightarrow> up_path p @ opt_str ''?'' (up_query p) @ opt_str ''#'' (up_fragment p))"

subsection \<open>Percent-decoding in place\<close>

text \<open>What decoding means, on the text alone.\<close>

fun url_decode :: "string \<Rightarrow> string option" where
  "url_decode [] = Some []"
| "url_decode (c # cs) =
     (if 128 \<le> (of_char c :: nat) then None
      else if c \<noteq> CHR ''%'' then map_option (Cons c) (url_decode cs)
      else case cs of
             a # b # ds \<Rightarrow>
               if dehex a b = - 1 then None
               else map_option (Cons (char_of (dehex a b))) (url_decode ds)
           | _ \<Rightarrow> None)"

text \<open>\<open>decodes_to arr p q r\<close>: \<open>r\<close> is the result of decoding \<open>arr\<close> from \<open>p\<close> on into \<open>arr\<close> from \<open>q\<close> on.\<close>

definition decodes_to :: "string \<Rightarrow> nat \<Rightarrow> nat \<Rightarrow> (string \<times> nat) option \<Rightarrow> bool" where
  "decodes_to arr p q r \<longleftrightarrow>
     (case url_decode (drop p arr) of
        None \<Rightarrow> r = None
      | Some ds \<Rightarrow> \<exists>arr'. r = Some (arr', q + length ds) \<and>
          take (q + length ds) arr' = take q arr @ ds \<and> length arr' = length arr)"

lemma decodes_to_step:
  assumes "decodes_to (arr[q := x]) p' (Suc q) r" "q < p'" "q < length arr"
    "url_decode (drop p arr) = map_option (Cons x) (url_decode (drop p' arr))"
  shows "decodes_to arr p q r"
proof -
  have "take (Suc q) (arr[q := x]) = take q arr @ [x]" using assms(3) by (simp add: take_Suc_conv_app_nth)
  moreover have "drop p' (arr[q := x]) = drop p' arr" using assms(2) by simp
  ultimately show ?thesis using assms(1,4) by (auto simp: decodes_to_def split: option.splits)
qed

lemma decode_loop_correct:
  assumes "q \<le> p" "p \<le> length arr"
  shows "decodes_to arr p q (decode_loop arr p q)"
  using assms
proof (induction arr p q rule: decode_loop.induct)
  case (1 arr p q)
  show ?case
  proof (cases "p < length arr")
    case False
    then show ?thesis using 1(4) by (simp add: decode_loop.simps decodes_to_def)
  next
    case p: True
    then have d: "drop p arr = arr ! p # drop (Suc p) arr" by (simp add: Cons_nth_drop_Suc)
    have q: "q < length arr" using p 1(3) by simp
    consider (high) "128 \<le> (of_char (arr ! p) :: nat)"
      | (plain) "\<not> 128 \<le> (of_char (arr ! p) :: nat)" "arr ! p \<noteq> CHR ''%''"
      | (escape) "\<not> 128 \<le> (of_char (arr ! p) :: nat)" "\<not> arr ! p \<noteq> CHR ''%''" by blast
    then show ?thesis
    proof cases
      case high
      then show ?thesis using p d by (simp add: decode_loop.simps decodes_to_def)
    next
      case plain
      have "decodes_to (arr[q := arr ! p]) (Suc p) (Suc q) (decode_loop (arr[q := arr ! p]) (Suc p) (Suc q))"
        using "1.IH"(1) [OF p plain] 1(3) p by simp
      then have "decodes_to arr p q (decode_loop (arr[q := arr ! p]) (Suc p) (Suc q))"
        by (rule decodes_to_step) (use 1(3) q d plain in simp_all)
      then show ?thesis using p plain by (simp add: decode_loop.simps [of arr p q])
    next
      case escape
      define n where "n = dehex (arr ! Suc p) (arr ! Suc (Suc p))"
      consider (short) "length arr - Suc p < 2" | (bad) "\<not> length arr - Suc p < 2" "n = - 1"
        | (good) "\<not> length arr - Suc p < 2" "n \<noteq> - 1" by blast
      then show ?thesis
      proof cases
        case short
        have "length (drop (Suc p) arr) < 2" using short by simp
        then have "url_decode (drop p arr) = None"
          using d escape by (cases "drop (Suc p) arr") (auto split: list.splits)
        then show ?thesis using short p escape by (simp add: decode_loop.simps decodes_to_def)
      next
        case bad
        have "drop (Suc p) arr = arr ! Suc p # arr ! Suc (Suc p) # drop (Suc p + 2) arr"
          using bad(1) by (simp add: Cons_nth_drop_Suc)
        then have "url_decode (drop p arr) = None" using d escape bad by (simp add: n_def)
        then show ?thesis using bad p escape by (simp add: decode_loop.simps decodes_to_def n_def [symmetric])
      next
        case good
        have d2: "drop (Suc p) arr = arr ! Suc p # arr ! Suc (Suc p) # drop (Suc p + 2) arr"
          using good(1) by (simp add: Cons_nth_drop_Suc)
        have "decodes_to (arr[q := char_of n]) (Suc p + 2) (Suc q) (decode_loop (arr[q := char_of n]) (Suc p + 2) (Suc q))"
          using "1.IH"(2) [OF p escape good(1) n_def good(2)] 1(3) good(1) by simp
        then have "decodes_to arr p q (decode_loop (arr[q := char_of n]) (Suc p + 2) (Suc q))"
          by (rule decodes_to_step) (use 1(3) q d d2 escape good in \<open>simp_all add: n_def\<close>)
        then show ?thesis using p escape good by (simp add: decode_loop.simps [of arr p q] n_def [symmetric])
      qed
    qed
  qed
qed

lemma decode_path_eq: "decode_path s = url_decode s"
  using decode_loop_correct [of 0 0 s] by (auto simp: decode_path_def decodes_to_def split: option.splits)

subsection \<open>Percent-encoding\<close>

definition hex_char :: "nat \<Rightarrow> char" where
  "hex_char d = (if d < 10 then char_of (48 + d) else char_of (55 + d))"

definition encode_char :: "char \<Rightarrow> string" where
  "encode_char c = [CHR ''%'', hex_char (of_char c div 16), hex_char (of_char c mod 16)]"

definition url_encode :: "(char \<Rightarrow> bool) \<Rightarrow> string \<Rightarrow> string" where
  "url_encode keep s = concat (map (\<lambda>c. if keep c then [c] else encode_char c) s)"

lemma dehex_char_hex: "d < 16 \<Longrightarrow> dehex_char (hex_char d) = int d"
  by (auto simp: dehex_char_def hex_char_def Let_def of_char_of)

lemma dehex_encode:
  assumes "n < 256"
  shows "dehex (hex_char (n div 16)) (hex_char (n mod 16)) = int n"
proof -
  have "n div 16 < 16" "n mod 16 < 16" using assms by auto
  then have eq: "dehex_char (hex_char (n div 16)) = int (n div 16)"
    "dehex_char (hex_char (n mod 16)) = int (n mod 16)" by (simp_all add: dehex_char_hex)
  have "push_bit 4 (drop_bit 4 n) OR take_bit 4 n = n"
    by (rule bit_eqI) (auto simp: bit_simps)
  then have "push_bit 4 (n div 16) OR n mod 16 = n"
    by (simp add: drop_bit_eq_div take_bit_eq_mod)
  then have "push_bit 4 (int (n div 16)) OR int (n mod 16) = int n"
    by (metis of_nat_or_eq of_nat_push_bit)
  then show ?thesis by (simp add: dehex_def eq Let_def)
qed

lemma url_decode_encode_char: "url_decode (encode_char c @ s) = map_option (Cons c) (url_decode s)"
proof -
  have "(of_char c :: nat) < 256" by (rule nat_of_char_less_256)
  then have "dehex (hex_char (of_char c div 16)) (hex_char (of_char c mod 16)) = int (of_char c)"
    by (rule dehex_encode)
  then show ?thesis by (simp add: encode_char_def)
qed

lemma url_decode_encode:
  assumes "\<And>c. keep c \<Longrightarrow> c \<noteq> CHR ''%'' \<and> (of_char c :: nat) < 128"
  shows "url_decode (url_encode keep s) = Some s"
proof (induction s)
  case (Cons c s)
  then show ?case using assms [of c] by (auto simp: url_encode_def url_decode_encode_char not_le)
qed (simp add: url_encode_def)

subsection \<open>Character classes at the separators\<close>

lemma isc_stops [simp]:
  "\<not> isc schemec CHR '':''" "\<not> isc schemec CHR ''/''"
  "\<not> isc userc CHR ''@''" "\<not> isc userc CHR '':''" "\<not> isc userc CHR ''/''" "\<not> isc userc CHR ''[''"
  "\<not> isc hostc CHR '':''" "\<not> isc hostc CHR ''/''" "\<not> isc hostc CHR ''[''"
  "\<not> isc ip6c CHR '']''" "\<not> isc numc CHR ''/''"
  "\<not> isc (pathc OR highc) CHR ''?''" "\<not> isc (pathc OR highc) CHR ''#''"
  "\<not> isc (queryc OR highc) CHR ''#''" "isc (pathc OR highc) CHR ''/''"
  by code_simp+

lemma uri_chars_tables:
  "length uri_chars = 256"
  "map (\<lambda>m. m AND numc \<noteq> 0) uri_chars = map (\<lambda>n. 48 \<le> n \<and> n \<le> 57) [0..<256]"
  "map (\<lambda>m. m AND userc \<noteq> 0) uri_chars = map (\<lambda>m. m AND hostc \<noteq> 0) uri_chars"
  "list_all (\<lambda>m. m AND numc \<noteq> 0 \<longrightarrow> m AND userc \<noteq> 0) uri_chars"
  by code_simp+

lemma isc_nth: "isc what c = map (\<lambda>m. m AND what \<noteq> 0) uri_chars ! of_char c"
  by (simp add: isc_def uri_chars_tables(1))

lemma isc_classes: "isc numc c = is_digit 10 c" "isc userc c = isc hostc c" "isc numc c \<Longrightarrow> isc userc c"
proof -
  show "isc numc c = is_digit 10 c"
    unfolding isc_nth uri_chars_tables(2)
    by (auto simp: is_digit_def digit_value_def Let_def)
  show "isc userc c = isc hostc c" unfolding isc_nth uri_chars_tables(3) ..
  show "isc numc c \<Longrightarrow> isc userc c"
    using uri_chars_tables(4) by (auto simp: isc_def list_all_length uri_chars_tables(1))
qed

lemma uri_span_append:
  assumes "\<forall>c \<in> set a. isc what c" "b = [] \<or> \<not> isc what (hd b)"
  shows "uri_span (a @ b) what = (a, b)"
  using assms by (cases b) (simp_all add: uri_span_def takeWhile_append2 dropWhile_append2)

subsection \<open>Printed URIs\<close>

definition all_in :: "int \<Rightarrow> string \<Rightarrow> bool" where
  "all_in what s \<longleftrightarrow> (\<forall>c \<in> set s. isc what c)"

definition opt_all :: "('a \<Rightarrow> bool) \<Rightarrow> 'a option \<Rightarrow> bool" where
  "opt_all P v = (case v of None \<Rightarrow> True | Some x \<Rightarrow> P x)"

definition authority_wf :: "uri_authority \<Rightarrow> bool" where
  "authority_wf a \<longleftrightarrow>
     (case ua_username a of
        None \<Rightarrow> ua_password a = None
      | Some n \<Rightarrow> n \<noteq> [] \<and> all_in userc n \<and> opt_all (all_in userc) (ua_password a)) \<and>
     ua_hostname a \<noteq> [] \<and>
     all_in (if CHR '':'' \<in> set (ua_hostname a) then ip6c else hostc) (ua_hostname a) \<and>
     opt_all (\<lambda>port. port \<le> 65535) (ua_port a)"

definition path_wf :: "uri_path \<Rightarrow> bool" where
  "path_wf p \<longleftrightarrow> up_path p \<noteq> [] \<and> hd (up_path p) = CHR ''/'' \<and> all_in (pathc OR highc) (up_path p) \<and>
     opt_all (all_in (queryc OR highc)) (up_query p) \<and> opt_all (all_in (fragc OR highc)) (up_fragment p)"

text \<open>A URI without authority must not have a path that looks like one.\<close>

definition uri_wf :: "uri \<Rightarrow> bool" where
  "uri_wf u \<longleftrightarrow> opt_all (all_in schemec) (u_scheme u) \<and> opt_all authority_wf (u_authority u) \<and>
     opt_all path_wf (u_path u) \<and>
     (u_authority u = None \<longrightarrow> opt_all (\<lambda>p. take 2 (up_path p) \<noteq> ''//'') (u_path u)) \<and>
     (u_scheme u, u_authority u, u_path u) \<noteq> (None, None, None)"

definition host_str :: "string \<Rightarrow> string" where
  "host_str host = (if CHR '':'' \<in> set host then ''['' @ host @ '']'' else host)"

definition port_str :: "nat option \<Rightarrow> string" where
  "port_str port = (case port of None \<Rightarrow> [] | Some n \<Rightarrow> '':'' @ to_chars 10 n)"

definition user_str :: "string option \<Rightarrow> string option \<Rightarrow> string" where
  "user_str name password = (case name of None \<Rightarrow> [] | Some n \<Rightarrow> n @ opt_str '':'' password @ ''@'')"

definition path_str :: "uri_path option \<Rightarrow> string" where
  "path_str path =
     (case path of
        None \<Rightarrow> []
      | Some p \<Rightarrow> up_path p @ opt_str ''?'' (up_query p) @ opt_str ''#'' (up_fragment p))"

text \<open>What may follow an authority: nothing, or a path.\<close>

definition slash_or_end :: "string \<Rightarrow> bool" where
  "slash_or_end t \<longleftrightarrow> t = [] \<or> hd t = CHR ''/''"

lemma uri_str_eq: "uri_str u =
    (case u_scheme u of None \<Rightarrow> [] | Some s \<Rightarrow> s @ '':'') @
    (case u_authority u of None \<Rightarrow> []
     | Some a \<Rightarrow> ''//'' @ user_str (ua_username a) (ua_password a) @ host_str (ua_hostname a) @ port_str (ua_port a)) @
    path_str (u_path u)"
  by (simp add: uri_str_def user_str_def host_str_def port_str_def path_str_def split: option.splits)

lemma match_path_str:
  assumes "opt_all path_wf p"
  shows "match_path (path_str p) = (p, [])" "slash_or_end (path_str p)"
proof -
  show "match_path (path_str p) = (p, [])"
  proof (cases p)
    case None
    then show ?thesis by (simp add: match_path_def match_path_only_def path_str_def)
  next
    case (Some p')
    define F where "F = opt_str ''#'' (up_fragment p')"
    define Q where "Q = opt_str ''?'' (up_query p') @ F"
    have wf: "up_path p' \<noteq> []" "hd (up_path p') = CHR ''/''" "all_in (pathc OR highc) (up_path p')"
      "opt_all (all_in (queryc OR highc)) (up_query p')" "opt_all (all_in (fragc OR highc)) (up_fragment p')"
      using assms Some by (auto simp: opt_all_def path_wf_def)
    have hF: "F = [] \<or> hd F = CHR ''#''" by (auto simp: F_def opt_str_def split: option.splits)
    have hQ: "Q = [] \<or> \<not> isc (pathc OR highc) (hd Q)"
      using hF by (auto simp: Q_def opt_str_def split: option.splits)
    have "match_path_only (up_path p' @ Q) = (Some (up_path p'), Q)"
      using wf(1-3) hQ by (simp add: match_path_only_def uri_span_append all_in_def)
    moreover have "match_path_query Q = (up_query p', F)"
    proof (cases "up_query p'")
      case None
      then show ?thesis using hF by (auto simp: match_path_query_def Q_def opt_str_def)
    next
      case (Some q)
      have "uri_span (q @ F) (queryc OR highc) = (q, F)"
        using wf(4) hF Some by (intro uri_span_append) (auto simp: opt_all_def all_in_def)
      then show ?thesis using Some by (simp add: match_path_query_def Q_def opt_str_def)
    qed
    moreover have "match_path_frag F = (up_fragment p', [])"
      using wf(5) uri_span_append [of _ "fragc OR highc" "[]"]
      by (cases "up_fragment p'") (auto simp: match_path_frag_def F_def opt_str_def opt_all_def all_in_def)
    ultimately show ?thesis using Some by (simp add: match_path_def path_str_def F_def Q_def)
  qed
  show "slash_or_end (path_str p)"
    using assms by (auto simp: opt_all_def path_wf_def path_str_def slash_or_end_def split: option.splits)
qed

lemma match_number_str:
  assumes "n \<le> 65535" "slash_or_end t"
  shows "match_number (to_chars 10 n @ t) = (Some n, t)"
proof -
  note d = to_chars_digits [of 10 n, simplified]
  have "uri_span (to_chars 10 n @ t) numc = (to_chars 10 n, t)"
    using d(1) assms(2) by (intro uri_span_append) (auto simp: slash_or_end_def isc_classes(1) [symmetric])
  moreover have "from_chars (2 ^ 32 - 1) 10 (to_chars 10 n) = Inr (n, [])"
    using from_chars_to_chars [of 10 "[]" "2 ^ 32 - 1" n] assms(1) by (simp add: no_digit_def)
  ultimately show ?thesis using d(2) by (simp add: match_number_def)
qed

lemma port_str_hd: "t = [] \<or> hd t = CHR ''/'' \<Longrightarrow> port_str p @ t = [] \<or> hd (port_str p @ t) \<in> {CHR '':'', CHR ''/''}"
  by (auto simp: port_str_def split: option.splits)

lemma match_host_str:
  assumes "host \<noteq> []" "all_in (if CHR '':'' \<in> set host then ip6c else hostc) host"
    "opt_all (\<lambda>port. port \<le> 65535) port" "slash_or_end t"
  shows "match_host (host_str host @ port_str port @ t) = (host, port, t)"
proof -
  define X where "X = port_str port @ t"
  have X: "X = [] \<or> hd X \<in> {CHR '':'', CHR ''/''}"
    using port_str_hd assms(4) by (simp add: X_def slash_or_end_def)
  have port: "(if X = [] \<or> hd X \<noteq> CHR '':'' then (host, None, X)
      else let (port, rest') = match_number (tl X) in (host, port, rest')) = (host, port, t)"
    using assms(3,4) match_number_str [of _ t]
    by (cases port) (auto simp: X_def port_str_def opt_all_def slash_or_end_def)
  show ?thesis
  proof (cases "CHR '':'' \<in> set host")
    case True
    have "uri_span (host @ CHR '']'' # X) ip6c = (host, CHR '']'' # X)"
      using True assms(2) by (intro uri_span_append) (simp_all add: all_in_def)
    then have "match_ip6_host (host_str host @ X) = (host, X)"
      using True assms(1) by (simp add: match_ip6_host_def host_str_def)
    then show ?thesis using assms(1) port True unfolding match_host_def X_def [symmetric]
      by (simp add: host_str_def)
  next
    case False
    have hd: "hd host \<noteq> CHR ''[''" using assms(1,2) False by (cases host) (auto simp: all_in_def)
    have "match_ip6_host (host @ X) = ([], host @ X)" using hd assms(1) by (simp add: match_ip6_host_def)
    moreover have "uri_span (host @ X) hostc = (host, X)"
      using False assms(2) X by (intro uri_span_append) (auto simp: all_in_def)
    ultimately show ?thesis using assms(1) port False unfolding match_host_def X_def [symmetric]
      by (simp add: host_str_def)
  qed
qed

lemma match_user_str:
  assumes "n \<noteq> []" "all_in userc n" "opt_all (all_in userc) password"
  shows "match_username_password (user_str (Some n) password @ t) = (Some n, password, t)"
proof (cases password)
  case None
  have "uri_span (n @ CHR ''@'' # t) userc = (n, CHR ''@'' # t)"
    using assms(2) by (intro uri_span_append) (simp_all add: all_in_def)
  then show ?thesis using None assms(1) by (simp add: match_username_password_def user_str_def opt_str_def)
next
  case (Some p)
  have "uri_span (n @ CHR '':'' # p @ CHR ''@'' # t) userc = (n, CHR '':'' # p @ CHR ''@'' # t)"
    "uri_span (p @ CHR ''@'' # t) userc = (p, CHR ''@'' # t)"
    using assms(2,3) Some by (auto intro!: uri_span_append simp: all_in_def opt_all_def)
  then show ?thesis using Some assms(1) by (simp add: match_username_password_def user_str_def opt_str_def)
qed

lemma match_no_user:
  fixes port :: "nat option"
  assumes "host \<noteq> []" "all_in (if CHR '':'' \<in> set host then ip6c else hostc) host" "slash_or_end t"
  defines "s \<equiv> host_str host @ port_str port @ t"
  shows "match_username_password s = (None, None, s)"
proof (cases "CHR '':'' \<in> set host")
  case True
  then have "uri_span s userc = ([], s)" by (simp add: s_def host_str_def uri_span_def)
  then show ?thesis by (simp add: match_username_password_def)
next
  case False
  define X where "X = port_str port @ t"
  have X: "X = [] \<or> hd X \<in> {CHR '':'', CHR ''/''}"
    using port_str_hd assms(3) by (simp add: X_def slash_or_end_def)
  have s: "s = host @ X" using False by (simp add: s_def host_str_def X_def)
  have span: "uri_span s userc = (host, X)"
    unfolding s using False assms(2) X by (intro uri_span_append) (auto simp: all_in_def isc_classes(2))
  show ?thesis
  proof (cases port)
    case None
    then show ?thesis using span assms(3) by (auto simp: match_username_password_def X_def port_str_def slash_or_end_def)
  next
    case (Some n)
    have "uri_span (to_chars 10 n @ t) userc = (to_chars 10 n, t)"
      using to_chars_digits(1) [of 10 n] assms(3)
      by (intro uri_span_append) (auto simp: slash_or_end_def isc_classes(1) [symmetric] intro: isc_classes(3))
    then show ?thesis using span assms(1,3) Some
      by (auto simp: match_username_password_def X_def port_str_def slash_or_end_def)
  qed
qed

lemma raw_parse_str:
  assumes "uri_wf u"
  shows "raw_parse_uri (uri_str u) = Inr u"
proof -
  define P where "P = path_str (u_path u)"
  define A where "A = (case u_authority u of None \<Rightarrow> []
     | Some a \<Rightarrow> ''//'' @ user_str (ua_username a) (ua_password a) @ host_str (ua_hostname a) @ port_str (ua_port a)) @ P"
  have P: "match_path P = (u_path u, [])" "slash_or_end P"
    using match_path_str [of "u_path u"] assms by (auto simp: P_def uri_wf_def)
  have A: "A = [] \<or> hd A = CHR ''/''" using P(2) by (auto simp: A_def slash_or_end_def split: option.splits)
  have str: "uri_str u = (case u_scheme u of None \<Rightarrow> [] | Some s \<Rightarrow> s @ '':'') @ A"
    by (simp add: uri_str_eq A_def P_def)
  have scheme: "match_scheme (uri_str u) = (u_scheme u, A)"
  proof (cases "u_scheme u")
    case None
    then show ?thesis using A unfolding str by (cases A) (auto simp: match_scheme_def uri_span_def)
  next
    case (Some s)
    have "uri_span (s @ CHR '':'' # A) schemec = (s, CHR '':'' # A)"
      using assms Some by (intro uri_span_append) (auto simp: uri_wf_def opt_all_def all_in_def)
    then show ?thesis using Some by (simp add: str match_scheme_def)
  qed
  have auth: "match_authority A = (u_authority u, P)"
  proof (cases "u_authority u")
    case None
    have "take 2 P \<noteq> ''//''"
    proof (cases "u_path u")
      case (Some p)
      have "take 2 P = ''//'' \<Longrightarrow> take 2 (up_path p) = ''//''"
        using Some assms by (cases "up_path p"; cases "tl (up_path p)")
          (auto simp: P_def path_str_def opt_str_def uri_wf_def opt_all_def path_wf_def split: option.splits)
      then show ?thesis using assms None Some by (auto simp: uri_wf_def opt_all_def)
    qed (simp add: P_def path_str_def)
    then show ?thesis using None by (simp add: A_def match_authority_def)
  next
    case (Some a)
    have wf: "authority_wf a" using assms Some by (simp add: uri_wf_def opt_all_def)
    have host: "match_host (host_str (ua_hostname a) @ port_str (ua_port a) @ P) = (ua_hostname a, ua_port a, P)"
      using wf P(2) by (intro match_host_str) (auto simp: authority_wf_def)
    have user: "match_username_password (user_str (ua_username a) (ua_password a) @
        host_str (ua_hostname a) @ port_str (ua_port a) @ P) =
        (ua_username a, ua_password a, host_str (ua_hostname a) @ port_str (ua_port a) @ P)"
    proof (cases "ua_username a")
      case None
      then show ?thesis using wf P(2) match_no_user [of "ua_hostname a" P "ua_port a"]
        by (simp add: user_str_def authority_wf_def)
    next
      case (Some n)
      then show ?thesis using wf match_user_str [of n "ua_password a"] by (simp add: authority_wf_def)
    qed
    show ?thesis using Some user host wf by (simp add: A_def match_authority_def authority_wf_def numeral_2_eq_2)
  qed
  have "uri_str u \<noteq> []" using assms unfolding str A_def P_def
    by (auto simp: uri_wf_def path_str_def opt_all_def path_wf_def split: option.splits)
  then show ?thesis using scheme auth P(1) by (simp add: raw_parse_uri_def)
qed

subsection \<open>Properties\<close>

lemma raw_parse_hostname:
  assumes "raw_parse_uri s = Inr u" "u_authority u = Some a"
  shows "ua_hostname a \<noteq> []"
  using assms
  by (auto simp: raw_parse_uri_def match_authority_def Let_def split: if_splits prod.splits)

lemma parse_uri_parts:
  assumes "parse_uri s options = Inr u"
  obtains r where "raw_parse_uri s = Inr r" "u_scheme u = u_scheme r" "u_authority u = u_authority r"
    "\<And>a port. u_authority r = Some a \<Longrightarrow> ua_port a = Some port \<Longrightarrow> port \<le> 65535"
    "is_protocol_relative r \<Longrightarrow> is_set options allow_protocol_relative"
    "is_absolute r \<or> any_set options (flag_or allow_relative allow_protocol_relative)"
    "u_scheme r \<noteq> None \<Longrightarrow> u_authority r \<noteq> None"
proof -
  from assms obtain r where r: "raw_parse_uri s = Inr r" by (auto simp: parse_uri_def split: sum.splits)
  show thesis
    by (rule that [OF r]) (use assms r in \<open>auto simp: parse_uri_def split: if_splits option.splits\<close>)
qed

text \<open>A URI for examples.\<close>

definition sample_uri :: uri where
  "sample_uri = \<lparr>u_scheme = Some ''h'',
     u_authority = Some \<lparr>ua_username = Some ''u'', ua_password = None, ua_hostname = ''a'', ua_port = Some 80\<rparr>,
     u_path = Some \<lparr>up_path = ''/'', up_query = None, up_fragment = None\<rparr>\<rparr>"

lemma sample_chars: "isc schemec CHR ''h''" "isc userc CHR ''u''" "isc hostc CHR ''a''"
  by code_simp+

lemma sample_uri: "uri_wf sample_uri" "is_absolute sample_uri" "uri_str sample_uri = ''h://u@a:80/''"
  by (simp_all add: sample_uri_def uri_wf_def opt_all_def all_in_def authority_wf_def path_wf_def sample_chars
      is_absolute_def uri_str_def opt_str_def to_chars.simps [of 10 80] to_chars.simps [of 10 8])
    (simp_all add: digit_char_def char_of_def bit_0)

text \<open>Decoding leaves a text alone exactly when there is nothing to decode and nothing to refuse.\<close>

definition plain_text :: "string \<Rightarrow> bool" where
  "plain_text s \<longleftrightarrow> (\<forall>c \<in> set s. c \<noteq> CHR ''%'' \<and> (of_char c :: nat) < 128)"

definition plain_path :: "uri_path \<Rightarrow> bool" where
  "plain_path p \<longleftrightarrow> plain_text (up_path p) \<and> opt_all plain_text (up_query p) \<and> opt_all plain_text (up_fragment p)"

lemma url_decode_length: "url_decode s = Some t \<Longrightarrow> length t \<le> length s"
  by (induction s arbitrary: t rule: url_decode.induct) (fastforce split: if_splits list.splits)+

lemma url_decode_id: "url_decode s = Some s \<longleftrightarrow> plain_text s"
proof
  show "plain_text s" if "url_decode s = Some s" using that
  proof (induction s)
    case (Cons c cs)
    have "c \<noteq> CHR ''%''"
    proof
      assume "c = CHR ''%''"
      then obtain a b ds t where "cs = a # b # ds" "url_decode ds = Some t" "c # cs = char_of (dehex a b) # t"
        using Cons.prems by (auto split: list.splits if_splits)
      then show False using url_decode_length [of ds t] by (auto dest: arg_cong [of _ _ length])
    qed
    then show ?case using Cons by (auto simp: plain_text_def split: if_splits)
  qed (simp add: plain_text_def)
  show "url_decode s = Some s" if "plain_text s" using that
    by (induction s) (auto simp: plain_text_def)
qed

text \<open>The URI whose path, query and fragment are percent-encoded; \<open>keep\<close> are the characters that may stay.\<close>

definition encode_path :: "(char \<Rightarrow> bool) \<Rightarrow> uri_path \<Rightarrow> uri_path" where
  "encode_path keep p = (let enc = url_encode (\<lambda>c. keep c \<and> c \<noteq> CHR ''%'' \<and> (of_char c :: nat) < 128) in
     \<lparr>up_path = enc (up_path p), up_query = map_option enc (up_query p), up_fragment = map_option enc (up_fragment p)\<rparr>)"

definition encode_uri :: "(char \<Rightarrow> bool) \<Rightarrow> uri \<Rightarrow> uri" where
  "encode_uri keep u = u\<lparr>u_path := map_option (encode_path keep) (u_path u)\<rparr>"

lemma parse_absolute:
  assumes "uri_wf u" "is_absolute u"
  shows "parse_uri (uri_str u) options =
    (case u_path u of
       None \<Rightarrow> Inr u
     | Some p \<Rightarrow>
         if is_set options skip_path_decode then Inr u
         else case url_decode (up_path p) of
                None \<Rightarrow> Inl invalid_encoding
              | Some a \<Rightarrow>
                  (case decode_opt (up_query p) of
                     None \<Rightarrow> Inl invalid_encoding
                   | Some q \<Rightarrow>
                       (case decode_opt (up_fragment p) of
                          None \<Rightarrow> Inl invalid_encoding
                        | Some f \<Rightarrow> Inr (u\<lparr>u_path := Some \<lparr>up_path = a, up_query = q, up_fragment = f\<rparr>\<rparr>))))"
proof -
  have "(case u_authority u of None \<Rightarrow> False
      | Some a \<Rightarrow> (case ua_port a of None \<Rightarrow> False | Some port \<Rightarrow> port > 65535)) = False"
    using assms(1) by (auto simp: uri_wf_def opt_all_def authority_wf_def split: option.splits)
  moreover have "\<not> is_protocol_relative u" "\<not> (u_scheme u \<noteq> None \<and> u_authority u = None)"
    using assms(2) by (auto simp: is_absolute_def is_protocol_relative_def)
  ultimately show ?thesis using assms(2)
    unfolding parse_uri_def raw_parse_str [OF assms(1)] decode_path_eq by (auto simp: is_absolute_def)
qed

lemma decode_opt_id: "decode_opt v = Some v \<longleftrightarrow> opt_all plain_text v"
  by (cases v) (auto simp: decode_opt_def opt_all_def decode_path_eq url_decode_id)

lemma decode_encoded:
  "url_decode (url_encode (\<lambda>c. keep c \<and> c \<noteq> CHR ''%'' \<and> (of_char c :: nat) < 128) t) = Some t"
  "decode_opt (map_option (url_encode (\<lambda>c. keep c \<and> c \<noteq> CHR ''%'' \<and> (of_char c :: nat) < 128)) v) = Some v"
proof -
  show 1: "url_decode (url_encode (\<lambda>c. keep c \<and> c \<noteq> CHR ''%'' \<and> (of_char c :: nat) < 128) t) = Some t" for t
    by (rule url_decode_encode) blast+
  show "decode_opt (map_option (url_encode (\<lambda>c. keep c \<and> c \<noteq> CHR ''%'' \<and> (of_char c :: nat) < 128)) v) = Some v"
    by (cases v) (simp_all add: decode_opt_def decode_path_eq 1)
qed

lemma parse_encoded:
  assumes "uri_wf (encode_uri keep u)" "is_absolute (encode_uri keep u)" "\<not> is_set options skip_path_decode"
  shows "parse_uri (uri_str (encode_uri keep u)) options = Inr u"
  unfolding parse_absolute [OF assms(1,2)] using assms(3)
  by (cases "u_path u") (simp_all add: encode_uri_def encode_path_def Let_def decode_encoded)

text \<open>C36: Printing a well-formed URI and parsing the text, for all options. The raw parser gives back exactly the
  scheme, user name, password, host, port, path, query and fragment, for absolute and relative ones.
  The full parser gives an absolute URI back when it is told to leave escapes alone, and otherwise
  exactly when path, query and fragment have no escape and no high character; with percent-encoded
  ones it gives the URI back that was encoded. It refuses any other than an absolute URI unless
  the options allow it.\<close>

theorem uri_roundtrip:
  assumes "uri_wf u"
  shows "raw_parse_uri (uri_str u) = Inr u \<and>
    (is_absolute u \<longrightarrow>
      (parse_uri (uri_str u) options = Inr u \<longleftrightarrow> is_set options skip_path_decode \<or> opt_all plain_path (u_path u)) \<and>
      (\<forall>keep original. u = encode_uri keep original \<and> \<not> is_set options skip_path_decode \<longrightarrow>
        parse_uri (uri_str u) options = Inr original)) \<and>
    (\<not> is_absolute u \<and> \<not> is_set options allow_relative \<and> \<not> is_set options allow_protocol_relative \<longrightarrow>
      parse_uri (uri_str u) options = Inl (if is_protocol_relative u then protocol_relative else relative))"
proof (intro conjI impI allI)
  show raw: "raw_parse_uri (uri_str u) = Inr u" by (rule raw_parse_str [OF assms])
  show "parse_uri (uri_str u) options = Inr u \<longleftrightarrow> is_set options skip_path_decode \<or> opt_all plain_path (u_path u)"
    if "is_absolute u"
  proof (cases "u_path u")
    case (Some p)
    have "(\<exists>a q f. url_decode (up_path p) = Some a \<and> decode_opt (up_query p) = Some q \<and> decode_opt (up_fragment p) = Some f \<and>
        u\<lparr>u_path := Some \<lparr>up_path = a, up_query = q, up_fragment = f\<rparr>\<rparr> = u) \<longleftrightarrow>
        url_decode (up_path p) = Some (up_path p) \<and> decode_opt (up_query p) = Some (up_query p) \<and>
        decode_opt (up_fragment p) = Some (up_fragment p)"
      using Some by (cases u; cases p) auto
    then show ?thesis using Some unfolding parse_absolute [OF assms that] url_decode_id decode_opt_id
      by (auto simp: opt_all_def plain_path_def split: option.splits)
  qed (simp add: parse_absolute [OF assms that] opt_all_def)
  show "parse_uri (uri_str u) options = Inr original"
    if "is_absolute u" "u = encode_uri keep original \<and> \<not> is_set options skip_path_decode" for keep original
    using parse_encoded [of keep original options] that assms by simp
  show "parse_uri (uri_str u) options = Inl (if is_protocol_relative u then protocol_relative else relative)"
    if "\<not> is_absolute u \<and> \<not> is_set options allow_relative \<and> \<not> is_set options allow_protocol_relative"
  proof -
    have "\<not> any_set options (flag_or allow_relative allow_protocol_relative)" using that by (simp add: is_set_or)
    moreover have "(case u_authority u of None \<Rightarrow> False
        | Some a \<Rightarrow> (case ua_port a of None \<Rightarrow> False | Some port \<Rightarrow> port > 65535)) = False"
      using assms by (auto simp: uri_wf_def opt_all_def authority_wf_def split: option.splits)
    ultimately show ?thesis using that by (simp add: parse_uri_def raw)
  qed
qed

theorem uri_roundtrip_witness:
  "parse_uri ''h://u@a:80/'' (flagset_of uri_none) = Inr sample_uri"
proof -
  have "is_set (flagset_of uri_none) skip_path_decode \<or> opt_all plain_path (u_path sample_uri)"
    by (simp add: sample_uri_def plain_path_def plain_text_def opt_all_def)
  then show ?thesis using uri_roundtrip [OF sample_uri(1), of "flagset_of uri_none"] sample_uri(2,3) by simp
qed

text \<open>Percent-decoding in place never loses or invents text: whatever was percent-encoded, with
  any choice of plain characters left as they are, decodes to the original string, and decoding
  fails exactly when a high-bit character or a malformed escape is met.\<close>

theorem decode_path_correct:
  "decode_path s = url_decode s \<and>
   decode_path (url_encode (\<lambda>c. keep c \<and> c \<noteq> CHR ''%'' \<and> (of_char c :: nat) < 128) t) = Some t"
  unfolding decode_path_eq by (intro conjI refl url_decode_encode) blast+

text \<open>Whatever the input, a URI that is accepted has a port of at most 65535 if any, a non-empty
  host if it has an authority, no scheme without an authority, and is relative or
  protocol-relative only if the options allow it.\<close>

theorem parse_uri_guarantees:
  assumes "parse_uri s options = Inr u"
  shows "(case u_authority u of
       None \<Rightarrow> u_scheme u = None
     | Some a \<Rightarrow> ua_hostname a \<noteq> [] \<and> opt_all (\<lambda>port. port \<le> 65535) (ua_port a)) \<and>
    (is_protocol_relative u \<longrightarrow> is_set options allow_protocol_relative) \<and>
    (\<not> is_absolute u \<longrightarrow> any_set options (flag_or allow_relative allow_protocol_relative))"
proof -
  from parse_uri_parts [OF assms] obtain r where r: "raw_parse_uri s = Inr r" "u_scheme u = u_scheme r"
    "u_authority u = u_authority r"
    "\<And>a port. u_authority r = Some a \<Longrightarrow> ua_port a = Some port \<Longrightarrow> port \<le> 65535"
    "is_protocol_relative r \<Longrightarrow> is_set options allow_protocol_relative"
    "is_absolute r \<or> any_set options (flag_or allow_relative allow_protocol_relative)"
    "u_scheme r \<noteq> None \<Longrightarrow> u_authority r \<noteq> None" by blast
  have "u_scheme u = None" if "u_authority u = None" using r(2,3,7) that by metis
  with r(2-6) show ?thesis using raw_parse_hostname [OF r(1)]
    by (auto simp: is_absolute_def is_protocol_relative_def opt_all_def split: option.splits)
qed

theorem parse_uri_guarantees_witness:
  "parse_uri ''h://u@a:80/'' (flagset_of skip_path_decode) = Inr sample_uri \<and>
    (case u_authority sample_uri of
       None \<Rightarrow> u_scheme sample_uri = None
     | Some a \<Rightarrow> ua_hostname a \<noteq> [] \<and> opt_all (\<lambda>port. port \<le> 65535) (ua_port a))"
proof -
  have "parse_uri ''h://u@a:80/'' (flagset_of skip_path_decode) = Inr sample_uri"
    using raw_parse_str [OF sample_uri(1)] sample_uri(2) unfolding sample_uri(3)
    by (simp add: parse_uri_def is_set_def flagset_of_def skip_path_decode_def is_protocol_relative_def
        is_absolute_def sample_uri_def)
  from parse_uri_guarantees [OF this] this show ?thesis by blast
qed

text \<open>The character table has one row too few for the high half: of the bytes 80 to FF only 80
  to EF are in the class for high characters, although the row comments name F0 to FF as well.\<close>

theorem uri_high_chars:
  "isc highc c \<longleftrightarrow> 128 \<le> (of_char c :: nat) \<and> (of_char c :: nat) < 240"
proof -
  have "map (\<lambda>m. m AND highc \<noteq> 0) uri_chars = map (\<lambda>n. 128 \<le> n \<and> n < 240) [0..<256]" by code_simp
  then show ?thesis unfolding isc_nth by simp
qed

end
