(* ===== verification/Patricia_Key.thy ===== *)
theory Patricia_Key
  imports Safeint "HOL-Library.Sublist"
begin

unbundle bit_operations_syntax

text \<open>
  \<^verbatim>\<open>patricia.hxx\<close>, keys: \<^verbatim>\<open>patricia_key\<close>, its comparisons and the key makers. A key is a run of
  bytes with a length in bits; bit 0 is the most significant bit of the first byte. The build has
  assertions enabled: \<^verbatim>\<open>SK_PATRICIA_INVARIANT(c)\<close> is \<open>sk_check\<close> with the text of \<^verbatim>\<open>c\<close>. The
  list of its bits, \<open>key_bits\<close>, is what a key stands for; the optimised byte comparisons are
  proved equal to comparisons of these lists.
\<close>

record patricia_key =
  pk_key :: "byte list"
  pk_bits :: nat

definition empty_key :: patricia_key where
  "empty_key = \<lparr>pk_key = [], pk_bits = 0\<rparr>"

definition patricia_key_of :: "byte list \<Rightarrow> nat \<Rightarrow> patricia_key run" where
  "patricia_key_of key nbits =
     (let bits = (if nbits > 0 then nbits else length key * 8) in
      if bits > 0 then
        let need_bytes = 1 + (bits - 1) div 8;
            key = (if length key > need_bytes then take need_bytes key else key)
        in sk_check (length key \<ge> need_bytes) ''key.size() >= need_bytes''
             (Ret \<lparr>pk_key = key, pk_bits = bits\<rparr>)
      else Ret \<lparr>pk_key = key, pk_bits = bits\<rparr>)"

definition patricia_key_string :: "string \<Rightarrow> nat \<Rightarrow> patricia_key run" where
  "patricia_key_string str nbits = patricia_key_of (map of_char str) nbits"

definition size_bytes :: "patricia_key \<Rightarrow> nat" where
  "size_bytes k = length (pk_key k)"

definition size_bits :: "patricia_key \<Rightarrow> nat" where
  "size_bits k = pk_bits k"

definition key_empty :: "patricia_key \<Rightarrow> bool" where
  "key_empty k \<longleftrightarrow> pk_bits k = 0"

definition test_bit :: "patricia_key \<Rightarrow> nat \<Rightarrow> bool" where
  "test_bit k b =
     (let byten = b div 8 in
      if byten \<ge> length (pk_key k) then False
      else (drop_bit (8 - (b mod 8 + 1)) (pk_key k ! byten)) AND 1 = 1)"

text \<open>\<^verbatim>\<open>std::ranges::mismatch\<close>: the index of the first difference, or the shorter length.\<close>

fun mismatch :: "'a list \<Rightarrow> 'a list \<Rightarrow> nat" where
  "mismatch (x # xs) (y # ys) = (if x = y then Suc (mismatch xs ys) else 0)"
| "mismatch _ _ = 0"

text \<open>\<^verbatim>\<open>std::countl_zero\<close> of a byte.\<close>

fun countl_zero_from :: "nat \<Rightarrow> byte \<Rightarrow> nat" where
  "countl_zero_from 0 w = 0"
| "countl_zero_from (Suc n) w = (if bit w n then 0 else Suc (countl_zero_from n w))"

definition countl_zero :: "byte \<Rightarrow> nat" where
  "countl_zero w = countl_zero_from 8 w"

definition bit_diff :: "patricia_key \<Rightarrow> patricia_key \<Rightarrow> nat" where
  "bit_diff a b =
     (let byten = mismatch (pk_key a) (pk_key b) in
      if byten = size_bytes a \<or> byten = size_bytes b then byten * 8
      else byten * 8 + countl_zero (pk_key a ! byten XOR pk_key b ! byten))"

text \<open>\<^verbatim>\<open>std::memcmp(a, b, n) == 0\<close>.\<close>

definition memcmp_eq :: "byte list \<Rightarrow> byte list \<Rightarrow> nat \<Rightarrow> bool" where
  "memcmp_eq a b n \<longleftrightarrow> take n a = take n b"

text \<open>The loop of the two comparisons: bytes \<open>i\<close> up to \<open>n - 2\<close>, then the masked last byte.\<close>

definition last_byte_eq :: "byte list \<Rightarrow> byte list \<Rightarrow> nat \<Rightarrow> nat \<Rightarrow> bool" where
  "last_byte_eq a b i bits =
     (let m = push_bit (8 - bits mod 8) (0xFF :: byte)
      in ((a ! i XOR b ! i) AND m) = 0)"

fun bytes_eq_loop :: "nat \<Rightarrow> nat \<Rightarrow> byte list \<Rightarrow> byte list \<Rightarrow> nat \<Rightarrow> bool run" where
  "bytes_eq_loop 0 i a b bits = Ret (last_byte_eq a b i bits)"
| "bytes_eq_loop (Suc k) i a b bits =
     sk_check (i < length a) ''i < a.key.size()'' (sk_check (i < length b) ''i < b.key.size()''
       (if a ! i \<noteq> b ! i then Ret False else bytes_eq_loop k (Suc i) a b bits))"

definition key_eq :: "patricia_key \<Rightarrow> patricia_key \<Rightarrow> bool run" where
  "key_eq a b =
     (if size_bits a \<noteq> size_bits b then Ret False
      else if size_bytes a = 0 \<and> size_bytes b = 0 then Ret True
      else if size_bits a mod 8 = 0 then Ret (memcmp_eq (pk_key a) (pk_key b) (size_bytes a))
      else sk_check (size_bytes a = size_bytes b) ''a_size_bytes == b_size_bytes''
             (bytes_eq_loop (size_bytes a - 1) 0 (pk_key a) (pk_key b) (size_bits a)))"

definition prefix_compare :: "patricia_key \<Rightarrow> patricia_key \<Rightarrow> bool run" where
  "prefix_compare a b =
     (if size_bits a > size_bits b then Ret False
      else if size_bytes a = 0 then Ret True
      else if size_bits a mod 8 = 0 then Ret (memcmp_eq (pk_key a) (pk_key b) (size_bytes a))
      else sk_check (size_bytes a \<le> size_bytes b) ''a.size_bytes() <= b.size_bytes()''
             (bytes_eq_loop (size_bytes a - 1) 0 (pk_key a) (pk_key b) (size_bits a)))"

subsection \<open>Key makers\<close>

text \<open>The bytes of an unsigned integer, most significant first, and the order-preserving image of
  a signed one. \<^verbatim>\<open>-std::numeric_limits<T>::min()\<close> is taken with the wrap-around of the machine.\<close>

definition unsigned_bytes :: "'t::len word \<Rightarrow> byte list" where
  "unsigned_bytes v =
     map (\<lambda>i. ucast (drop_bit (8 * (LENGTH('t) div 8 - (i + 1))) v)) [0..<LENGTH('t) div 8]"

definition key_maker_unsigned :: "'t::len word \<Rightarrow> patricia_key run" where
  "key_maker_unsigned v = patricia_key_of (unsigned_bytes v) 0"

definition signed_image :: "'t::len word \<Rightarrow> 't word" where
  "signed_image v = (if v <s 0 then - smin + v else v + - smin)"

definition key_maker_signed :: "'t::len word \<Rightarrow> patricia_key run" where
  "key_maker_signed v = key_maker_unsigned (signed_image v)"

definition key_maker_string :: "string \<Rightarrow> patricia_key run" where
  "key_maker_string s = patricia_key_string s 0"

subsection \<open>Bits of keys\<close>

definition key_bits :: "patricia_key \<Rightarrow> bool list" where
  "key_bits k = map (test_bit k) [0..<pk_bits k]"

definition wf_key :: "patricia_key \<Rightarrow> bool" where
  "wf_key k \<longleftrightarrow> length (pk_key k) = (pk_bits k + 7) div 8"

lemma test_bit_iff: "test_bit k b \<longleftrightarrow> b div 8 < length (pk_key k) \<and> bit (pk_key k ! (b div 8)) (7 - b mod 8)"
proof -
  have "8 - Suc (b mod 8) = 7 - b mod 8" by simp
  moreover have "(drop_bit n w AND 1 = 1) = bit w n" for n and w :: byte
    by (simp add: and_one_eq bit_iff_odd_drop_bit odd_iff_mod_2_eq_one)
  ultimately show ?thesis by (simp add: test_bit_def Let_def not_le)
qed

lemma length_key_bits [simp]: "length (key_bits k) = pk_bits k"
  by (simp add: key_bits_def)

lemma nth_key_bits [simp]: "i < pk_bits k \<Longrightarrow> key_bits k ! i = test_bit k i"
  by (simp add: key_bits_def)

lemma wf_empty_key [simp]: "wf_key empty_key"
  by (simp add: wf_key_def empty_key_def)

lemma key_bits_empty [simp]: "key_bits empty_key = []"
  by (simp add: key_bits_def empty_key_def)

lemma byte_eq_iff: "(x :: byte) = y \<longleftrightarrow> (\<forall>j < 8. bit x (7 - j) = bit y (7 - j))"
proof
  assume *: "\<forall>j < 8. bit x (7 - j) = bit y (7 - j)"
  show "x = y"
  proof (rule bit_word_eqI)
    fix n assume "n < LENGTH(8)"
    then have "7 - n < 8" "7 - (7 - n) = n" by simp_all
    with * show "bit x n = bit y n" by metis
  qed
qed simp

text \<open>A byte of a key as eight of its bits.\<close>

lemma key_byte_eq_iff:
  assumes "i < length (pk_key a)" "i < length (pk_key b)"
  shows "pk_key a ! i = pk_key b ! i \<longleftrightarrow> (\<forall>j < 8. test_bit a (8 * i + j) = test_bit b (8 * i + j))"
  using assms by (auto simp: byte_eq_iff test_bit_iff)

lemma bits_bytes_eq_iff:
  assumes "n \<le> length (pk_key a)" "n \<le> length (pk_key b)"
  shows "take n (pk_key a) = take n (pk_key b) \<longleftrightarrow> (\<forall>i < 8 * n. test_bit a i = test_bit b i)"
proof -
  have "take n (pk_key a) = take n (pk_key b) \<longleftrightarrow> (\<forall>i < n. pk_key a ! i = pk_key b ! i)"
    using assms by (auto simp: list_eq_iff_nth_eq)
  also have "\<dots> \<longleftrightarrow> (\<forall>i < n. \<forall>j < 8. test_bit a (8 * i + j) = test_bit b (8 * i + j))"
    using assms by (auto simp: key_byte_eq_iff)
  also have "\<dots> \<longleftrightarrow> (\<forall>i < 8 * n. test_bit a i = test_bit b i)" (is "?l \<longleftrightarrow> ?r")
  proof
    assume ?l
    show ?r
    proof (intro allI impI)
      fix i assume "i < 8 * n"
      then have "i div 8 < n" "i mod 8 < 8" by auto
      with \<open>?l\<close> have "test_bit a (8 * (i div 8) + i mod 8) = test_bit b (8 * (i div 8) + i mod 8)" by blast
      then show "test_bit a i = test_bit b i" by simp
    qed
  qed auto
  finally show ?thesis .
qed

lemma take_key_bits_eq_iff:
  assumes "n \<le> pk_bits a" "n \<le> pk_bits b"
  shows "take n (key_bits a) = take n (key_bits b) \<longleftrightarrow> (\<forall>i < n. test_bit a i = test_bit b i)"
  using assms by (auto simp: list_eq_iff_nth_eq)

lemma last_byte_eq_iff:
  assumes "i < length (pk_key a)" "i < length (pk_key b)" "0 < n mod 8"
  shows "last_byte_eq (pk_key a) (pk_key b) i n \<longleftrightarrow>
    (\<forall>j < n mod 8. test_bit a (8 * i + j) = test_bit b (8 * i + j))"
proof -
  let ?x = "pk_key a ! i" and ?y = "pk_key b ! i" and ?m = "n mod 8"
  have m: "?m < 8" by simp
  have ff: "(0xFF :: byte) = mask 8" by (simp add: mask_eq_exp_minus_1)
  have "((?x XOR ?y) AND push_bit (8 - ?m) (mask 8)) = 0 \<longleftrightarrow>
      (\<forall>k < 8. 8 - ?m \<le> k \<longrightarrow> bit ?x k = bit ?y k)"
    by (auto simp: bit_eq_iff bit_simps)
  also have "\<dots> \<longleftrightarrow> (\<forall>j < ?m. bit ?x (7 - j) = bit ?y (7 - j))" (is "?l \<longleftrightarrow> ?r")
  proof
    assume ?l then show ?r using m by auto
  next
    assume r: ?r
    show ?l
    proof (intro allI impI)
      fix k assume "k < (8 :: nat)" "8 - ?m \<le> k"
      then have "7 - k < ?m" "7 - (7 - k) = k" using assms(3) by auto
      with r show "bit ?x k = bit ?y k" by metis
    qed
  qed
  also have "\<dots> \<longleftrightarrow> (\<forall>j < ?m. test_bit a (8 * i + j) = test_bit b (8 * i + j))"
    using assms m by (auto simp: test_bit_iff)
  finally show ?thesis by (simp add: last_byte_eq_def ff Let_def)
qed

subsection \<open>Comparisons\<close>

text \<open>The loop compares whole bytes first, then the leading bits of the last byte.\<close>

lemma bytes_eq_loop_correct:
  assumes "i + k < length (pk_key a)" "i + k < length (pk_key b)" "0 < n mod 8" "n div 8 = i + k"
  shows "bytes_eq_loop k i (pk_key a) (pk_key b) n =
    Ret (\<forall>j. 8 * i \<le> j \<and> j < n \<longrightarrow> test_bit a j = test_bit b j)"
  using assms
proof (induction k arbitrary: i)
  case 0
  have "n = 8 * i + n mod 8" using 0 by (metis add.right_neutral mult_div_mod_eq)
  then have "8 * i \<le> j \<and> j < n \<longleftrightarrow> (\<exists>m < n mod 8. j = 8 * i + m)" for j
    by (metis add_less_cancel_left le_Suc_ex le_add1)
  with 0 show ?case by (auto simp: last_byte_eq_iff)
next
  case (Suc k)
  have split: "8 * i \<le> j \<and> j < n \<longleftrightarrow> (\<exists>m < 8. j = 8 * i + m) \<or> 8 * Suc i \<le> j \<and> j < n" for j
  proof -
    have "8 * Suc i \<le> n" using Suc.prems by presburger
    moreover have "(\<exists>m < 8. j = 8 * i + m) \<longleftrightarrow> 8 * i \<le> j \<and> j < 8 * Suc i" by presburger
    ultimately show ?thesis by auto
  qed
  show ?case
    using Suc.prems Suc.IH [of "Suc i"] key_byte_eq_iff [of i a b]
    by (simp only: split) auto
qed

lemma partial_last_byte:
  assumes "wf_key k" "pk_bits k mod 8 \<noteq> 0"
  shows "pk_bits k div 8 = length (pk_key k) - 1" "length (pk_key k) > 0"
proof -
  let ?n = "pk_bits k"
  have "(?n mod 8 + 7) div 8 = 1"
    by (rule div_nat_eqI) (use assms(2) in simp_all)
  moreover have "?n + 7 = ?n mod 8 + 7 + 8 * (?n div 8)" by simp
  ultimately have "(?n + 7) div 8 = Suc (?n div 8)" by (simp only: div_mult_self2)
  then show "pk_bits k div 8 = length (pk_key k) - 1" "length (pk_key k) > 0"
    using assms(1) by (simp_all add: wf_key_def)
qed

lemma full_last_byte: "wf_key k \<Longrightarrow> pk_bits k mod 8 = 0 \<Longrightarrow> pk_bits k = 8 * length (pk_key k)"
  by (auto simp: wf_key_def elim!: dvdE)

lemma wf_key_mono: "wf_key a \<Longrightarrow> wf_key b \<Longrightarrow> pk_bits a \<le> pk_bits b \<Longrightarrow> length (pk_key a) \<le> length (pk_key b)"
  by (simp add: wf_key_def div_le_mono)

lemma prefix_compare_bits:
  assumes "wf_key a" "wf_key b" "pk_bits a \<le> pk_bits b"
  shows "prefix_compare a b = Ret (take (pk_bits a) (key_bits b) = key_bits a)"
proof -
  note len = wf_key_mono [OF assms]
  have eq: "take (pk_bits a) (key_bits b) = key_bits a \<longleftrightarrow> (\<forall>i < pk_bits a. test_bit a i = test_bit b i)"
    using take_key_bits_eq_iff [of "pk_bits a" b a] assms(3) by auto
  show ?thesis
  proof (cases "pk_bits a mod 8 = 0")
    case True
    note full = full_last_byte [OF assms(1) True]
    have "memcmp_eq (pk_key a) (pk_key b) (length (pk_key a)) \<longleftrightarrow>
        (\<forall>i < pk_bits a. test_bit a i = test_bit b i)"
      unfolding memcmp_eq_def full by (rule bits_bytes_eq_iff) (use len in simp_all)
    then show ?thesis
      unfolding eq using True full assms(3)
      by (simp add: prefix_compare_def size_bits_def size_bytes_def)
  next
    case False
    then show ?thesis
      unfolding eq
      using bytes_eq_loop_correct [of 0 "length (pk_key a) - 1" a b "pk_bits a"] len assms(3)
        partial_last_byte [OF assms(1) False]
      by (simp add: prefix_compare_def size_bits_def size_bytes_def)
  qed
qed

lemma key_eq_prefix:
  assumes "wf_key a" "wf_key b" "pk_bits a = pk_bits b"
  shows "key_eq a b = prefix_compare a b"
proof -
  have "length (pk_key a) = length (pk_key b)" using assms by (simp add: wf_key_def)
  then show ?thesis
    using assms(3) by (auto simp: key_eq_def prefix_compare_def size_bits_def size_bytes_def)
qed

lemma key_eq_bits:
  assumes "wf_key a" "wf_key b"
  shows "key_eq a b = Ret (key_bits a = key_bits b)"
proof (cases "pk_bits a = pk_bits b")
  case True
  then show ?thesis
    using key_eq_prefix [OF assms True] prefix_compare_bits [OF assms] by auto
next
  case False
  then have "key_bits a \<noteq> key_bits b" by (metis length_key_bits)
  with False show ?thesis by (simp add: key_eq_def size_bits_def)
qed

text \<open>A key whose length in bits was reset to zero equals only the empty key.\<close>

lemma key_eq_zero_bits: "pk_bits a \<noteq> 0 \<Longrightarrow> pk_bits b = 0 \<Longrightarrow> key_eq a b = Ret False"
  by (simp add: key_eq_def size_bits_def)

subsection \<open>The first difference\<close>

lemma mismatch_props:
  "mismatch xs ys \<le> length xs" "mismatch xs ys \<le> length ys"
  "i < mismatch xs ys \<Longrightarrow> xs ! i = ys ! i"
  "mismatch xs ys < length xs \<Longrightarrow> mismatch xs ys < length ys \<Longrightarrow>
    xs ! mismatch xs ys \<noteq> ys ! mismatch xs ys"
  by (induction xs ys arbitrary: i rule: mismatch.induct)
    (auto simp: nth_Cons split: nat.splits if_splits)

lemma countl_zero_numeral:
  "countl_zero_from (numeral n) w =
    (if bit w (pred_numeral n) then 0 else Suc (countl_zero_from (pred_numeral n) w))"
  by (simp add: numeral_eq_Suc)

lemma countl_zero_from:
  assumes "n \<le> 8" "\<exists>k < n. bit w k"
  shows "countl_zero_from n w < n \<and> bit w (n - 1 - countl_zero_from n w) \<and>
    (\<forall>j < countl_zero_from n w. \<not> bit w (n - 1 - j))"
  using assms
proof (induction n)
  case (Suc n)
  show ?case
  proof (cases "bit w n")
    case False
    with Suc.prems have "\<exists>k < n. bit w k" by (metis less_antisym)
    with Suc False have IH: "countl_zero_from n w < n" "bit w (n - 1 - countl_zero_from n w)"
      "\<forall>j < countl_zero_from n w. \<not> bit w (n - 1 - j)" by auto
    have "\<not> bit w (n - j)" if "j < Suc (countl_zero_from n w)" for j
      using that IH(3) False by (cases j) auto
    with False IH show ?thesis by auto
  qed auto
qed simp

lemma countl_zero_xor:
  assumes "x \<noteq> (y :: byte)"
  shows "countl_zero (x XOR y) < 8" "bit x (7 - countl_zero (x XOR y)) \<noteq> bit y (7 - countl_zero (x XOR y))"
    "j < countl_zero (x XOR y) \<Longrightarrow> bit x (7 - j) = bit y (7 - j)"
proof -
  from assms obtain k where "k < 8" "bit x (7 - k) \<noteq> bit y (7 - k)" by (auto simp: byte_eq_iff)
  then have "\<exists>k < 8. bit (x XOR y) k" by (intro exI [of _ "7 - k"]) (auto simp: bit_simps)
  from countl_zero_from [OF _ this]
  show "countl_zero (x XOR y) < 8" "bit x (7 - countl_zero (x XOR y)) \<noteq> bit y (7 - countl_zero (x XOR y))"
    "j < countl_zero (x XOR y) \<Longrightarrow> bit x (7 - j) = bit y (7 - j)"
    by (auto simp: countl_zero_def bit_simps)
qed

lemma byte_position: "r < 8 \<Longrightarrow> (m * 8 + r) div 8 = m \<and> (m * 8 + r) mod 8 = (r :: nat)"
  by simp

lemma bit_diff_agree: "i < bit_diff a b \<Longrightarrow> test_bit a i = test_bit b i"
proof -
  assume i: "i < bit_diff a b"
  let ?m = "mismatch (pk_key a) (pk_key b)"
  note m = mismatch_props [where xs = "pk_key a" and ys = "pk_key b"]
  show ?thesis
  proof (cases "i < 8 * ?m")
    case True
    then have "i div 8 < ?m" by auto
    with m(1,2) m(3) [where i = "i div 8"] show ?thesis by (auto simp: test_bit_iff)
  next
    case False
    with i have ne: "?m < length (pk_key a)" "?m < length (pk_key b)"
      and lt: "i < ?m * 8 + countl_zero (pk_key a ! ?m XOR pk_key b ! ?m)"
      using m(1,2) by (auto simp: bit_diff_def Let_def size_bytes_def split: if_splits)
    note c = countl_zero_xor [OF m(4) [OF ne]]
    have "i = ?m * 8 + (i - ?m * 8)" "i - ?m * 8 < countl_zero (pk_key a ! ?m XOR pk_key b ! ?m)"
      using False lt by simp_all
    with c(1) have "i div 8 = ?m" "i mod 8 < countl_zero (pk_key a ! ?m XOR pk_key b ! ?m)"
      using byte_position [of "i - ?m * 8" ?m] by simp_all
    with c(3) ne show ?thesis by (auto simp: test_bit_iff)
  qed
qed

lemma bit_diff_differ:
  assumes "bit_diff a b < 8 * length (pk_key a)" "bit_diff a b < 8 * length (pk_key b)"
  shows "test_bit a (bit_diff a b) \<noteq> test_bit b (bit_diff a b)"
proof -
  let ?m = "mismatch (pk_key a) (pk_key b)"
  note m = mismatch_props [where xs = "pk_key a" and ys = "pk_key b"]
  from assms have ne: "?m < length (pk_key a)" "?m < length (pk_key b)"
    using m(1,2) by (auto simp: bit_diff_def Let_def size_bytes_def split: if_splits)
  note c = countl_zero_xor [OF m(4) [OF ne]]
  from ne have "bit_diff a b = ?m * 8 + countl_zero (pk_key a ! ?m XOR pk_key b ! ?m)"
    by (simp add: bit_diff_def Let_def size_bytes_def)
  then have "bit_diff a b div 8 = ?m" "bit_diff a b mod 8 = countl_zero (pk_key a ! ?m XOR pk_key b ! ?m)"
    using byte_position [OF c(1), of ?m] by simp_all
  with c(2) ne show ?thesis by (simp add: test_bit_iff)
qed

subsection \<open>The order of keys\<close>

text \<open>Keys in the order of a trie: by the first bit that differs, a key before its extensions.\<close>

definition bit_order :: "(bool list \<times> bool list) set" where
  "bit_order = lexord {(False, True)}"

definition bits_value :: "bool list \<Rightarrow> nat" where
  "bits_value xs = horner_sum of_bool 2 (rev xs)"

lemma bits_value_Cons: "bits_value (x # xs) = of_bool x * 2 ^ length xs + bits_value xs"
  by (simp add: bits_value_def horner_sum_append)

lemma bits_value_less: "bits_value xs < 2 ^ length xs"
proof (induction xs)
  case (Cons x xs)
  then show ?case by (cases x) (simp_all add: bits_value_Cons)
qed (simp add: bits_value_def)

lemma bit_order_value:
  "length xs = length ys \<Longrightarrow> (xs, ys) \<in> bit_order \<longleftrightarrow> bits_value xs < bits_value ys"
proof (induction xs ys rule: list_induct2)
  case (Cons x xs y ys)
  then show ?case
    using bits_value_less [of xs] bits_value_less [of ys]
    by (cases x; cases y) (auto simp: bits_value_Cons bit_order_def)
qed (simp add: bit_order_def)

lemma patricia_key_of_bytes:
  "patricia_key_of bs 0 = Ret \<lparr>pk_key = bs, pk_bits = length bs * 8\<rparr>"
proof (cases bs)
  case (Cons x xs)
  have "(length bs * 8 - 1) div 8 = length xs"
    using Cons by (simp add: div_nat_eqI)
  then show ?thesis using Cons by (simp add: patricia_key_of_def Let_def)
qed (simp add: patricia_key_of_def)

lemma patricia_key_of_wf:
  "patricia_key_of bs n = Ret k \<Longrightarrow> wf_key k"
  "patricia_key_of bs n = Ret k \<Longrightarrow> 0 < n \<Longrightarrow> pk_bits k = n \<and> pk_key k = take ((n + 7) div 8) bs"
proof -
  have need: "Suc ((m - Suc 0) div 8) = (m + 7) div 8" if "0 < m" for m :: nat
  proof -
    have "m + 7 = m - 1 + 8" using that by simp
    then have "1 + (m - 1) div 8 = (m + 7) div 8" by (simp only: div_add_self2)
    then show ?thesis by simp
  qed
  assume k: "patricia_key_of bs n = Ret k"
  show "wf_key k"
    using k by (auto simp: patricia_key_of_def Let_def wf_key_def need sk_check_eq_Ret split: if_splits)
  show "pk_bits k = n \<and> pk_key k = take ((n + 7) div 8) bs" if "0 < n"
    using k that by (auto simp: patricia_key_of_def Let_def need sk_check_eq_Ret split: if_splits)
qed

definition whole_bytes :: "'t::len itself \<Rightarrow> bool" where
  "whole_bytes T \<longleftrightarrow> LENGTH('t) mod 8 = 0"

definition unsigned_key :: "'t::len word \<Rightarrow> patricia_key" where
  "unsigned_key v = \<lparr>pk_key = unsigned_bytes v, pk_bits = LENGTH('t)\<rparr>"

lemma key_maker_unsigned_eq:
  "whole_bytes TYPE('t::len) \<Longrightarrow> key_maker_unsigned (v :: 't word) = Ret (unsigned_key v)"
  by (auto simp: key_maker_unsigned_def patricia_key_of_bytes unsigned_key_def unsigned_bytes_def
      whole_bytes_def)

lemma wf_unsigned_key:
  "whole_bytes TYPE('t::len) \<Longrightarrow> wf_key (unsigned_key (v :: 't word))"
  by (auto simp: wf_key_def unsigned_key_def unsigned_bytes_def whole_bytes_def elim!: dvdE)

lemma bit_position: "q < n \<Longrightarrow> r < 8 \<Longrightarrow> 8 * (n - Suc q) + (7 - r) = 8 * n - 1 - (8 * q + r)"
  for q n r :: nat
  by (simp add: diff_mult_distrib2)

lemma test_bit_unsigned_key:
  assumes "whole_bytes TYPE('t::len)" "i < LENGTH('t)"
  shows "test_bit (unsigned_key (v :: 't word)) i = bit v (LENGTH('t) - 1 - i)"
proof -
  obtain n where n: "LENGTH('t) = 8 * n" using assms(1) by (auto simp: whole_bytes_def)
  let ?q = "i div 8" and ?r = "i mod 8"
  have q: "?q < n" using assms(2) n by auto
  have "8 * (n - Suc ?q) + (7 - ?r) = 8 * n - 1 - i"
    using bit_position [OF q, of ?r] by simp
  with q n show ?thesis
    by (auto simp: test_bit_iff unsigned_key_def unsigned_bytes_def bit_simps add.commute)
qed

lemma bits_value_unsigned_key:
  assumes "whole_bytes TYPE('t::len)"
  shows "bits_value (key_bits (unsigned_key (v :: 't word))) = unat v"
proof -
  have "rev (key_bits (unsigned_key v)) = map (bit (unat v)) [0..<LENGTH('t)]"
  proof (rule nth_equalityI)
    show "length (rev (key_bits (unsigned_key v))) = length (map (bit (unat v)) [0..<LENGTH('t)])"
      by (simp add: unsigned_key_def)
    fix i assume "i < length (rev (key_bits (unsigned_key v)))"
    then have i: "i < LENGTH('t)" by (simp add: unsigned_key_def)
    then have "rev (key_bits (unsigned_key v)) ! i = test_bit (unsigned_key v) (LENGTH('t) - Suc i)"
      by (simp add: rev_nth unsigned_key_def)
    also have "\<dots> = bit v i" using i test_bit_unsigned_key [OF assms, of "LENGTH('t) - Suc i" v] by simp
    finally show "rev (key_bits (unsigned_key v)) ! i = map (bit (unat v)) [0..<LENGTH('t)] ! i"
      using i by (simp add: bit_unsigned_iff)
  qed
  then have "bits_value (key_bits (unsigned_key v)) = take_bit LENGTH('t) (unat v)"
    by (simp add: bits_value_def horner_sum_bit_eq_take_bit)
  then show ?thesis by (simp add: take_bit_nat_eq_self unsigned_less)
qed

lemma unsigned_key_order:
  assumes "whole_bytes TYPE('t::len)"
  shows "(key_bits (unsigned_key (v :: 't word)), key_bits (unsigned_key w)) \<in> bit_order \<longleftrightarrow> v < w"
proof -
  have "length (key_bits (unsigned_key v)) = length (key_bits (unsigned_key w))"
    by (simp add: unsigned_key_def)
  from bit_order_value [OF this] show ?thesis
    by (simp add: bits_value_unsigned_key [OF assms] word_less_nat_alt)
qed

lemma signed_image_eq: "uint (signed_image (v :: 't::len word)) = sint v + 2 ^ (LENGTH('t) - 1)"
proof -
  have "signed_image v = word_of_int (sint v + 2 ^ (LENGTH('t) - 1))"
    by (simp add: signed_image_def smin_def)
  moreover have "0 \<le> sint v + 2 ^ (LENGTH('t) - 1)" "sint v + 2 ^ (LENGTH('t) - 1) < 2 ^ LENGTH('t)"
  proof -
    have "(2 :: int) ^ LENGTH('t) = 2 * 2 ^ (LENGTH('t) - 1)"
      using power_Suc [of "2 :: int" "LENGTH('t) - 1"] len_gt_0 [where 'a = 't] by (simp del: power_Suc)
    then show "0 \<le> sint v + 2 ^ (LENGTH('t) - 1)" "sint v + 2 ^ (LENGTH('t) - 1) < 2 ^ LENGTH('t)"
      using sint_greater_eq [of v] sint_less [of v] by simp_all
  qed
  ultimately show ?thesis by (simp only: uint_word_of_int_eq take_bit_int_eq_self)
qed

subsection \<open>Properties\<close>

text \<open>C40: The optimised comparisons of keys (byte-wise comparison with a mask on the last byte)
  return, whatever the bits beyond the end of the keys are, and compute equality and prefix of
  the bit sequences.\<close>

theorem patricia_key_compare:
  assumes "patricia_key_of x m = Ret a" "patricia_key_of y n = Ret b"
  shows "key_eq a b = Ret (key_bits a = key_bits b) \<and>
    prefix_compare a b = Ret (prefix (key_bits a) (key_bits b))"
proof -
  note wf = patricia_key_of_wf(1) [OF assms(1)] patricia_key_of_wf(1) [OF assms(2)]
  have "prefix (key_bits a) (key_bits b) \<longleftrightarrow>
      pk_bits a \<le> pk_bits b \<and> take (pk_bits a) (key_bits b) = key_bits a"
    by (metis append_take_drop_id length_key_bits prefix_def prefix_length_le append_eq_conv_conj)
  then show ?thesis
    using key_eq_bits [OF wf] prefix_compare_bits [OF wf]
    by (cases "pk_bits a \<le> pk_bits b") (auto simp: prefix_compare_def size_bits_def)
qed

theorem patricia_key_compare_witness:
  "key_eq \<lparr>pk_key = [10, 0x7F], pk_bits = 9\<rparr> \<lparr>pk_key = [10, 0], pk_bits = 9\<rparr> = Ret True \<and>
   prefix_compare \<lparr>pk_key = [10], pk_bits = 8\<rparr> \<lparr>pk_key = [10, 0], pk_bits = 9\<rparr> = Ret True"
proof -
  have k: "patricia_key_of [10, 0x7F] 9 = Ret \<lparr>pk_key = [10, 0x7F], pk_bits = 9\<rparr>"
    "patricia_key_of [10, 0, 1] 9 = Ret \<lparr>pk_key = [10, 0], pk_bits = 9\<rparr>"
    "patricia_key_of [10] 0 = Ret \<lparr>pk_key = [10], pk_bits = 8\<rparr>"
    by (simp_all add: patricia_key_of_def Let_def)
  show ?thesis
    using patricia_key_compare [OF k(1,2)] patricia_key_compare [OF k(3,2)]
    by (simp add: key_bits_def test_bit_def upt_rec prefix_def)
qed

lemma prefix_nth: "prefix xs ys \<Longrightarrow> i < length xs \<Longrightarrow> ys ! i = xs ! i"
  by (metis nth_append prefix_def)

text \<open>\<^verbatim>\<open>bit_diff\<close> finds the first difference: the keys agree on all bits before it, and
  cut off at the shorter key it is the length of their longest common prefix.\<close>

theorem bit_diff_common_prefix:
  assumes "patricia_key_of x m = Ret a" "patricia_key_of y n = Ret b"
  shows "min (bit_diff a b) (min (size_bits a) (size_bits b)) =
    length (longest_common_prefix (key_bits a) (key_bits b))"
proof -
  note wf = patricia_key_of_wf(1) [OF assms(1)] patricia_key_of_wf(1) [OF assms(2)]
  let ?d = "min (bit_diff a b) (min (pk_bits a) (pk_bits b))"
  let ?l = "longest_common_prefix (key_bits a) (key_bits b)"
  have d: "?d \<le> pk_bits a" "?d \<le> pk_bits b" by simp_all
  have "take ?d (key_bits a) = take ?d (key_bits b)"
    unfolding take_key_bits_eq_iff [OF d] by (simp add: bit_diff_agree)
  then have "prefix (take ?d (key_bits a)) ?l"
    by (intro longest_common_prefix_max_prefix) (metis take_is_prefix)+
  then have "?d \<le> length ?l" using d by (auto dest: prefix_length_le)
  moreover have "length ?l \<le> ?d"
  proof (rule ccontr)
    assume "\<not> length ?l \<le> ?d"
    then have lt: "?d < length ?l" by (rule not_le_imp_less)
    have pre: "prefix ?l (key_bits a)" "prefix ?l (key_bits b)"
      by (rule longest_common_prefix_prefix1, rule longest_common_prefix_prefix2)
    then have len: "length ?l \<le> pk_bits a" "length ?l \<le> pk_bits b" by (auto dest: prefix_length_le)
    with lt have eq: "?d = bit_diff a b" by simp
    have "key_bits a ! ?d = ?l ! ?d" "key_bits b ! ?d = ?l ! ?d"
      using prefix_nth [OF pre(1) lt] prefix_nth [OF pre(2) lt] by simp_all
    then have "test_bit a (bit_diff a b) = test_bit b (bit_diff a b)"
      using lt len eq by simp
    moreover have "bit_diff a b < 8 * length (pk_key a)" "bit_diff a b < 8 * length (pk_key b)"
      using lt len eq wf by (auto simp: wf_key_def)
    ultimately show False using bit_diff_differ by blast
  qed
  ultimately show ?thesis by (simp add: size_bits_def)
qed

theorem bit_diff_common_prefix_witness:
  "bit_diff \<lparr>pk_key = [0x61, 0x62], pk_bits = 16\<rparr> \<lparr>pk_key = [0x61, 0x66], pk_bits = 16\<rparr> = 13 \<and>
   length (longest_common_prefix (key_bits \<lparr>pk_key = [0x61, 0x62], pk_bits = 16\<rparr>)
     (key_bits \<lparr>pk_key = [0x61, 0x66], pk_bits = 16\<rparr>)) = 13"
proof -
  have k: "patricia_key_of [0x61, b] 0 = Ret \<lparr>pk_key = [0x61, b], pk_bits = 16\<rparr>" for b
    by (simp add: patricia_key_of_def Let_def)
  have d: "bit_diff \<lparr>pk_key = [0x61, 0x62], pk_bits = 16\<rparr> \<lparr>pk_key = [0x61, 0x66], pk_bits = 16\<rparr> = 13"
    by (simp add: bit_diff_def Let_def size_bytes_def countl_zero_def countl_zero_numeral)
  then show ?thesis using bit_diff_common_prefix [OF k k, of "0x62" "0x66"] by (simp add: size_bits_def)
qed

text \<open>The keys made of integers are in the order of the integers: of unsigned ones by their
  value, of signed ones by their signed value, for every width of whole bytes. Different
  integers have different keys.\<close>

theorem key_makers_order:
  assumes "whole_bytes TYPE('t::len)"
    "key_maker_unsigned (v :: 't word) = Ret kv" "key_maker_unsigned w = Ret kw"
    "key_maker_signed v = Ret sv" "key_maker_signed w = Ret sw"
  shows "((key_bits kv, key_bits kw) \<in> bit_order \<longleftrightarrow> v < w) \<and>
    ((key_bits sv, key_bits sw) \<in> bit_order \<longleftrightarrow> v <s w) \<and>
    (key_bits kv = key_bits kw \<longleftrightarrow> v = w) \<and> (key_bits sv = key_bits sw \<longleftrightarrow> v = w)"
proof -
  have k: "kv = unsigned_key v" "kw = unsigned_key w" "sv = unsigned_key (signed_image v)"
    "sw = unsigned_key (signed_image w)"
    using assms by (simp_all add: key_maker_signed_def key_maker_unsigned_eq)
  have inj: "key_bits (unsigned_key x) = key_bits (unsigned_key y) \<longleftrightarrow> x = y" for x y :: "'t word"
    using bits_value_unsigned_key [OF assms(1)] by (metis unsigned_word_eqI)
  have "signed_image v < signed_image w \<longleftrightarrow> v <s w"
    by (simp add: word_less_def signed_image_eq word_sless_alt)
  moreover have "signed_image v = signed_image w \<longleftrightarrow> v = w"
    by (metis signed_image_eq add_right_cancel signed_word_eqI)
  ultimately show ?thesis
    unfolding k inj unsigned_key_order [OF assms(1)] by simp
qed

theorem key_makers_order_witness:
  "key_maker_signed (- 2 :: 16 word) = Ret \<lparr>pk_key = [0x7F, 0xFE], pk_bits = 16\<rparr> \<and>
   (key_bits \<lparr>pk_key = [0x7F, 0xFE], pk_bits = 16\<rparr>, key_bits \<lparr>pk_key = [0x80, 5], pk_bits = 16\<rparr>) \<in> bit_order"
proof -
  have w: "whole_bytes TYPE(16)" by (simp add: whole_bytes_def)
  have u: "key_maker_unsigned (v :: 16 word) = Ret (unsigned_key v)" for v
    by (rule key_maker_unsigned_eq [OF w])
  have s: "key_maker_signed (- 2 :: 16 word) = Ret \<lparr>pk_key = [0x7F, 0xFE], pk_bits = 16\<rparr>"
    "key_maker_signed (5 :: 16 word) = Ret \<lparr>pk_key = [0x80, 5], pk_bits = 16\<rparr>"
    by (simp_all add: key_maker_signed_def u unsigned_key_def unsigned_bytes_def signed_image_def smin_def upt_rec)
  show ?thesis using key_makers_order [OF w u u s] s by simp
qed

end
