(* ===== verification/Patricia_Trie.thy ===== *)
theory Patricia_Trie
  imports Patricia_Key
begin

text \<open>
  \<^verbatim>\<open>patricia.hxx\<close>, the trie: \<^verbatim>\<open>patricia_node\<close>, \<^verbatim>\<open>patricia_iterator\<close> and \<^verbatim>\<open>patricia_trie\<close>. Nodes
  live in a store from addresses to nodes, so that parent pointers, detached nodes, freed nodes
  and null pointers are what they are in the code: reading through a null pointer or into freed
  memory is \<open>Abort\<close>. The C++ loops over the structure carry a bound on their iterations that
  the operations take from the number of nodes ever allocated; on every structure that is a tree
  the bound is never reached. Failing allocations are not modelled.
\<close>

type_synonym ptr = "nat option"

record 'v patricia_node =
  n_bit :: nat
  n_left :: ptr
  n_right :: ptr
  n_parent :: ptr
  n_value :: "'v option"
  n_key :: patricia_key

record 'v patricia_trie =
  tr_heap :: "nat \<Rightarrow> 'v patricia_node option"
  tr_next :: nat
  tr_root :: ptr

definition trie_new :: "'v patricia_trie" where
  "trie_new = \<lparr>tr_heap = (\<lambda>_. None), tr_next = 0, tr_root = None\<rparr>"

subsection \<open>Nodes\<close>

definition load :: "'v patricia_trie \<Rightarrow> ptr \<Rightarrow> 'v patricia_node run" where
  "load t p =
     (case p of
        None \<Rightarrow> Abort ''null pointer''
      | Some a \<Rightarrow> (case tr_heap t a of None \<Rightarrow> Abort ''freed node'' | Some n \<Rightarrow> Ret n))"

definition store :: "'v patricia_trie \<Rightarrow> nat \<Rightarrow> 'v patricia_node \<Rightarrow> 'v patricia_trie" where
  "store t a n = t\<lparr>tr_heap := (tr_heap t)(a := Some n)\<rparr>"

definition modify ::
  "'v patricia_trie \<Rightarrow> ptr \<Rightarrow> ('v patricia_node \<Rightarrow> 'v patricia_node) \<Rightarrow> 'v patricia_trie run" where
  "modify t p f = bind_run (load t p) (\<lambda>n. Ret (store t (the p) (f n)))"

definition edge :: "bool \<Rightarrow> 'v patricia_node \<Rightarrow> ptr" where
  "edge e n = (if e then n_right n else n_left n)"

definition set_edge :: "bool \<Rightarrow> ptr \<Rightarrow> 'v patricia_node \<Rightarrow> 'v patricia_node" where
  "set_edge e p n = (if e then n\<lparr>n_right := p\<rparr> else n\<lparr>n_left := p\<rparr>)"

definition make_node :: "'v patricia_trie \<Rightarrow> patricia_key \<Rightarrow> nat \<Rightarrow> (nat \<times> 'v patricia_trie) run" where
  "make_node t key b =
     bind_run (if key_empty key then Ret empty_key
               else patricia_key_of (take (size_bytes key) (pk_key key)) (size_bits key)) (\<lambda>k.
       let a = tr_next t;
           n = \<lparr>n_bit = b, n_left = None, n_right = None, n_parent = None, n_value = None, n_key = k\<rparr>
       in Ret (a, (store t a n)\<lparr>tr_next := Suc a\<rparr>))"

definition set_parent :: "'v patricia_trie \<Rightarrow> ptr \<Rightarrow> ptr \<Rightarrow> 'v patricia_trie run" where
  "set_parent t p par =
     (if p = None then Ret t else modify t p (\<lambda>n. n\<lparr>n_parent := par\<rparr>))"

definition make_inner_node ::
  "'v patricia_trie \<Rightarrow> ptr \<Rightarrow> ptr \<Rightarrow> ptr \<Rightarrow> nat \<Rightarrow> (nat \<times> 'v patricia_trie) run" where
  "make_inner_node t parent l r b =
     bind_run (make_node t empty_key b) (\<lambda>(node, t).
     bind_run (modify t (Some node) (\<lambda>n. n\<lparr>n_parent := parent, n_left := l\<rparr>)) (\<lambda>t.
     bind_run (set_parent t l (Some node)) (\<lambda>t.
     bind_run (modify t (Some node) (\<lambda>n. n\<lparr>n_right := r\<rparr>)) (\<lambda>t.
     bind_run (set_parent t r (Some node)) (\<lambda>t.
       Ret (node, t))))))"

definition detach :: "'v patricia_trie \<Rightarrow> ptr \<Rightarrow> bool \<Rightarrow> (ptr \<times> 'v patricia_trie) run" where
  "detach t this e =
     bind_run (load t this) (\<lambda>n.
       if edge e n = None then Ret (None, t)
       else bind_run (modify t this (set_edge e None)) (\<lambda>t.
            bind_run (modify t (edge e n) (\<lambda>m. m\<lparr>n_parent := None\<rparr>)) (\<lambda>t.
              Ret (edge e n, t))))"

definition attach ::
  "'v patricia_trie \<Rightarrow> ptr \<Rightarrow> bool \<Rightarrow> ptr \<Rightarrow> (ptr \<times> 'v patricia_trie) run" where
  "attach t this e p =
     bind_run (detach t this e) (\<lambda>(prev, t).
     bind_run (modify t this (set_edge e p)) (\<lambda>t.
     bind_run (modify t p (\<lambda>m. m\<lparr>n_parent := this\<rparr>)) (\<lambda>t.
       Ret (prev, t))))"

definition which :: "'v patricia_trie \<Rightarrow> ptr \<Rightarrow> ptr \<Rightarrow> bool run" where
  "which t this p =
     bind_run (load t this) (\<lambda>n.
       if n_left n = p then Ret False
       else sk_check (n_right n = p) ''rightedge() == n'' (Ret True))"

definition clear_value :: "'v patricia_node \<Rightarrow> 'v patricia_node" where
  "clear_value n = n\<lparr>n_key := (n_key n)\<lparr>pk_bits := 0\<rparr>, n_value := None\<rparr>"

definition edgecount :: "'v patricia_node \<Rightarrow> nat" where
  "edgecount n = 2 - length (filter (\<lambda>p. p = None) [n_left n, n_right n])"

text \<open>\<^verbatim>\<open>delete\<close> of one node.\<close>

definition delete_node :: "'v patricia_trie \<Rightarrow> ptr \<Rightarrow> 'v patricia_trie run" where
  "delete_node t p = bind_run (load t p) (\<lambda>_. Ret (t\<lparr>tr_heap := (tr_heap t)(the p := None)\<rparr>))"

definition delete_edge :: "'v patricia_trie \<Rightarrow> ptr \<Rightarrow> bool \<Rightarrow> 'v patricia_trie run" where
  "delete_edge t p e =
     bind_run (load t p) (\<lambda>n.
       if edge e n = None then Ret t
       else bind_run (modify t p (set_edge e None)) (\<lambda>t. delete_node t (edge e n)))"

text \<open>\<open>down\<close> tells which of the two nested loops is running: the descent or the way up.\<close>

fun delete_children_loop :: "nat \<Rightarrow> bool \<Rightarrow> 'v patricia_trie \<Rightarrow> ptr \<Rightarrow> 'v patricia_trie run" where
  "delete_children_loop 0 down t current = Diverge"
| "delete_children_loop (Suc fuel) down t current =
     bind_run (load t current) (\<lambda>n.
       if down \<and> n_left n \<noteq> None then delete_children_loop fuel True t (n_left n)
       else if down \<and> n_right n \<noteq> None then delete_children_loop fuel True t (n_right n)
       else if n_parent n = None then Ret t
       else bind_run (load t (n_parent n)) (\<lambda>p.
         if current = n_left p \<and> n_right p \<noteq> None then
           bind_run (modify t (n_parent n) (set_edge False None)) (\<lambda>t.
           bind_run (delete_node t current) (\<lambda>t.
             delete_children_loop fuel True t (n_right p)))
         else
           bind_run (delete_edge t (n_parent n) False) (\<lambda>t.
           bind_run (delete_edge t (n_parent n) True) (\<lambda>t.
             delete_children_loop fuel False t (n_parent n)))))"

definition walk_bound :: "'v patricia_trie \<Rightarrow> nat" where
  "walk_bound t = 2 * tr_next t + 2"

definition delete_children :: "'v patricia_trie \<Rightarrow> ptr \<Rightarrow> 'v patricia_trie run" where
  "delete_children t current =
     bind_run (modify t current (\<lambda>n. n\<lparr>n_parent := None\<rparr>)) (\<lambda>t.
       delete_children_loop (walk_bound t) True t current)"

definition delete_subtree :: "'v patricia_trie \<Rightarrow> ptr \<Rightarrow> 'v patricia_trie run" where
  "delete_subtree t p =
     (if p = None then Ret t
      else bind_run (delete_children t p) (\<lambda>t. delete_node t p))"

definition delete_self :: "'v patricia_trie \<Rightarrow> ptr \<Rightarrow> 'v patricia_trie run" where
  "delete_self t this =
     bind_run (load t this) (\<lambda>n.
     bind_run (delete_subtree t (n_left n)) (\<lambda>t.
     bind_run (delete_subtree t (n_right n)) (\<lambda>t.
       delete_node t this)))"

definition shallow_copy :: "'v patricia_trie \<Rightarrow> ptr \<Rightarrow> (nat \<times> 'v patricia_trie) run" where
  "shallow_copy t p =
     bind_run (load t p) (\<lambda>n.
     bind_run (make_node t (n_key n) (n_bit n)) (\<lambda>(a, t).
     bind_run (modify t (Some a) (\<lambda>m. m\<lparr>n_value := n_value n, n_parent := n_parent n\<rparr>)) (\<lambda>t.
       Ret (a, t))))"

text \<open>A copy of \<open>current\<close> becomes the edge \<open>e\<close> of \<open>q\<close>.\<close>

definition copy_edge :: "'v patricia_trie \<Rightarrow> ptr \<Rightarrow> bool \<Rightarrow> ptr \<Rightarrow> (nat \<times> 'v patricia_trie) run" where
  "copy_edge t q e current =
     bind_run (shallow_copy t current) (\<lambda>(a, t).
     bind_run (modify t q (set_edge e (Some a))) (\<lambda>t.
     bind_run (modify t (Some a) (\<lambda>n. n\<lparr>n_parent := q\<rparr>)) (\<lambda>t.
       Ret (a, t))))"

fun copy_loop :: "nat \<Rightarrow> bool \<Rightarrow> 'v patricia_trie \<Rightarrow> ptr \<Rightarrow> ptr \<Rightarrow> 'v patricia_trie run" where
  "copy_loop 0 down t current new_ptr = Diverge"
| "copy_loop (Suc fuel) down t current new_ptr =
     bind_run (load t current) (\<lambda>n.
       if down \<and> n_left n \<noteq> None then
         bind_run (copy_edge t new_ptr False (n_left n)) (\<lambda>(a, t).
           copy_loop fuel True t (n_left n) (Some a))
       else if down \<and> n_right n \<noteq> None then
         bind_run (copy_edge t new_ptr True (n_right n)) (\<lambda>(a, t).
           copy_loop fuel True t (n_right n) (Some a))
       else
         bind_run (load t (n_parent n)) (\<lambda>p.
         bind_run (load t new_ptr) (\<lambda>m.
           if current = n_left p \<and> n_right p \<noteq> None then
             bind_run (copy_edge t (n_parent m) True (n_right p)) (\<lambda>(a, t).
               copy_loop fuel True t (n_right p) (Some a))
           else if n_parent p = None then Ret t
           else copy_loop fuel False t (n_parent n) (n_parent m))))"

definition copy_node :: "'v patricia_trie \<Rightarrow> ptr \<Rightarrow> (nat \<times> 'v patricia_trie) run" where
  "copy_node t this =
     bind_run (shallow_copy t this) (\<lambda>(new_root, t1).
     bind_run (copy_loop (walk_bound t) True t1 this (Some new_root)) (\<lambda>t.
       Ret (new_root, t)))"

subsection \<open>Iterators\<close>

text \<open>An iterator is its node pointer. One pass of the outer loop of \<^verbatim>\<open>_advance\<close> moves to the next
  node in the order of the walk; it repeats until that node has a value.\<close>

fun walk_step :: "nat \<Rightarrow> bool \<Rightarrow> 'v patricia_trie \<Rightarrow> ptr \<Rightarrow> ptr run" where
  "walk_step 0 down t current = Diverge"
| "walk_step (Suc fuel) down t current =
     bind_run (load t current) (\<lambda>n.
       if down \<and> n_left n \<noteq> None then Ret (n_left n)
       else if down \<and> n_right n \<noteq> None then Ret (n_right n)
       else
         bind_run (load t (n_parent n)) (\<lambda>p.
           if current = n_left p \<and> n_right p \<noteq> None then Ret (n_right p)
           else if n_parent p = None then Ret None
           else walk_step fuel False t (n_parent n)))"

fun advance_loop :: "nat \<Rightarrow> 'v patricia_trie \<Rightarrow> ptr \<Rightarrow> ptr run" where
  "advance_loop 0 t current = Diverge"
| "advance_loop (Suc fuel) t current =
     bind_run (walk_step (walk_bound t) True t current) (\<lambda>p.
       if p = None then Ret None
       else bind_run (load t p) (\<lambda>n.
         if n_value n = None then advance_loop fuel t p else Ret p))"

definition iterator_advance :: "'v patricia_trie \<Rightarrow> ptr \<Rightarrow> ptr run" where
  "iterator_advance t current = advance_loop (walk_bound t) t current"

definition make_iterator :: "'v patricia_trie \<Rightarrow> ptr \<Rightarrow> ptr run" where
  "make_iterator t node =
     (if node = None then Ret None
      else bind_run (load t node) (\<lambda>n.
        if n_value n = None then iterator_advance t node else Ret node))"

definition iterator_deref :: "'v patricia_trie \<Rightarrow> ptr \<Rightarrow> 'v run" where
  "iterator_deref t current =
     sk_check (current \<noteq> None) ''current != nullptr && current->value.has_value()''
       (bind_run (load t current) (\<lambda>n.
          sk_check (n_value n \<noteq> None) ''current != nullptr && current->value.has_value()''
            (Ret (the (n_value n)))))"

definition trie_begin :: "'v patricia_trie \<Rightarrow> ptr run" where
  "trie_begin t = make_iterator t (tr_root t)"

text \<open>The values a \<^verbatim>\<open>for\<close> loop over the trie sees.\<close>

fun collect :: "nat \<Rightarrow> 'v patricia_trie \<Rightarrow> ptr \<Rightarrow> 'v list run" where
  "collect 0 t it = Diverge"
| "collect (Suc fuel) t it =
     (if it = None then Ret []
      else bind_run (iterator_deref t it) (\<lambda>v.
           bind_run (iterator_advance t it) (\<lambda>it.
           bind_run (collect fuel t it) (\<lambda>vs. Ret (v # vs)))))"

definition trie_values :: "'v patricia_trie \<Rightarrow> 'v list run" where
  "trie_values t = bind_run (trie_begin t) (\<lambda>it. collect (walk_bound t) t it)"

subsection \<open>Lookup\<close>

fun find_loop :: "nat \<Rightarrow> 'v patricia_trie \<Rightarrow> patricia_key \<Rightarrow> ptr \<Rightarrow> ptr run" where
  "find_loop 0 t key node = Diverge"
| "find_loop (Suc fuel) t key node =
     bind_run (load t node) (\<lambda>n.
       if n_bit n < size_bits key then
         let next = edge (test_bit key (n_bit n)) n
         in if next = None then Ret node else find_loop fuel t key next
       else Ret node)"

definition find_node :: "'v patricia_trie \<Rightarrow> patricia_key \<Rightarrow> ptr run" where
  "find_node t key =
     (if tr_root t = None then Ret None
      else bind_run (find_loop (walk_bound t) t key (tr_root t)) (\<lambda>node.
           bind_run (load t node) (\<lambda>n.
           bind_run (key_eq key (n_key n)) (\<lambda>eq.
             if eq then Ret node else Ret None))))"

definition trie_find :: "'v patricia_trie \<Rightarrow> patricia_key \<Rightarrow> ptr run" where
  "trie_find t key =
     bind_run (find_node t key) (\<lambda>node.
       if node = None then Ret None
       else bind_run (load t node) (\<lambda>n.
         if n_value n = None then Ret None else make_iterator t node))"

fun match_up_loop :: "nat \<Rightarrow> 'v patricia_trie \<Rightarrow> patricia_key \<Rightarrow> ptr \<Rightarrow> ptr run" where
  "match_up_loop 0 t key node = Diverge"
| "match_up_loop (Suc fuel) t key node =
     (if node = None then Ret None
      else bind_run (load t node) (\<lambda>n.
        if pk_bits (n_key n) > size_bits key then match_up_loop fuel t key (n_parent n)
        else bind_run (prefix_compare (n_key n) key) (\<lambda>m.
          if m then Ret node else match_up_loop fuel t key (n_parent n))))"

definition prefix_match :: "'v patricia_trie \<Rightarrow> patricia_key \<Rightarrow> ptr run" where
  "prefix_match t key =
     (if tr_root t = None then Ret None
      else bind_run (find_loop (walk_bound t) t key (tr_root t)) (\<lambda>node.
             match_up_loop (walk_bound t) t key node))"

definition trie_empty :: "'v patricia_trie \<Rightarrow> bool run" where
  "trie_empty t =
     (if tr_root t = None then Ret True
      else bind_run (load t (tr_root t)) (\<lambda>n.
        Ret (n_value n = None \<and> n_left n = None \<and> n_right n = None)))"

subsection \<open>Insertion\<close>

fun insert_search :: "nat \<Rightarrow> 'v patricia_trie \<Rightarrow> patricia_key \<Rightarrow> ptr \<Rightarrow> ptr run" where
  "insert_search 0 t key node = Diverge"
| "insert_search (Suc fuel) t key node =
     bind_run (load t node) (\<lambda>n.
       if n_bit n < size_bits key \<or> n_value n = None then
         let next = edge (test_bit key (n_bit n)) n
         in if next = None then Ret node else insert_search fuel t key next
       else Ret node)"

fun walk_up :: "nat \<Rightarrow> 'v patricia_trie \<Rightarrow> nat \<Rightarrow> ptr \<Rightarrow> ptr run" where
  "walk_up 0 t diffbit node = Diverge"
| "walk_up (Suc fuel) t diffbit node =
     bind_run (load t node) (\<lambda>n.
       if n_parent n = None then Ret node
       else bind_run (load t (n_parent n)) (\<lambda>p.
         if n_bit p \<ge> diffbit then walk_up fuel t diffbit (n_parent n) else Ret node))"

text \<open>The three ways the new node enters the trie: below \<open>node\<close>, above it, or beside it under a
  new inner node.\<close>

definition insert_below ::
  "'v patricia_trie \<Rightarrow> patricia_key \<Rightarrow> nat \<Rightarrow> ptr \<Rightarrow> (ptr \<times> 'v patricia_trie) run" where
  "insert_below t key new_node node =
     bind_run (modify t (Some new_node) (\<lambda>m. m\<lparr>n_parent := node\<rparr>)) (\<lambda>t.
     bind_run (load t node) (\<lambda>n.
     bind_run (attach t node (test_bit key (n_bit n)) (Some new_node)) (\<lambda>(_, t).
       Ret (Some new_node, t))))"

definition insert_above ::
  "'v patricia_trie \<Rightarrow> patricia_key \<Rightarrow> nat \<Rightarrow> ptr \<Rightarrow> (ptr \<times> 'v patricia_trie) run" where
  "insert_above t key new_node node =
     bind_run (load t node) (\<lambda>n.
     bind_run (modify t (Some new_node) (\<lambda>m. m\<lparr>n_parent := n_parent n\<rparr>)) (\<lambda>t.
     bind_run (if n_parent n = None then
                 delete_self (t\<lparr>tr_root := Some new_node\<rparr>) (tr_root t)
               else
                 bind_run (which t (n_parent n) node) (\<lambda>e.
                 bind_run (load t (n_parent n)) (\<lambda>p.
                 bind_run (modify t (n_parent n) (set_edge e (Some new_node))) (\<lambda>t.
                   modify t (Some new_node) (set_edge (test_bit (n_key n) (size_bits key)) (edge e p))))))
       (\<lambda>t.
     bind_run (modify t node (\<lambda>m. m\<lparr>n_parent := Some new_node\<rparr>)) (\<lambda>t.
       Ret (Some new_node, t)))))"

definition insert_beside ::
  "'v patricia_trie \<Rightarrow> patricia_key \<Rightarrow> nat \<Rightarrow> nat \<Rightarrow> ptr \<Rightarrow> (ptr \<times> 'v patricia_trie) run" where
  "insert_beside t key diffbit new_node node =
     (let b = test_bit key diffbit in
      bind_run (load t node) (\<lambda>nd.
      bind_run (make_inner_node t (n_parent nd) (if b then node else Some new_node)
                  (if b then Some new_node else node) diffbit) (\<lambda>(n, t).
      bind_run (which t (n_parent nd) node) (\<lambda>e.
      bind_run (attach t (n_parent nd) e (Some n)) (\<lambda>(_, t).
      bind_run (modify t node (\<lambda>m. m\<lparr>n_parent := Some n\<rparr>)) (\<lambda>t.
        Ret (Some new_node, t)))))))"

definition insert_node :: "'v patricia_trie \<Rightarrow> patricia_key \<Rightarrow> (ptr \<times> 'v patricia_trie) run" where
  "insert_node t key =
     (let keylen = size_bits key in
      bind_run (if tr_root t = None then
                  bind_run (make_node t empty_key 0) (\<lambda>(a, t). Ret (t\<lparr>tr_root := Some a\<rparr>))
                else Ret t) (\<lambda>t.
      bind_run (insert_search (walk_bound t) t key (tr_root t)) (\<lambda>node.
      bind_run (load t node) (\<lambda>n.
        let check_bit = (if n_bit n < keylen then n_bit n else keylen);
            diffbit = bit_diff key (n_key n);
            diffbit = (if diffbit > check_bit then check_bit else diffbit)
        in
      bind_run (walk_up (walk_bound t) t diffbit node) (\<lambda>node.
      bind_run (load t node) (\<lambda>n.
        if diffbit = keylen \<and> n_bit n = keylen then Ret (node, t)
        else bind_run (make_node t key keylen) (\<lambda>(new_node, t).
          if n_bit n = diffbit then insert_below t key new_node node
          else if keylen = diffbit then insert_above t key new_node node
          else insert_beside t key diffbit new_node node)))))))"

definition trie_insert :: "'v patricia_trie \<Rightarrow> patricia_key \<Rightarrow> 'v \<Rightarrow> (bool \<times> 'v patricia_trie) run" where
  "trie_insert t key v =
     bind_run (insert_node t key) (\<lambda>(node, t).
     bind_run (load t node) (\<lambda>n.
       if n_value n \<noteq> None then Ret (False, t)
       else bind_run (modify t node (\<lambda>n. n\<lparr>n_value := Some v\<rparr>)) (\<lambda>t. Ret (True, t))))"

subsection \<open>Removal\<close>

text \<open>One pass of the loop of \<^verbatim>\<open>remove_node\<close>: the node to continue with, if any.\<close>

definition remove_root :: "'v patricia_trie \<Rightarrow> ptr \<Rightarrow> 'v patricia_trie run" where
  "remove_root t node =
     bind_run (load t node) (\<lambda>n.
     sk_check (n_parent n = None) ''!node->parent'' (
     sk_check (edgecount n \<le> 1) ''node->edgecount() <= 1'' (
     bind_run (if n_value n \<noteq> None then modify t node clear_value else Ret t) (\<lambda>t.
       if n_left n \<noteq> None then
         bind_run (detach t node False) (\<lambda>(p, t). delete_self (t\<lparr>tr_root := p\<rparr>) node)
       else if n_right n \<noteq> None then
         bind_run (detach t node True) (\<lambda>(p, t). delete_self (t\<lparr>tr_root := p\<rparr>) node)
       else Ret t))))"

definition remove_leaf :: "'v patricia_trie \<Rightarrow> ptr \<Rightarrow> 'v patricia_trie run" where
  "remove_leaf t node =
     bind_run (load t node) (\<lambda>n.
     bind_run (load t (n_parent n)) (\<lambda>p.
     sk_check (n_left p = node \<or> n_right p = node)
       ''node->parent->leftedge() == node || node->parent->rightedge() == node'' (
     bind_run (which t (n_parent n) node) (\<lambda>e.
     bind_run (modify t (n_parent n) (set_edge e None)) (\<lambda>t.
       delete_self t node)))))"

definition remove_single :: "'v patricia_trie \<Rightarrow> ptr \<Rightarrow> 'v patricia_trie run" where
  "remove_single t node =
     bind_run (load t node) (\<lambda>n.
     bind_run (which t (n_parent n) node) (\<lambda>e.
     bind_run (detach t node (n_left n = None)) (\<lambda>(c, t).
     bind_run (attach t (n_parent n) e c) (\<lambda>(_, t).
       delete_self t node))))"

fun remove_loop :: "nat \<Rightarrow> 'v patricia_trie \<Rightarrow> ptr \<Rightarrow> 'v patricia_trie run" where
  "remove_loop 0 t node = Diverge"
| "remove_loop (Suc fuel) t node =
     bind_run (load t node) (\<lambda>n.
       if edgecount n = 2 then modify t node clear_value
       else if node = tr_root t then remove_root t node
       else bind_run (if edgecount n = 0 then remove_leaf t node else remove_single t node) (\<lambda>t.
         bind_run (load t (n_parent n)) (\<lambda>p.
           if n_value p = None \<and> \<not> (n_left p \<noteq> None \<and> n_right p \<noteq> None)
           then remove_loop fuel t (n_parent n)
           else Ret t)))"

definition remove_node :: "'v patricia_trie \<Rightarrow> ptr \<Rightarrow> 'v patricia_trie run" where
  "remove_node t node = remove_loop (walk_bound t) t node"

definition trie_erase :: "'v patricia_trie \<Rightarrow> ptr \<Rightarrow> (nat \<times> 'v patricia_trie) run" where
  "trie_erase t it = bind_run (remove_node t it) (\<lambda>t. Ret (1, t))"

definition trie_remove :: "'v patricia_trie \<Rightarrow> patricia_key \<Rightarrow> (bool \<times> 'v patricia_trie) run" where
  "trie_remove t key =
     bind_run (trie_find t key) (\<lambda>it.
       if it = None then Ret (False, t)
       else bind_run (trie_erase t it) (\<lambda>(_, t). Ret (True, t)))"

subsection \<open>Copies and moves\<close>

text \<open>Two tries may share the store: \<open>other\<close> is the root pointer of the other one.\<close>

definition trie_copy :: "'v patricia_trie \<Rightarrow> ptr \<Rightarrow> (nat \<times> 'v patricia_trie) run" where
  "trie_copy t other = copy_node t other"

definition trie_destroy :: "'v patricia_trie \<Rightarrow> 'v patricia_trie run" where
  "trie_destroy t = (if tr_root t = None then Ret t else delete_self t (tr_root t))"

definition trie_copy_assign :: "'v patricia_trie \<Rightarrow> ptr \<Rightarrow> 'v patricia_trie run" where
  "trie_copy_assign t other =
     bind_run (trie_destroy t) (\<lambda>t.
     bind_run (copy_node (t\<lparr>tr_root := None\<rparr>) other) (\<lambda>(r, t).
       Ret (t\<lparr>tr_root := Some r\<rparr>)))"

definition trie_move :: "'v patricia_trie \<Rightarrow> ptr \<times> 'v patricia_trie" where
  "trie_move t = (tr_root t, t\<lparr>tr_root := None\<rparr>)"

definition trie_move_assign :: "'v patricia_trie \<Rightarrow> ptr \<Rightarrow> 'v patricia_trie \<times> ptr" where
  "trie_move_assign t other = (t\<lparr>tr_root := other\<rparr>, None)"

end
