(* ===== verification/Patricia_Shape.thy ===== *)
theory Patricia_Shape
  imports Patricia_Trie
begin

text \<open>
  The tree a trie's store holds, as a value: \<open>shape_at\<close> relates a store to it (parent pointers
  included), \<open>ok\<close> is the order of a Patricia trie on it, \<open>contents\<close> the map from bit sequences to
  values it stands for. The walks of the code are followed on the shape: descent, the way up, and
  the walk of the iterator.
\<close>

datatype 'v shape = Tip | Nd (addr: nat) (bitn: nat) (nkey: patricia_key) (nval: "'v option") "'v shape" "'v shape"

fun root_of :: "'v shape \<Rightarrow> ptr" where
  "root_of Tip = None"
| "root_of (Nd a b k v l r) = Some a"

fun addrs :: "'v shape \<Rightarrow> nat set" where
  "addrs Tip = {}"
| "addrs (Nd a b k v l r) = insert a (addrs l \<union> addrs r)"

fun dist :: "'v shape \<Rightarrow> bool" where
  "dist Tip \<longleftrightarrow> True"
| "dist (Nd a b k v l r) \<longleftrightarrow> a \<notin> addrs l \<and> a \<notin> addrs r \<and> addrs l \<inter> addrs r = {} \<and> dist l \<and> dist r"

fun nodes :: "'v shape \<Rightarrow> nat" where
  "nodes Tip = 0"
| "nodes (Nd a b k v l r) = Suc (nodes l + nodes r)"

fun child :: "bool \<Rightarrow> 'v shape \<Rightarrow> 'v shape" where
  "child e Tip = Tip"
| "child e (Nd a b k v l r) = (if e then r else l)"

definition node_rec :: "nat \<Rightarrow> patricia_key \<Rightarrow> 'v option \<Rightarrow> ptr \<Rightarrow> ptr \<Rightarrow> ptr \<Rightarrow> 'v patricia_node" where
  "node_rec b k v par l r =
     \<lparr>n_bit = b, n_left = l, n_right = r, n_parent = par, n_value = v, n_key = k\<rparr>"

fun shape_at :: "(nat \<Rightarrow> 'v patricia_node option) \<Rightarrow> ptr \<Rightarrow> 'v shape \<Rightarrow> bool" where
  "shape_at h par Tip \<longleftrightarrow> True"
| "shape_at h par (Nd a b k v l r) \<longleftrightarrow>
     h a = Some (node_rec b k v par (root_of l) (root_of r)) \<and>
     shape_at h (Some a) l \<and> shape_at h (Some a) r"

definition trie_rep :: "'v patricia_trie \<Rightarrow> 'v shape \<Rightarrow> bool" where
  "trie_rep t s \<longleftrightarrow> tr_root t = root_of s \<and> shape_at (tr_heap t) None s \<and> dist s \<and>
     addrs s \<subseteq> {..<tr_next t} \<and> (\<forall>a \<ge> tr_next t. tr_heap t a = None)"

text \<open>The entries in the order of the walk: address, key and value.\<close>

fun entries :: "'v shape \<Rightarrow> (nat \<times> patricia_key \<times> 'v) list" where
  "entries Tip = []"
| "entries (Nd a b k v l r) =
     (case v of None \<Rightarrow> [] | Some x \<Rightarrow> [(a, k, x)]) @ entries l @ entries r"

definition keys :: "'v shape \<Rightarrow> patricia_key set" where
  "keys s = (\<lambda>e. fst (snd e)) ` set (entries s)"

definition contents :: "'v shape \<Rightarrow> bool list \<Rightarrow> 'v option" where
  "contents s = map_of (map (\<lambda>e. (key_bits (fst (snd e)), snd (snd e))) (entries s))"

text \<open>The order of the trie: an entry sits at its length; the bit of a node splits what is below
  it; all keys below a node agree on the bits before its own.\<close>

definition bit_above :: "nat \<Rightarrow> 'v shape \<Rightarrow> bool" where
  "bit_above b s \<longleftrightarrow> s = Tip \<or> b < bitn s"

definition agree :: "nat \<Rightarrow> patricia_key set \<Rightarrow> bool" where
  "agree b K \<longleftrightarrow> (\<forall>k \<in> K. \<forall>k' \<in> K. \<forall>i < b. test_bit k i = test_bit k' i)"

fun ok :: "'v shape \<Rightarrow> bool" where
  "ok Tip \<longleftrightarrow> True"
| "ok (Nd a b k v l r) \<longleftrightarrow>
     (if v = None then pk_bits k = 0 else wf_key k \<and> pk_bits k = b) \<and>
     (\<forall>k' \<in> keys l. b < pk_bits k' \<and> \<not> test_bit k' b) \<and>
     (\<forall>k' \<in> keys r. b < pk_bits k' \<and> test_bit k' b) \<and>
     bit_above b l \<and> bit_above b r \<and> agree b (keys (Nd a b k v l r)) \<and> ok l \<and> ok r"

text \<open>A node without a value joins two subtrees.\<close>

fun joined :: "'v shape \<Rightarrow> bool" where
  "joined Tip \<longleftrightarrow> True"
| "joined (Nd a b k v l r) \<longleftrightarrow> (v = None \<longrightarrow> l \<noteq> Tip \<and> r \<noteq> Tip) \<and> joined l \<and> joined r"

subsection \<open>Basic facts\<close>

lemma keys_simps [simp]:
  "keys Tip = {}"
  "keys (Nd a b k v l r) = (if v = None then {} else {k}) \<union> keys l \<union> keys r"
  by (cases v; simp add: keys_def image_Un)+

lemma root_of_None [simp]: "root_of s = None \<longleftrightarrow> s = Tip"
  by (cases s) auto

lemma root_of_Some: "root_of s = Some a \<Longrightarrow> a \<in> addrs s"
  by (cases s) auto

lemma root_of_addr: "s \<noteq> Tip \<Longrightarrow> root_of s = Some (addr s)"
  by (cases s) auto

lemma finite_addrs [simp]: "finite (addrs s)"
  by (induction s) auto

lemma card_addrs: "dist s \<Longrightarrow> card (addrs s) = nodes s"
  by (induction s) (auto simp: card_Un_disjoint)

lemma nodes_bound: "trie_rep t s \<Longrightarrow> nodes s \<le> tr_next t"
  using card_addrs [of s] card_mono [of "{..<tr_next t}" "addrs s"] by (simp add: trie_rep_def)

lemma entries_addrs: "(a, k, x) \<in> set (entries s) \<Longrightarrow> a \<in> addrs s"
  by (induction s) (auto split: option.splits)

lemma shape_at_cong:
  "(\<And>a. a \<in> addrs s \<Longrightarrow> h a = h' a) \<Longrightarrow> shape_at h par s = shape_at h' par s"
  by (induction s arbitrary: par) auto

lemma shape_at_upd [simp]: "a \<notin> addrs s \<Longrightarrow> shape_at (h(a := n)) par s = shape_at h par s"
  by (rule shape_at_cong) auto

lemma load_Some: "tr_heap t a = Some n \<Longrightarrow> load t (Some a) = Ret n"
  by (simp add: load_def)

lemma node_rec_sel [simp]:
  "n_bit (node_rec b k v par l r) = b" "n_left (node_rec b k v par l r) = l"
  "n_right (node_rec b k v par l r) = r" "n_parent (node_rec b k v par l r) = par"
  "n_value (node_rec b k v par l r) = v" "n_key (node_rec b k v par l r) = k"
  "edge e (node_rec b k v par l r) = (if e then r else l)"
  by (simp_all add: node_rec_def edge_def)

lemma node_rec_upd [simp]:
  "(node_rec b k v par l r)\<lparr>n_parent := p'\<rparr> = node_rec b k v p' l r"
  "(node_rec b k v par l r)\<lparr>n_value := v'\<rparr> = node_rec b k v' par l r"
  "(node_rec b k v par l r)\<lparr>n_left := l'\<rparr> = node_rec b k v par l' r"
  "(node_rec b k v par l r)\<lparr>n_right := r'\<rparr> = node_rec b k v par l r'"
  "set_edge e p' (node_rec b k v par l r) = (if e then node_rec b k v par l p' else node_rec b k v par p' r)"
  "clear_value (node_rec b k v par l r) = node_rec b (k\<lparr>pk_bits := 0\<rparr>) None par l r"
  by (simp_all add: node_rec_def set_edge_def clear_value_def)

lemma ok_key_wf: "ok s \<Longrightarrow> k \<in> keys s \<Longrightarrow> wf_key k"
  by (induction s) (auto split: if_splits)

lemma ok_key_bits: "ok s \<Longrightarrow> k \<in> keys s \<Longrightarrow> bitn s \<le> pk_bits k"
  by (cases s) (auto split: if_splits)

lemma keys_entries: "k \<in> keys s \<longleftrightarrow> (\<exists>a x. (a, k, x) \<in> set (entries s))"
  by (force simp: keys_def)

text \<open>Equal bit sequences have equal bits and lengths.\<close>

lemma key_bits_eqD:
  assumes "key_bits k = key_bits k'"
  shows "pk_bits k = pk_bits k'" "i < pk_bits k \<Longrightarrow> test_bit k i = test_bit k' i"
proof -
  show p: "pk_bits k = pk_bits k'" using assms by (metis length_key_bits)
  show "i < pk_bits k \<Longrightarrow> test_bit k i = test_bit k' i" using assms p by (metis nth_key_bits)
qed

lemma ok_split:
  assumes "ok (Nd a b k v l r)"
  shows "kl \<in> keys l \<Longrightarrow> kr \<in> keys r \<Longrightarrow> key_bits kl \<noteq> key_bits kr"
    "v \<noteq> None \<Longrightarrow> k' \<in> keys l \<union> keys r \<Longrightarrow> key_bits k \<noteq> key_bits k'"
proof -
  show "key_bits kl \<noteq> key_bits kr" if "kl \<in> keys l" "kr \<in> keys r"
    using assms that key_bits_eqD [of kl kr] by auto
  show "key_bits k \<noteq> key_bits k'" if "v \<noteq> None" "k' \<in> keys l \<union> keys r"
    using assms that key_bits_eqD(1) [of k k'] by auto
qed

lemma distinct_entries: "ok s \<Longrightarrow> distinct (map (\<lambda>e. key_bits (fst (snd e))) (entries s))"
proof (induction s)
  case (Nd a b k v l r)
  have "key_bits k' \<noteq> key_bits k''" if "k' \<in> keys l" "k'' \<in> keys r" for k' k''
    using ok_split(1) [OF Nd.prems that] .
  moreover have "key_bits k \<noteq> key_bits k'" if "v \<noteq> None" "k' \<in> keys l \<union> keys r" for k'
    using ok_split(2) [OF Nd.prems that] .
  moreover have "(\<lambda>e. key_bits (fst (snd e))) ` set (entries s) = key_bits ` keys s" for s :: "'a shape"
    by (simp add: keys_def image_image)
  ultimately show ?case using Nd.IH Nd.prems by (cases v) (auto simp del: keys_simps)
qed simp

lemma contents_eq_Some:
  assumes "ok s"
  shows "contents s ks = Some x \<longleftrightarrow> (\<exists>a k. (a, k, x) \<in> set (entries s) \<and> key_bits k = ks)"
proof -
  have "distinct (map fst (map (\<lambda>e. (key_bits (fst (snd e)), snd (snd e))) (entries s)))"
    using distinct_entries [OF assms] by (simp add: comp_def)
  then show ?thesis by (force simp: contents_def map_of_eq_Some_iff)
qed

lemma contents_eq_None: "contents s ks = None \<longleftrightarrow> (\<forall>k \<in> keys s. key_bits k \<noteq> ks)"
  by (force simp: contents_def map_of_eq_None_iff keys_def)

subsection \<open>Descent\<close>

fun descend :: "patricia_key \<Rightarrow> 'v shape \<Rightarrow> 'v shape" where
  "descend key Tip = Tip"
| "descend key (Nd a b k v l r) =
     (if b < pk_bits key then
        (if test_bit key b then (if r = Tip then Nd a b k v l r else descend key r)
         else (if l = Tip then Nd a b k v l r else descend key l))
      else Nd a b k v l r)"

lemma descend_Tip [simp]: "descend key s = Tip \<longleftrightarrow> s = Tip"
  by (induction s) auto

lemma descend_shape_at: "shape_at h par s \<Longrightarrow> \<exists>par'. shape_at h par' (descend key s)"
  by (induction s arbitrary: par) auto

lemma find_loop_shape:
  "shape_at (tr_heap t) par s \<Longrightarrow> s \<noteq> Tip \<Longrightarrow> nodes s \<le> fuel \<Longrightarrow>
    find_loop fuel t key (root_of s) = Ret (root_of (descend key s))"
proof (induction s arbitrary: par fuel)
  case (Nd a b k v l r)
  then obtain f where "fuel = Suc f" by (cases fuel) auto
  with Nd.prems Nd.IH(1) [of "Some a" f] Nd.IH(2) [of "Some a" f] show ?case
    by (auto simp: load_Some Let_def size_bits_def)
qed simp

lemma descend_finds:
  assumes "ok s" "(a, k, x) \<in> set (entries s)" "key_bits k = key_bits key"
  shows "\<exists>l r. descend key s = Nd a (pk_bits k) k (Some x) l r"
  using assms
proof (induction s)
  case (Nd a' b k' v l r)
  note eq = key_bits_eqD [OF Nd.prems(3)]
  consider "v = Some x" "a = a'" "k = k'" | "(a, k, x) \<in> set (entries l)" | "(a, k, x) \<in> set (entries r)"
    using Nd.prems(2) by (auto split: option.splits)
  then show ?case
  proof cases
    case 1
    then show ?thesis using Nd.prems(1) eq by simp
  next
    case 2
    then have "k \<in> keys l" "l \<noteq> Tip" by (auto simp: keys_entries)
    then have "b < pk_bits key" "\<not> test_bit key b" using Nd.prems(1) eq by auto
    with 2 Nd \<open>l \<noteq> Tip\<close> show ?thesis by simp
  next
    case 3
    then have "k \<in> keys r" "r \<noteq> Tip" by (auto simp: keys_entries)
    then have "b < pk_bits key" "test_bit key b" using Nd.prems(1) eq by auto
    with 3 Nd \<open>r \<noteq> Tip\<close> show ?thesis by simp
  qed
qed simp

lemma descend_entry:
  assumes "descend key s = Nd a b k (Some x) l r"
  shows "(a, k, x) \<in> set (entries s)"
  using assms by (induction s) (auto split: if_splits option.splits)

lemma ok_descend: "ok s \<Longrightarrow> ok (descend key s)"
  by (induction s) auto

text \<open>The node the descent ends at, with its content compared to the key.\<close>

lemma find_node_shape:
  assumes "trie_rep t s" "ok s" "wf_key key"
  shows "find_node t key = Ret (case descend key s of Tip \<Rightarrow> None
    | Nd a b k v l r \<Rightarrow>
        if (if v = None then pk_bits key = 0 else key_bits k = key_bits key) then Some a else None)"
proof (cases "descend key s")
  case Tip
  then show ?thesis using assms(1) by (simp add: find_node_def trie_rep_def)
next
  case (Nd a b k v l r)
  then have ne: "s \<noteq> Tip" by auto
  from assms(1) have s: "shape_at (tr_heap t) None s" "tr_root t = root_of s" by (simp_all add: trie_rep_def)
  have "nodes s \<le> walk_bound t" using nodes_bound [OF assms(1)] by (simp add: walk_bound_def)
  note loop = find_loop_shape [OF s(1) ne this, of key]
  from descend_shape_at [OF s(1), of key] Nd
  have ld: "\<exists>par. load t (Some a) = Ret (node_rec b k v par (root_of l) (root_of r))"
    by (auto simp: load_Some)
  have "key_eq key k = Ret (if v = None then pk_bits key = 0 else key_bits k = key_bits key)"
  proof (cases "v = None")
    case True
    then have "pk_bits k = 0" using ok_descend [OF assms(2), of key] Nd by simp
    then show ?thesis using assms(3) True
      by (cases "pk_bits key = 0") (auto simp: key_eq_def size_bits_def size_bytes_def wf_key_def memcmp_eq_def)
  next
    case False
    then have "wf_key k" using ok_descend [OF assms(2), of key] Nd by simp
    then show ?thesis using key_eq_bits [OF assms(3)] False by auto
  qed
  then show ?thesis using s(2) ne loop ld Nd by (auto simp: find_node_def)
qed

lemma trie_find_shape:
  assumes "trie_rep t s" "ok s" "wf_key key"
  shows "contents s (key_bits key) = None \<Longrightarrow> trie_find t key = Ret None"
    "(a, k, x) \<in> set (entries s) \<Longrightarrow> key_bits k = key_bits key \<Longrightarrow>
      trie_find t key = Ret (Some a) \<and> iterator_deref t (Some a) = Ret x"
proof -
  note find = find_node_shape [OF assms]
  have load: "\<exists>par. load t (Some a) = Ret (node_rec b k v par (root_of l) (root_of r))"
    if "descend key s = Nd a b k v l r" for a b k v l r
    using descend_shape_at [of "tr_heap t" None s key] assms(1) that by (auto simp: trie_rep_def load_Some)
  show "trie_find t key = Ret None" if none: "contents s (key_bits key) = None"
  proof (cases "descend key s")
    case (Nd a b k v l r)
    have "v = None \<or> key_bits k \<noteq> key_bits key"
    proof (rule ccontr)
      assume "\<not> (v = None \<or> key_bits k \<noteq> key_bits key)"
      then obtain x where "v = Some x" "key_bits k = key_bits key" by auto
      then show False using descend_entry [of key s a b k x l r] Nd none
        by (auto simp: contents_eq_None keys_entries)
    qed
    with find load [OF Nd] Nd show ?thesis by (auto simp: trie_find_def)
  qed (use find in \<open>simp add: trie_find_def\<close>)
  show "trie_find t key = Ret (Some a) \<and> iterator_deref t (Some a) = Ret x"
    if "(a, k, x) \<in> set (entries s)" "key_bits k = key_bits key"
  proof -
    from descend_finds [OF assms(2) that] obtain l r where d: "descend key s = Nd a (pk_bits k) k (Some x) l r"
      by blast
    with find load [OF d] that(2) show ?thesis
      by (auto simp: trie_find_def make_iterator_def iterator_deref_def)
  qed
qed

subsection \<open>The walk of the iterator\<close>

fun pre :: "'v shape \<Rightarrow> (nat \<times> 'v option) list" where
  "pre Tip = []"
| "pre (Nd a b k v l r) = (a, v) # pre l @ pre r"

definition first_of :: "(nat \<times> 'v option) list \<Rightarrow> ptr \<Rightarrow> ptr" where
  "first_of xs nxt = (case xs of [] \<Rightarrow> nxt | (a, v) # _ \<Rightarrow> Some a)"

text \<open>Each step of the walk leads to the next node of the list, the last one to \<open>nxt\<close>.\<close>

fun linked :: "nat \<Rightarrow> 'v patricia_trie \<Rightarrow> (nat \<times> 'v option) list \<Rightarrow> ptr \<Rightarrow> bool" where
  "linked G t [] nxt \<longleftrightarrow> True"
| "linked G t ((a, v) # xs) nxt \<longleftrightarrow>
     (\<exists>n. load t (Some a) = Ret n \<and> n_value n = v) \<and>
     walk_step G True t (Some a) = Ret (first_of xs nxt) \<and> linked G t xs nxt"

lemma linked_append:
  "linked G t (xs @ ys) nxt \<longleftrightarrow> linked G t xs (first_of ys nxt) \<and> linked G t ys nxt"
proof (induction xs)
  case (Cons x xs)
  have "first_of (xs @ ys) nxt = first_of xs (first_of ys nxt)" by (simp add: first_of_def split: list.splits)
  with Cons show ?case by (cases x) auto
qed simp

lemma walk_step_mono: "walk_step F d t p = Ret x \<Longrightarrow> F \<le> G \<Longrightarrow> walk_step G d t p = Ret x"
proof (induction F arbitrary: d p G)
  case (Suc F)
  then obtain G' where "G = Suc G'" "F \<le> G'" by (cases G) auto
  note G = this
  from Suc.prems(1) obtain n where ld: "load t p = Ret n" by (auto simp: bind_run_eq_Ret)
  show ?case
  proof (cases "d \<and> n_left n \<noteq> None \<or> d \<and> n_right n \<noteq> None")
    case True
    with ld Suc.prems(1) G(1) show ?thesis by auto
  next
    case False
    with ld Suc.prems(1) obtain q where q: "load t (n_parent n) = Ret q"
      by (cases "load t (n_parent n)") auto
    show ?thesis
    proof (cases "p = n_left q \<and> n_right q \<noteq> None \<or> n_parent q = None")
      case True
      with ld q False Suc.prems(1) G(1) show ?thesis by auto
    next
      case False
      with ld q \<open>\<not> (d \<and> n_left n \<noteq> None \<or> d \<and> n_right n \<noteq> None)\<close> Suc.prems(1)
      have "walk_step F False t (n_parent n) = Ret x" by auto
      from Suc.IH [OF this G(2)] ld q G(1) False
        \<open>\<not> (d \<and> n_left n \<noteq> None \<or> d \<and> n_right n \<noteq> None)\<close> show ?thesis by auto
    qed
  qed
qed simp

lemma linked_mono: "linked G t xs nxt \<Longrightarrow> G \<le> G' \<Longrightarrow> linked G' t xs nxt"
proof (induction xs)
  case (Cons x xs)
  then show ?case using walk_step_mono [of G True t "Some (fst x)" "first_of xs nxt" G'] by (cases x) auto
qed simp

lemma first_of_pre [simp]: "first_of (pre s) nxt = (if s = Tip then nxt else root_of s)"
  by (cases s) (auto simp: first_of_def)

lemma pre_linked:
  assumes "shape_at (tr_heap t) par s" "dist s" "s \<noteq> Tip"
    "if par = None then nxt = None \<and> child False s \<noteq> Tip \<or> nxt = None \<and> child True s \<noteq> Tip
     else walk_step F False t (root_of s) = Ret nxt"
  shows "linked (F + nodes s) t (pre s) nxt"
  using assms
proof (induction s arbitrary: par F nxt)
  case (Nd a b k v l r)
  let ?G = "F + nodes (Nd a b k v l r)"
  have ld: "load t (Some a) = Ret (node_rec b k v par (root_of l) (root_of r))"
    using Nd.prems(1) by (simp add: load_Some)
  have up: "walk_step (Suc F) False t (root_of c) = Ret (if c = l \<and> r \<noteq> Tip then root_of r else nxt)"
    if "c \<in> {l, r}" "c \<noteq> Tip" for c
  proof -
    from that(2) obtain a' b' k' v' l' r' where c: "c = Nd a' b' k' v' l' r'" by (cases c) auto
    have lc: "load t (Some a') = Ret (node_rec b' k' v' (Some a) (root_of l') (root_of r'))"
      using that(1) Nd.prems(1) c by (auto simp: load_Some)
    have "r \<noteq> Tip \<Longrightarrow> root_of r \<noteq> root_of l"
      using Nd.prems(2) root_of_Some by (metis disjoint_iff dist.simps(2) root_of_addr)
    with that(1) lc ld Nd.prems(4) c show ?thesis
      by (cases "c = l") (auto split: if_splits)
  qed
  have L: "linked (Suc F + nodes l) t (pre l) (if r = Tip then nxt else root_of r)"
    using Nd.IH(1) [of "Some a" "if r = Tip then nxt else root_of r" "Suc F"] Nd.prems(1,2) up [of l]
    by (cases "l = Tip") auto
  have R: "linked (Suc F + nodes r) t (pre r) nxt"
  proof (cases "r = Tip \<or> r = l")
    case True
    then have "r = Tip" using Nd.prems(2) by (cases r) auto
    then show ?thesis by simp
  next
    case False
    then show ?thesis using Nd.IH(2) [of "Some a" nxt "Suc F"] Nd.prems(1,2) up [of r] by auto
  qed
  note mono = linked_mono [where G' = ?G]
  have "walk_step ?G True t (Some a) = Ret (first_of (pre l @ pre r) nxt)"
  proof (cases "l = Tip \<and> r = Tip")
    case True
    with Nd.prems(4) have "walk_step F False t (Some a) = Ret nxt" by (auto split: if_splits)
    then have "walk_step ?G False t (Some a) = Ret nxt" by (rule walk_step_mono) simp
    with True ld show ?thesis by (simp add: first_of_def)
  next
    case False
    have "first_of (pre l @ pre r) nxt = first_of (pre l) (first_of (pre r) nxt)"
      by (simp add: first_of_def split: list.splits)
    with False ld show ?thesis by (cases "l = Tip") auto
  qed
  moreover have "linked ?G t (pre l @ pre r) nxt"
    using mono [OF L] mono [OF R] by (auto simp: linked_append)
  ultimately show ?case using ld by simp
qed simp

text \<open>The iterator stops at the nodes with a value.\<close>

definition values_of :: "(nat \<times> 'v option) list \<Rightarrow> 'v list" where
  "values_of xs = List.map_filter snd xs"

definition stop_at :: "(nat \<times> 'v option) list \<Rightarrow> ptr" where
  "stop_at xs = first_of (dropWhile (\<lambda>e. snd e = None) xs) None"

lemma values_of_simps [simp]:
  "values_of [] = []"
  "values_of ((a, v) # xs) = (case v of None \<Rightarrow> values_of xs | Some x \<Rightarrow> x # values_of xs)"
  "values_of (xs @ ys) = values_of xs @ values_of ys"
  by (auto simp: values_of_def List.map_filter_def split: option.splits)

lemma values_of_pre: "values_of (pre s) = map (\<lambda>e. snd (snd e)) (entries s)"
  by (induction s) (auto split: option.splits)

lemma advance_linked:
  assumes "linked (walk_bound t) t ((a, v) # xs) None" "length xs < fuel"
  shows "advance_loop fuel t (Some a) = Ret (stop_at xs)"
  using assms
proof (induction xs arbitrary: a v fuel)
  case Nil
  then show ?case by (cases fuel) (auto simp: stop_at_def first_of_def)
next
  case (Cons x xs)
  obtain b w where x: "x = (b, w)" by (cases x)
  from Cons.prems obtain f where "fuel = Suc f" "length xs < f" by (cases fuel) auto
  with Cons.prems x Cons.IH [of b w f] show ?case by (auto simp: stop_at_def first_of_def)
qed

lemma collect_linked:
  assumes "linked (walk_bound t) t xs None" "length xs < fuel" "length xs \<le> walk_bound t"
  shows "collect fuel t (stop_at xs) = Ret (values_of xs)"
  using assms
proof (induction xs arbitrary: fuel)
  case Nil
  then show ?case by (cases fuel) (auto simp: stop_at_def first_of_def)
next
  case (Cons x xs)
  obtain a v where x: "x = (a, v)" by (cases x)
  from Cons.prems(2) obtain f where f: "fuel = Suc f" "length xs < f" by (cases fuel) auto
  show ?case
  proof (cases v)
    case None
    have "stop_at (x # xs) = stop_at xs" using x None by (simp add: stop_at_def)
    moreover have "collect fuel t (stop_at xs) = Ret (values_of xs)"
      using Cons.IH [of fuel] Cons.prems x by simp
    ultimately show ?thesis using x None by simp
  next
    case (Some y)
    have "iterator_advance t (Some a) = Ret (stop_at xs)"
      using advance_linked [of t a v xs "walk_bound t"] Cons.prems x by (simp add: iterator_advance_def)
    moreover have "iterator_deref t (Some a) = Ret y"
      using Cons.prems(1) x Some by (auto simp: iterator_deref_def)
    moreover have "collect f t (stop_at xs) = Ret (values_of xs)"
      using Cons.IH [OF _ f(2)] Cons.prems x by simp
    moreover have "stop_at (x # xs) = Some a" using x Some by (simp add: stop_at_def first_of_def)
    ultimately show ?thesis using x Some f(1) by simp
  qed
qed

lemma length_pre: "length (pre s) = nodes s"
  by (induction s) auto

text \<open>A loop over the trie sees every value once, in the order of the entries.\<close>

lemma trie_values_shape:
  assumes "trie_rep t s" "s = Nd a b k v l r" "l \<noteq> Tip \<or> r \<noteq> Tip"
  shows "trie_values t = Ret (map (\<lambda>e. snd (snd e)) (entries s))"
proof -
  from assms(1) have s: "shape_at (tr_heap t) None s" "dist s" "tr_root t = root_of s"
    by (simp_all add: trie_rep_def)
  have n: "nodes s \<le> tr_next t" by (rule nodes_bound [OF assms(1)])
  have "linked (0 + nodes s) t (pre s) None"
    by (rule pre_linked [OF s(1,2)]) (use assms(2,3) in auto)
  then have lk: "linked (walk_bound t) t (pre s) None"
    by (rule linked_mono) (use n in \<open>simp add: walk_bound_def\<close>)
  have len: "length (pre s) < walk_bound t" using n by (simp add: length_pre walk_bound_def)
  have "trie_begin t = Ret (stop_at (pre s))"
  proof -
    have "iterator_advance t (Some a) = Ret (stop_at (pre l @ pre r))"
      using advance_linked [of t a v "pre l @ pre r" "walk_bound t"] lk len assms(2)
      by (simp add: iterator_advance_def)
    then show ?thesis using s(1,3) assms(2)
      by (auto simp: trie_begin_def make_iterator_def load_Some stop_at_def first_of_def)
  qed
  then show ?thesis
    using collect_linked [OF lk len] len by (simp add: trie_values_def values_of_pre)
qed

text \<open>At a root without children the walk goes up through the null parent pointer.\<close>

lemma trie_values_childless:
  assumes "trie_rep t (Nd a b k v Tip Tip)"
  shows "trie_values t = Abort ''null pointer''"
proof -
  have ld: "tr_root t = Some a" "load t (Some a) = Ret (node_rec b k v None None None)"
    using assms by (simp_all add: trie_rep_def load_Some)
  obtain f where f: "walk_bound t = Suc f" by (simp add: walk_bound_def)
  have "iterator_advance t (Some a) = Abort ''null pointer''"
    using ld by (simp add: iterator_advance_def f load_def [of t None])
  then show ?thesis using ld
    by (cases v) (simp_all add: trie_values_def trie_begin_def make_iterator_def f iterator_deref_def)
qed

subsection \<open>The order of the entries\<close>

lemma bit_order_take:
  assumes "take n xs = take n ys" "n < length ys" "n = length xs \<or> n < length xs \<and> \<not> xs ! n \<and> ys ! n"
  shows "(xs, ys) \<in> bit_order"
proof -
  have ys: "ys = take n ys @ ys ! n # drop (Suc n) ys" using assms(2) by (simp add: id_take_nth_drop)
  from assms(3) show ?thesis
  proof
    assume "n = length xs"
    then have "ys = xs @ ys ! n # drop (Suc n) ys" using ys assms(1) by simp
    then show ?thesis unfolding bit_order_def lexord_def by blast
  next
    assume n: "n < length xs \<and> \<not> xs ! n \<and> ys ! n"
    then have "xs = take n ys @ False # drop (Suc n) xs" using assms(1) by (metis id_take_nth_drop)
    moreover from n ys have "ys = take n ys @ True # drop (Suc n) ys" by simp
    ultimately show ?thesis unfolding bit_order_def lexord_def by blast
  qed
qed

lemma agree_take:
  assumes "agree b K" "k \<in> K" "k' \<in> K" "b \<le> pk_bits k" "b \<le> pk_bits k'"
  shows "take b (key_bits k) = take b (key_bits k')"
  unfolding take_key_bits_eq_iff [OF assms(4,5)] using assms(1-3) unfolding agree_def by blast

lemma entries_sorted:
  "ok s \<Longrightarrow> sorted_wrt (\<lambda>e e'. (key_bits (fst (snd e)), key_bits (fst (snd e'))) \<in> bit_order) (entries s)"
proof (induction s)
  case (Nd a b k v l r)
  let ?K = "keys (Nd a b k v l r)"
  note ok = Nd.prems
  have lr: "(key_bits k1, key_bits k2) \<in> bit_order" if "k1 \<in> keys l" "k2 \<in> keys r" for k1 k2
  proof (rule bit_order_take [of b])
    have b: "b < pk_bits k1" "\<not> test_bit k1 b" "b < pk_bits k2" "test_bit k2 b"
      using ok that by auto
    show "take b (key_bits k1) = take b (key_bits k2)"
      by (rule agree_take [of b ?K]) (use ok that b in auto)
    show "b < length (key_bits k2)"
      "b = length (key_bits k1) \<or> b < length (key_bits k1) \<and> \<not> key_bits k1 ! b \<and> key_bits k2 ! b"
      using b by auto
  qed
  have top: "(key_bits k, key_bits k') \<in> bit_order" if "v \<noteq> None" "k' \<in> keys l \<union> keys r" for k'
  proof (rule bit_order_take [of b])
    have b: "pk_bits k = b" "b < pk_bits k'" using ok that by auto
    show "take b (key_bits k) = take b (key_bits k')"
      by (rule agree_take [of b ?K]) (use ok that b in auto)
    show "b < length (key_bits k')" "b = length (key_bits k) \<or> b < length (key_bits k) \<and> \<not> key_bits k ! b \<and> key_bits k' ! b"
      using b by auto
  qed
  have mem: "e \<in> set (entries s') \<Longrightarrow> fst (snd e) \<in> keys s'" for e and s' :: "'a shape"
    by (auto simp: keys_def)
  show ?case
    using Nd.IH ok lr top mem by (cases v) (auto simp: sorted_wrt_append simp del: keys_simps)
qed simp

end
