(* ===== verification/Patricia_Insert.thy ===== *)
theory Patricia_Insert
  imports Patricia_Shape
begin

text \<open>
  Insertion into a trie of keys of one length, as the integer and address keys are: the search, the
  way up and the new inner node on the store, followed on the shape. \<open>grown\<close> is the invariant of a
  trie built by insertions; \<open>insert_grown\<close> is the result.
\<close>

definition grown :: "nat \<Rightarrow> 'v shape \<Rightarrow> bool" where
  "grown L s \<longleftrightarrow> (\<exists>a l r. s = Nd a 0 empty_key None l r \<and> joined l \<and> joined r) \<and> ok s \<and>
     (\<forall>k \<in> keys s. pk_bits k = L) \<and> 0 < L"

text \<open>Entries are the leaves, all at bit \<open>L\<close>.\<close>

fun level :: "nat \<Rightarrow> 'v shape \<Rightarrow> bool" where
  "level L Tip \<longleftrightarrow> True"
| "level L (Nd a b k v l r) \<longleftrightarrow>
     (if v = None then b < L else b = L \<and> l = Tip \<and> r = Tip) \<and> level L l \<and> level L r"

lemma joined_keys: "joined s \<Longrightarrow> s \<noteq> Tip \<Longrightarrow> keys s \<noteq> {}"
  by (induction s) auto

lemma joined_level:
  "ok s \<Longrightarrow> joined s \<Longrightarrow> (\<forall>k \<in> keys s. pk_bits k = L) \<Longrightarrow> level L s"
proof (induction s)
  case (Nd a b k v l r)
  have "level L l" "level L r" using Nd by auto
  moreover have "b < L" if "v = None"
  proof -
    have "keys l \<noteq> {}" using Nd.prems(2) that joined_keys [of l] by simp
    then obtain k' where "k' \<in> keys l" by blast
    then show ?thesis using Nd.prems by auto
  qed
  moreover have "c = Tip" if "v \<noteq> None" "c \<in> {l, r}" for c
  proof (rule ccontr)
    assume "c \<noteq> Tip"
    then have "keys c \<noteq> {}" using Nd.prems(2) that joined_keys [of c] by auto
    then obtain k' where "k' \<in> keys c" by blast
    then show False using Nd.prems that by auto
  qed
  ultimately show ?case using Nd.prems by auto
qed simp

lemma grown_level: "grown L s \<Longrightarrow> level L s"
proof -
  assume "grown L s"
  then obtain a l r where "s = Nd a 0 empty_key None l r" "joined l" "joined r" "ok s"
    "\<forall>k \<in> keys s. pk_bits k = L" "0 < L" unfolding grown_def by blast
  then show ?thesis using joined_level [of l L] joined_level [of r L] by simp
qed

lemma insert_search_shape:
  "shape_at (tr_heap t) par s \<Longrightarrow> s \<noteq> Tip \<Longrightarrow> level L s \<Longrightarrow> pk_bits key = L \<Longrightarrow> nodes s \<le> fuel \<Longrightarrow>
    insert_search fuel t key (root_of s) = Ret (root_of (descend key s))"
proof (induction s arbitrary: par fuel)
  case (Nd a b k v l r)
  then obtain f where "fuel = Suc f" by (cases fuel) auto
  with Nd.prems Nd.IH(1) [of "Some a" f] Nd.IH(2) [of "Some a" f] show ?case
    by (auto simp: load_Some Let_def size_bits_def split: if_splits)
qed simp

text \<open>In a joined subtree the descent ends at an entry; it agrees with the key at the bits of
  all nodes passed.\<close>

lemma descend_leaf:
  assumes "joined s" "level L s" "s \<noteq> Tip" "pk_bits key = L"
  shows "\<exists>a k x. descend key s = Nd a L k (Some x) Tip Tip"
  using assms
proof (induction s)
  case (Nd a b k v l r)
  then show ?case by (cases v) auto
qed simp

lemma descend_key: "descend key s = Nd a b k (Some x) l r \<Longrightarrow> k \<in> keys s"
  by (drule descend_entry) (auto simp: keys_entries)

subsection \<open>The way up\<close>

text \<open>The first node on the path of the key with a bit not below \<open>d\<close>, and its parent.\<close>

fun split_pt :: "patricia_key \<Rightarrow> nat \<Rightarrow> ptr \<Rightarrow> 'v shape \<Rightarrow> ptr \<times> 'v shape" where
  "split_pt key d par Tip = (par, Tip)"
| "split_pt key d par (Nd a b k v l r) =
     (if b < d then (if test_bit key b then split_pt key d (Some a) r else split_pt key d (Some a) l)
      else (par, Nd a b k v l r))"

lemma walk_up_shape:
  assumes "shape_at (tr_heap t) par s" "joined s" "level L s" "s \<noteq> Tip" "pk_bits key = L" "d \<le> L" "ok s"
  shows "(d \<le> bitn s \<longrightarrow> (\<exists>m < nodes s. \<forall>f.
      walk_up (m + f) t d (root_of (descend key s)) = walk_up f t d (root_of s))) \<and>
    (bitn s < d \<longrightarrow> (\<exists>m \<le> nodes s. \<forall>f.
      walk_up (m + f) t d (root_of (descend key s)) = Ret (root_of (snd (split_pt key d par s)))))"
  using assms
proof (induction s arbitrary: par)
  case (Nd a b k v l r)
  show ?case
  proof (cases "v = None")
    case False
    then show ?thesis using Nd.prems by (auto intro!: exI [of _ 0])
  next
    case True
    define c where "c = (if test_bit key b then r else l)"
    have b: "b < L" and ne: "c \<noteq> Tip" using Nd.prems True by (auto simp: c_def)
    then have desc: "descend key (Nd a b k v l r) = descend key c"
      using Nd.prems(5) by (auto simp: c_def split: if_splits)
    have c: "shape_at (tr_heap t) (Some a) c" "joined c" "level L c" "ok c" "b < bitn c"
      using Nd.prems ne by (auto simp: c_def bit_above_def)
    have IH: "(d \<le> bitn c \<longrightarrow> (\<exists>m < nodes c. \<forall>f.
          walk_up (m + f) t d (root_of (descend key c)) = walk_up f t d (root_of c))) \<and>
        (bitn c < d \<longrightarrow> (\<exists>m \<le> nodes c. \<forall>f.
          walk_up (m + f) t d (root_of (descend key c)) = Ret (root_of (snd (split_pt key d (Some a) c)))))"
      using Nd.IH c ne Nd.prems(5,6) by (simp add: c_def split: if_splits)
    have nodes: "nodes c < nodes (Nd a b k v l r)" by (simp add: c_def)
    obtain a' b' k' v' l' r' where c': "c = Nd a' b' k' v' l' r'" using ne by (cases c) auto
    have step: "walk_up (Suc f) t d (root_of c) = (if d \<le> b then walk_up f t d (Some a) else Ret (root_of c))" for f
      using c(1) c' Nd.prems(1) by (simp add: load_Some)
    show ?thesis
    proof (cases "d \<le> bitn c")
      case below: True
      then obtain m where m: "m < nodes c"
        "\<forall>f. walk_up (m + f) t d (root_of (descend key c)) = walk_up f t d (root_of c)" using IH by blast
      then have eq: "walk_up (Suc m + f) t d (root_of (descend key c)) =
          (if d \<le> b then walk_up f t d (Some a) else Ret (root_of c))" for f
        using step [of f] m(2) [rule_format, of "Suc f"] by simp
      have "snd (split_pt key d par (Nd a b k v l r)) = c" if "b < d"
        using that below c' by (auto simp: c_def split: if_splits)
      with eq m(1) nodes show ?thesis unfolding desc by (cases "d \<le> b") (auto intro!: exI [of _ "Suc m"])
    next
      case False
      then obtain m where "m \<le> nodes c"
        "\<forall>f. walk_up (m + f) t d (root_of (descend key c)) = Ret (root_of (snd (split_pt key d (Some a) c)))"
        using IH by auto
      moreover have "split_pt key d par (Nd a b k v l r) = split_pt key d (Some a) c" "b < d"
        using False c(5) by (auto simp: c_def)
      ultimately show ?thesis using nodes unfolding desc by (auto intro!: exI [of _ m])
    qed
  qed
qed simp

subsection \<open>The new shape\<close>

definition join_at :: "patricia_key \<Rightarrow> nat \<Rightarrow> 'v shape \<Rightarrow> nat \<Rightarrow> 'v shape \<Rightarrow> 'v shape" where
  "join_at key d new g s =
     (if test_bit key d then Nd g d empty_key None s new else Nd g d empty_key None new s)"

fun graft :: "patricia_key \<Rightarrow> nat \<Rightarrow> 'v shape \<Rightarrow> nat \<Rightarrow> 'v shape \<Rightarrow> 'v shape" where
  "graft key d new g Tip = new"
| "graft key d new g (Nd a b k v l r) =
     (if b < d then
        (if test_bit key b then Nd a b k v l (graft key d new g r)
         else Nd a b k v (graft key d new g l) r)
      else join_at key d new g (Nd a b k v l r))"

definition leaf :: "nat \<Rightarrow> patricia_key \<Rightarrow> 'v option \<Rightarrow> 'v shape" where
  "leaf n key v = Nd n (pk_bits key) key v Tip Tip"

lemma leaf_simps [simp]:
  "root_of (leaf n key v) = Some n" "addrs (leaf n key v) = {n}" "dist (leaf n key v)"
  "keys (leaf n key (Some x)) = {key}" "entries (leaf n key (Some x)) = [(n, key, x)]"
  "leaf n key v \<noteq> Tip" "bitn (leaf n key v) = pk_bits key" "joined (leaf n key (Some x))"
  by (simp_all add: leaf_def)

lemma ok_leaf: "wf_key key \<Longrightarrow> ok (leaf n key (Some x))"
  by (simp add: leaf_def bit_above_def agree_def)

lemma graft_not_Tip [simp]: "new \<noteq> Tip \<Longrightarrow> graft key d new g s \<noteq> Tip"
  by (cases s) (auto simp: join_at_def)

lemma keys_graft: "keys (graft key d new g s) = keys new \<union> keys s"
  by (induction s) (auto simp: join_at_def)

lemma joined_graft: "joined s \<Longrightarrow> joined new \<Longrightarrow> new \<noteq> Tip \<Longrightarrow> joined (graft key d new g s)"
  by (induction s) (auto simp: join_at_def)

lemma entries_graft: "set (entries (graft key d new g s)) = set (entries new) \<union> set (entries s)"
  by (induction s) (auto simp: join_at_def split: option.splits)

lemma addrs_graft: "addrs (graft key d new g s) \<subseteq> insert g (addrs new \<union> addrs s)"
  by (induction s) (auto simp: join_at_def)

lemma dist_graft:
  "dist s \<Longrightarrow> dist new \<Longrightarrow> g \<notin> addrs new \<union> addrs s \<Longrightarrow> addrs new \<inter> addrs s = {} \<Longrightarrow>
    dist (graft key d new g s)"
proof (induction s)
  case (Nd a b k v l r)
  show ?case
  proof (cases "b < d")
    case True
    have "dist (graft key d new g c)" "a \<notin> addrs (graft key d new g c)"
      "addrs (graft key d new g c) \<subseteq> insert g (addrs new \<union> addrs c)" if "c \<in> {l, r}" for c
      using Nd that addrs_graft [of key d new g c] by auto
    from this [of l] this [of r] Nd.prems True show ?thesis by auto
  next
    case False
    with Nd.prems show ?thesis by (auto simp: join_at_def)
  qed
qed simp

text \<open>The order is kept when \<open>d\<close> is the first bit at which the key differs from the entry its
  descent ends at.\<close>

lemma agree_insert:
  assumes "agree b K" "k' \<in> K" "\<forall>i < b. test_bit key i = test_bit k' i"
  shows "agree b (insert key K)"
  using assms unfolding agree_def by (metis insert_iff)

lemma agree_mono: "agree b K \<Longrightarrow> b' \<le> b \<Longrightarrow> agree b' K"
  unfolding agree_def by (meson less_le_trans)

lemma ok_agree: "ok s \<Longrightarrow> agree (bitn s) (keys s)"
proof (cases s)
  case Tip
  then show ?thesis by (simp add: agree_def)
qed (simp del: keys_simps)

lemma ok_join_at:
  assumes "ok s" "ok new" "keys new = {key}" "d < bitn s" "d < pk_bits key" "s \<noteq> Tip" "d < bitn new"
    "k' \<in> keys s" "\<forall>i < d. test_bit key i = test_bit k' i" "test_bit key d \<noteq> test_bit k' d"
  shows "ok (join_at key d new g s)"
proof -
  have ag: "agree (bitn s) (keys s)" using ok_agree [OF assms(1)] .
  have side: "test_bit k d = test_bit k' d" "d < pk_bits k" if "k \<in> keys s" for k
  proof -
    show "test_bit k d = test_bit k' d" using ag that assms(4,8) unfolding agree_def by blast
    show "d < pk_bits k" using ok_key_bits [OF assms(1) that] assms(4) by simp
  qed
  have "agree d (insert key (keys s))"
    by (rule agree_insert [OF agree_mono [OF ag] assms(8,9)]) (use assms(4) in simp)
  moreover have "ok (Nd g d empty_key None l r)"
    if "ok l" "ok r" "\<forall>k \<in> keys l. d < pk_bits k \<and> \<not> test_bit k d" "\<forall>k \<in> keys r. d < pk_bits k \<and> test_bit k d"
      "bit_above d l" "bit_above d r" "agree d (keys l \<union> keys r)" for l r :: "'a shape"
    using that by (simp add: empty_key_def)
  moreover have "bit_above d s" "bit_above d new" using assms(4,7) by (simp_all add: bit_above_def)
  moreover have "keys s \<union> {key} = insert key (keys s)" "{key} \<union> keys s = insert key (keys s)" by auto
  ultimately show ?thesis
    using assms(1,2,3,5,10) side by (cases "test_bit key d") (simp_all add: join_at_def)
qed

lemma bit_above_graft:
  "bit_above b s \<Longrightarrow> b < d \<Longrightarrow> b < bitn new \<Longrightarrow> bit_above b (graft key d new g s)"
  by (cases s) (auto simp: bit_above_def join_at_def)

lemma ok_graft:
  assumes "ok s" "ok new" "keys new = {key}" "bitn new = pk_bits key" "new \<noteq> Tip" "d < pk_bits key"
    "joined s" "level (pk_bits key) s" "s \<noteq> Tip" "descend key s = Nd a' b' k' (Some x) l' r'"
    "\<forall>i < d. test_bit key i = test_bit k' i" "test_bit key d \<noteq> test_bit k' d"
  shows "ok (graft key d new g s)"
  using assms(1,7-10)
proof (induction s)
  case (Nd a b k v l r)
  have k': "k' \<in> keys (Nd a b k v l r)" by (rule descend_key [OF Nd.prems(5)])
  show ?case
  proof (cases "v = None")
    case False
    then have "d < b" using Nd.prems(3) assms(6) by (simp split: if_splits)
    then show ?thesis using ok_join_at [OF Nd.prems(1) assms(2,3) _ assms(6) _ _ k' assms(11,12)] assms(4,6)
      by simp
  next
    case True
    define c where "c = (if test_bit key b then r else l)"
    have b: "b < pk_bits key" and ne: "c \<noteq> Tip" using Nd.prems True by (auto simp: c_def)
    then have desc: "descend key c = Nd a' b' k' (Some x) l' r'"
      using Nd.prems(5) by (auto simp: c_def split: if_splits)
    have kc: "k' \<in> keys c" by (rule descend_key [OF desc])
    have side: "test_bit k' b = test_bit key b" using Nd.prems(1) kc by (auto simp: c_def split: if_splits)
    show ?thesis
    proof (cases "b < d")
      case False
      then have "d < b" using side assms(12) by (cases "b = d") auto
      then show ?thesis using ok_join_at [OF Nd.prems(1) assms(2,3) _ assms(6) _ _ k' assms(11,12)] assms(4,6)
        by simp
    next
      case less: True
      have ok: "ok (graft key d new g c)" using Nd.IH Nd.prems ne desc True by (auto simp: c_def split: if_splits)
      have above: "bit_above b (graft key d new g c)"
        by (rule bit_above_graft) (use Nd.prems(1) b less assms(4) in \<open>auto simp: c_def\<close>)
      have "agree b (keys (Nd a b k v l r))" using Nd.prems(1) by (simp del: keys_simps)
      then have ag: "agree b (insert key (keys (Nd a b k v l r)))"
        by (rule agree_insert [OF _ k']) (use assms(11) less in auto)
      show ?thesis
      proof (cases "test_bit key b")
        case True
        then show ?thesis using Nd.prems(1) ok above ag b less \<open>v = None\<close> assms(3)
          by (simp add: c_def keys_graft)
      next
        case False
        then show ?thesis using Nd.prems(1) ok above ag b less \<open>v = None\<close> assms(3)
          by (simp add: c_def keys_graft)
      qed
    qed
  qed
qed simp

subsection \<open>The new store\<close>

text \<open>What the store holds around the split point: the node \<open>x\<close> and its parent \<open>y\<close>.\<close>

lemma split_pt_props:
  assumes "shape_at h par s" "dist s" "s \<noteq> Tip" "bitn s < d" "split_pt key d par s = (p, x)" "x \<noteq> Tip"
  shows "\<exists>y b k v par' l r. p = Some y \<and> y \<in> addrs s \<and> addrs x \<subseteq> addrs s \<and> y \<notin> addrs x \<and>
    h y = Some (node_rec b k v par' l r) \<and>
    (if test_bit key b then r = root_of x \<and> l \<noteq> root_of x else l = root_of x) \<and>
    shape_at h (Some y) x \<and> d \<le> bitn x"
  using assms
proof (induction s arbitrary: par)
  case (Nd a b k v l r)
  define c where "c = (if test_bit key b then r else l)"
  have sp: "split_pt key d (Some a) c = (p, x)" using Nd.prems(4,5) by (auto simp: c_def split: if_splits)
  have c: "shape_at h (Some a) c" "dist c" "a \<notin> addrs c" "addrs c \<subseteq> addrs (Nd a b k v l r)"
    using Nd.prems by (auto simp: c_def)
  have ne: "c \<noteq> Tip" using sp Nd.prems(6) by (auto split: if_splits)
  show ?case
  proof (cases "bitn c < d")
    case True
    then obtain y b' k' v' par' l' r' where "p = Some y" "y \<in> addrs c" "addrs x \<subseteq> addrs c"
      "y \<notin> addrs x" "h y = Some (node_rec b' k' v' par' l' r')"
      "if test_bit key b' then r' = root_of x \<and> l' \<noteq> root_of x else l' = root_of x"
      "shape_at h (Some y) x" "d \<le> bitn x"
      using Nd.IH [of "Some a"] c ne sp Nd.prems(6) by (simp add: c_def split: if_splits) metis+
    with c(4) show ?thesis by blast
  next
    case False
    then have px: "p = Some a" "x = c" using sp ne by (cases c; simp)+
    have "l = Tip \<or> root_of r \<noteq> root_of l" if "r \<noteq> Tip"
      using Nd.prems(2) that by (cases l; cases r) auto
    then have "test_bit key b \<Longrightarrow> root_of l \<noteq> root_of x"
      using px ne root_of_addr [of r] by (cases "l = Tip") (auto simp: c_def)
    with px c Nd.prems(1,4) False show ?thesis
      by (intro exI [of _ a] exI [of _ b] exI [of _ k] exI [of _ v] exI [of _ par]
          exI [of _ "root_of l"] exI [of _ "root_of r"]) (auto simp: c_def)
  qed
qed simp

lemma split_pt_par: "bitn s < d \<Longrightarrow> s \<noteq> Tip \<Longrightarrow> split_pt key d par s = split_pt key d par' s"
  by (cases s) auto

lemma split_pt_addr:
  assumes "split_pt key d par s = (Some y, x)" "bitn s < d" "s \<noteq> Tip"
  shows "y \<in> addrs s \<and> addrs x \<subseteq> addrs s"
  using assms
proof (induction s arbitrary: par)
  case (Nd a b k v l r)
  define c where "c = (if test_bit key b then r else l)"
  have sp: "split_pt key d (Some a) c = (Some y, x)" using Nd.prems(1,2) by (auto simp: c_def split: if_splits)
  have sub: "addrs c \<subseteq> addrs (Nd a b k v l r)" by (auto simp: c_def)
  show ?case
  proof (cases "c = Tip \<or> \<not> bitn c < d")
    case True
    then have "Some y = Some a" "addrs x \<subseteq> addrs c" using sp by (cases c; auto)+
    with sub show ?thesis by auto
  next
    case False
    then have "y \<in> addrs c \<and> addrs x \<subseteq> addrs c" using Nd.IH sp by (auto simp: c_def split: if_splits)
    with sub show ?thesis by blast
  qed
qed simp

text \<open>The store after the new inner node has taken the place of \<open>x\<close> below \<open>y\<close>.\<close>

definition spliced where
  "spliced h key d n g y x v =
     h(n := Some (node_rec (pk_bits key) key v (Some g) None None),
       g := Some (if test_bit key d then node_rec d empty_key None (Some y) (Some x) (Some n)
                  else node_rec d empty_key None (Some y) (Some n) (Some x)),
       y := map_option (\<lambda>m. set_edge (test_bit key (n_bit m)) (Some g) m) (h y),
       x := map_option (\<lambda>m. m\<lparr>n_parent := Some g\<rparr>) (h x))"

lemma shape_spliced:
  assumes "shape_at h par s" "dist s" "s \<noteq> Tip" "bitn s < d" "split_pt key d par s = (Some y, x)" "x \<noteq> Tip"
    "n \<notin> addrs s" "g \<notin> addrs s" "n \<noteq> g"
  shows "shape_at (spliced h key d n g y (addr x) v) par (graft key d (leaf n key v) g s)"
  using assms
proof (induction s arbitrary: par)
  case (Nd a b k w l r)
  let ?h = "spliced h key d n g y (addr x) v"
  define c where "c = (if test_bit key b then r else l)"
  define oth where "oth = (if test_bit key b then l else r)"
  have b: "b < d" using Nd.prems(4) by simp
  have sp: "split_pt key d (Some a) c = (Some y, x)" using Nd.prems(5) b by (auto simp: c_def)
  have c: "shape_at h (Some a) c" "dist c" "a \<notin> addrs c" "a \<notin> addrs oth" "addrs c \<inter> addrs oth = {}"
    "shape_at h (Some a) oth" "n \<notin> addrs c" "g \<notin> addrs c"
    using Nd.prems by (auto simp: c_def oth_def)
  have ne: "c \<noteq> Tip" using sp Nd.prems(6) by auto
  have ha: "h a = Some (node_rec b k w par (root_of l) (root_of r))" using Nd.prems(1) by simp
  have fresh: "n \<noteq> a" "g \<noteq> a" "n \<notin> addrs oth" "g \<notin> addrs oth" using Nd.prems(7,8) by (auto simp: oth_def)
  show ?case
  proof (cases "bitn c < d")
    case True
    note sub = split_pt_addr [OF sp True ne]
    have ax: "addr x \<in> addrs c" using sub Nd.prems(6) by (cases x) auto
    have "shape_at ?h (Some a) (graft key d (leaf n key v) g c)"
      using Nd.IH c ne True sp Nd.prems(6,9) by (simp add: c_def split: if_splits)
    moreover have "shape_at ?h (Some a) oth"
      using c sub ax fresh by (intro shape_at_cong [THEN iffD1, OF _ c(6)]) (auto simp: spliced_def)
    moreover have "?h a = h a" using c(3) sub ax fresh by (auto simp: spliced_def)
    moreover have "root_of (graft key d (leaf n key v) g c) = root_of c" using True ne by (cases c) auto
    ultimately show ?thesis using ha b by (auto simp: c_def oth_def)
  next
    case False
    then have y: "y = a" and x: "x = c" using sp ne by (cases c; simp)+
    obtain a' b' k' v' l' r' where c': "c = Nd a' b' k' v' l' r'" using ne by (cases c) auto
    have "shape_at ?h (Some a) oth"
      using c c' y x fresh by (intro shape_at_cong [THEN iffD1, OF _ c(6)]) (auto simp: spliced_def)
    moreover have "shape_at ?h (Some g) c"
    proof -
      have "shape_at h (Some a') l'" "shape_at h (Some a') r'" using c(1) c' by auto
      moreover have "?h z = h z" if "z \<in> addrs l' \<union> addrs r'" for z
        using that c c' y x by (auto simp: spliced_def)
      ultimately have "shape_at ?h (Some a') l'" "shape_at ?h (Some a') r'"
        using shape_at_cong [of l' h ?h "Some a'"] shape_at_cong [of r' h ?h "Some a'"] by simp_all
      moreover have "h a' = Some (node_rec b' k' v' (Some a) (root_of l') (root_of r'))" using c(1) c' by simp
      ultimately show ?thesis using c' x by (simp add: spliced_def)
    qed
    moreover have "?h n = Some (node_rec (pk_bits key) key v (Some g) None None)"
      "?h g = Some (if test_bit key d then node_rec d empty_key None (Some a) (Some a') (Some n)
                  else node_rec d empty_key None (Some a) (Some n) (Some a'))"
      "?h a = Some (set_edge (test_bit key b) (Some g) (node_rec b k w par (root_of l) (root_of r)))"
      using c c' x y fresh ha Nd.prems(9) by (auto simp: spliced_def)
    moreover have "graft key d (leaf n key v) g c = join_at key d (leaf n key v) g c" using False c' by simp
    ultimately show ?thesis using b c' by (auto simp: join_at_def c_def oth_def leaf_def)
  qed
qed simp

subsection \<open>The operation\<close>

lemma load_upd [simp]:
  "load (t\<lparr>tr_heap := h\<rparr>) (Some a) = (case h a of None \<Rightarrow> Abort ''freed node'' | Some n \<Rightarrow> Ret n)"
  by (simp add: load_def)

lemma modify_Some:
  "tr_heap t a = Some n \<Longrightarrow> modify t (Some a) f = Ret (t\<lparr>tr_heap := (tr_heap t)(a := Some (f n))\<rparr>)"
  by (simp add: modify_def load_Some store_def)

lemma patricia_key_of_same:
  assumes "wf_key key" "0 < pk_bits key"
  shows "patricia_key_of (pk_key key) (pk_bits key) = Ret key"
proof -
  obtain m where m: "pk_bits key = Suc m" using assms(2) by (cases "pk_bits key") auto
  have "m + 8 = pk_bits key + 7" using m by simp
  then have "(pk_bits key + 7) div 8 = Suc (m div 8)" by (metis Suc_eq_plus1 div_add_self2 zero_neq_numeral)
  then have "length (pk_key key) = Suc ((pk_bits key - 1) div 8)" using assms(1) m by (simp add: wf_key_def)
  then show ?thesis using assms(2) by (simp add: patricia_key_of_def Let_def)
qed

lemma make_node_eq:
  assumes "wf_key key" "0 < pk_bits key"
  shows "make_node t key b = Ret (tr_next t, t\<lparr>tr_next := Suc (tr_next t),
    tr_heap := (tr_heap t)(tr_next t := Some (node_rec b key None None None None))\<rparr>)"
  using patricia_key_of_same [OF assms] assms(2)
  by (simp add: make_node_def key_empty_def size_bytes_def size_bits_def Let_def store_def node_rec_def)

lemma make_empty_node_eq:
  "make_node t empty_key b = Ret (tr_next t, t\<lparr>tr_next := Suc (tr_next t),
    tr_heap := (tr_heap t)(tr_next t := Some (node_rec b empty_key None None None None))\<rparr>)"
  by (simp add: make_node_def key_empty_def empty_key_def Let_def store_def node_rec_def)

lemma insert_beside_store:
  assumes "tr_heap t x = Some (node_rec bx kx vx (Some y) lx rx)"
    "tr_heap t y = Some (node_rec by' ky vy py ly ry)"
    "if test_bit key by' then ry = Some x \<and> ly \<noteq> Some x else ly = Some x"
    "tr_heap t n = Some (node_rec (pk_bits key) key None None None None)" "tr_next t = g"
    "x \<noteq> y" "x \<noteq> n" "x \<noteq> g" "y \<noteq> n" "y \<noteq> g" "n \<noteq> g"
  shows "insert_beside t key d n (Some x) =
    Ret (Some n, t\<lparr>tr_next := Suc g, tr_heap := spliced (tr_heap t) key d n g y x None\<rparr>)"
proof -
  have inner: "make_inner_node t (Some y) (if test_bit key d then Some x else Some n)
      (if test_bit key d then Some n else Some x) d = Ret (g, t\<lparr>tr_next := Suc g, tr_heap := (tr_heap t)
        (n := Some (node_rec (pk_bits key) key None (Some g) None None),
         x := Some (node_rec bx kx vx (Some g) lx rx),
         g := Some (if test_bit key d then node_rec d empty_key None (Some y) (Some x) (Some n)
                    else node_rec d empty_key None (Some y) (Some n) (Some x)))\<rparr>)"
    using assms
    by (simp add: make_inner_node_def make_empty_node_eq modify_Some set_parent_def fun_upd_twist)
  show ?thesis
    using assms inner
    by (cases "test_bit key by'")
      (auto simp: insert_beside_def Let_def load_Some which_def attach_def detach_def modify_Some
        spliced_def fun_eq_iff intro!: arg_cong [where f = "\<lambda>h. t\<lparr>tr_next := Suc (tr_next t), tr_heap := h\<rparr>"])
qed

text \<open>The parts of the search on a grown trie whose root has the edge the key asks for.\<close>

lemma split_pt_full:
  assumes "joined s" "level (pk_bits key) s" "s \<noteq> Tip"
  shows "snd (split_pt key (pk_bits key) par s) = descend key s"
  using assms
proof (induction s arbitrary: par)
  case (Nd a b k v l r)
  then show ?case by (cases v) auto
qed simp

lemma split_pt_bit:
  assumes "ok s" "joined s" "level (pk_bits key) s" "s \<noteq> Tip" "d < pk_bits key"
    "descend key s = Nd a' b' k' (Some x') l' r'" "test_bit key d \<noteq> test_bit k' d"
  shows "d \<noteq> bitn (snd (split_pt key d par s)) \<and> snd (split_pt key d par s) \<noteq> Tip"
  using assms(1-4,6)
proof (induction s arbitrary: par)
  case (Nd a b k v l r)
  show ?case
  proof (cases "v = None")
    case False
    then show ?thesis using Nd.prems(3) assms(5) by simp
  next
    case True
    define c where "c = (if test_bit key b then r else l)"
    have b: "b < pk_bits key" and ne: "c \<noteq> Tip" using Nd.prems True by (auto simp: c_def)
    then have desc: "descend key c = Nd a' b' k' (Some x') l' r'"
      using Nd.prems(5) by (auto simp: c_def split: if_splits)
    have "test_bit k' b = test_bit key b"
      using Nd.prems(1) descend_key [OF desc] by (auto simp: c_def split: if_splits)
    then have "b \<noteq> d" using assms(7) by auto
    moreover have "d \<noteq> bitn (snd (split_pt key d (Some a) c)) \<and> snd (split_pt key d (Some a) c) \<noteq> Tip"
      using Nd.IH Nd.prems ne desc by (auto simp: c_def split: if_splits)
    ultimately show ?thesis by (auto simp: c_def)
  qed
qed simp

lemma walk_up_grown:
  assumes "trie_rep t s" "s = Nd a 0 empty_key None l r" "grown L s" "pk_bits key = L" "0 < d" "d \<le> L"
    "c = (if test_bit key 0 then r else l)" "c \<noteq> Tip"
  shows "walk_up (walk_bound t) t d (root_of (descend key s)) = Ret (root_of (snd (split_pt key d None s)))"
proof -
  have s: "shape_at (tr_heap t) None s" using assms(1) by (simp add: trie_rep_def)
  have L: "0 < L" "level L s" using assms(3) grown_level [OF assms(3)] by (auto simp: grown_def)
  have c: "shape_at (tr_heap t) (Some a) c" "joined c" "level L c" "ok c"
    using s L assms(2,3,7) by (auto simp: grown_def)
  have desc: "descend key s = descend key c" using assms(2,4,7,8) L by (auto split: if_splits)
  have sp: "split_pt key d None s = split_pt key d (Some a) c" using assms(2,5,7) by auto
  have n: "nodes c \<le> tr_next t" using nodes_bound [OF assms(1)] assms(2,7) by (auto split: if_splits)
  note wu = walk_up_shape [OF c(1-3) assms(8,4,6) c(4)]
  show ?thesis
  proof (cases "d \<le> bitn c")
    case True
    then obtain m where m: "m < nodes c"
      "\<forall>f. walk_up (m + f) t d (root_of (descend key c)) = walk_up f t d (root_of c)" using wu by blast
    obtain a' b' k' v' l' r' where c': "c = Nd a' b' k' v' l' r'" using assms(8) by (cases c) auto
    have step: "walk_up (Suc f) t d (root_of c) = Ret (root_of c)" for f
      using c(1) c' s assms(2,5) by (simp add: load_Some)
    have "walk_bound t = m + Suc (walk_bound t - Suc m)" using m(1) n by (simp add: walk_bound_def)
    moreover have "snd (split_pt key d (Some a) c) = c" using True c' by simp
    ultimately show ?thesis unfolding desc sp using m(2) step by metis
  next
    case False
    then obtain m where "m \<le> nodes c"
      "\<forall>f. walk_up (m + f) t d (root_of (descend key c)) = Ret (root_of (snd (split_pt key d (Some a) c)))"
      using wu by auto
    moreover have "walk_bound t = m + (walk_bound t - m)" using \<open>m \<le> nodes c\<close> n by (simp add: walk_bound_def)
    ultimately show ?thesis unfolding desc sp by metis
  qed
qed

lemma first_difference:
  assumes "wf_key key" "wf_key k'" "pk_bits k' = pk_bits key" "d = min (bit_diff key k') (pk_bits key)"
  shows "\<forall>i < d. test_bit key i = test_bit k' i"
    "d < pk_bits key \<Longrightarrow> test_bit key d \<noteq> test_bit k' d" "d = pk_bits key \<Longrightarrow> key_bits key = key_bits k'"
proof -
  show agree: "\<forall>i < d. test_bit key i = test_bit k' i" using assms(4) by (simp add: bit_diff_agree)
  have "pk_bits key \<le> 8 * length (pk_key key)" "pk_bits key \<le> 8 * length (pk_key k')"
    using assms(1-3) by (simp_all add: wf_key_def)
  then show "d < pk_bits key \<Longrightarrow> test_bit key d \<noteq> test_bit k' d"
    using assms(4) bit_diff_differ [of key k'] by (simp add: min_def split: if_splits)
  show "d = pk_bits key \<Longrightarrow> key_bits key = key_bits k'"
    using agree assms(3) by (auto simp: list_eq_iff_nth_eq)
qed

text \<open>The outcome of \<^verbatim>\<open>insert\<close> in the three cases.\<close>

lemma grown_search:
  assumes "trie_rep t s" "grown L s" "pk_bits key = L"
  shows "insert_search (walk_bound t) t key (tr_root t) = Ret (root_of (descend key s))"
proof -
  have "s \<noteq> Tip" using assms(2) by (auto simp: grown_def)
  moreover have "nodes s \<le> walk_bound t" using nodes_bound [OF assms(1)] by (simp add: walk_bound_def)
  ultimately show ?thesis
    using insert_search_shape [of t None s L key "walk_bound t"] assms grown_level [OF assms(2)]
    by (simp add: trie_rep_def)
qed

lemma trie_insert_root:
  assumes rep: "trie_rep t s" and s: "s = Nd a 0 empty_key None l r" and g: "grown L s"
    and key: "wf_key key" "pk_bits key = L" and c: "(if test_bit key 0 then r else l) = Tip"
  shows "\<exists>t' t1. insert_node t key = Ret (Some (tr_next t), t1) \<and> trie_insert t key x = Ret (True, t') \<and>
    trie_rep t' (let y = leaf (tr_next t) key (Some x) in
      if test_bit key 0 then Nd a 0 empty_key None l y else Nd a 0 empty_key None y r)"
proof -
  let ?n = "tr_next t"
  have L: "0 < L" using g by (simp add: grown_def)
  have ds: "descend key s = s" using s c key(2) L by (auto split: if_splits)
  have ha: "tr_heap t a = Some (node_rec 0 empty_key None None (root_of l) (root_of r))" and root: "tr_root t = Some a"
    using rep s by (auto simp: trie_rep_def)
  have an: "a \<noteq> ?n" using rep s by (auto simp: trie_rep_def)
  have bd: "bit_diff key empty_key = 0" by (simp add: bit_diff_def empty_key_def size_bytes_def)
  obtain w where w: "walk_bound t = Suc w" by (simp add: walk_bound_def)
  let ?e = "set_edge (test_bit key 0) (Some ?n) (node_rec 0 empty_key None None (root_of l) (root_of r))"
  have node: "insert_node t key = Ret (Some ?n, t\<lparr>tr_next := Suc ?n, tr_heap := (tr_heap t)
      (?n := Some (node_rec L key None (Some a) None None), a := Some ?e)\<rparr>)"
    using grown_search [OF rep g key(2)] ds s ha root an bd w L key c make_node_eq [OF key(1), of t L]
    by (cases "test_bit key 0")
      (simp_all add: insert_node_def Let_def load_Some size_bits_def insert_below_def
        modify_Some attach_def detach_def fun_upd_twist)
  then have "trie_insert t key x = Ret (True, t\<lparr>tr_next := Suc ?n, tr_heap := (tr_heap t)
      (?n := Some (node_rec L key (Some x) (Some a) None None), a := Some ?e)\<rparr>)"
    using an by (simp add: trie_insert_def load_Some modify_Some fun_upd_twist)
  moreover have "trie_rep (t\<lparr>tr_next := Suc ?n, tr_heap := (tr_heap t)
      (?n := Some (node_rec L key (Some x) (Some a) None None), a := Some ?e)\<rparr>)
      (let y = leaf ?n key (Some x) in
        if test_bit key 0 then Nd a 0 empty_key None l y else Nd a 0 empty_key None y r)"
  proof -
    have "?n \<notin> addrs l" "?n \<notin> addrs r" using rep s by (auto simp: trie_rep_def)
    then show ?thesis using rep s c an key(2) by (auto simp: trie_rep_def Let_def leaf_def split: if_splits)
  qed
  ultimately show ?thesis using node by blast
qed

lemma trie_insert_present:
  assumes rep: "trie_rep t s" and s: "s = Nd a 0 empty_key None l r" and g: "grown L s"
    and key: "wf_key key" "pk_bits key = L" and c: "c = (if test_bit key 0 then r else l)" "c \<noteq> Tip"
    and d: "descend key s = Nd a' L k' (Some x') Tip Tip" and eq: "L \<le> bit_diff key k'"
  shows "insert_node t key = Ret (Some a', t) \<and> trie_insert t key x = Ret (False, t)"
proof -
  have L: "0 < L" using g by (simp add: grown_def)
  have cc: "joined c" "level (pk_bits key) c" using g s c grown_level [OF g] key(2) by (auto simp: grown_def)
  have "descend key s = descend key c" using s key(2) L c by (auto split: if_splits)
  moreover have "split_pt key L None s = split_pt key L (Some a) c" using s L c by auto
  ultimately have sp: "snd (split_pt key L None s) = descend key s"
    using split_pt_full [OF cc c(2), of "Some a"] key(2) by simp
  have wu: "walk_up (walk_bound t) t L (Some a') = Ret (Some a')"
    using walk_up_grown [OF rep s g key(2) L order.refl c] sp d by simp
  obtain par where "tr_heap t a' = Some (node_rec L k' (Some x') par None None)"
    using descend_shape_at [of "tr_heap t" None s key] rep d by (auto simp: trie_rep_def)
  then show ?thesis
    using grown_search [OF rep g key(2)] d wu eq key(2) rep s
    by (cases "bit_diff key k' = L") (simp_all add: trie_insert_def insert_node_def Let_def load_Some size_bits_def trie_rep_def)
qed

lemma spliced_value:
  assumes "n \<noteq> g" "n \<noteq> y" "n \<noteq> x"
  shows "(spliced h key d n g y x None)(n := Some (node_rec (pk_bits key) key (Some v) (Some g) None None)) =
    spliced h key d n g y x (Some v)"
  using assms by (auto simp: spliced_def fun_eq_iff)

lemma spliced_upd:
  "n \<noteq> y \<Longrightarrow> n \<noteq> x \<Longrightarrow> spliced (h(n := m)) key d n g y x v = spliced h key d n g y x v"
  by (auto simp: spliced_def fun_eq_iff)

lemma trie_insert_beside:
  assumes rep: "trie_rep t s" and s: "s = Nd a 0 empty_key None l r" and g: "grown L s"
    and key: "wf_key key" "pk_bits key = L" and c: "c = (if test_bit key 0 then r else l)" "c \<noteq> Tip"
    and de: "descend key s = Nd a' L k' (Some x') Tip Tip" and d: "d = bit_diff key k'" "0 < d" "d < L"
    and differ: "test_bit key d \<noteq> test_bit k' d"
  shows "\<exists>t' t1. insert_node t key = Ret (Some (tr_next t), t1) \<and> trie_insert t key x = Ret (True, t') \<and>
    trie_rep t' (graft key d (leaf (tr_next t) key (Some x)) (Suc (tr_next t)) s)"
proof -
  let ?n = "tr_next t" and ?h = "tr_heap t"
  have L: "0 < L" using g by (simp add: grown_def)
  have sh: "shape_at ?h None s" "dist s" "addrs s \<subseteq> {..<?n}" "\<forall>a \<ge> ?n. ?h a = None" "tr_root t = Some a"
    using rep s by (simp_all add: trie_rep_def)
  have cc: "ok c" "joined c" "level (pk_bits key) c"
    using g s c grown_level [OF g] key(2) by (auto simp: grown_def)
  have dc: "descend key c = Nd a' L k' (Some x') Tip Tip" using de s key(2) L c by (auto split: if_splits)
  obtain p sx where sp: "split_pt key d None s = (p, sx)" by (cases "split_pt key d None s")
  have "split_pt key d None s = split_pt key d (Some a) c" using s d(2) c by auto
  then have "split_pt key d (Some a) c = (p, sx)" using sp by simp
  then have bx: "d \<noteq> bitn sx" "sx \<noteq> Tip"
    using split_pt_bit [OF cc c(2) _ dc differ, of "Some a"] d(3) key(2) by simp_all
  have bs: "bitn s < d" "s \<noteq> Tip" using s d(2) by simp_all
  from split_pt_props [OF sh(1,2) bs(2,1) sp bx(2)] obtain y b ky vy par' ly ry where
    y: "p = Some y" "y \<in> addrs s" "addrs sx \<subseteq> addrs s" "y \<notin> addrs sx"
    "?h y = Some (node_rec b ky vy par' ly ry)"
    "if test_bit key b then ry = root_of sx \<and> ly \<noteq> root_of sx else ly = root_of sx"
    "shape_at ?h (Some y) sx" "d \<le> bitn sx"
    by blast
  obtain ax bx' kx vx lx rx where x: "sx = Nd ax bx' kx vx lx rx" using bx(2) by (cases sx) auto
  have wu: "walk_up (walk_bound t) t d (Some a') = Ret (Some ax)"
    using walk_up_grown [OF rep s g key(2) d(2) _ c] d(3) de sp x by simp
  have mem: "ax \<in> addrs s" using y(3) x by simp
  then have ne: "ax \<noteq> ?n" "y \<noteq> ?n" "ax \<noteq> Suc ?n" "y \<noteq> Suc ?n" "ax \<noteq> y"
    using sh(3) y(2,4) x by auto
  let ?t = "t\<lparr>tr_next := Suc ?n, tr_heap := ?h(?n := Some (node_rec L key None None None None))\<rparr>"
  have hx: "?h ax = Some (node_rec bx' kx vx (Some y) (root_of lx) (root_of rx))" using y(7) x by simp
  have y6: "if test_bit key b then ry = Some ax \<and> ly \<noteq> Some ax else ly = Some ax"
    using y(6) x by (cases "test_bit key b") simp_all
  have "insert_beside ?t key d ?n (Some ax) = Ret (Some ?n, ?t\<lparr>tr_next := Suc (Suc ?n),
      tr_heap := spliced (tr_heap ?t) key d ?n (Suc ?n) y ax None\<rparr>)"
    by (rule insert_beside_store [OF _ _ y6]) (use hx y(5) ne key(2) in simp_all)
  then have beside: "insert_beside ?t key d ?n (Some ax) = Ret (Some ?n, t\<lparr>tr_next := Suc (Suc ?n),
      tr_heap := spliced ?h key d ?n (Suc ?n) y ax None\<rparr>)"
    using ne by (simp add: spliced_upd)
  obtain pl where "?h a' = Some (node_rec L k' (Some x') pl None None)"
    using descend_shape_at [OF sh(1), of key] de by auto
  then have node: "insert_node t key = Ret (Some ?n, t\<lparr>tr_next := Suc (Suc ?n),
      tr_heap := spliced ?h key d ?n (Suc ?n) y ax None\<rparr>)"
    using grown_search [OF rep g key(2)] de wu d key(2) sh(5) hx bx(1) x beside make_node_eq [OF key(1), of t L] L
    by (simp add: insert_node_def Let_def load_Some size_bits_def)
  have new: "spliced ?h key d ?n (Suc ?n) y ax None ?n = Some (node_rec L key None (Some (Suc ?n)) None None)"
    using ne key(2) by (simp add: spliced_def)
  let ?t' = "t\<lparr>tr_next := Suc (Suc ?n), tr_heap := spliced ?h key d ?n (Suc ?n) y ax (Some x)\<rparr>"
  have "trie_insert t key x = Ret (True, ?t')"
    using node new spliced_value [of ?n "Suc ?n" y ax ?h key d x] ne key(2)
    by (simp add: trie_insert_def modify_Some)
  moreover have "trie_rep ?t' (graft key d (leaf ?n key (Some x)) (Suc ?n) s)"
  proof -
    have "?n \<notin> addrs s" "Suc ?n \<notin> addrs s" using sh(3) by auto
    then have "shape_at (spliced ?h key d ?n (Suc ?n) y ax (Some x)) None (graft key d (leaf ?n key (Some x)) (Suc ?n) s)"
      "dist (graft key d (leaf ?n key (Some x)) (Suc ?n) s)"
      using shape_spliced [OF sh(1,2) bs(2,1), of key y sx ?n "Suc ?n" "Some x"] sp y(1) bx(2) x
        dist_graft [OF sh(2), of "leaf ?n key (Some x)" "Suc ?n"] by simp_all
    moreover have "addrs (graft key d (leaf ?n key (Some x)) (Suc ?n) s) \<subseteq> {..<Suc (Suc ?n)}"
    proof -
      have "addrs (graft key d (leaf ?n key (Some x)) (Suc ?n) s) \<subseteq> insert (Suc ?n) ({?n} \<union> addrs s)"
        using addrs_graft [of key d "leaf ?n key (Some x)" "Suc ?n" s] by simp
      also have "\<dots> \<subseteq> {..<Suc (Suc ?n)}" using sh(3) by auto
      finally show ?thesis .
    qed
    moreover have "root_of (graft key d (leaf ?n key (Some x)) (Suc ?n) s) = Some a" using s d(2) by simp
    moreover have "\<forall>z \<ge> Suc (Suc ?n). spliced ?h key d ?n (Suc ?n) y ax (Some x) z = None"
      using sh(3,4) y(2) mem by (auto simp: spliced_def)
    ultimately show ?thesis using sh(5) by (simp add: trie_rep_def)
  qed
  ultimately show ?thesis using node by blast
qed

subsection \<open>Insertion on grown tries\<close>

lemma contents_add:
  assumes "ok s" "ok s'" "set (entries s') = insert (n, key, x) (set (entries s))"
    "contents s (key_bits key) = None"
  shows "contents s' = (contents s)(key_bits key \<mapsto> x)"
proof
  fix ks
  have new: "key_bits k \<noteq> key_bits key" if "(a, k, v) \<in> set (entries s)" for a k v
    using assms(4) that by (auto simp: contents_eq_None keys_entries)
  have "contents s' ks = Some v \<longleftrightarrow> ((contents s)(key_bits key \<mapsto> x)) ks = Some v" for v
    using new by (auto simp: contents_eq_Some [OF assms(1)] contents_eq_Some [OF assms(2)] assms(3))
  then show "contents s' ks = ((contents s)(key_bits key \<mapsto> x)) ks"
    by (metis not_Some_eq)
qed

lemma insert_grown:
  assumes rep: "trie_rep t s" and g: "grown L s" and key: "wf_key key" "pk_bits key = L"
  shows "\<exists>t' s' t1 p k y. trie_insert t key x = Ret (contents s (key_bits key) = None, t') \<and> trie_rep t' s' \<and>
    grown L s' \<and> contents s' =
      (if contents s (key_bits key) = None then (contents s)(key_bits key \<mapsto> x) else contents s) \<and>
    insert_node t key = Ret (Some p, t1) \<and> (p, k, y) \<in> set (entries s') \<and> key_bits k = key_bits key"
proof -
  obtain a l r where s: "s = Nd a 0 empty_key None l r" "joined l" "joined r"
    using g by (auto simp: grown_def)
  have ok: "ok s" and uni: "\<forall>k \<in> keys s. pk_bits k = L" and L: "0 < L" using g by (simp_all add: grown_def)
  define c where "c = (if test_bit key 0 then r else l)"
  let ?n = "tr_next t"
  have lf: "ok (leaf ?n key (Some x))" by (rule ok_leaf [OF key(1)])
  show ?thesis
  proof (cases "c = Tip")
    case True
    let ?s = "let y = leaf ?n key (Some x) in
      if test_bit key 0 then Nd a 0 empty_key None l y else Nd a 0 empty_key None y r"
    have none: "contents s (key_bits key) = None"
    proof -
      have "key_bits k \<noteq> key_bits key" if "k \<in> keys s" for k
      proof
        assume "key_bits k = key_bits key"
        then have "test_bit k 0 = test_bit key 0" using key_bits_eqD [of k key] key(2) L by simp
        then show False using that s(1) ok True by (auto simp: c_def split: if_splits)
      qed
      then show ?thesis by (simp add: contents_eq_None)
    qed
    have ents: "set (entries ?s) = insert (?n, key, x) (set (entries s))"
      using s(1) True by (auto simp: c_def Let_def split: if_splits)
    have ok': "ok ?s" using ok s(1) True lf key(2) L
      by (auto simp: c_def Let_def bit_above_def agree_def split: if_splits)
    have "grown L ?s" unfolding grown_def
      using ok' s L uni key(2) True by (auto simp: Let_def c_def split: if_splits)
    moreover obtain t' t1 where "trie_insert t key x = Ret (True, t')" "trie_rep t' ?s"
        "insert_node t key = Ret (Some ?n, t1)"
      using trie_insert_root [OF rep s(1) g key, of x] True unfolding c_def by blast
    ultimately show ?thesis using none contents_add [OF ok ok' ents none] ents
      by (intro exI [of _ t'] exI [of _ ?s] exI [of _ t1] exI [of _ ?n] exI [of _ key] exI [of _ x]) simp
  next
    case False
    have cc: "ok c" "joined c" "level (pk_bits key) c"
      using s ok grown_level [OF g] key(2) by (auto simp: c_def)
    obtain a' k' x' where dc: "descend key c = Nd a' L k' (Some x') Tip Tip"
      using descend_leaf [OF cc(2,3) False refl] key(2) by auto
    have de: "descend key s = Nd a' L k' (Some x') Tip Tip"
      using dc False s(1) L key(2) by (auto simp: c_def split: if_splits)
    have k': "k' \<in> keys c" "k' \<in> keys s" using descend_key [OF dc] descend_key [OF de] by auto
    have wk: "wf_key k'" "pk_bits k' = pk_bits key" using ok_key_wf [OF ok k'(2)] uni k'(2) key(2) by auto
    note diff = first_difference [OF key(1) wk refl]
    show ?thesis
    proof (cases "L \<le> bit_diff key k'")
      case True
      then have "key_bits key = key_bits k'" using diff(3) key(2) by simp
      moreover from this have "contents s (key_bits key) = Some x'"
        using descend_entry [OF de] contents_eq_Some [OF ok] by auto
      ultimately show ?thesis
        using trie_insert_present [OF rep s(1) g key c_def False de True] rep g descend_entry [OF de]
        by (intro exI [of _ t] exI [of _ s] exI [of _ t] exI [of _ a'] exI [of _ k'] exI [of _ x']) simp
    next
      case less: False
      define d where "d = bit_diff key k'"
      have d: "d < L" "min (bit_diff key k') (pk_bits key) = d" using less key(2) by (simp_all add: d_def)
      have agree: "\<forall>i < d. test_bit key i = test_bit k' i" and differ: "test_bit key d \<noteq> test_bit k' d"
        using diff(1,2) d(1) key(2) unfolding d(2) by simp_all
      have "test_bit key 0 = test_bit k' 0" using k'(1) ok s(1) by (auto simp: c_def split: if_splits)
      then have d0: "0 < d" using differ by (cases d) auto
      let ?s = "graft key d (leaf ?n key (Some x)) (Suc ?n) s"
      have none: "contents s (key_bits key) = None"
      proof (rule ccontr)
        assume "contents s (key_bits key) \<noteq> None"
        then obtain a'' k'' x'' where "(a'', k'', x'') \<in> set (entries s)" "key_bits k'' = key_bits key"
          using contents_eq_Some [OF ok] by auto
        from descend_finds [OF ok this] de this(2) have "key_bits k' = key_bits key" by auto
        then show False using differ d(1) key_bits_eqD(2) [of key k' d] key(2) by simp
      qed
      have ents: "set (entries ?s) = insert (?n, key, x) (set (entries s))" by (simp add: entries_graft)
      have okc: "ok (graft key d (leaf ?n key (Some x)) (Suc ?n) c)"
        by (rule ok_graft [OF cc(1) lf _ _ _ _ cc(2,3) False dc agree differ]) (use d(1) key(2) in simp_all)
      have ok': "ok ?s"
      proof -
        have "bit_above 0 (graft key d (leaf ?n key (Some x)) (Suc ?n) c)"
          by (rule bit_above_graft) (use ok s(1) d0 L key(2) in \<open>auto simp: c_def\<close>)
        then show ?thesis using ok s(1) okc d0 L key(2)
          by (auto simp: c_def keys_graft agree_def split: if_splits)
      qed
      have "grown L ?s"
        unfolding grown_def using ok' s d0 L uni key(2) joined_graft [of c "leaf ?n key (Some x)" key d "Suc ?n"] cc(2)
        by (auto simp: c_def keys_graft split: if_splits)
      moreover obtain t' t1 where "trie_insert t key x = Ret (True, t')" "trie_rep t' ?s"
          "insert_node t key = Ret (Some ?n, t1)"
        using trie_insert_beside [OF rep s(1) g key c_def False de d_def d0 d(1) differ, of x] by blast
      ultimately show ?thesis using none contents_add [OF ok ok' ents none] ents
        by (intro exI [of _ t'] exI [of _ ?s] exI [of _ t1] exI [of _ ?n] exI [of _ key] exI [of _ x]) simp
    qed
  qed
qed

subsection \<open>Insertion under another root\<close>

text \<open>A trie that has lost the node at bit 0: a key that parts from the others before the bit of the root
  needs a new root, and the code looks for it in the null parent of the old one.\<close>

lemma insert_beside_root:
  assumes "tr_heap t a = Some (node_rec b k v None l r)" "tr_heap t n = Some (node_rec b' k' v' p' l' r')"
    "tr_next t = g" "a \<noteq> g" "n \<noteq> g" "a \<noteq> n"
  shows "insert_beside t key d n (Some a) = Abort ''null pointer''"
  using assms
  by (cases "test_bit key d")
    (simp_all add: insert_beside_def Let_def load_Some make_inner_node_def make_empty_node_eq modify_Some set_parent_def
      which_def load_def [of _ None])

lemma insert_collapsed:
  assumes rep: "trie_rep t s" and s: "s = Nd a b k v l r" "ok s" "joined s" "level L s"
    and key: "wf_key key" "pk_bits key = L" and k': "k' \<in> keys s" "i < b" "test_bit key i \<noteq> test_bit k' i"
  shows "trie_insert t key x = Abort ''null pointer''"
proof -
  have sh: "shape_at (tr_heap t) None s" "tr_root t = Some a" "addrs s \<subseteq> {..<tr_next t}" "s \<noteq> Tip"
    using rep s(1) by (simp_all add: trie_rep_def)
  have n: "nodes s \<le> tr_next t" by (rule nodes_bound [OF rep])
  obtain a' k2 x' where de: "descend key s = Nd a' L k2 (Some x') Tip Tip"
    using descend_leaf [OF s(3,4) sh(4) key(2)] by auto
  have k2: "k2 \<in> keys s" by (rule descend_key [OF de])
  have "ok (descend key s)" by (rule ok_descend [OF s(2)])
  then have wk: "wf_key k2" "pk_bits k2 = pk_bits key" using de key(2) by auto
  define d where "d = bit_diff key k2"
  have "b \<le> L" using ok_key_bits [OF s(2) k2] s(1) wk(2) key(2) by simp
  moreover have "bitn s = b" using s(1) by simp
  then have "test_bit k2 i = test_bit k' i" using ok_agree [OF s(2)] k2 k'(1,2) unfolding agree_def by blast
  then have "min d (pk_bits key) \<le> i"
    using first_difference(1) [OF key(1) wk refl] k'(3) unfolding d_def by (metis not_less)
  ultimately have d: "d < b" "d < L" using k'(2) key(2) by auto
  have search: "insert_search (walk_bound t) t key (tr_root t) = Ret (Some a')"
    using insert_search_shape [OF sh(1,4) s(4) key(2), of "walk_bound t"] n de sh(2) s(1) by (simp add: walk_bound_def)
  have ha: "tr_heap t a = Some (node_rec b k v None (root_of l) (root_of r))" using sh(1) s(1) by simp
  obtain m where m: "m < nodes s" "\<And>f. walk_up (m + f) t d (Some a') = walk_up f t d (Some a)"
    using walk_up_shape [OF sh(1) s(3,4) sh(4) key(2) _ s(2), of d] d s(1) de by auto
  have "walk_bound t = m + Suc (walk_bound t - Suc m)" using m(1) n by (simp add: walk_bound_def)
  then obtain w where w: "walk_bound t = m + Suc w" by blast
  have up: "walk_up (walk_bound t) t d (Some a') = Ret (Some a)"
    unfolding w m(2) walk_up.simps(2) load_Some [OF ha] by simp
  obtain pl where ha': "tr_heap t a' = Some (node_rec L k2 (Some x') pl None None)"
    using descend_shape_at [OF sh(1), of key] de by auto
  let ?n = "tr_next t"
  let ?t = "t\<lparr>tr_next := Suc ?n, tr_heap := (tr_heap t)(?n := Some (node_rec L key None None None None))\<rparr>"
  have an: "a < ?n" using sh(3) s(1) by simp
  have "tr_heap ?t a = Some (node_rec b k v None (root_of l) (root_of r))" using ha an by simp
  then have "insert_beside ?t key d ?n (Some a) = Abort ''null pointer''"
    by (rule insert_beside_root [where g = "Suc ?n"]) (use an in simp_all)
  moreover have "make_node t key L = Ret (?n, ?t)" using make_node_eq [OF key(1), of t L] key(2) d(2) by simp
  ultimately have "insert_node t key = Abort ''null pointer''"
    using search up d key(2) sh(2)
    by (simp add: insert_node_def Let_def load_Some [OF ha] load_Some [OF ha'] size_bits_def d_def [symmetric])
  then show ?thesis by (simp add: trie_insert_def)
qed

end
