(* ===== verification/Patricia_Remove.thy ===== *)
theory Patricia_Remove
  imports Patricia_Insert
begin

text \<open>
  Removal: the loop of \<^verbatim>\<open>remove_node\<close> on the store, followed on the shape. The invariant is that of
  lookup, \<open>ok\<close> and \<open>loose\<close> (every node without a value joins two subtrees, the root excepted);
  \<open>remove_loose\<close> is the result. Unlike insertion, removal keeps no node at bit 0 as the root.
\<close>

fun loose :: "'v shape \<Rightarrow> bool" where
  "loose Tip \<longleftrightarrow> True"
| "loose (Nd a b k v l r) \<longleftrightarrow> joined l \<and> joined r"

subsection \<open>Replacing a subtree\<close>

fun subst :: "nat \<Rightarrow> 'v shape \<Rightarrow> 'v shape \<Rightarrow> 'v shape" where
  "subst a u Tip = Tip"
| "subst a u (Nd a' b k v l r) = (if a' = a then u else Nd a' b k v (subst a u l) (subst a u r))"

fun sub :: "nat \<Rightarrow> 'v shape \<Rightarrow> 'v shape" where
  "sub a Tip = Tip"
| "sub a (Nd a' b k v l r) =
     (if a' = a then Nd a' b k v l r else if a \<in> addrs l then sub a l else sub a r)"

lemma subst_fresh [simp]: "a \<notin> addrs s \<Longrightarrow> subst a u s = s"
  by (induction s) auto

lemma sub_addrs: "a \<in> addrs s \<Longrightarrow> addrs (sub a s) \<subseteq> addrs s"
  by (induction s) auto

lemma sub_root: "a \<in> addrs s \<Longrightarrow> \<exists>b k v l r. sub a s = Nd a b k v l r"
  by (induction s) auto

lemma sub_keys: "a \<in> addrs s \<Longrightarrow> keys (sub a s) \<subseteq> keys s"
  by (induction s) (auto simp del: keys_simps(2), auto)

lemma sub_ok: "ok s \<Longrightarrow> ok (sub a s)" and sub_dist: "dist s \<Longrightarrow> dist (sub a s)"
  by (induction s) auto

lemma sub_joined: "joined s \<Longrightarrow> joined (sub a s)"
  by (induction s) auto

lemma sub_shape_at: "shape_at h par s \<Longrightarrow> a \<in> addrs s \<Longrightarrow> \<exists>p. shape_at h p (sub a s)"
  by (induction s arbitrary: par) auto

lemma entry_sub:
  "dist s \<Longrightarrow> (a, k, x) \<in> set (entries s) \<Longrightarrow> \<exists>b l r. sub a s = Nd a b k (Some x) l r"
proof (induction s)
  case (Nd a' b k' v l r)
  then show ?case using entries_addrs [of a k x l] entries_addrs [of a k x r]
    by (auto split: option.splits)
qed simp

lemma addrs_subst: "addrs (subst a u s) \<subseteq> addrs u \<union> addrs s"
  by (induction s) auto

lemma dist_subst:
  "dist s \<Longrightarrow> dist u \<Longrightarrow> addrs u \<subseteq> addrs (sub a s) \<Longrightarrow> dist (subst a u s)"
proof (induction s)
  case (Nd a' b k v l r)
  show ?case
  proof (cases "a \<in> addrs l")
    case True
    then have "a \<notin> addrs r" "a' \<noteq> a" using Nd.prems(1) by auto
    moreover have "addrs (subst a u l) \<subseteq> addrs l" using addrs_subst [of a u l] sub_addrs [OF True] Nd.prems(3) True
      \<open>a' \<noteq> a\<close> by auto
    ultimately show ?thesis using Nd True by auto
  next
    case False
    show ?thesis
    proof (cases "a' = a \<or> a \<notin> addrs r")
      case True
      with Nd.prems False show ?thesis by auto
    next
      case r: False
      moreover have "addrs (subst a u r) \<subseteq> addrs r" using addrs_subst [of a u r] sub_addrs [of a r] Nd.prems(3) r False
        by auto
      ultimately show ?thesis using Nd False by auto
    qed
  qed
qed simp

lemma keys_subst:
  "dist s \<Longrightarrow> a \<in> addrs s \<Longrightarrow> keys u \<subseteq> keys (sub a s) \<Longrightarrow> keys (subst a u s) \<subseteq> keys s"
proof (induction s)
  case (Nd a' b k v l r)
  then show ?case by (cases "a \<in> addrs l"; cases "a \<in> addrs r") auto
qed simp

lemma ok_subst:
  assumes "ok s" "ok u" "dist s" "a \<in> addrs s" "keys u \<subseteq> keys (sub a s)" "u = Tip \<or> bitn (sub a s) \<le> bitn u"
  shows "ok (subst a u s)"
  using assms
proof (induction s)
  case (Nd a' b k v l r)
  show ?case
  proof (cases "a' = a")
    case False
    have mono: "agree n K' \<Longrightarrow> K \<subseteq> K' \<Longrightarrow> agree n K" for n and K K' :: "patricia_key set"
      unfolding agree_def by blast
    have above: "bit_above b (subst a u c)" if "bit_above b c" "a \<in> addrs c" "sub a c = sub a (Nd a' b k v l r)" for c
      using that Nd.prems(6) sub_root [OF Nd.prems(4)] by (cases c) (auto simp: bit_above_def)
    have ag: "agree b (keys (Nd a' b k v l r))" using Nd.prems(1) by (simp del: keys_simps)
    show ?thesis
    proof (cases "a \<in> addrs l")
      case True
      then have r: "a \<notin> addrs r" using Nd.prems(3) by auto
      have ks: "keys (subst a u l) \<subseteq> keys l" by (rule keys_subst) (use Nd.prems True False in auto)
      have "agree b (keys (Nd a' b k v (subst a u l) r))" by (rule mono [OF ag]) (use ks in auto)
      then show ?thesis using Nd False True r ks above [of l] by (auto simp del: keys_simps)
    next
      case l: False
      then have r: "a \<in> addrs r" using Nd.prems(4) False by auto
      have ks: "keys (subst a u r) \<subseteq> keys r" by (rule keys_subst) (use Nd.prems l r False in auto)
      have "agree b (keys (Nd a' b k v l (subst a u r)))" by (rule mono [OF ag]) (use ks in auto)
      then show ?thesis using Nd False l r ks above [of r] by (auto simp del: keys_simps)
    qed
  qed (use Nd.prems in simp)
qed simp

lemma joined_subst: "joined s \<Longrightarrow> joined u \<Longrightarrow> u \<noteq> Tip \<Longrightarrow> joined (subst a u s)"
proof (induction s)
  case (Nd a' b k v l r)
  moreover have "c \<noteq> Tip \<Longrightarrow> subst a u c \<noteq> Tip" for c using Nd.prems(3) by (cases c) auto
  ultimately show ?case by auto
qed simp

lemma loose_subst:
  assumes "loose s" "joined u" "u \<noteq> Tip" "root_of s \<noteq> Some a"
  shows "loose (subst a u s)"
  using assms joined_subst by (cases s) auto

subsection \<open>Parents\<close>

text \<open>\<open>child_of y a s\<close>: in \<open>s\<close>, the node at \<open>a\<close> is a child of the one at \<open>y\<close>.\<close>

fun child_of :: "nat \<Rightarrow> nat \<Rightarrow> 'v shape \<Rightarrow> bool" where
  "child_of y a Tip \<longleftrightarrow> False"
| "child_of y a (Nd a' b k v l r) \<longleftrightarrow>
     a' = y \<and> (root_of l = Some a \<or> root_of r = Some a) \<or> child_of y a l \<or> child_of y a r"

lemma child_of_addrs: "child_of y a s \<Longrightarrow> y \<in> addrs s \<and> a \<in> addrs s"
  by (induction s) (auto dest: root_of_Some)

lemma child_of_neq: "dist s \<Longrightarrow> child_of y a s \<Longrightarrow> y \<noteq> a \<and> root_of s \<noteq> Some a"
  by (induction s) (auto dest: root_of_Some child_of_addrs)

lemma child_ofE: "a \<in> addrs s \<Longrightarrow> root_of s \<noteq> Some a \<Longrightarrow> \<exists>y. child_of y a s"
proof (induction s)
  case (Nd a' b k v l r)
  then show ?case by (cases "root_of l = Some a \<or> root_of r = Some a") auto
qed simp

lemma root_sub: "root_of s = Some a \<Longrightarrow> sub a s = s"
  by (cases s) auto

lemma child_of_sub:
  assumes "child_of y a s" "dist s"
  shows "\<exists>b k v l r. sub y s = Nd y b k v l r \<and>
    (l = sub a s \<and> root_of r \<noteq> Some a \<or> r = sub a s \<and> root_of l \<noteq> Some a)"
  using assms
proof (induction s)
  case (Nd a' b k v l r)
  note d = Nd.prems(2)
  consider "a' = y" "root_of l = Some a" | "a' = y" "root_of r = Some a" | "child_of y a l" | "child_of y a r"
    using Nd.prems(1) by auto
  then show ?case
  proof cases
    case 1
    then have "a \<in> addrs l" "a' \<noteq> a" "root_of r \<noteq> Some a" using d by (auto dest: root_of_Some)
    with 1 root_sub [of l a] show ?thesis by auto
  next
    case 2
    then have "a \<notin> addrs l" "a' \<noteq> a" "root_of l \<noteq> Some a" using d by (auto dest: root_of_Some)
    with 2 root_sub [of r a] show ?thesis by auto
  next
    case 3
    then have "y \<in> addrs l" "a \<in> addrs l" "a' \<noteq> y" "a' \<noteq> a" using child_of_addrs [OF 3] d by auto
    with 3 Nd show ?thesis by auto
  next
    case 4
    then have "y \<in> addrs r" "a \<in> addrs r" using child_of_addrs [OF 4] by auto
    then have "y \<notin> addrs l" "a \<notin> addrs l" "a' \<noteq> y" "a' \<noteq> a" using d by auto
    with 4 Nd show ?thesis by auto
  qed
qed simp

lemma child_of_shape:
  assumes "shape_at h par s" "child_of y a s" "dist s"
  shows "shape_at h (Some y) (sub a s)"
  using assms
proof (induction s arbitrary: par)
  case (Nd a' b k v l r)
  note d = Nd.prems(3)
  consider "a' = y" "root_of l = Some a" | "a' = y" "root_of r = Some a" | "child_of y a l" | "child_of y a r"
    using Nd.prems(2) by auto
  then show ?case
  proof cases
    case 1
    then have "a \<in> addrs l" "a' \<noteq> a" using d by (auto dest: root_of_Some)
    with 1 root_sub [of l a] Nd.prems(1) show ?thesis by auto
  next
    case 2
    then have "a \<notin> addrs l" "a' \<noteq> a" using d by (auto dest: root_of_Some)
    with 2 root_sub [of r a] Nd.prems(1) show ?thesis by auto
  next
    case 3
    then have "a \<in> addrs l" "a' \<noteq> a" using child_of_addrs [OF 3] d by auto
    with 3 Nd show ?thesis by auto
  next
    case 4
    then have "a \<notin> addrs l" "a' \<noteq> a" using child_of_addrs [OF 4] d by auto
    with 4 Nd show ?thesis by auto
  qed
qed simp

text \<open>The store after the subtree at \<open>a\<close> was replaced below \<open>y\<close>.\<close>

lemma shape_subst:
  assumes "shape_at h par s" "dist s" "child_of y a s"
    "\<forall>z \<in> addrs s. z \<notin> addrs (sub a s) \<and> z \<noteq> y \<longrightarrow> h' z = h z"
    "h' y = map_option (\<lambda>m. set_edge (n_right m = Some a) (root_of u) m) (h y)" "shape_at h' (Some y) u"
  shows "shape_at h' par (subst a u s)"
  using assms(1-4)
proof (induction s arbitrary: par)
  case (Nd a' b k v l r)
  note d = Nd.prems(2)
  have frame: "shape_at h' p c" if "shape_at h p c" "\<forall>z \<in> addrs c. h' z = h z" for p c
    using that shape_at_cong [of c h h' p] by simp
  have a: "a' \<noteq> a" using child_of_neq [OF d Nd.prems(3)] by auto
  consider "a' = y" "root_of l = Some a" | "a' = y" "root_of r = Some a" | "child_of y a l" | "child_of y a r"
    using Nd.prems(3) by auto
  then show ?case
  proof cases
    case 1
    then have al: "a \<in> addrs l" "a \<notin> addrs r" "root_of r \<noteq> Some a" and sb: "sub a (Nd a' b k v l r) = l"
      using d a root_sub [of l a] by (auto dest: root_of_Some)
    then have "subst a u l = u" using 1 by (cases l) auto
    moreover have "shape_at h' (Some y) r"
      by (rule frame) (use Nd.prems(1,4) 1 sb d in auto)
    ultimately show ?thesis using Nd.prems(1) a al 1 assms(5,6) by simp
  next
    case 2
    then have ar: "a \<in> addrs r" "a \<notin> addrs l" and sb: "sub a (Nd a' b k v l r) = r"
      using d a root_sub [of r a] by (auto dest: root_of_Some)
    then have "subst a u r = u" using 2 by (cases r) auto
    moreover have "shape_at h' (Some y) l"
      by (rule frame) (use Nd.prems(1,4) 2 sb d in auto)
    ultimately show ?thesis using Nd.prems(1) a ar 2 assms(5,6) by simp
  next
    case 3
    then have m: "y \<in> addrs l" "a \<in> addrs l" using child_of_addrs by blast+
    then have oo: "a \<notin> addrs r" "y \<noteq> a'" "y \<notin> addrs r" "sub a (Nd a' b k v l r) = sub a l"
      "addrs (sub a l) \<subseteq> addrs l" using d a sub_addrs [of a l] by auto
    have "shape_at h' (Some a') (subst a u l)"
      by (rule Nd.IH(1)) (use Nd.prems 3 oo in auto)
    moreover have "shape_at h' (Some a') r" by (rule frame) (use Nd.prems(1,4) oo d in auto)
    moreover have "h' a' = h a'" using Nd.prems(4) oo d by auto
    moreover have "root_of (subst a u l) = root_of l"
      using child_of_neq [OF _ 3] d by (cases l) auto
    ultimately show ?thesis using Nd.prems(1) a oo by simp
  next
    case 4
    then have m: "y \<in> addrs r" "a \<in> addrs r" using child_of_addrs by blast+
    then have oo: "a \<notin> addrs l" "y \<noteq> a'" "y \<notin> addrs l" "sub a (Nd a' b k v l r) = sub a r"
      "addrs (sub a r) \<subseteq> addrs r" using d a sub_addrs [of a r] by auto
    have "shape_at h' (Some a') (subst a u r)"
      by (rule Nd.IH(2)) (use Nd.prems 4 oo in auto)
    moreover have "shape_at h' (Some a') l" by (rule frame) (use Nd.prems(1,4) oo d in auto)
    moreover have "h' a' = h a'" using Nd.prems(4) oo d by auto
    moreover have "root_of (subst a u r) = root_of r"
      using child_of_neq [OF _ 4] d by (cases r) auto
    ultimately show ?thesis using Nd.prems(1) a oo by simp
  qed
qed simp

subsection \<open>Entries\<close>

lemma entries_subst:
  assumes "dist s" "a \<in> addrs s"
  shows "set (entries (subst a u s)) = (set (entries s) - set (entries (sub a s))) \<union> set (entries u)"
  using assms
proof (induction s)
  case (Nd a' b k v l r)
  have sub_in: "e \<in> set (entries c) \<Longrightarrow> fst e \<in> addrs c" for e and c :: "'a shape"
    using entries_addrs by (metis prod.collapse)
  have disj: "set (entries c) \<inter> set (entries c') = {}" if "addrs c \<inter> addrs c' = {}" for c c' :: "'a shape"
    using that sub_in by (metis disjoint_iff)
  have top: "a' \<notin> addrs c \<Longrightarrow> set (case v of None \<Rightarrow> [] | Some x \<Rightarrow> [(a', k, x)]) \<inter> set (entries c) = {}"
    for c :: "'a shape"
    using sub_in [of _ c] by (cases v) auto
  show ?case
  proof (cases "a' = a")
    case False
    show ?thesis
    proof (cases "a \<in> addrs l")
      case True
      then have "a \<notin> addrs r" "a' \<notin> addrs (sub a l)" "addrs (sub a l) \<inter> addrs r = {}"
        using Nd.prems sub_addrs [OF True] by auto
      then have "set (entries (sub a l)) \<inter> set (entries r) = {}"
        "set (case v of None \<Rightarrow> [] | Some x \<Rightarrow> [(a', k, x)]) \<inter> set (entries (sub a l)) = {}"
        using disj top [of "sub a l"] by blast+
      moreover have "set (entries (subst a u l)) = (set (entries l) - set (entries (sub a l))) \<union> set (entries u)"
        using Nd.IH(1) Nd.prems(1) True by simp
      ultimately show ?thesis using False True \<open>a \<notin> addrs r\<close> by (simp add: Un_Diff) blast
    next
      case l: False
      then have r: "a \<in> addrs r" using Nd.prems False by auto
      then have "a' \<notin> addrs (sub a r)" "addrs (sub a r) \<inter> addrs l = {}"
        using Nd.prems sub_addrs [OF r] by auto
      then have "set (entries (sub a r)) \<inter> set (entries l) = {}"
        "set (case v of None \<Rightarrow> [] | Some x \<Rightarrow> [(a', k, x)]) \<inter> set (entries (sub a r)) = {}"
        using disj top [of "sub a r"] by blast+
      moreover have "set (entries (subst a u r)) = (set (entries r) - set (entries (sub a r))) \<union> set (entries u)"
        using Nd.IH(2) Nd.prems(1) r by simp
      ultimately show ?thesis using False l by (simp add: Un_Diff) blast
    qed
  qed simp
qed simp

lemma contents_drop:
  assumes "ok s" "ok s'" "(a, k, x) \<in> set (entries s)" "set (entries s') = set (entries s) - {(a, k, x)}"
  shows "contents s' = (contents s)(key_bits k := None)"
proof
  fix ks
  have one: "e = (a, k, x)" if "e \<in> set (entries s)" "key_bits (fst (snd e)) = key_bits k" for e
    using distinct_entries [OF assms(1)] that assms(3) unfolding distinct_map inj_on_def
    by (metis fst_conv snd_conv)
  have "contents s' ks = Some v \<longleftrightarrow> ((contents s)(key_bits k := None)) ks = Some v" for v
    using one by (force simp: contents_eq_Some [OF assms(1)] contents_eq_Some [OF assms(2)] assms(4))
  then show "contents s' ks = ((contents s)(key_bits k := None)) ks" by (metis not_Some_eq)
qed

lemma joined_loose: "joined s \<Longrightarrow> loose s"
  by (cases s) auto

text \<open>A root without a value and with one edge gives way to its child.\<close>

fun trim :: "'v shape \<Rightarrow> 'v shape" where
  "trim (Nd a b k None Tip r) = (if r = Tip then Nd a b k None Tip r else r)"
| "trim (Nd a b k None l Tip) = l"
| "trim s = s"

lemma trim_props:
  "entries (trim s) = entries s" "ok s \<Longrightarrow> ok (trim s)" "loose s \<Longrightarrow> loose (trim s)"
  "dist s \<Longrightarrow> dist (trim s)" "addrs (trim s) \<subseteq> addrs s"
  by (cases s rule: trim.cases; auto intro: joined_loose)+

lemma joined_subst_Tip:
  assumes "joined s" "dist s" "child_of y a s" "sub y s = Nd y b k (Some x) l r"
  shows "joined (subst a Tip s)"
  using assms
proof (induction s)
  case (Nd a' b' k' v' l' r')
  note d = Nd.prems(2)
  have a: "a' \<noteq> a" using child_of_neq [OF d Nd.prems(3)] by auto
  show ?case
  proof (cases "a' = y")
    case True
    then have "v' = Some x" using Nd.prems(4) by simp
    moreover have "\<not> child_of y a l'" "\<not> child_of y a r'" using True d by (auto dest: child_of_addrs)
    then have "root_of l' = Some a \<or> root_of r' = Some a" using Nd.prems(3) by auto
    then have "subst a Tip l' = (if root_of l' = Some a then Tip else l')"
      "subst a Tip r' = (if root_of r' = Some a then Tip else r')"
      using d by (cases l'; cases r'; auto dest: root_of_Some)+
    ultimately show ?thesis using Nd.prems(1) a by auto
  next
    case False
    have keep: "child_of y a c \<Longrightarrow> dist c \<Longrightarrow> subst a Tip c \<noteq> Tip" for c :: "'a shape"
      using child_of_neq [of c y a] by (cases c) auto
    consider "child_of y a l'" | "child_of y a r'" using Nd.prems(3) False by auto
    then show ?thesis
    proof cases
      case 1
      then have "y \<in> addrs l'" "a \<notin> addrs r'" using child_of_addrs [OF 1] d by auto
      with 1 Nd a False keep [of l'] show ?thesis by auto
    next
      case 2
      then have "y \<notin> addrs l'" "a \<notin> addrs l'" using child_of_addrs [OF 2] d by auto
      with 2 Nd a False keep [of r'] show ?thesis by auto
    qed
  qed
qed simp

subsection \<open>The steps on the store\<close>

lemma delete_self_leaf:
  "tr_heap t a = Some (node_rec b k v p None None) \<Longrightarrow>
    delete_self t (Some a) = Ret (t\<lparr>tr_heap := (tr_heap t)(a := None)\<rparr>)"
  by (simp add: delete_self_def load_Some delete_subtree_def delete_node_def)

lemma edgecount_rec [simp]:
  "edgecount (node_rec b k v p l r) = (if l = None then 0 else 1) + (if r = None then 0 else 1)"
  by (simp add: edgecount_def)

lemma remove_leaf_store:
  assumes "tr_heap t a = Some (node_rec b k v (Some y) None None)" "tr_heap t y = Some (node_rec b' k' v' p' l r)"
    "l = Some a \<and> r \<noteq> Some a \<or> r = Some a \<and> l \<noteq> Some a" "y \<noteq> a"
  shows "remove_leaf t (Some a) = Ret (t\<lparr>tr_heap :=
    (tr_heap t)(y := Some (set_edge (r = Some a) None (node_rec b' k' v' p' l r)), a := None)\<rparr>)"
  using assms
  by (auto simp: remove_leaf_def load_Some which_def modify_Some delete_self_leaf)

lemma remove_single_store:
  assumes "tr_heap t a = Some (node_rec b k v (Some y) la ra)" "tr_heap t y = Some (node_rec b' k' v' p' l r)"
    "la = Some c \<and> ra = None \<or> la = None \<and> ra = Some c" "tr_heap t c = Some nc"
    "l = Some a \<and> r \<noteq> Some a \<or> r = Some a \<and> l \<noteq> Some a" "y \<noteq> a" "c \<noteq> a" "c \<noteq> y"
  shows "remove_single t (Some a) = Ret (t\<lparr>tr_heap :=
    (tr_heap t)(y := Some (set_edge (r = Some a) (Some c) (node_rec b' k' v' p' l r)),
      c := Some (nc\<lparr>n_parent := Some y\<rparr>), a := None)\<rparr>)"
  using assms
  by (auto simp: remove_single_def load_Some which_def modify_Some attach_def detach_def
      delete_self_leaf [where b = b and k = k and v = v and p = None] fun_eq_iff
      intro!: arg_cong [where f = "\<lambda>h. t\<lparr>tr_heap := h\<rparr>"])

lemma remove_root_store:
  assumes "tr_heap t y = Some (node_rec b k v None l r)" "l = Some c \<and> r = None \<or> l = None \<and> r = Some c"
    "tr_heap t c = Some nc" "c \<noteq> y"
  shows "remove_root t (Some y) =
    Ret (t\<lparr>tr_root := Some c, tr_heap := (tr_heap t)(c := Some (nc\<lparr>n_parent := None\<rparr>), y := None)\<rparr>)"
  using assms
  by (auto simp: remove_root_def load_Some detach_def modify_Some fun_eq_iff
      delete_self_leaf [where p = None] intro!: arg_cong [where f = "\<lambda>h. t\<lparr>tr_root := Some c, tr_heap := h\<rparr>"])

text \<open>The loop at a root without a value, or at a node that stays.\<close>

lemma loop_tail:
  assumes rep: "trie_rep t s" and loose: "loose s" and y: "y \<in> addrs s"
  shows "\<exists>t'. bind_run (load t (Some y)) (\<lambda>p.
      if n_value p = None \<and> \<not> (n_left p \<noteq> None \<and> n_right p \<noteq> None)
      then remove_loop (Suc f) t (Some y) else Ret t) = Ret t' \<and>
    trie_rep t' (if root_of s = Some y then trim s else s)"
proof -
  have h: "shape_at (tr_heap t) None s" "dist s" "tr_root t = root_of s" "addrs s \<subseteq> {..<tr_next t}"
    "\<forall>a \<ge> tr_next t. tr_heap t a = None"
    using rep by (simp_all add: trie_rep_def)
  show ?thesis
  proof (cases "root_of s = Some y")
    case False
    then obtain a b k v l r where s: "s = Nd a b k v l r" "joined l" "joined r" using y loose by (cases s) auto
    obtain b' k' v' l' r' where sb: "sub y s = Nd y b' k' v' l' r'" using sub_root [OF y] by blast
    have "joined (sub y s)" using s False sub_joined [of l y] sub_joined [of r y] by auto
    moreover obtain p where "shape_at (tr_heap t) p (sub y s)" using sub_shape_at [OF h(1) y] by blast
    ultimately show ?thesis using sb rep False by (auto simp: load_Some)
  next
    case True
    then obtain b k v l r where s: "s = Nd y b k v l r" by (cases s) auto
    have ld: "tr_heap t y = Some (node_rec b k v None (root_of l) (root_of r))" using h(1) s by simp
    show ?thesis
    proof (cases "v = None \<and> \<not> (l \<noteq> Tip \<and> r \<noteq> Tip)")
      case stay: False
      then have "trim s = s" using s by (cases s rule: trim.cases) auto
      with stay ld rep True show ?thesis by (auto simp: load_Some)
    next
      case go: True
      show ?thesis
      proof (cases "l = Tip \<and> r = Tip")
        case True
        then show ?thesis using s ld rep go h(3)
          by (auto simp: load_Some remove_root_def)
      next
        case False
        define c where "c = (if l = Tip then r else l)"
        have v: "v = None" and ends: "l = Tip \<or> r = Tip" using go by auto
        have "trim s = c"
        proof (cases "l = Tip")
          case True
          then show ?thesis using s v False by (simp add: c_def)
        next
          case l: False
          then show ?thesis using s v ends by (cases l) (simp_all add: c_def)
        qed
        moreover have "c \<noteq> Tip" using False by (auto simp: c_def)
        moreover have "c = l \<or> c = r" by (simp add: c_def)
        ultimately have c: "c \<noteq> Tip" "trim s = c" "shape_at (tr_heap t) (Some y) c" "y \<notin> addrs c" "dist c"
          "addrs c \<subseteq> addrs s"
          using s h(1,2) by auto
        then obtain ca bc kc vc lc rc where c': "c = Nd ca bc kc vc lc rc" by (cases c) auto
        let ?h = "(tr_heap t)(ca := Some (node_rec bc kc vc None (root_of lc) (root_of rc)), y := None)"
        have "remove_root t (Some y) = Ret (t\<lparr>tr_root := Some ca, tr_heap := ?h\<rparr>)"
        proof -
          have "root_of l = Some ca \<and> root_of r = None \<or> root_of l = None \<and> root_of r = Some ca"
            using go False c' by (auto simp: c_def split: if_splits)
          moreover have "tr_heap t ca = Some (node_rec bc kc vc (Some y) (root_of lc) (root_of rc))" "ca \<noteq> y"
            using c(3,4) c' by auto
          ultimately show ?thesis using remove_root_store [OF ld] by simp
        qed
        moreover have "shape_at ?h None c" "\<forall>z \<ge> tr_next t. ?h z = None"
          using c c' h(2,4,5) by (auto simp: subset_iff)
        moreover have "edgecount (node_rec b k v None (root_of l) (root_of r)) \<noteq> 2" using ends by auto
        ultimately have "bind_run (load t (Some y)) (\<lambda>p.
            if n_value p = None \<and> \<not> (n_left p \<noteq> None \<and> n_right p \<noteq> None)
            then remove_loop (Suc f) t (Some y) else Ret t) = Ret (t\<lparr>tr_root := Some ca, tr_heap := ?h\<rparr>)"
          "trie_rep (t\<lparr>tr_root := Some ca, tr_heap := ?h\<rparr>) c"
          using ld v ends h(3,4) c c' True by (auto simp: load_Some trie_rep_def)
        then show ?thesis using True c(2) by auto
      qed
    qed
  qed
qed

subsection \<open>Removal of an entry\<close>

lemma node_rec_inject [simp]:
  "node_rec b k v p l r = node_rec b' k' v' p' l' r' \<longleftrightarrow>
    b = b' \<and> k = k' \<and> v = v' \<and> p = p' \<and> l = l' \<and> r = r'"
  by (auto simp: node_rec_def)

lemma rep_subst:
  assumes "trie_rep t s" "child_of y a s" "dist u" "addrs u \<subseteq> addrs (sub a s)"
    "\<forall>z. z \<notin> addrs (sub a s) \<and> z \<noteq> y \<longrightarrow> h' z = tr_heap t z"
    "h' y = map_option (\<lambda>m. set_edge (n_right m = Some a) (root_of u) m) (tr_heap t y)" "shape_at h' (Some y) u"
  shows "trie_rep (t\<lparr>tr_heap := h'\<rparr>) (subst a u s)"
proof -
  have s: "shape_at (tr_heap t) None s" "dist s" "tr_root t = root_of s" "addrs s \<subseteq> {..<tr_next t}"
    "\<forall>a \<ge> tr_next t. tr_heap t a = None"
    using assms(1) by (simp_all add: trie_rep_def)
  have m: "y \<in> addrs s" "a \<in> addrs s" and root: "root_of s \<noteq> Some a"
    using child_of_addrs [OF assms(2)] child_of_neq [OF s(2) assms(2)] by auto
  have "shape_at h' None (subst a u s)"
    by (rule shape_subst [OF s(1,2) assms(2) _ assms(6,7)]) (use assms(5) in auto)
  moreover have "dist (subst a u s)" by (rule dist_subst [OF s(2) assms(3,4)])
  moreover have "addrs (subst a u s) \<subseteq> {..<tr_next t}"
    using addrs_subst [of a u s] assms(4) sub_addrs [OF m(2)] s(4) by blast
  moreover have "root_of (subst a u s) = root_of s" using root by (cases s) auto
  moreover have "\<forall>z \<ge> tr_next t. h' z = None"
    using assms(5) s(4,5) sub_addrs [OF m(2)] m(1) by (metis lessThan_iff not_le subset_iff)
  ultimately show ?thesis using s(3) by (simp add: trie_rep_def)
qed

text \<open>What the store holds at an entry and at its parent.\<close>

lemma entry_store:
  assumes "trie_rep t s" "child_of y a s" "sub a s = Nd a b k v l r"
  shows "\<exists>b' k' v' p' l' r'. sub y s = Nd y b' k' v' l' r' \<and> y \<noteq> a \<and> y \<notin> addrs (sub a s) \<and>
    (l' = sub a s \<and> root_of r' \<noteq> Some a \<or> r' = sub a s \<and> root_of l' \<noteq> Some a) \<and>
    tr_heap t y = Some (node_rec b' k' v' p' (root_of l') (root_of r')) \<and>
    tr_heap t a = Some (node_rec b k v (Some y) (root_of l) (root_of r)) \<and> shape_at (tr_heap t) (Some y) (sub a s)"
proof -
  have s: "shape_at (tr_heap t) None s" "dist s" using assms(1) by (simp_all add: trie_rep_def)
  obtain b' k' v' l' r' where y: "sub y s = Nd y b' k' v' l' r'"
    "l' = sub a s \<and> root_of r' \<noteq> Some a \<or> r' = sub a s \<and> root_of l' \<noteq> Some a"
    using child_of_sub [OF assms(2) s(2)] by blast
  obtain p' where "shape_at (tr_heap t) p' (sub y s)"
    using sub_shape_at [OF s(1)] child_of_addrs [OF assms(2)] by blast
  moreover have "dist (sub y s)" by (rule sub_dist [OF s(2)])
  moreover note child_of_shape [OF s(1) assms(2) s(2)]
  ultimately show ?thesis using y assms(3) by auto
qed

lemma ok_clear: "ok (Nd a b k v l r) \<Longrightarrow> ok (Nd a b (k\<lparr>pk_bits := 0\<rparr>) None l r)"
  by (auto simp: agree_def)

lemma remove_two:
  assumes rep: "trie_rep t s" and a: "a \<in> addrs s" and u: "sub a s = Nd a b k v l r" and two: "l \<noteq> Tip" "r \<noteq> Tip"
  shows "\<exists>t'. remove_loop (Suc f) t (Some a) = Ret t' \<and>
    trie_rep t' (subst a (Nd a b (k\<lparr>pk_bits := 0\<rparr>) None l r) s)"
proof -
  let ?u = "Nd a b (k\<lparr>pk_bits := 0\<rparr>) None l r"
  have s: "shape_at (tr_heap t) None s" "dist s" using rep by (simp_all add: trie_rep_def)
  obtain p where p: "shape_at (tr_heap t) p (sub a s)" using sub_shape_at [OF s(1) a] by blast
  then have ha: "tr_heap t a = Some (node_rec b k v p (root_of l) (root_of r))" using u by simp
  have du: "dist (sub a s)" by (rule sub_dist [OF s(2)])
  let ?h = "(tr_heap t)(a := Some (node_rec b (k\<lparr>pk_bits := 0\<rparr>) None p (root_of l) (root_of r)))"
  have "remove_loop (Suc f) t (Some a) = Ret (t\<lparr>tr_heap := ?h\<rparr>)"
    using ha two by (simp add: load_Some modify_Some)
  moreover have "trie_rep (t\<lparr>tr_heap := ?h\<rparr>) (subst a ?u s)"
  proof (cases "root_of s = Some a")
    case True
    then have "s = Nd a b k v l r" using u root_sub by metis
    then show ?thesis using rep ha du u by (auto simp: trie_rep_def)
  next
    case False
    then obtain y where y: "child_of y a s" using child_ofE [OF a] by blast
    from entry_store [OF rep y u] obtain b' k' v' p' l' r' where ey:
      "y \<noteq> a" "y \<notin> addrs (sub a s)"
      "l' = sub a s \<and> root_of r' \<noteq> Some a \<or> r' = sub a s \<and> root_of l' \<noteq> Some a"
      "tr_heap t y = Some (node_rec b' k' v' p' (root_of l') (root_of r'))"
      "tr_heap t a = Some (node_rec b k v (Some y) (root_of l) (root_of r))" by blast
    have p: "p = Some y" using ey(5) ha by simp
    show ?thesis
    proof (rule rep_subst [OF rep y])
      show "dist ?u" "addrs ?u \<subseteq> addrs (sub a s)" using du u by auto
      show "\<forall>z. z \<notin> addrs (sub a s) \<and> z \<noteq> y \<longrightarrow> ?h z = tr_heap t z" using u by auto
      show "?h y = map_option (\<lambda>m. set_edge (n_right m = Some a) (root_of ?u) m) (tr_heap t y)"
        using ey u by auto
      show "shape_at ?h (Some y) ?u" using p du u \<open>shape_at (tr_heap t) p (sub a s)\<close> by simp
    qed
  qed
  ultimately show ?thesis by blast
qed

lemma remove_single_rep:
  assumes rep: "trie_rep t s" and y: "child_of y a s" and u: "sub a s = Nd a b k v l r"
    and c: "l = Tip \<and> r = c \<or> r = Tip \<and> l = c" "c \<noteq> Tip"
  shows "\<exists>t'. remove_single t (Some a) = Ret t' \<and> tr_root t' = tr_root t \<and> trie_rep t' (subst a c s)"
proof -
  from entry_store [OF rep y u] obtain b' k' v' p' l' r' where ey:
    "y \<noteq> a" "y \<notin> addrs (sub a s)"
    "l' = sub a s \<and> root_of r' \<noteq> Some a \<or> r' = sub a s \<and> root_of l' \<noteq> Some a"
    "tr_heap t y = Some (node_rec b' k' v' p' (root_of l') (root_of r'))"
    "tr_heap t a = Some (node_rec b k v (Some y) (root_of l) (root_of r))" "shape_at (tr_heap t) (Some y) (sub a s)"
    by blast
  have du: "dist (sub a s)" using rep sub_dist by (auto simp: trie_rep_def)
  obtain ca bc kc vc lc rc where c': "c = Nd ca bc kc vc lc rc" using c(2) by (cases c) auto
  have cs: "shape_at (tr_heap t) (Some a) c" "dist c" "a \<notin> addrs c" "addrs c \<subseteq> addrs (sub a s)"
    "root_of l = Some ca \<and> root_of r = None \<or> root_of l = None \<and> root_of r = Some ca"
    using u c ey(6) du c' by auto
  let ?h = "(tr_heap t)(y := Some (set_edge (root_of r' = Some a) (Some ca)
      (node_rec b' k' v' p' (root_of l') (root_of r'))),
      ca := Some (node_rec bc kc vc (Some y) (root_of lc) (root_of rc)), a := None)"
  have ca: "tr_heap t ca = Some (node_rec bc kc vc (Some a) (root_of lc) (root_of rc))" "ca \<noteq> a" "ca \<noteq> y"
    using cs c' ey(2) by auto
  have edges: "root_of l' = Some a \<and> root_of r' \<noteq> Some a \<or> root_of r' = Some a \<and> root_of l' \<noteq> Some a"
    using ey(3) u by auto
  have "remove_single t (Some a) = Ret (t\<lparr>tr_heap := ?h\<rparr>)"
    using remove_single_store [OF ey(5,4) cs(5) ca(1) edges ey(1) ca(2,3)] by simp
  moreover have "trie_rep (t\<lparr>tr_heap := ?h\<rparr>) (subst a c s)"
  proof (rule rep_subst [OF rep y cs(2,4)])
    show "\<forall>z. z \<notin> addrs (sub a s) \<and> z \<noteq> y \<longrightarrow> ?h z = tr_heap t z" using u cs(4) c' by auto
    show "?h y = map_option (\<lambda>m. set_edge (n_right m = Some a) (root_of c) m) (tr_heap t y)"
      using ey(1,4) ca(3) c' by simp
    have "y \<notin> addrs c" using ey(2) cs(4) by blast
    then show "shape_at ?h (Some y) c" using cs(1-3) c' by auto
  qed
  ultimately show ?thesis by auto
qed

lemma remove_leaf_rep:
  assumes rep: "trie_rep t s" and y: "child_of y a s" and u: "sub a s = Nd a b k v l r" and tips: "l = Tip" "r = Tip"
  shows "\<exists>t'. remove_leaf t (Some a) = Ret t' \<and> tr_root t' = tr_root t \<and> trie_rep t' (subst a Tip s)"
proof -
  from entry_store [OF rep y u] obtain b' k' v' p' l' r' where ey:
    "y \<noteq> a" "y \<notin> addrs (sub a s)"
    "l' = sub a s \<and> root_of r' \<noteq> Some a \<or> r' = sub a s \<and> root_of l' \<noteq> Some a"
    "tr_heap t y = Some (node_rec b' k' v' p' (root_of l') (root_of r'))"
    "tr_heap t a = Some (node_rec b k v (Some y) (root_of l) (root_of r))"
    "shape_at (tr_heap t) (Some y) (sub a s)"
    by blast
  let ?h = "(tr_heap t)(y := Some (set_edge (root_of r' = Some a) None
      (node_rec b' k' v' p' (root_of l') (root_of r'))), a := None)"
  have edges: "root_of l' = Some a \<and> root_of r' \<noteq> Some a \<or> root_of r' = Some a \<and> root_of l' \<noteq> Some a"
    using ey(3) u by auto
  have "remove_leaf t (Some a) = Ret (t\<lparr>tr_heap := ?h\<rparr>)"
    by (rule remove_leaf_store [OF _ ey(4) edges ey(1)]) (use ey(5) tips in simp)
  moreover have "trie_rep (t\<lparr>tr_heap := ?h\<rparr>) (subst a Tip s)"
    by (rule rep_subst [OF rep y]) (use u ey(1,4) in auto)
  ultimately show ?thesis by auto
qed

lemma remove_loop_step:
  assumes "trie_rep t s" "child_of y a s" "sub a s = Nd a b k v l r" "l = Tip \<or> r = Tip"
  shows "remove_loop (Suc f) t (Some a) =
    bind_run (if l = Tip \<and> r = Tip then remove_leaf t (Some a) else remove_single t (Some a)) (\<lambda>t.
      bind_run (load t (Some y)) (\<lambda>p.
        if n_value p = None \<and> \<not> (n_left p \<noteq> None \<and> n_right p \<noteq> None) then remove_loop f t (Some y)
        else Ret t))"
proof -
  have "tr_root t \<noteq> Some a" using assms(1) child_of_neq [OF _ assms(2)] by (auto simp: trie_rep_def)
  moreover have "tr_heap t a = Some (node_rec b k v (Some y) (root_of l) (root_of r))"
    using entry_store [OF assms(1-3)] by blast
  ultimately show ?thesis
    using assms(4) by (cases "l = Tip"; cases "r = Tip") (simp_all add: load_Some cong: if_cong)
qed

text \<open>Subtrees of subtrees, and where the shapes of the three steps end.\<close>

lemma sub_subst_parent:
  assumes "dist s" "child_of y a s" "sub y s = Nd y b k v l r"
  shows "sub y (subst a u s) = Nd y b k v (subst a u l) (subst a u r) \<and> y \<in> addrs (subst a u s)"
  using assms
proof (induction s)
  case (Nd a' b' k' v' l' r')
  note d = Nd.prems(1)
  have a: "a' \<noteq> a" using child_of_neq [OF d Nd.prems(2)] by auto
  show ?case
  proof (cases "a' = y")
    case True
    then show ?thesis using Nd.prems(3) a by simp
  next
    case False
    consider "child_of y a l'" | "child_of y a r'" using Nd.prems(2) False by auto
    then show ?thesis
    proof cases
      case 1
      then show ?thesis using Nd False a child_of_addrs [OF 1] d by auto
    next
      case 2
      then have "y \<notin> addrs l'" "a \<notin> addrs l'" using child_of_addrs [OF 2] d by auto
      with 2 Nd False a show ?thesis using child_of_addrs [OF 2] by auto
    qed
  qed
qed simp

lemma subst_subst_parent: "dist s \<Longrightarrow> child_of y a s \<Longrightarrow> subst y w (subst a u s) = subst y w s"
proof (induction s)
  case (Nd a' b' k' v' l' r')
  note d = Nd.prems(1)
  have a: "a' \<noteq> a" using child_of_neq [OF d Nd.prems(2)] by auto
  show ?case
  proof (cases "a' = y")
    case False
    consider "child_of y a l'" | "child_of y a r'" using Nd.prems(2) False by auto
    then show ?thesis
    proof cases
      case 1
      then have "y \<notin> addrs r'" "a \<notin> addrs r'" using child_of_addrs [OF 1] d by auto
      with 1 Nd False a show ?thesis by auto
    next
      case 2
      then have "y \<notin> addrs l'" "a \<notin> addrs l'" using child_of_addrs [OF 2] d by auto
      with 2 Nd False a show ?thesis by auto
    qed
  qed (use a in simp)
qed simp

lemma child_of_subst:
  assumes "dist s" "child_of y a s" "child_of z y s"
  shows "child_of z y (subst a u s)"
  using assms
proof (induction s)
  case (Nd a' b' k' v' l' r')
  note d = Nd.prems(1)
  have na: "y \<noteq> a" "a' \<noteq> a" using child_of_neq [OF d Nd.prems(2)] by auto
  have ny: "a' \<noteq> y" using child_of_neq [OF d Nd.prems(3)] by auto
  have keep: "root_of c = Some y \<Longrightarrow> root_of (subst a u c) = Some y" for c
    using na(1) by (cases c) auto
  consider "child_of y a l'" | "child_of y a r'" using Nd.prems(2) ny by auto
  then show ?case
  proof cases
    case 1
    then have m: "a \<notin> addrs r'" "y \<in> addrs l'" using child_of_addrs [OF 1] d by auto
    then have "\<not> child_of z y r'" "root_of r' \<noteq> Some y" using d child_of_addrs [of z y r'] root_of_Some by auto
    then have "a' = z \<and> root_of l' = Some y \<or> child_of z y l'" using Nd.prems(3) by auto
    then show ?thesis using Nd.IH(1) 1 d m na keep [of l'] by auto
  next
    case 2
    then have m: "a \<notin> addrs l'" "y \<in> addrs r'" using child_of_addrs [OF 2] d by auto
    then have "\<not> child_of z y l'" "root_of l' \<noteq> Some y" using d child_of_addrs [of z y l'] root_of_Some by auto
    then have "a' = z \<and> root_of r' = Some y \<or> child_of z y r'" using Nd.prems(3) by auto
    then show ?thesis using Nd.IH(2) 2 d m na keep [of r'] by auto
  qed
qed simp

text \<open>What becomes of the root: the one of a trie built by insertions stays or gives way to a node with
  a later bit. When the keys have one length and at most one entry is left, the root has no child.\<close>

definition uniform :: "'v shape \<Rightarrow> bool" where
  "uniform s \<longleftrightarrow> (\<forall>k \<in> keys s. \<forall>k' \<in> keys s. pk_bits k = pk_bits k')"

fun childless :: "'v shape \<Rightarrow> bool" where
  "childless Tip \<longleftrightarrow> False"
| "childless (Nd a b k v l r) \<longleftrightarrow> l = Tip \<and> r = Tip"

definition same_root :: "'v shape \<Rightarrow> 'v shape \<Rightarrow> bool" where
  "same_root s s' \<longleftrightarrow> (\<forall>a b k l r. s = Nd a b k None l r \<longrightarrow>
     (\<exists>l' r'. s' = Nd a b k None l' r') \<or> s' \<noteq> Tip \<and> joined s' \<and> b < bitn s')"

definition removed :: "'v patricia_trie run \<Rightarrow> 'v shape \<Rightarrow> nat \<times> patricia_key \<times> 'v \<Rightarrow> bool" where
  "removed rt s e \<longleftrightarrow> (\<exists>t' s'. rt = Ret t' \<and> trie_rep t' s' \<and> ok s' \<and> loose s' \<and>
     set (entries s') = set (entries s) - {e} \<and> same_root s s' \<and>
     (uniform s \<and> length (entries s') \<le> 1 \<longrightarrow> childless s'))"

lemma same_root_subst: "root_of s \<noteq> Some a \<Longrightarrow> same_root s (subst a u s)"
  by (cases s) (auto simp: same_root_def)

lemma same_root_trim: "ok s1 \<Longrightarrow> loose s1 \<Longrightarrow> same_root s s1 \<Longrightarrow> same_root s (trim s1)"
  by (cases s1 rule: trim.cases; fastforce simp: same_root_def bit_above_def)

lemma joined_entries: "joined s \<Longrightarrow> s \<noteq> Tip \<Longrightarrow> 0 < length (entries s)"
  by (induction s) auto

lemma sub_entries_le: "a \<in> addrs s \<Longrightarrow> length (entries (sub a s)) \<le> length (entries s)"
  by (induction s) (auto split: option.splits)

lemma joined_childless: "joined s \<Longrightarrow> s \<noteq> Tip \<Longrightarrow> length (entries s) \<le> 1 \<Longrightarrow> childless s"
proof (cases s)
  case (Nd a b k v l r)
  assume "joined s" "length (entries s) \<le> 1"
  then show ?thesis using Nd joined_entries [of l] joined_entries [of r]
    by (cases v; cases "l = Tip"; cases "r = Tip") (auto simp del: length_greater_0_conv)
qed simp

text \<open>Among keys of one length, a node with a key below it has no value.\<close>

lemma uniform_inner:
  assumes "ok s" "uniform s" "y \<in> addrs s" "sub y s = Nd y b k v l r" "keys l \<union> keys r \<noteq> {}"
  shows "v = None"
proof (rule ccontr)
  assume v: "v \<noteq> None"
  obtain k' where k': "k' \<in> keys l \<union> keys r" using assms(5) by blast
  have "ok (Nd y b k v l r)" using sub_ok [OF assms(1), of y] assms(4) by simp
  then have "pk_bits k = b" "b < pk_bits k'" using v k' by auto
  moreover have "k \<in> keys s" "k' \<in> keys s" using sub_keys [OF assms(3)] assms(4) v k' by auto
  ultimately show False using assms(2) unfolding uniform_def by (metis less_irrefl)
qed

lemma tail_removed:
  assumes rep: "trie_rep t1 s1" and s1: "ok s1" "loose s1" and e: "set (entries s1) = set (entries s) - {e}"
    and y: "y \<in> addrs s1" and root: "same_root s s1"
    and inner: "uniform s \<Longrightarrow> \<exists>b k l r. sub y s1 = Nd y b k None l r"
  shows "removed (bind_run (load t1 (Some y)) (\<lambda>p.
      if n_value p = None \<and> \<not> (n_left p \<noteq> None \<and> n_right p \<noteq> None)
      then remove_loop (Suc f) t1 (Some y) else Ret t1)) s e"
proof -
  let ?s = "if root_of s1 = Some y then trim s1 else s1"
  have "childless ?s" if un: "uniform s" and le: "length (entries ?s) \<le> 1"
  proof (cases "root_of s1 = Some y")
    case True
    then obtain b k l r where "s1 = Nd y b k None l r" using inner [OF un] root_sub [OF True] by auto
    moreover from this have "joined l" "joined r" using s1(2) by auto
    ultimately show ?thesis
      using le True joined_childless [of l] joined_childless [of r] joined_entries [of l] joined_entries [of r]
      by (cases l; cases r) (auto split: option.splits)
  next
    case False
    obtain b k l r where u: "sub y s1 = Nd y b k None l r" using inner [OF un] by blast
    have "joined (sub y s1)" using s1(2) y False sub_joined by (cases s1) auto
    then have "2 \<le> length (entries (sub y s1))" using u joined_entries [of l] joined_entries [of r] by (simp del: length_greater_0_conv)
    then show ?thesis using sub_entries_le [OF y] le False by simp
  qed
  moreover have "same_root s ?s" using root same_root_trim [OF s1 root] by simp
  moreover have "ok ?s" "loose ?s" "set (entries ?s) = set (entries s) - {e}" using s1 e trim_props [of s1] by simp_all
  moreover obtain t' where "bind_run (load t1 (Some y)) (\<lambda>p.
      if n_value p = None \<and> \<not> (n_left p \<noteq> None \<and> n_right p \<noteq> None)
      then remove_loop (Suc f) t1 (Some y) else Ret t1) = Ret t'" "trie_rep t' ?s"
    using loop_tail [OF rep s1(2) y, of f] by blast
  ultimately show ?thesis unfolding removed_def by (intro exI [of _ t'] exI [of _ ?s]) blast
qed

lemma entry_entries:
  assumes "dist (Nd a b k (Some x) l r)"
  shows "set (entries l) \<union> set (entries r) = set (entries (Nd a b k (Some x) l r)) - {(a, k, x)}"
  using assms entries_addrs by fastforce

lemma sub_entries: "a \<in> addrs s \<Longrightarrow> set (entries (sub a s)) \<subseteq> set (entries s)"
  by (induction s) (auto split: option.splits)

lemma subst_removed:
  assumes rep: "trie_rep t s" and s: "ok s" "a \<in> addrs s" and u: "sub y s = w" "y \<in> addrs s"
    and c: "set (entries c) = set (entries w) - {(a, k, x)}" "(a, k, x) \<in> set (entries w)" "ok c"
      "c = Tip \<or> bitn w \<le> bitn c"
  shows "ok (subst y c s) \<and> set (entries (subst y c s)) = set (entries s) - {(a, k, x)}"
proof -
  have d: "dist s" using rep by (simp add: trie_rep_def)
  have "keys c \<subseteq> keys (sub y s)" using c(1) u(1) by (auto simp: keys_def)
  then have "ok (subst y c s)" using ok_subst [OF s(1) c(3) d u(2)] c(4) u(1) by simp
  moreover have "set (entries (subst y c s)) = set (entries s) - {(a, k, x)}"
    using entries_subst [OF d u(2), of c] sub_entries [OF u(2)] c(1,2) u(1) by blast
  ultimately show ?thesis by blast
qed

lemma sub_bit_above:
  assumes "ok (Nd a b k v l r)" "c = l \<or> c = r" "c \<noteq> Tip"
  shows "b \<le> bitn c" "ok c"
  using assms by (auto simp: bit_above_def)

lemma nonroot_joined:
  assumes "loose s" "a \<in> addrs s" "root_of s \<noteq> Some a"
  shows "joined (sub a s)"
  using assms sub_joined by (cases s) auto

lemma remove_root_entry:
  assumes rep: "trie_rep t s" and s: "s = Nd a b k (Some x) l r" "ok s" "loose s" and one: "l = Tip \<or> r = Tip"
  shows "removed (remove_root t (Some a)) s (a, k, x)"
proof -
  have h: "tr_heap t a = Some (node_rec b k (Some x) None (root_of l) (root_of r))" "dist s"
    using rep s(1) by (auto simp: trie_rep_def)
  note E = entry_entries [OF h(2) [unfolded s(1)]]
  show ?thesis
  proof (cases "l = Tip \<and> r = Tip")
    case True
    let ?s = "Nd a b (k\<lparr>pk_bits := 0\<rparr>) None Tip Tip"
    let ?t = "t\<lparr>tr_heap := (tr_heap t)(a := Some (node_rec b (k\<lparr>pk_bits := 0\<rparr>) None None None None))\<rparr>"
    have "remove_root t (Some a) = Ret ?t" using h True by (simp add: remove_root_def load_Some modify_Some)
    moreover have "trie_rep ?t ?s" using rep s(1) True by (auto simp: trie_rep_def)
    moreover have "ok ?s" "loose ?s" "same_root s ?s" using s(1) by (auto simp: bit_above_def agree_def same_root_def)
    ultimately show ?thesis using True s(1) unfolding removed_def by (intro exI [of _ ?t] exI [of _ ?s]) auto
  next
    case False
    define c where "c = (if l = Tip then r else l)"
    have "set (entries c) = set (entries l) \<union> set (entries r)" using one by (auto simp: c_def)
    then have c: "set (entries c) = set (entries s) - {(a, k, x)}" unfolding s(1) using E by (rule trans)
    have c2: "c \<noteq> Tip" "c = l \<or> c = r" using False by (auto simp: c_def)
    then obtain ca bc kc vc lc rc where c': "c = Nd ca bc kc vc lc rc" by (cases c) auto
    have cs: "shape_at (tr_heap t) (Some a) c" "a \<notin> addrs c" "dist c" "addrs c \<subseteq> addrs s" "ok c" "joined c"
      using rep s c2(2) by (auto simp: trie_rep_def)
    have "root_of l = Some ca \<and> root_of r = None \<or> root_of l = None \<and> root_of r = Some ca"
      using one False c' by (auto simp: c_def split: if_splits)
    moreover have "tr_heap t ca = Some (node_rec bc kc vc (Some a) (root_of lc) (root_of rc))" "ca \<noteq> a"
      using cs(1,2) c' by auto
    ultimately have "remove_root t (Some a) = Ret (t\<lparr>tr_root := Some ca,
        tr_heap := (tr_heap t)(ca := Some (node_rec bc kc vc None (root_of lc) (root_of rc)), a := None)\<rparr>)"
      (is "_ = Ret ?t")
      using remove_root_store [OF h(1)] by simp
    moreover have "trie_rep ?t c" using rep cs c' by (auto simp: trie_rep_def)
    moreover have "same_root s c" using s(1) by (simp add: same_root_def)
    ultimately show ?thesis using cs(5) joined_loose [OF cs(6)] c joined_childless [OF cs(6) c2(1)] unfolding removed_def by blast
  qed
qed

lemma remove_single_entry:
  assumes rep: "trie_rep t s" and s: "ok s" "loose s" and y: "child_of y a s"
    and u: "sub a s = Nd a b k (Some x) l r" and c: "l = Tip \<and> r = c \<or> r = Tip \<and> l = c" "c \<noteq> Tip"
  shows "removed (remove_loop (Suc (Suc f)) t (Some a)) s (a, k, x)"
proof -
  have a: "a \<in> addrs s" "root_of s \<noteq> Some a" and d: "dist s"
    using child_of_addrs [OF y] child_of_neq [OF _ y] rep by (auto simp: trie_rep_def)
  have jc: "joined c" using nonroot_joined [OF s(2) a] u c(1) by auto
  have okc: "ok c" "b \<le> bitn c" using sub_bit_above [of a b k "Some x" l r c] sub_ok [OF s(1), of a] u c by auto
  have E: "set (entries c) = set (entries (sub a s)) - {(a, k, x)}"
    unfolding u using entry_entries [of a b k x l r] sub_dist [OF d, of a] u c(1) by auto
  have new: "ok (subst a c s)" "set (entries (subst a c s)) = set (entries s) - {(a, k, x)}"
    using subst_removed [OF rep s(1) a(1) refl a(1) E _ okc(1)] u okc(2) by auto
  have lo: "loose (subst a c s)" by (rule loose_subst [OF s(2) jc c(2) a(2)])
  obtain t1 where t1: "remove_single t (Some a) = Ret t1" "trie_rep t1 (subst a c s)"
    using remove_single_rep [OF rep y u c] by blast
  obtain b' k' v' l' r' where "sub y s = Nd y b' k' v' l' r'" using child_of_sub [OF y d] by blast
  then have ym: "y \<in> addrs (subst a c s)" using sub_subst_parent [OF d y] by blast
  have tips: "l = Tip \<or> r = Tip" using c(1) by auto
  have "\<not> uniform s" using uniform_inner [OF s(1) _ a(1) u] joined_keys [OF jc c(2)] c(1) by auto
  then have tl: "removed (bind_run (load t1 (Some y)) (\<lambda>p.
      if n_value p = None \<and> \<not> (n_left p \<noteq> None \<and> n_right p \<noteq> None)
      then remove_loop (Suc f) t1 (Some y) else Ret t1)) s (a, k, x)"
    using tail_removed [OF t1(2) new(1) lo new(2) ym same_root_subst [OF a(2)]] by blast
  have "remove_loop (Suc (Suc f)) t (Some a) = bind_run (Ret t1) (\<lambda>t. bind_run (load t (Some y)) (\<lambda>p.
      if n_value p = None \<and> \<not> (n_left p \<noteq> None \<and> n_right p \<noteq> None) then remove_loop (Suc f) t (Some y) else Ret t))"
    unfolding remove_loop_step [OF rep y u, of "Suc f", OF tips] using c t1(1) by auto
  with tl show ?thesis by simp
qed

lemma loose_subst_Tip:
  assumes "loose s" "dist s" "child_of y a s" "sub y s = Nd y b k v l r" "v \<noteq> None \<or> root_of s = Some y"
  shows "loose (subst a Tip s)"
proof (cases s)
  case (Nd a' b' k' v' l' r')
  have a: "a' \<noteq> a" using child_of_neq [OF assms(2,3)] Nd by auto
  show ?thesis
  proof (cases "a' = y")
    case True
    then have "\<not> child_of y a l'" "\<not> child_of y a r'" using assms(2) Nd by (auto dest: child_of_addrs)
    then have "root_of l' = Some a \<or> root_of r' = Some a" using assms(3) Nd by auto
    then have "subst a Tip l' = (if root_of l' = Some a then Tip else l')"
      "subst a Tip r' = (if root_of r' = Some a then Tip else r')"
      using assms(2) Nd by (cases l'; cases r'; auto dest: root_of_Some)+
    then show ?thesis using assms(1) Nd a by auto
  next
    case False
    then obtain x where v: "v = Some x" using assms(5) Nd by auto
    consider "child_of y a l'" | "child_of y a r'" using assms(3) Nd False by auto
    then show ?thesis
    proof cases
      case 1
      then have m: "y \<in> addrs l'" "a \<notin> addrs r'" using child_of_addrs [OF 1] assms(2) Nd by auto
      have "joined (subst a Tip l')"
        by (rule joined_subst_Tip [of _ y _ b k x l r]) (use assms(1,2,4) Nd v False m 1 in auto)
      with m a assms(1) Nd show ?thesis by auto
    next
      case 2
      then have m: "y \<notin> addrs l'" "a \<notin> addrs l'" using child_of_addrs [OF 2] assms(2) Nd by auto
      have "joined (subst a Tip r')"
        by (rule joined_subst_Tip [of _ y _ b k x l r]) (use assms(1,2,4) Nd v False m 2 in auto)
      with m a assms(1) Nd show ?thesis by auto
    qed
  qed
qed simp

text \<open>A leaf goes; its parent stays, when it has a value or is the root.\<close>

lemma remove_leaf_loop:
  assumes "trie_rep t s" "child_of y a s" "sub a s = Nd a b k v Tip Tip"
  shows "\<exists>t'. trie_rep t' (subst a Tip s) \<and> (\<forall>f. remove_loop (Suc f) t (Some a) =
    bind_run (load t' (Some y)) (\<lambda>p.
      if n_value p = None \<and> \<not> (n_left p \<noteq> None \<and> n_right p \<noteq> None) then remove_loop f t' (Some y)
      else Ret t'))"
  using remove_leaf_rep [OF assms refl refl] remove_loop_step [OF assms disjI1 [OF refl]] by force

lemma remove_leaf_stay:
  assumes rep: "trie_rep t s" and s: "ok s" "loose s" and y: "child_of y a s"
    and u: "sub a s = Nd a b k (Some x) Tip Tip" and p: "sub y s = Nd y b' k' v' l' r'"
    "v' \<noteq> None \<or> root_of s = Some y"
  shows "removed (remove_loop (Suc (Suc f)) t (Some a)) s (a, k, x)"
proof -
  have a: "a \<in> addrs s" and d: "dist s" using child_of_addrs [OF y] rep by (auto simp: trie_rep_def)
  have new: "ok (subst a Tip s)" "set (entries (subst a Tip s)) = set (entries s) - {(a, k, x)}"
    using subst_removed [OF rep s(1) a u a, of Tip k x] by auto
  obtain t1 where t1: "trie_rep t1 (subst a Tip s)" and
    loop: "\<forall>f. remove_loop (Suc f) t (Some a) =
      bind_run (load t1 (Some y)) (\<lambda>p.
      if n_value p = None \<and> \<not> (n_left p \<noteq> None \<and> n_right p \<noteq> None) then remove_loop f t1 (Some y)
      else Ret t1)"
    using remove_leaf_loop [OF rep y u] by blast
  have sy: "sub y (subst a Tip s) = Nd y b' k' v' (subst a Tip l') (subst a Tip r')" "y \<in> addrs (subst a Tip s)"
    using sub_subst_parent [OF d y p(1)] by blast+
  have "v' = None" if "uniform s"
    by (rule uniform_inner [OF s(1) that _ p(1)]) (use child_of_addrs [OF y] child_of_sub [OF y d] p(1) u in auto)
  moreover have "root_of s \<noteq> Some a" using child_of_neq [OF d y] by blast
  ultimately show ?thesis
    using tail_removed [OF t1 new(1) loose_subst_Tip [OF s(2) d y p] new(2) sy(2) same_root_subst] sy(1)
    unfolding loop [rule_format] by blast
qed

text \<open>A leaf goes and its parent, an inner node without a value, goes with it.\<close>

lemma remove_single_loop:
  assumes "trie_rep t s" "child_of z y s" "sub y s = Nd y b k v l r" "l = Tip \<and> r = c \<or> r = Tip \<and> l = c" "c \<noteq> Tip"
  shows "\<exists>t'. trie_rep t' (subst y c s) \<and> (\<forall>f. remove_loop (Suc f) t (Some y) =
    bind_run (load t' (Some z)) (\<lambda>p.
      if n_value p = None \<and> \<not> (n_left p \<noteq> None \<and> n_right p \<noteq> None) then remove_loop f t' (Some z)
      else Ret t'))"
proof -
  have "l = Tip \<or> r = Tip" "\<not> (l = Tip \<and> r = Tip)" using assms(4,5) by auto
  then show ?thesis
    using remove_single_rep [OF assms] remove_loop_step [OF assms(1-3)] by force
qed

lemma remove_leaf_climb:
  assumes rep: "trie_rep t s" and s: "ok s" "loose s" and y: "child_of y a s"
    and u: "sub a s = Nd a b k (Some x) Tip Tip" and p: "sub y s = Nd y b' k' None l' r'" "root_of s \<noteq> Some y"
  shows "removed (remove_loop (Suc (Suc (Suc f))) t (Some a)) s (a, k, x)"
proof -
  have a: "a \<in> addrs s" "y \<in> addrs s" and d: "dist s" using child_of_addrs [OF y] rep by (auto simp: trie_rep_def)
  obtain z where z: "child_of z y s" using child_ofE [OF a(2) p(2)] by blast
  have ju: "joined (sub y s)" by (rule nonroot_joined [OF s(2) a(2) p(2)])
  have dw: "dist (sub y s)" by (rule sub_dist [OF d])
  have oks: "ok (sub y s)" by (rule sub_ok [OF s(1)])
  obtain c where c: "l' = sub a s \<and> r' = c \<or> r' = sub a s \<and> l' = c" "root_of c \<noteq> Some a" "c \<noteq> Tip"
    using child_of_sub [OF y d] p(1) ju by auto
  have na: "a \<notin> addrs c" and jc: "joined c" using c(1) dw ju p(1) u by auto
  have okc: "ok c" "b' \<le> bitn c" using sub_bit_above [of y b' k' None l' r' c] oks p(1) c(1,3) by auto
  have E: "set (entries c) = set (entries (sub y s)) - {(a, k, x)}" "(a, k, x) \<in> set (entries (sub y s))"
    using c(1) u na entries_addrs [of a k x c] unfolding p(1) by auto
  have new: "ok (subst y c s)" "set (entries (subst y c s)) = set (entries s) - {(a, k, x)}"
    using subst_removed [OF rep s(1) a(1) refl a(2) E okc(1)] p(1) okc(2) by auto
  have lo: "loose (subst y c s)" by (rule loose_subst [OF s(2) jc c(3) p(2)])
  obtain t1 where t1: "trie_rep t1 (subst a Tip s)" and
    loop1: "\<forall>f. remove_loop (Suc f) t (Some a) = bind_run (load t1 (Some y)) (\<lambda>p.
      if n_value p = None \<and> \<not> (n_left p \<noteq> None \<and> n_right p \<noteq> None) then remove_loop f t1 (Some y)
      else Ret t1)"
    using remove_leaf_loop [OF rep y u] by blast
  have sy: "sub y (subst a Tip s) = Nd y b' k' None (subst a Tip l') (subst a Tip r')" "y \<in> addrs (subst a Tip s)"
    using sub_subst_parent [OF d y p(1)] by blast+
  have one: "subst a Tip l' = Tip \<and> subst a Tip r' = c \<or> subst a Tip r' = Tip \<and> subst a Tip l' = c"
    using c(1) u na by auto
  obtain t2 where t2: "trie_rep t2 (subst y c s)" and
    loop2: "\<forall>f. remove_loop (Suc f) t1 (Some y) = bind_run (load t2 (Some z)) (\<lambda>p.
      if n_value p = None \<and> \<not> (n_left p \<noteq> None \<and> n_right p \<noteq> None) then remove_loop f t2 (Some z)
      else Ret t2)"
    using remove_single_loop [OF t1 child_of_subst [OF d y z] sy(1) one c(3)] subst_subst_parent [OF d y] by auto
  obtain bz kz vz lz rz where sz: "sub z s = Nd z bz kz vz lz rz" "lz = sub y s \<or> rz = sub y s"
    using child_of_sub [OF z d] by blast
  then have zm: "sub z (subst y c s) = Nd z bz kz vz (subst y c lz) (subst y c rz)" "z \<in> addrs (subst y c s)"
    using sub_subst_parent [OF d z] by blast+
  have ky: "k \<in> keys (sub y s)" using E(2) by (force simp: keys_def)
  have "vz = None" if "uniform s"
    by (rule uniform_inner [OF s(1) that _ sz(1)]) (use child_of_addrs [OF z] sz(2) ky in auto)
  then have inner: "uniform s \<Longrightarrow> \<exists>b k l r. sub z (subst y c s) = Nd z b k None l r" using zm(1) by blast
  obtain q where "shape_at (tr_heap t1) q (sub y (subst a Tip s))"
    using sub_shape_at [OF _ sy(2), of "tr_heap t1" None] t1 by (auto simp: trie_rep_def)
  then have "\<exists>q. load t1 (Some y) = Ret (node_rec b' k' None q (root_of (subst a Tip l')) (root_of (subst a Tip r')))"
    using sy(1) by (auto simp: load_Some)
  then have "remove_loop (Suc (Suc (Suc f))) t (Some a) = remove_loop (Suc (Suc f)) t1 (Some y)"
    unfolding loop1 [rule_format] using one by auto
  with tail_removed [OF t2 new(1) lo new(2) zm(2) same_root_subst [OF p(2)] inner] show ?thesis
    unfolding loop2 [rule_format] by simp
qed

text \<open>Removal of any entry.\<close>

lemma remove_loose:
  assumes rep: "trie_rep t s" and s: "ok s" "loose s" and e: "(a, k, x) \<in> set (entries s)"
  shows "removed (remove_node t (Some a)) s (a, k, x)"
proof -
  have a: "a \<in> addrs s" using entries_addrs [OF e] .
  have d: "dist s" using rep by (simp add: trie_rep_def)
  have "0 < tr_next t" using a rep by (auto simp: trie_rep_def)
  then obtain n where "tr_next t = Suc n" by (cases "tr_next t") auto
  then obtain f where f: "walk_bound t = Suc (Suc (Suc f))" by (simp add: walk_bound_def)
  obtain b l r where u: "sub a s = Nd a b k (Some x) l r" using entry_sub [OF d e] by blast
  have oku: "ok (sub a s)" by (rule sub_ok [OF s(1)])
  have du: "dist (sub a s)" by (rule sub_dist [OF d])
  consider (two) "l \<noteq> Tip" "r \<noteq> Tip" | (root) "root_of s = Some a" "l = Tip \<or> r = Tip"
    | (single) y c where "child_of y a s" "l = Tip \<and> r = c \<or> r = Tip \<and> l = c" "c \<noteq> Tip"
    | (leaf) y where "child_of y a s" "l = Tip" "r = Tip"
    using child_ofE [OF a] by blast
  then show ?thesis
  proof cases
    case two
    let ?u = "Nd a b (k\<lparr>pk_bits := 0\<rparr>) None l r"
    have E: "set (entries ?u) = set (entries (sub a s)) - {(a, k, x)}"
      using entry_entries du u by simp
    have "ok ?u" using oku u ok_clear by metis
    then have new: "ok (subst a ?u s)" "set (entries (subst a ?u s)) = set (entries s) - {(a, k, x)}"
      using subst_removed [OF rep s(1) a refl a E] u by auto
    have "loose (subst a ?u s)"
    proof (cases "root_of s = Some a")
      case True
      then show ?thesis using u root_sub [OF True] s(2) by simp
    next
      case False
      have "joined ?u" using nonroot_joined [OF s(2) a False] u two by simp
      then show ?thesis by (rule loose_subst [OF s(2) _ _ False]) simp
    qed
    moreover have "\<not> uniform s"
    proof
      assume "uniform s"
      moreover have "root_of s \<noteq> Some a \<or> loose (sub a s)" using root_sub [of s a] s(2) by auto
      then have "joined l" using nonroot_joined [OF s(2) a] u by auto
      then have "keys l \<union> keys r \<noteq> {}" using joined_keys two(1) by blast
      ultimately show False using uniform_inner [OF s(1) _ a u] by blast
    qed
    moreover have "same_root s (subst a ?u s)"
    proof (cases "root_of s = Some a")
      case True
      then have "s = Nd a b k (Some x) l r" using root_sub [OF True] u by simp
      then show ?thesis by (simp add: same_root_def)
    qed (rule same_root_subst)
    ultimately show ?thesis
      using new remove_two [OF rep a u two, of "Suc (Suc f)"] unfolding removed_def remove_node_def f by blast
  next
    case root
    then have s': "s = Nd a b k (Some x) l r" using u root_sub by metis
    then have "remove_node t (Some a) = remove_root t (Some a)"
      using rep root(2) by (auto simp: remove_node_def f trie_rep_def load_Some)
    then show ?thesis using remove_root_entry [OF rep s' s root(2)] by simp
  next
    case single
    then show ?thesis using remove_single_entry [OF rep s single(1) u single(2,3)] by (simp only: remove_node_def f)
  next
    case leaf
    obtain b' k' v' l' r' where p: "sub y s = Nd y b' k' v' l' r'" using child_of_sub [OF leaf(1) d] by blast
    show ?thesis
    proof (cases "v' \<noteq> None \<or> root_of s = Some y")
      case True
      then show ?thesis using remove_leaf_stay [OF rep s leaf(1) _ p] u leaf(2,3) by (simp only: remove_node_def f)
    next
      case False
      then show ?thesis using remove_leaf_climb [OF rep s leaf(1), of b k x b' k' l' r' f] u p leaf(2,3)
        by (simp only: remove_node_def f) simp
    qed
  qed
qed

end
