(* ===== verification/Patricia_Store.thy ===== *)
theory Patricia_Store
  imports Patricia_Remove
begin

text \<open>
  What clients of the trie rely on, as interfaces: a store that can be looked up, one that grows
  by insertions, one that lists its values in the order of the keys, one that shrinks by removals.
  The lemmas about sequences of operations are proved once, from the laws; \<open>trie\<close> interprets all of
  them on the model of \<^verbatim>\<open>patricia_trie\<close>. The abstraction is the map from bit sequences to values:
  \<open>trie_models L\<close> for a trie built by insertions of keys of \<open>L\<close> bits, \<open>trie_holds\<close> for one that
  may have lost entries since.
\<close>

subsection \<open>Interfaces\<close>

text \<open>Sequences of insertions and removals, with any implementation of them.\<close>

fun put_all :: "('t \<Rightarrow> 'k \<Rightarrow> 'v \<Rightarrow> (bool \<times> 't) run) \<Rightarrow> 't \<Rightarrow> ('k \<times> 'v) list \<Rightarrow> 't run" where
  "put_all put t [] = Ret t"
| "put_all put t ((k, x) # kxs) = bind_run (put t k x) (\<lambda>(_, t). put_all put t kxs)"

fun drop_all :: "('t \<Rightarrow> 'k \<Rightarrow> (bool \<times> 't) run) \<Rightarrow> 't \<Rightarrow> 'k list \<Rightarrow> 't run" where
  "drop_all dele t [] = Ret t"
| "drop_all dele t (k # ks) = bind_run (dele t k) (\<lambda>(_, t). drop_all dele t ks)"

locale lookup_store =
  fixes holds :: "'t \<Rightarrow> ('b \<Rightarrow> 'v option) \<Rightarrow> bool"
    and usable :: "'k \<Rightarrow> bool"
    and name :: "'k \<Rightarrow> 'b"
    and get :: "'t \<Rightarrow> 'k \<Rightarrow> 'v option run"
  assumes get_holds: "holds t m \<Longrightarrow> usable k \<Longrightarrow> get t k = Ret (m (name k))"

locale growing_store = lookup_store holds usable name get
  for holds :: "'t \<Rightarrow> ('b \<Rightarrow> 'v option) \<Rightarrow> bool" and usable :: "'k \<Rightarrow> bool" and name and get +
  fixes models :: "'t \<Rightarrow> ('b \<Rightarrow> 'v option) \<Rightarrow> bool"
    and put :: "'t \<Rightarrow> 'k \<Rightarrow> 'v \<Rightarrow> (bool \<times> 't) run"
  assumes models_holds: "models t m \<Longrightarrow> holds t m"
    and put_models: "models t m \<Longrightarrow> usable k \<Longrightarrow> \<exists>t'. put t k x = Ret (m (name k) = None, t') \<and>
      models t' (if m (name k) = None then m(name k \<mapsto> x) else m)"
begin

text \<open>Of several insertions of a key the first one counts, and what was there before all of them.\<close>

lemma put_all_models:
  assumes "models t m" "\<forall>e \<in> set kxs. usable (fst e)"
  shows "\<exists>t'. put_all put t kxs = Ret t' \<and> models t' (map_of (map (\<lambda>(k, x). (name k, x)) kxs) ++ m)"
  using assms
proof (induction kxs arbitrary: t m)
  case (Cons kx kxs)
  obtain k x where kx: "kx = (k, x)" by (cases kx)
  let ?m = "if m (name k) = None then m(name k \<mapsto> x) else m"
  obtain t1 where t1: "put t k x = Ret (m (name k) = None, t1)" "models t1 ?m"
    using put_models [OF Cons.prems(1), of k x] Cons.prems(2) kx by auto
  moreover have "map_of (map (\<lambda>(k, x). (name k, x)) kxs) ++ ?m =
      map_of (map (\<lambda>(k, x). (name k, x)) (kx # kxs)) ++ m"
    using kx by (auto simp: fun_eq_iff map_add_def split: option.splits)
  moreover have "put_all put t (kx # kxs) = put_all put t1 kxs" using t1(1) kx by simp
  ultimately show ?case using Cons.IH [OF t1(2)] Cons.prems(2) by (metis list.set_intros(2))
qed simp

end

locale ordered_store = growing_store holds usable name get models put
  for holds :: "'t \<Rightarrow> ('b \<Rightarrow> 'v option) \<Rightarrow> bool" and usable :: "'k \<Rightarrow> bool" and name and get and models and put +
  fixes elements :: "'t \<Rightarrow> 'v list run" and less_name :: "'b \<Rightarrow> 'b \<Rightarrow> bool"
  assumes elements_models: "models t m \<Longrightarrow> \<exists>bs. elements t = Ret (map (\<lambda>b. the (m b)) bs) \<and>
    set bs = dom m \<and> sorted_wrt less_name bs"
begin

text \<open>The values of a freshly built store: one for each name inserted, in the order of the names.\<close>

lemma elements_put_all:
  assumes "models t Map.empty" "\<forall>e \<in> set kxs. usable (fst e)"
  shows "\<exists>t' bs. put_all put t kxs = Ret t' \<and> set bs = name ` fst ` set kxs \<and> sorted_wrt less_name bs \<and>
    elements t' = Ret (map (\<lambda>b. the (map_of (map (\<lambda>(k, x). (name k, x)) kxs) b)) bs)"
proof -
  let ?m = "map_of (map (\<lambda>(k, x). (name k, x)) kxs)"
  obtain t' where t': "put_all put t kxs = Ret t'" "models t' ?m"
    using put_all_models [OF assms] by auto
  obtain bs where "elements t' = Ret (map (\<lambda>b. the (?m b)) bs)" "set bs = dom ?m" "sorted_wrt less_name bs"
    using elements_models [OF t'(2)] by blast
  moreover have "dom ?m = name ` fst ` set kxs" by (force simp: dom_map_of_conv_image_fst)
  ultimately show ?thesis using t'(1) by auto
qed

end

locale shrinking_store = lookup_store holds usable name get
  for holds :: "'t \<Rightarrow> ('b \<Rightarrow> 'v option) \<Rightarrow> bool" and usable :: "'k \<Rightarrow> bool" and name and get +
  fixes dele :: "'t \<Rightarrow> 'k \<Rightarrow> (bool \<times> 't) run"
  assumes dele_holds: "holds t m \<Longrightarrow> usable k \<Longrightarrow> \<exists>t'. dele t k = Ret (m (name k) \<noteq> None, t') \<and>
    holds t' (m(name k := None))"
begin

lemma drop_all_holds:
  assumes "holds t m" "\<forall>k \<in> set ks. usable k"
  shows "\<exists>t'. drop_all dele t ks = Ret t' \<and> holds t' (m |` (- name ` set ks))"
  using assms
proof (induction ks arbitrary: t m)
  case (Cons k ks)
  obtain t1 where t1: "dele t k = Ret (m (name k) \<noteq> None, t1)" "holds t1 (m(name k := None))"
    using dele_holds [OF Cons.prems(1)] Cons.prems(2) by auto
  moreover have "(m(name k := None)) |` (- name ` set ks) = m |` (- name ` set (k # ks))"
    by (auto simp: fun_eq_iff restrict_map_def)
  moreover have "drop_all dele t (k # ks) = drop_all dele t1 ks" using t1(1) by simp
  ultimately show ?case using Cons.IH [OF t1(2)] Cons.prems(2) by (metis list.set_intros(2))
qed (simp add: restrict_map_def)

end

text \<open>Both: what is found after insertions and then removals.\<close>

locale changing_store = growing_store holds usable name get models put + shrinking_store holds usable name get dele
  for holds :: "'t \<Rightarrow> ('b \<Rightarrow> 'v option) \<Rightarrow> bool" and usable :: "'k \<Rightarrow> bool" and name and get and models and put
    and dele
begin

lemma get_after:
  assumes "models t Map.empty" "\<forall>e \<in> set kxs. usable (fst e)" "\<forall>k \<in> set ks. usable k" "usable k"
  shows "bind_run (put_all put t kxs) (\<lambda>t. bind_run (drop_all dele t ks) (\<lambda>t. get t k)) =
    Ret (if name k \<in> name ` set ks then None else map_of (map (\<lambda>(k, x). (name k, x)) kxs) (name k))"
proof -
  obtain t1 where t1: "put_all put t kxs = Ret t1" "models t1 (map_of (map (\<lambda>(k, x). (name k, x)) kxs))"
    using put_all_models [OF assms(1,2)] by auto
  obtain t2 where "drop_all dele t1 ks = Ret t2"
    "holds t2 (map_of (map (\<lambda>(k, x). (name k, x)) kxs) |` (- name ` set ks))"
    using drop_all_holds [OF models_holds [OF t1(2)] assms(3)] by blast
  then show ?thesis using t1(1) get_holds [OF _ assms(4)] by (simp add: restrict_map_def)
qed

end

text \<open>A store that lists its values in order, but not after removals that left fewer than two of them: then
  \<open>fault\<close>. \<open>pruned\<close> is what it is after a removal.\<close>

locale pruned_store = ordered_store holds usable name get models put elements less_name
  for holds :: "'t \<Rightarrow> ('b \<Rightarrow> 'v option) \<Rightarrow> bool" and usable :: "'k \<Rightarrow> bool" and name and get and models and put
    and elements and less_name +
  fixes dele :: "'t \<Rightarrow> 'k \<Rightarrow> (bool \<times> 't) run"
    and pruned :: "'t \<Rightarrow> ('b \<Rightarrow> 'v option) \<Rightarrow> bool"
    and fault :: string
  assumes dele_models: "models t m \<Longrightarrow> usable k \<Longrightarrow> \<exists>t'. dele t k = Ret (m (name k) \<noteq> None, t') \<and>
      (if m (name k) = None then t' = t else pruned t' (m(name k := None)))"
    and dele_pruned: "pruned t m \<Longrightarrow> usable k \<Longrightarrow> \<exists>t'. dele t k = Ret (m (name k) \<noteq> None, t') \<and>
      pruned t' (m(name k := None))"
    and elements_pruned: "pruned t m \<Longrightarrow> 2 \<le> card (dom m) \<Longrightarrow> \<exists>bs. elements t = Ret (map (\<lambda>b. the (m b)) bs) \<and>
      set bs = dom m \<and> sorted_wrt less_name bs"
    and elements_fault: "pruned t m \<Longrightarrow> card (dom m) < 2 \<Longrightarrow> elements t = Abort fault"
begin

lemma restrict_cons: "(m(name k := None)) |` (- name ` set ks) = m |` (- name ` set (k # ks))"
  by (auto simp: fun_eq_iff restrict_map_def)

lemma drop_all_pruned:
  assumes "pruned t m" "\<forall>k \<in> set ks. usable k"
  shows "\<exists>t'. drop_all dele t ks = Ret t' \<and> pruned t' (m |` (- name ` set ks))"
  using assms
proof (induction ks arbitrary: t m)
  case (Cons k ks)
  obtain t1 where t1: "dele t k = Ret (m (name k) \<noteq> None, t1)" "pruned t1 (m(name k := None))"
    using dele_pruned [OF Cons.prems(1), of k] Cons.prems(2) by auto
  then show ?case using Cons.IH [OF t1(2)] Cons.prems(2) unfolding restrict_cons by simp
qed (simp add: restrict_map_def)

lemma drop_all_models:
  assumes "models t m" "\<forall>k \<in> set ks. usable k"
  shows "\<exists>t'. drop_all dele t ks = Ret t' \<and>
    (if name ` set ks \<inter> dom m = {} then t' = t else pruned t' (m |` (- name ` set ks)))"
  using assms(2)
proof (induction ks)
  case (Cons k ks)
  show ?case
  proof (cases "m (name k)")
    case None
    then have "m(name k := None) = m" by auto
    then have "m |` (- name ` set (k # ks)) = m |` (- name ` set ks)" using restrict_cons [of m k ks] by simp
    moreover have "name ` set (k # ks) \<inter> dom m = name ` set ks \<inter> dom m" using None by auto
    moreover have "drop_all dele t (k # ks) = drop_all dele t ks"
      using dele_models [OF assms(1), of k] Cons.prems None by auto
    moreover note Cons.IH
    ultimately show ?thesis using Cons.prems by (metis list.set_intros(2))
  next
    case (Some x)
    then obtain t1 where t1: "dele t k = Ret (True, t1)" "pruned t1 (m(name k := None))"
      using dele_models [OF assms(1), of k] Cons.prems by auto
    then show ?thesis using drop_all_pruned [OF t1(2), of ks] Cons.prems Some unfolding restrict_cons by auto
  qed
qed simp

lemma elements_after:
  assumes "models t Map.empty" "\<forall>e \<in> set kxs. usable (fst e)" "\<forall>k \<in> set ks. usable k"
    "m = map_of (map (\<lambda>(k, x). (name k, x)) kxs) |` (- name ` set ks)"
    "whole \<longleftrightarrow> name ` set ks \<inter> name ` fst ` set kxs = {}"
  shows "(whole \<or> 2 \<le> card (dom m) \<longrightarrow> (\<exists>bs. bind_run (put_all put t kxs) (\<lambda>t. bind_run (drop_all dele t ks) elements) =
        Ret (map (\<lambda>b. the (m b)) bs) \<and> set bs = dom m \<and> sorted_wrt less_name bs)) \<and>
    (\<not> whole \<and> card (dom m) < 2 \<longrightarrow>
      bind_run (put_all put t kxs) (\<lambda>t. bind_run (drop_all dele t ks) elements) = Abort fault)"
proof -
  let ?m = "map_of (map (\<lambda>(k, x). (name k, x)) kxs)"
  obtain t1 where t1: "put_all put t kxs = Ret t1" "models t1 ?m" using put_all_models [OF assms(1,2)] by auto
  have "dom ?m = name ` fst ` set kxs" by (force simp: dom_map_of_conv_image_fst)
  then obtain t2 where t2: "drop_all dele t1 ks = Ret t2" "if whole then t2 = t1 else pruned t2 m"
    using drop_all_models [OF t1(2) assms(3)] assms(4,5) by auto
  show ?thesis
  proof (cases whole)
    case True
    then have "dom ?m \<subseteq> - name ` set ks" using assms(5) \<open>dom ?m = _\<close> by blast
    then have "m b = ?m b" for b unfolding assms(4) by (metis domIff restrict_in restrict_out subsetD)
    then have "m = ?m" by blast
    then show ?thesis using elements_models [OF t1(2)] t1(1) t2 True by auto
  next
    case False
    then show ?thesis using elements_pruned elements_fault t1(1) t2 by auto
  qed
qed

end

subsection \<open>The trie as such a store\<close>

definition trie_holds :: "'v patricia_trie \<Rightarrow> (bool list \<Rightarrow> 'v option) \<Rightarrow> bool" where
  "trie_holds t m \<longleftrightarrow> tr_root t = None \<and> m = Map.empty \<or>
     (\<exists>s. trie_rep t s \<and> ok s \<and> loose s \<and> m = contents s)"

definition trie_models :: "nat \<Rightarrow> 'v patricia_trie \<Rightarrow> (bool list \<Rightarrow> 'v option) \<Rightarrow> bool" where
  "trie_models L t m \<longleftrightarrow> 0 < L \<and>
     (tr_root t = None \<and> (\<forall>a \<ge> tr_next t. tr_heap t a = None) \<and> m = Map.empty \<or>
      (\<exists>s. trie_rep t s \<and> grown L s \<and> m = contents s \<and> m \<noteq> Map.empty))"

definition trie_usable :: "nat \<Rightarrow> patricia_key \<Rightarrow> bool" where
  "trie_usable L key \<longleftrightarrow> wf_key key \<and> pk_bits key = L"

text \<open>\<^verbatim>\<open>find\<close> and, when it is not \<^verbatim>\<open>end()\<close>, the value.\<close>

definition trie_lookup :: "'v patricia_trie \<Rightarrow> patricia_key \<Rightarrow> 'v option run" where
  "trie_lookup t key = bind_run (trie_find t key) (\<lambda>it.
     if it = None then Ret None else bind_run (iterator_deref t it) (\<lambda>x. Ret (Some x)))"

definition bit_less :: "bool list \<Rightarrow> bool list \<Rightarrow> bool" where
  "bit_less xs ys \<longleftrightarrow> (xs, ys) \<in> bit_order"

lemma trie_models_new: "0 < L \<Longrightarrow> trie_models L trie_new Map.empty"
  by (simp add: trie_models_def trie_new_def)

lemma grown_loose: "grown L s \<Longrightarrow> loose s"
  by (auto simp: grown_def)

lemma trie_lookup_holds:
  assumes "trie_holds t m" "wf_key key"
  shows "trie_lookup t key = Ret (m (key_bits key))"
  using assms(1) unfolding trie_holds_def
proof (elim disjE exE conjE)
  assume "tr_root t = None" "m = Map.empty"
  then show ?thesis by (simp add: trie_lookup_def trie_find_def find_node_def)
next
  fix s assume s: "trie_rep t s" "ok s" "m = contents s"
  note find = trie_find_shape [OF s(1,2) assms(2)]
  show ?thesis
  proof (cases "m (key_bits key)")
    case None
    then show ?thesis using find(1) s(3) by (simp add: trie_lookup_def)
  next
    case (Some x)
    then obtain a k where "(a, k, x) \<in> set (entries s)" "key_bits k = key_bits key"
      using contents_eq_Some [OF s(2)] s(3) by auto
    from find(2) [OF this] Some show ?thesis by (simp add: trie_lookup_def)
  qed
qed

lemma trie_remove_holds:
  assumes "trie_holds t m" "wf_key key"
  shows "\<exists>t'. trie_remove t key = Ret (m (key_bits key) \<noteq> None, t') \<and> trie_holds t' (m(key_bits key := None))"
  using assms(1) unfolding trie_holds_def [of t m]
proof (elim disjE exE conjE)
  assume n: "tr_root t = None" "m = Map.empty"
  then have "trie_holds t (m(key_bits key := None))" by (simp add: trie_holds_def fun_upd_def)
  then show ?thesis using n by (simp add: trie_remove_def trie_find_def find_node_def)
next
  fix s assume s: "trie_rep t s" "ok s" "loose s" "m = contents s"
  note find = trie_find_shape [OF s(1,2) assms(2)]
  show ?thesis
  proof (cases "m (key_bits key)")
    case None
    then have "m(key_bits key := None) = m" by auto
    then show ?thesis using find(1) s(4) None assms(1) by (simp add: trie_remove_def)
  next
    case (Some x)
    then obtain a k where e: "(a, k, x) \<in> set (entries s)" "key_bits k = key_bits key"
      using contents_eq_Some [OF s(2)] s(4) by auto
    obtain t' s' where t': "remove_node t (Some a) = Ret t'" "trie_rep t' s'" "ok s'" "loose s'"
      "set (entries s') = set (entries s) - {(a, k, x)}"
      using remove_loose [OF s(1-3) e(1)] unfolding removed_def by blast
    then have "trie_holds t' (m(key_bits key := None))"
      using contents_drop [OF s(2) t'(3) e(1) t'(5)] s(4) e(2) unfolding trie_holds_def by auto
    then show ?thesis using find(2) [OF e] t'(1) Some by (simp add: trie_remove_def trie_erase_def)
  qed
qed

lemma trie_insert_null:
  assumes "tr_root t = None" "\<forall>a \<ge> tr_next t. tr_heap t a = None" "0 < L"
  shows "\<exists>t1 s. (\<forall>key. insert_node t key = insert_node t1 key) \<and> trie_rep t1 s \<and> grown L s \<and>
    contents s = Map.empty"
proof -
  let ?a = "tr_next t"
  let ?t = "t\<lparr>tr_heap := (tr_heap t)(?a := Some (node_rec 0 empty_key None None None None)), tr_next := Suc ?a,
    tr_root := Some ?a\<rparr>"
  have "bind_run (make_node t empty_key 0) (\<lambda>(a, t). Ret (t\<lparr>tr_root := Some a\<rparr>)) = Ret ?t"
    by (simp add: make_node_def key_empty_def empty_key_def store_def node_rec_def Let_def)
  then have "insert_node t key = insert_node ?t key" for key
    unfolding insert_node_def using assms(1) by simp
  moreover have "trie_rep ?t (Nd ?a 0 empty_key None Tip Tip)" using assms(2) by (auto simp: trie_rep_def)
  moreover have "grown L (Nd ?a 0 empty_key None Tip Tip)" using assms(3)
    by (simp add: grown_def bit_above_def agree_def empty_key_def)
  ultimately show ?thesis
    by (intro exI [of _ ?t] exI [of _ "Nd ?a 0 empty_key None Tip Tip"]) (simp add: trie_insert_def contents_def)
qed

text \<open>An insertion, with the node it leads to: the one a search for the key finds afterwards.\<close>

lemma trie_insert_node:
  assumes "trie_models L t m" "trie_usable L key"
  shows "\<exists>t' t1 p. trie_insert t key x = Ret (m (key_bits key) = None, t') \<and>
    trie_models L t' (if m (key_bits key) = None then m(key_bits key \<mapsto> x) else m) \<and>
    insert_node t key = Ret (Some p, t1) \<and> trie_find t' key = Ret (Some p) \<and>
    iterator_deref t' (Some p) = Ret (case m (key_bits key) of None \<Rightarrow> x | Some y \<Rightarrow> y)"
proof -
  let ?m = "if m (key_bits key) = None then m(key_bits key \<mapsto> x) else m"
  have L: "0 < L" using assms(1) by (simp add: trie_models_def)
  have key: "wf_key key" "pk_bits key = L" using assms(2) by (simp_all add: trie_usable_def)
  obtain t0 s where t0: "\<forall>key. insert_node t key = insert_node t0 key" "trie_rep t0 s" "grown L s" "m = contents s"
    using assms(1) unfolding trie_models_def
  proof (elim disjE exE conjE)
    assume n: "tr_root t = None" "\<forall>a \<ge> tr_next t. tr_heap t a = None" "m = Map.empty"
    from trie_insert_null [OF n(1,2) L] n(3) show ?thesis using that by metis
  qed blast
  from insert_grown [OF t0(2,3) key, of x] obtain t' s' t1 p k y where t':
    "trie_insert t0 key x = Ret (m (key_bits key) = None, t')" "trie_rep t' s'" "grown L s'" "contents s' = ?m"
    "insert_node t0 key = Ret (Some p, t1)" "(p, k, y) \<in> set (entries s')" "key_bits k = key_bits key"
    unfolding t0(4) by blast
  have ok: "ok s'" using t'(3) by (simp add: grown_def)
  note find = trie_find_shape(2) [OF t'(2) ok key(1) t'(6,7)]
  have "?m (key_bits key) = Some y" using contents_eq_Some [OF ok, of "key_bits key" y] t'(4,6,7) by auto
  then have "y = (case m (key_bits key) of None \<Rightarrow> x | Some y \<Rightarrow> y)" by (auto split: if_splits option.splits)
  moreover have "?m \<noteq> Map.empty" by (metis fun_upd_same option.distinct(1))
  moreover have "trie_insert t key x = trie_insert t0 key x" using t0(1) by (simp add: trie_insert_def)
  ultimately show ?thesis using t' t0(1) L find unfolding trie_models_def by metis
qed

lemma trie_insert_models:
  assumes "trie_models L t m" "trie_usable L key"
  shows "\<exists>t'. trie_insert t key x = Ret (m (key_bits key) = None, t') \<and>
    trie_models L t' (if m (key_bits key) = None then m(key_bits key \<mapsto> x) else m)"
  using trie_insert_node [OF assms] by metis

text \<open>A loop over a trie whose root has a child.\<close>

lemma trie_values_rooted:
  assumes rep: "trie_rep t s" and ok: "ok s" and root: "s \<noteq> Tip" "\<not> childless s"
  shows "\<exists>bs. trie_values t = Ret (map (\<lambda>b. the (contents s b)) bs) \<and> set bs = dom (contents s) \<and> sorted_wrt bit_less bs"
proof -
  obtain a b k v l r where "s = Nd a b k v l r" "l \<noteq> Tip \<or> r \<noteq> Tip" using root by (cases s) auto
  from trie_values_shape [OF rep this] have vals: "trie_values t = Ret (map (\<lambda>e. snd (snd e)) (entries s))" .
  let ?b = "\<lambda>e. key_bits (fst (snd e))"
  have "the (contents s (?b e)) = snd (snd e)" if "e \<in> set (entries s)" for e
  proof -
    have "contents s (?b e) = Some (snd (snd e))"
      unfolding contents_eq_Some [OF ok] using that by (metis prod.collapse)
    then show ?thesis by simp
  qed
  then have "map (\<lambda>e. snd (snd e)) (entries s) = map (\<lambda>b. the (contents s b)) (map ?b (entries s))" by simp
  moreover have "set (map ?b (entries s)) = dom (contents s)"
    unfolding contents_def dom_map_of_conv_image_fst by force
  moreover have "sorted_wrt bit_less (map ?b (entries s))"
    using entries_sorted [OF ok] by (simp add: sorted_wrt_map bit_less_def)
  ultimately show ?thesis using vals by metis
qed

lemma trie_values_models:
  assumes "trie_models L t m"
  shows "\<exists>bs. trie_values t = Ret (map (\<lambda>b. the (m b)) bs) \<and> set bs = dom m \<and> sorted_wrt bit_less bs"
  using assms unfolding trie_models_def
proof (elim conjE disjE exE)
  assume "tr_root t = None" "m = Map.empty"
  then show ?thesis by (simp add: trie_values_def trie_begin_def make_iterator_def walk_bound_def)
next
  fix s assume s: "trie_rep t s" "grown L s" "m = contents s" "m \<noteq> Map.empty"
  have ok: "ok s" using s(2) by (simp add: grown_def)
  have "entries s \<noteq> []" using s(3,4) by (auto simp: contents_def)
  then have "s \<noteq> Tip" "\<not> childless s" using s(2) by (auto simp: grown_def)
  from trie_values_rooted [OF s(1) ok this] show ?thesis using s(3) by simp
qed

lemma trie_models_holds: "trie_models L t m \<Longrightarrow> trie_holds t m"
  using grown_loose unfolding trie_models_def trie_holds_def grown_def by metis

subsection \<open>After a removal\<close>

text \<open>The state after a removal: the root is whatever is left, and has no child when that is one entry or none.\<close>

definition trie_pruned :: "nat \<Rightarrow> 'v patricia_trie \<Rightarrow> (bool list \<Rightarrow> 'v option) \<Rightarrow> bool" where
  "trie_pruned L t m \<longleftrightarrow> (\<exists>s. trie_rep t s \<and> s \<noteq> Tip \<and> ok s \<and> loose s \<and> m = contents s \<and> (\<forall>k \<in> keys s. pk_bits k = L) \<and>
     (length (entries s) \<le> 1 \<longrightarrow> childless s))"

lemma card_contents: "ok s \<Longrightarrow> card (dom (contents s)) = length (entries s)"
  using distinct_card [OF distinct_entries, of s]
  by (simp add: contents_def dom_map_of_conv_image_fst image_image comp_def)

lemma removed_pruned:
  assumes rep: "trie_rep t s" and s: "ok s" "loose s" "\<forall>k \<in> keys s. pk_bits k = L" and key: "wf_key key"
    and v: "contents s (key_bits key) = Some x"
  shows "\<exists>t' s'. trie_remove t key = Ret (True, t') \<and> trie_rep t' s' \<and> s' \<noteq> Tip \<and> ok s' \<and> loose s' \<and>
    contents s' = (contents s)(key_bits key := None) \<and> (\<forall>k \<in> keys s'. pk_bits k = L) \<and>
    (length (entries s') \<le> 1 \<longrightarrow> childless s') \<and> same_root s s'"
proof -
  obtain a k where e: "(a, k, x) \<in> set (entries s)" "key_bits k = key_bits key"
    using contents_eq_Some [OF s(1)] v by auto
  obtain t' s' where t': "remove_node t (Some a) = Ret t'" "trie_rep t' s'" "ok s'" "loose s'"
    "set (entries s') = set (entries s) - {(a, k, x)}" "same_root s s'"
    "uniform s \<and> length (entries s') \<le> 1 \<longrightarrow> childless s'"
    using remove_loose [OF rep s(1,2) e(1)] unfolding removed_def by blast
  moreover have "keys s' \<subseteq> keys s" using t'(5) by (auto simp: keys_def)
  moreover have "uniform s" using s(3) by (simp add: uniform_def)
  moreover have "contents s' = (contents s)(key_bits key := None)"
    using contents_drop [OF s(1) t'(3) e(1) t'(5)] e(2) by simp
  moreover have "trie_remove t key = Ret (True, t')"
    using trie_find_shape(2) [OF rep s(1) key e] t'(1) by (simp add: trie_remove_def trie_erase_def)
  moreover have "s' \<noteq> Tip" using t'(7) \<open>uniform s\<close> by auto
  ultimately show ?thesis using s(3) by (intro exI [of _ t'] exI [of _ s']) blast
qed

lemma trie_remove_absent:
  assumes "trie_holds t m" "wf_key key" "m (key_bits key) = None"
  shows "trie_remove t key = Ret (False, t)"
  using assms(1) unfolding trie_holds_def
proof (elim disjE exE conjE)
  assume "tr_root t = None" "m = Map.empty"
  then show ?thesis by (simp add: trie_remove_def trie_find_def find_node_def)
next
  fix s assume s: "trie_rep t s" "ok s" "m = contents s"
  then show ?thesis using trie_find_shape(1) [OF s(1,2) assms(2)] assms(3) by (simp add: trie_remove_def)
qed

lemma trie_pruned_holds: "trie_pruned L t m \<Longrightarrow> trie_holds t m"
  unfolding trie_pruned_def trie_holds_def by blast

lemma trie_remove_pruned:
  assumes "trie_pruned L t m" "trie_usable L key"
  shows "\<exists>t'. trie_remove t key = Ret (m (key_bits key) \<noteq> None, t') \<and> trie_pruned L t' (m(key_bits key := None))"
proof (cases "m (key_bits key)")
  case None
  then have "m(key_bits key := None) = m" by auto
  then show ?thesis using None assms trie_remove_absent [OF trie_pruned_holds [OF assms(1)]]
    by (simp add: trie_usable_def)
next
  case (Some x)
  obtain s where s: "trie_rep t s" "ok s" "loose s" "m = contents s" "\<forall>k \<in> keys s. pk_bits k = L"
    using assms(1) unfolding trie_pruned_def by blast
  have w: "wf_key key" using assms(2) by (simp add: trie_usable_def)
  have "contents s (key_bits key) = Some x" using Some s(4) by simp
  from removed_pruned [OF s(1-3,5) w this] obtain t' where "trie_remove t key = Ret (True, t')"
    "trie_pruned L t' ((contents s)(key_bits key := None))" unfolding trie_pruned_def by metis
  then show ?thesis using Some s(4) by auto
qed

lemma trie_pruned_values:
  assumes "trie_pruned L t m"
  shows "2 \<le> card (dom m) \<Longrightarrow> \<exists>bs. trie_values t = Ret (map (\<lambda>b. the (m b)) bs) \<and> set bs = dom m \<and> sorted_wrt bit_less bs"
    "card (dom m) < 2 \<Longrightarrow> trie_values t = Abort ''null pointer''"
proof -
  obtain s where s: "trie_rep t s" "s \<noteq> Tip" "ok s" "m = contents s" "length (entries s) \<le> 1 \<longrightarrow> childless s"
    using assms unfolding trie_pruned_def by blast
  have card: "card (dom m) = length (entries s)" using card_contents [OF s(3)] s(4) by simp
  show "trie_values t = Abort ''null pointer''" if "card (dom m) < 2"
  proof -
    have "childless s" using s(5) card that by simp
    then show ?thesis using s(1) trie_values_childless by (cases s) auto
  qed
  show "\<exists>bs. trie_values t = Ret (map (\<lambda>b. the (m b)) bs) \<and> set bs = dom m \<and> sorted_wrt bit_less bs"
    if "2 \<le> card (dom m)"
  proof -
    have "\<not> childless s" using card that by (cases s) (auto split: option.splits)
    then show ?thesis using trie_values_rooted [OF s(1,3,2)] s(4) by simp
  qed
qed

text \<open>Stuck below a prefix: every key that does not start with it follows a null pointer when it is inserted.\<close>

definition trie_stuck :: "nat \<Rightarrow> bool list \<Rightarrow> 'v patricia_trie \<Rightarrow> bool" where
  "trie_stuck L pfx t \<longleftrightarrow> (\<forall>key x. trie_usable L key \<and> take (length pfx) (key_bits key) \<noteq> pfx \<longrightarrow>
     trie_insert t key x = Abort ''null pointer'')"

lemma collapsed_stuck:
  assumes "trie_rep t s" "s \<noteq> Tip" "ok s" "joined s" "\<forall>k \<in> keys s. pk_bits k = L"
  shows "\<exists>pfx. length pfx = bitn s \<and> trie_stuck L pfx t \<and> (\<forall>ks \<in> dom (contents s). take (length pfx) ks = pfx)"
proof -
  obtain a b k v l r where s: "s = Nd a b k v l r" using assms(2) by (cases s) auto
  obtain k0 where k0: "k0 \<in> keys s" using joined_keys [OF assms(4,2)] by blast
  have bL: "b \<le> L" using ok_key_bits [OF assms(3) k0] assms(5) k0 s by auto
  have lev: "level L s" by (rule joined_level [OF assms(3-5)])
  let ?p = "take b (key_bits k0)"
  have same: "take b (key_bits k') = ?p \<longleftrightarrow> (\<forall>i < b. test_bit k' i = test_bit k0 i)" if "pk_bits k' = L" for k'
    using take_key_bits_eq_iff [of b k' k0] that bL assms(5) k0 by simp
  have "trie_insert t key x = Abort ''null pointer''"
    if us: "trie_usable L key" and ne: "take b (key_bits key) \<noteq> ?p" for key x
  proof -
    have key: "wf_key key" "pk_bits key = L" using us by (simp_all add: trie_usable_def)
    obtain i where "i < b" "test_bit key i \<noteq> test_bit k0 i" using same [OF key(2)] ne by blast
    then show ?thesis using insert_collapsed [OF assms(1) s assms(3,4) lev key k0] by blast
  qed
  moreover have "length ?p = b" using bL assms(5) k0 by simp
  moreover have "take b ks = ?p" if ks: "ks \<in> dom (contents s)" for ks
  proof -
    obtain a' k' x where k': "(a', k', x) \<in> set (entries s)" "key_bits k' = ks"
      using contents_eq_Some [OF assms(3)] domD [OF ks] by metis
    then have mem: "k' \<in> keys s" by (auto simp: keys_entries)
    have "bitn s = b" using s by simp
    then have "\<forall>i < b. test_bit k' i = test_bit k0 i" using ok_agree [OF assms(3)] mem k0 unfolding agree_def by blast
    then show ?thesis using same [of k'] assms(5) mem k'(2) by blast
  qed
  ultimately show ?thesis using s by (intro exI [of _ ?p]) (simp add: trie_stuck_def)
qed

text \<open>What one removal leaves of a trie built by insertions.\<close>

lemma trie_remove_models:
  assumes "trie_models L t m" "trie_usable L key" "m (key_bits key) = Some x" "m' = m(key_bits key := None)"
  shows "\<exists>t'. trie_remove t key = Ret (True, t') \<and> trie_pruned L t' m' \<and>
    (m' \<noteq> Map.empty \<longrightarrow> trie_models L t' m' \<or>
      (\<exists>pfx. pfx \<noteq> [] \<and> trie_stuck L pfx t' \<and> (\<forall>ks \<in> dom m'. take (length pfx) ks = pfx))) \<and>
    (\<forall>ks. dom m' = {ks} \<longrightarrow> trie_stuck L ks t')"
proof -
  obtain s where s: "trie_rep t s" "grown L s" "m = contents s" "0 < L"
    using assms(1,3) unfolding trie_models_def by auto
  have g: "ok s" "loose s" "\<forall>k \<in> keys s. pk_bits k = L" using s(2) grown_loose [OF s(2)] by (simp_all add: grown_def)
  have w: "wf_key key" using assms(2) by (simp add: trie_usable_def)
  obtain t' s' where t': "trie_remove t key = Ret (True, t')" "trie_rep t' s'" "s' \<noteq> Tip" "ok s'" "loose s'"
    "contents s' = m'" "\<forall>k \<in> keys s'. pk_bits k = L" "length (entries s') \<le> 1 \<longrightarrow> childless s'" "same_root s s'"
    using removed_pruned [OF s(1) g w] assms(3,4) s(3) by blast
  obtain a l r where sh: "s = Nd a 0 empty_key None l r" using s(2) by (auto simp: grown_def)
  have root: "grown L s' \<or> joined s' \<and> 0 < bitn s'"
    using t'(4,5,7,9) s(4) sh unfolding same_root_def grown_def by fastforce
  have pr: "trie_pruned L t' m'" using t' unfolding trie_pruned_def by blast
  have "trie_models L t' m' \<or> (\<exists>pfx. pfx \<noteq> [] \<and> trie_stuck L pfx t' \<and> (\<forall>ks \<in> dom m'. take (length pfx) ks = pfx))"
    if "m' \<noteq> Map.empty"
    using root
  proof
    assume "grown L s'"
    then show ?thesis using t'(2,6) s(4) that unfolding trie_models_def by blast
  next
    assume "joined s' \<and> 0 < bitn s'"
    then show ?thesis using collapsed_stuck [OF t'(2-4) _ t'(7)] t'(6) by fastforce
  qed
  moreover have "trie_stuck L ks t'" if "dom m' = {ks}" for ks
  proof -
    have "length (entries s') = 1" using card_contents [OF t'(4)] t'(6) that by simp
    then obtain a' b k v where leaf: "s' = Nd a' b k (Some v) Tip Tip" using t'(8) by (cases s') (auto split: option.splits)
    then have jo: "joined s'" by simp
    have "ks \<in> dom (contents s')" using t'(6) that by simp
    with collapsed_stuck [OF t'(2-4) jo t'(7)] obtain pfx where
      pfx: "length pfx = bitn s'" "trie_stuck L pfx t'" "take (length pfx) ks = pfx" by blast
    have "bitn s' = L" using t'(4,7) by (simp add: leaf)
    moreover have "length ks = L"
    proof -
      obtain x' where "contents s' ks = Some x'" using \<open>ks \<in> dom (contents s')\<close> by blast
      then obtain a' k' where "(a', k', x') \<in> set (entries s')" "key_bits k' = ks"
        unfolding contents_eq_Some [OF t'(4)] by blast
      then show ?thesis using t'(7) by (auto simp: keys_entries)
    qed
    ultimately show ?thesis using pfx by simp
  qed
  ultimately show ?thesis using t'(1) pr by blast
qed

lemma trie_remove_models_pruned:
  assumes "trie_models L t m" "trie_usable L key"
  shows "\<exists>t'. trie_remove t key = Ret (m (key_bits key) \<noteq> None, t') \<and>
    (if m (key_bits key) = None then t' = t else trie_pruned L t' (m(key_bits key := None)))"
proof (cases "m (key_bits key)")
  case None
  then show ?thesis using trie_remove_absent [OF trie_models_holds [OF assms(1)]] assms(2) by (simp add: trie_usable_def)
next
  case (Some x)
  from trie_remove_models [OF assms Some refl] Some show ?thesis by auto
qed

lemmas trie_usableD = trie_usable_def [THEN iffD1, THEN conjunct1]

interpretation trie: ordered_store trie_holds "trie_usable L" key_bits trie_lookup "trie_models L" trie_insert
    trie_values bit_less for L
  by unfold_locales
    (fact trie_lookup_holds [OF _ trie_usableD] trie_models_holds trie_insert_models trie_values_models)+

interpretation trie: changing_store trie_holds "trie_usable L" key_bits trie_lookup "trie_models L" trie_insert
    trie_remove for L
  by unfold_locales (fact trie_remove_holds [OF _ trie_usableD])

interpretation trie: pruned_store trie_holds "trie_usable L" key_bits trie_lookup "trie_models L" trie_insert
    trie_values bit_less trie_remove "trie_pruned L" "''null pointer''" for L
  by unfold_locales (fact trie_remove_models_pruned trie_remove_pruned trie_pruned_values)+

end
