(* ===== verification/Address.thy ===== *)
theory Address
  imports Channel_Types Strparse Static_Vector
begin

unbundle bit_operations_syntax

text \<open>
  \<^verbatim>\<open>net/address.hxx\<close>: IPv4, IPv6 and UNIX-domain addresses, their text forms, their comparison
  and the conversions between them. The platform is 64-bit little-endian Linux: an
  \<^verbatim>\<open>std::uint16_t\<close> is copied low byte first, a \<^verbatim>\<open>sockaddr\<close> is its bytes in the layout of that
  platform. Failing allocations are not modelled. \<^verbatim>\<open>inet_ntop\<close>, which belongs to the C library, is
  an argument of the functions that call it. The resolver is not part of this theory.
\<close>

subsection \<open>Error codes and tags\<close>

definition errc_invalid_argument :: error_code where "errc_invalid_argument = generic_error 22"
definition errc_value_too_large :: error_code where "errc_value_too_large = generic_error 75"
definition errc_address_family_not_supported :: error_code where
  "errc_address_family_not_supported = generic_error 97"

definition AF_UNIX :: nat where "AF_UNIX = 1"
definition AF_INET :: nat where "AF_INET = 2"
definition AF_INET6 :: nat where "AF_INET6 = 10"

definition unix_address_size :: nat where "unix_address_size = 108"

subsection \<open>IPv4\<close>

text \<open>The characters written so far stand for \<^verbatim>\<open>p.ptr\<close>; \<^verbatim>\<open>to_chars\<close> may use the array up to
  index 14, one less than its size.\<close>

fun inet_to_string_loop :: "nat \<Rightarrow> byte list \<Rightarrow> string \<Rightarrow> string run" where
  "inet_to_string_loop i [] out = Ret out"
| "inet_to_string_loop i (b # bs) out =
     (let ds = to_chars 10 (unat b) in
      sk_check (length out + length ds \<le> 14) ''to_chars failure''
        (inet_to_string_loop (Suc i) bs (if i \<noteq> 3 then out @ ds @ ''.'' else out @ ds)))"

definition inet_to_string :: "byte list \<Rightarrow> (error_code + string) run" where
  "inet_to_string addr = bind_run (inet_to_string_loop 0 addr []) (\<lambda>s. Ret (Inr s))"

function inet_from_string_loop :: "nat \<Rightarrow> string \<Rightarrow> byte list \<Rightarrow> error_code + byte list" where
  "inet_from_string_loop i s addr =
     (if \<not> i < 4 then Inr addr
      else case span_number 255 10 s of
             (None, s) \<Rightarrow> Inl (make_error_code invalid_address_format)
           | (Some num, s) \<Rightarrow>
               let addr = addr[i := word_of_nat num] in
               if i = 3 \<and> s = [] then Inr addr
               else if i < 3 \<and> s \<noteq> [] \<and> hd s = CHR ''.'' then inet_from_string_loop (Suc i) (tl s) addr
               else Inl (make_error_code invalid_address_format))"
  by pat_completeness auto
termination
  by (relation "measure (\<lambda>(i, s, addr). 4 - i)") auto

declare inet_from_string_loop.simps [simp del]

definition inet_from_string :: "string \<Rightarrow> error_code + byte list" where
  "inet_from_string s = inet_from_string_loop 0 s (replicate 4 0)"

text \<open>The bytes of an \<^verbatim>\<open>std::uint32_t\<close> in memory.\<close>

definition inet_from_in_addr_t :: "32 word \<Rightarrow> byte list" where
  "inet_from_in_addr_t a = map (\<lambda>i. ucast (drop_bit (8 * i) a)) [0..<4]"

subsection \<open>IPv6\<close>

definition swap16 :: "16 word \<Rightarrow> 16 word" where
  "swap16 w = push_bit 8 w OR drop_bit 8 w"

definition join16 :: "byte \<Rightarrow> byte \<Rightarrow> 16 word" where
  "join16 hi lo = push_bit 8 (ucast hi) OR ucast lo"

definition memory16 :: "16 word \<Rightarrow> byte list" where
  "memory16 w = [ucast w, ucast (drop_bit 8 w)]"

type_synonym segments = "16 word trivial_vector"

text \<open>\<^verbatim>\<open>cur->push_back(w)\<close>: \<open>cur\<close> is true when \<^verbatim>\<open>cur\<close> points to \<^verbatim>\<open>end\<close>.\<close>

definition push_cur :: "bool \<Rightarrow> segments \<Rightarrow> segments \<Rightarrow> 16 word \<Rightarrow> (segments \<times> segments) run" where
  "push_cur cur start endv w =
     (if cur then bind_run (tv_push_back endv w) (\<lambda>v. Ret (start, v))
      else bind_run (tv_push_back start w) (\<lambda>v. Ret (v, endv)))"

function inet6_loop ::
  "nat \<Rightarrow> string \<Rightarrow> bool \<Rightarrow> segments \<Rightarrow> segments \<Rightarrow> (error_code + string \<times> segments \<times> segments) run" where
  "inet6_loop n s cur start endv =
     (if \<not> n < 8 then Ret (Inr (s, start, endv))
      else case (if 1 \<le> n \<and> n \<le> 6 then inet_from_string s
                 else Inl (make_error_code invalid_address_format)) of
             Inr v4 \<Rightarrow>
               bind_run (push_cur cur start endv (join16 (v4 ! 1) (v4 ! 0))) (\<lambda>(start, endv).
               bind_run (push_cur cur start endv (join16 (v4 ! 3) (v4 ! 2))) (\<lambda>(start, endv).
                 Ret (Inr ([], start, endv))))
           | Inl _ \<Rightarrow>
               if s = [] then
                 (if \<not> cur then Ret (Inl (make_error_code invalid_address_format))
                  else Ret (Inr (s, start, endv)))
               else if hd s = CHR '':'' then
                 (if cur then Ret (Inl (make_error_code invalid_address_format))
                  else inet6_loop (Suc n) (tl s) True start endv)
               else case span_number 65535 16 s of
                      (None, s) \<Rightarrow> Ret (Inl (make_error_code invalid_address_format))
                    | (Some seg, s) \<Rightarrow>
                        bind_run (push_cur cur start endv (swap16 (word_of_nat seg))) (\<lambda>(start, endv).
                          if s = [] then Ret (Inr (s, start, endv))
                          else if hd s \<noteq> CHR '':'' then Ret (Inl (make_error_code invalid_address_format))
                          else inet6_loop (Suc n) (tl s) cur start endv))"
  by pat_completeness auto
termination
  by (relation "measure (\<lambda>(n, s, cur, start, endv). 8 - n)") auto

declare inet6_loop.simps [simp del]

definition inet6_from_string :: "string \<Rightarrow> (error_code + byte list) run" where
  "inet6_from_string s =
     (let empty = tv_empty (replicate 8 0);
          (s, cur, n) = (if take 2 s = ''::'' then (drop 2 s, True, 1) else (s, False, 0))
      in bind_run (inet6_loop n s cur empty empty) (\<lambda>r.
           case r of
             Inl e \<Rightarrow> Ret (Inl e)
           | Inr (s, start, endv) \<Rightarrow>
               if s \<noteq> [] then Ret (Inl (make_error_code invalid_address_format))
               else let addr = replicate 16 0;
                        addr = copy_at addr 0 (concat (map memory16 (tv_list start)));
                        addr = copy_at addr (16 - tv_size endv * 2) (concat (map memory16 (tv_list endv)))
                    in Ret (Inr addr)))"

definition inet6_to_string ::
  "(byte list \<Rightarrow> string option) \<Rightarrow> byte list \<Rightarrow> (error_code + string) run" where
  "inet6_to_string inet_ntop6 addr =
     sk_check (inet_ntop6 addr \<noteq> None) ''inet_ntop failure'' (Ret (Inr (the (inet_ntop6 addr))))"

definition inet6_from_in6_addr :: "byte list \<Rightarrow> byte list" where
  "inet6_from_in6_addr a = copy_at (replicate 16 0) 0 a"

subsection \<open>UNIX\<close>

definition unix_to_string :: "string \<Rightarrow> error_code + string" where
  "unix_to_string path = Inr (takeWhile (\<lambda>c. c \<noteq> CHR 0x00) path)"

definition unix_from_string :: "string \<Rightarrow> error_code + string" where
  "unix_from_string s =
     (if length s > unix_address_size then Inl errc_value_too_large
      else Inr (copy_at (replicate unix_address_size CHR 0x00) 0 s))"

definition unix_from_array :: "string \<Rightarrow> string" where
  "unix_from_array arr = copy_at (replicate unix_address_size CHR 0x00) 0 arr"

definition unix_as_bytes :: "string \<Rightarrow> byte list" where
  "unix_as_bytes path = map of_char (takeWhile (\<lambda>c. c \<noteq> CHR 0x00) path)"

subsection \<open>Addresses of any family\<close>

datatype unspecified_address =
    Inet "byte list"
  | Inet6 "byte list"
  | Unix string

fun contained_tag :: "unspecified_address \<Rightarrow> nat" where
  "contained_tag (Inet a) = AF_INET"
| "contained_tag (Inet6 a) = AF_INET6"
| "contained_tag (Unix a) = AF_UNIX"

fun as_bytes :: "unspecified_address \<Rightarrow> byte list" where
  "as_bytes (Inet a) = a"
| "as_bytes (Inet6 a) = a"
| "as_bytes (Unix a) = unix_as_bytes a"

fun unspecified_to_string ::
  "(byte list \<Rightarrow> string option) \<Rightarrow> unspecified_address \<Rightarrow> (error_code + string) run" where
  "unspecified_to_string inet_ntop6 (Inet a) = inet_to_string a"
| "unspecified_to_string inet_ntop6 (Inet6 a) = inet6_to_string inet_ntop6 a"
| "unspecified_to_string inet_ntop6 (Unix a) = Ret (unix_to_string a)"

definition unspecified_from_string :: "string \<Rightarrow> (error_code + unspecified_address) run" where
  "unspecified_from_string s =
     (case inet_from_string s of
        Inr a \<Rightarrow> Ret (Inr (Inet a))
      | Inl _ \<Rightarrow>
          bind_run (inet6_from_string s) (\<lambda>r.
            case r of
              Inr a \<Rightarrow> Ret (Inr (Inet6 a))
            | Inl _ \<Rightarrow> Ret (Inl errc_invalid_argument)))"

datatype ordering = Less | Equal | Greater

fun lexicographical_compare_three_way :: "byte list \<Rightarrow> byte list \<Rightarrow> ordering" where
  "lexicographical_compare_three_way [] [] = Equal"
| "lexicographical_compare_three_way [] (y # ys) = Less"
| "lexicographical_compare_three_way (x # xs) [] = Greater"
| "lexicographical_compare_three_way (x # xs) (y # ys) =
     (if x < y then Less else if y < x then Greater else lexicographical_compare_three_way xs ys)"

definition address_eq :: "unspecified_address \<Rightarrow> unspecified_address \<Rightarrow> bool" where
  "address_eq a b \<longleftrightarrow>
     (if contained_tag a \<noteq> contained_tag b then False
      else if length (as_bytes a) \<noteq> length (as_bytes b) then False
      else lexicographical_compare_three_way (as_bytes a) (as_bytes b) = Equal)"

definition address_less :: "unspecified_address \<Rightarrow> unspecified_address \<Rightarrow> bool" where
  "address_less a b \<longleftrightarrow>
     (if contained_tag a \<noteq> contained_tag b then contained_tag a < contained_tag b
      else lexicographical_compare_three_way (as_bytes a) (as_bytes b) = Less)"

subsection \<open>Casts and system addresses\<close>

definition inet_cast :: "unspecified_address \<Rightarrow> error_code + byte list" where
  "inet_cast a = (case a of Inet b \<Rightarrow> Inr b | _ \<Rightarrow> Inl errc_address_family_not_supported)"

definition inet6_cast :: "unspecified_address \<Rightarrow> error_code + byte list" where
  "inet6_cast a = (case a of Inet6 b \<Rightarrow> Inr b | _ \<Rightarrow> Inl errc_address_family_not_supported)"

definition unix_cast :: "unspecified_address \<Rightarrow> error_code + string" where
  "unix_cast a = (case a of Unix b \<Rightarrow> Inr b | _ \<Rightarrow> Inl errc_address_family_not_supported)"

definition make_unspecified_zero_address :: "nat \<Rightarrow> error_code + unspecified_address" where
  "make_unspecified_zero_address af =
     (if af = AF_INET then Inr (Inet (replicate 4 0))
      else if af = AF_INET6 then Inr (Inet6 (replicate 16 0))
      else if af = AF_UNIX then Inr (Unix (replicate unix_address_size CHR 0x00))
      else Inl errc_address_family_not_supported)"

definition socket_address_family :: "unspecified_address \<Rightarrow> nat" where
  "socket_address_family a =
     (if contained_tag a = AF_INET then AF_INET
      else if contained_tag a = AF_INET6 then AF_INET6
      else if contained_tag a = AF_UNIX then AF_UNIX
      else 0)"

text \<open>A \<^verbatim>\<open>sockaddr\<close>: the family in the first two bytes, low byte first; the IPv4 address at 4 in
  16 bytes, the IPv6 address at 8 in 28 bytes, the path at 2 in 110 bytes.\<close>

definition sa_family :: "byte list \<Rightarrow> nat" where
  "sa_family sa = unat (sa ! 0) + 256 * unat (sa ! 1)"

definition word32_at :: "byte list \<Rightarrow> nat \<Rightarrow> 32 word" where
  "word32_at sa i =
     ucast (sa ! i) OR push_bit 8 (ucast (sa ! (i + 1))) OR push_bit 16 (ucast (sa ! (i + 2))) OR
     push_bit 24 (ucast (sa ! (i + 3)))"

definition make_inet_address_sockaddr :: "byte list \<Rightarrow> nat \<Rightarrow> (error_code + byte list) run" where
  "make_inet_address_sockaddr sa len =
     sk_check (len > 0) ''invalid address len''
       (if sa_family sa \<noteq> AF_INET then Ret (Inl errc_address_family_not_supported)
        else if len < 16 then Ret (Inl errc_invalid_argument)
        else Ret (Inr (inet_from_in_addr_t (word32_at sa 4))))"

definition make_inet6_address_sockaddr :: "byte list \<Rightarrow> nat \<Rightarrow> (error_code + byte list) run" where
  "make_inet6_address_sockaddr sa len =
     sk_check (len > 0) ''invalid address len''
       (if sa_family sa \<noteq> AF_INET6 then Ret (Inl errc_address_family_not_supported)
        else if len < 28 then Ret (Inl errc_invalid_argument)
        else Ret (Inr (inet6_from_in6_addr (segment sa 8 24))))"

definition make_unspecified_address_sockaddr ::
  "byte list \<Rightarrow> nat \<Rightarrow> (error_code + unspecified_address) run" where
  "make_unspecified_address_sockaddr sa len =
     sk_check (len > 0) ''invalid address len''
       (if sa_family sa = AF_INET then
          (if len < 16 then Ret (Inl errc_invalid_argument)
           else Ret (Inr (Inet (inet_from_in_addr_t (word32_at sa 4)))))
        else if sa_family sa = AF_INET6 then
          (if len < 28 then Ret (Inl errc_invalid_argument)
           else Ret (Inr (Inet6 (inet6_from_in6_addr (segment sa 8 24)))))
        else if sa_family sa = AF_UNIX then
          (if len < 110 then Ret (Inl errc_invalid_argument)
           else Ret (Inr (Unix (unix_from_array (map (\<lambda>b. char_of (unat b)) (segment sa 2 110))))))
        else Ret (Inl errc_address_family_not_supported))"

text \<open>\<^verbatim>\<open>make_address\<close> of a string, for each family.\<close>

definition make_inet_address :: "string \<Rightarrow> error_code + byte list" where
  "make_inet_address v = inet_from_string v"

definition make_inet6_address :: "string \<Rightarrow> (error_code + byte list) run" where
  "make_inet6_address str = inet6_from_string str"

definition make_unix_address :: "string \<Rightarrow> error_code + string" where
  "make_unix_address str = unix_from_string str"

definition make_unspecified_address :: "string \<Rightarrow> (error_code + unspecified_address) run" where
  "make_unspecified_address str = unspecified_from_string str"

text \<open>\<^verbatim>\<open>str\<close> of an IPv4 prefix.\<close>

definition inet_prefix_str :: "byte list \<Rightarrow> nat \<Rightarrow> (error_code + string) run" where
  "inet_prefix_str addr len =
     bind_run (inet_to_string addr) (\<lambda>s.
       case s of
         Inl e \<Rightarrow> Ret (Inl e)
       | Inr t \<Rightarrow> Ret (Inr (t @ ''/'' @ to_chars 10 len)))"

subsection \<open>The text of an IPv4 address\<close>

definition dotted :: "string list \<Rightarrow> string" where
  "dotted ds = ds ! 0 @ ''.'' @ ds ! 1 @ ''.'' @ ds ! 2 @ ''.'' @ ds ! 3"

definition decimal_octet :: "string \<Rightarrow> bool" where
  "decimal_octet d \<longleftrightarrow> d \<noteq> [] \<and> (\<forall>c \<in> set d. is_digit 10 c) \<and> digits_to_nat 10 d \<le> 255"

definition inet_text :: "byte list \<Rightarrow> string" where
  "inet_text addr = dotted (map (\<lambda>b. to_chars 10 (unat b)) addr)"

lemma list4: "length xs = 4 \<longleftrightarrow> (\<exists>a b c d. xs = [a, b, c, d])"
  by (auto simp: length_Suc_conv eval_nat_numeral)

lemma dot_no_digit [simp]: "\<not> is_digit 10 CHR ''.''" "\<not> is_digit 16 CHR ''.''"
  by (simp_all add: is_digit_def digit_value_def)

lemma colon_no_digit [simp]: "\<not> is_digit 10 CHR '':''" "\<not> is_digit 16 CHR '':''"
  by (simp_all add: is_digit_def digit_value_def)

lemma span_number_dot:
  "(\<exists>v r. span_number 255 10 s = (Some v, CHR ''.'' # r) \<and> P v r) \<longleftrightarrow>
    (\<exists>d r. decimal_octet d \<and> s = d @ ''.'' @ r \<and> P (digits_to_nat 10 d) r)"
  by (auto simp: span_number_iff decimal_octet_def no_digit_def)

lemma span_number_end:
  "span_number 255 10 s = (Some v, []) \<longleftrightarrow> decimal_octet s \<and> v = digits_to_nat 10 s"
  by (auto simp: span_number_iff decimal_octet_def no_digit_def)

lemma inet_from_string_iff:
  "inet_from_string s = Inr a \<longleftrightarrow>
    (\<exists>ds. length ds = 4 \<and> (\<forall>d \<in> set ds. decimal_octet d) \<and> s = dotted ds \<and>
          a = map (\<lambda>d. word_of_nat (digits_to_nat 10 d)) ds)"
proof -
  have step: "inet_from_string_loop i s addr = Inr a \<longleftrightarrow>
      (\<exists>v s0. span_number 255 10 s = (Some v, CHR ''.'' # s0) \<and>
         inet_from_string_loop (Suc i) s0 (addr[i := word_of_nat v]) = Inr a)"
    if "i < 3" for i s addr
    using that
    by (subst inet_from_string_loop.simps)
      (auto simp: Let_def neq_Nil_conv split: prod.splits option.splits if_splits)
  have last: "inet_from_string_loop 3 s addr = Inr a \<longleftrightarrow>
      (\<exists>v. span_number 255 10 s = (Some v, []) \<and> a = addr[3 := word_of_nat v])" for s addr
    by (subst inet_from_string_loop.simps) (auto simp: Let_def split: prod.splits option.splits if_splits)
  have upd: "(replicate 4 0)[0 := w, Suc 0 := x, Suc (Suc 0) := y, 3 := z] = [w, x, y, z]"
    for w x y z :: byte
    by (simp add: eval_nat_numeral)
  have three: "Suc (Suc (Suc 0)) = 3" by simp
  have "inet_from_string s = Inr a \<longleftrightarrow> (\<exists>d0 r0. decimal_octet d0 \<and> s = d0 @ ''.'' @ r0 \<and>
      (\<exists>d1 r1. decimal_octet d1 \<and> r0 = d1 @ ''.'' @ r1 \<and>
      (\<exists>d2 r2. decimal_octet d2 \<and> r1 = d2 @ ''.'' @ r2 \<and> decimal_octet r2 \<and>
         a = map (\<lambda>d. word_of_nat (digits_to_nat 10 d)) [d0, d1, d2, r2])))"
    unfolding inet_from_string_def step [of 0, simplified] step [of "Suc 0", simplified]
      step [of "Suc (Suc 0)", simplified] three last upd span_number_dot span_number_end
    by auto
  also have "\<dots> \<longleftrightarrow> (\<exists>d0 d1 d2 d3. s = dotted [d0, d1, d2, d3] \<and>
      (\<forall>d \<in> set [d0, d1, d2, d3]. decimal_octet d) \<and>
      a = map (\<lambda>d. word_of_nat (digits_to_nat 10 d)) [d0, d1, d2, d3])"
    unfolding dotted_def by simp blast
  also have "\<dots> \<longleftrightarrow> (\<exists>ds. length ds = 4 \<and> (\<forall>d \<in> set ds. decimal_octet d) \<and> s = dotted ds \<and>
      a = map (\<lambda>d. word_of_nat (digits_to_nat 10 d)) ds)"
    unfolding list4 by blast
  finally show ?thesis .
qed

lemma unat_byte: "unat (b :: byte) < 256"
  using unsigned_less [of b] by simp

lemma to_chars_octet: "decimal_octet (to_chars 10 (unat (b :: byte)))"
  using to_chars_digits [of 10 "unat b"] unat_byte [of b] by (simp add: decimal_octet_def)

lemma inet_from_inet_text:
  assumes "length addr = 4"
  shows "inet_from_string (inet_text addr) = Inr addr"
  unfolding inet_from_string_iff inet_text_def
  using assms to_chars_octet to_chars_digits(3) [of 10]
  by (intro exI [of _ "map (\<lambda>b. to_chars 10 (unat b)) addr"]) (auto simp: comp_def)

lemma length_to_chars_octet:
  assumes "n < 1000"
  shows "length (to_chars 10 n) = (if n < 10 then 1 else if n < 100 then 2 else 3)"
proof -
  have "n div 10 < 100" "n div 10 div 10 < 10" using assms by auto
  then show ?thesis
    by (subst to_chars.simps, subst to_chars.simps, subst to_chars.simps) auto
qed

lemma inet_to_string_eq:
  assumes "length addr = 4"
  shows "inet_to_string addr =
    (if length (inet_text addr) \<le> 14 then Ret (Inr (inet_text addr)) else Abort ''to_chars failure'')"
proof -
  have len: "length (to_chars 10 (unat (b :: byte))) \<le> 3" for b
    using unat_byte [of b] by (simp add: length_to_chars_octet)
  obtain a b c d where "addr = [a, b, c, d]" using assms by (auto simp: list4)
  then show ?thesis using len [of a] len [of b] len [of c] len [of d]
    by (simp add: inet_to_string_def inet_text_def dotted_def Let_def sk_check_def)
qed

subsection \<open>The text of an IPv6 address\<close>

definition hex_segment :: "string \<Rightarrow> bool" where
  "hex_segment d \<longleftrightarrow> d \<noteq> [] \<and> (\<forall>c \<in> set d. is_digit 16 c) \<and> digits_to_nat 16 d \<le> 65535"

definition segment_bytes :: "string \<Rightarrow> byte list" where
  "segment_bytes d = [word_of_nat (digits_to_nat 16 d div 256), word_of_nat (digits_to_nat 16 d mod 256)]"

definition seg_text :: "string list \<Rightarrow> string" where
  "seg_text ds = concat (map (\<lambda>d. d @ '':'') ds)"

fun colon_join :: "string list \<Rightarrow> string" where
  "colon_join [] = []"
| "colon_join [d] = d"
| "colon_join (d # ds) = d @ '':'' @ colon_join ds"

text \<open>A vector of at most eight segments, as the parser builds it.\<close>

definition seg_vec :: "16 word list \<Rightarrow> segments" where
  "seg_vec ws = \<lparr>tv_data = copy_at (replicate 8 0) 0 ws, tv_size = length ws\<rparr>"

definition seg_value :: "string \<Rightarrow> 16 word" where
  "seg_value d = swap16 (word_of_nat (digits_to_nat 16 d))"

lemma seg_vec_Nil: "tv_empty (replicate 8 0) = seg_vec []"
  by (simp add: seg_vec_def tv_empty_def)

lemma seg_vec_push: "length ws < 8 \<Longrightarrow> tv_push_back (seg_vec ws) w = Ret (seg_vec (ws @ [w]))"
  using copy_at_snoc [of 0 ws "replicate 8 0" w] by (simp add: seg_vec_def tv_push_back_def)

lemma seg_vec_list [simp]: "length ws \<le> 8 \<Longrightarrow> tv_list (seg_vec ws) = ws"
  by (simp add: seg_vec_def tv_list_def copy_at_def)

lemma seg_vec_size [simp]: "tv_size (seg_vec ws) = length ws"
  by (simp add: seg_vec_def)

lemma push_cur_seg_vec:
  "length (if cur then b else a) < 8 \<Longrightarrow>
    push_cur cur (seg_vec a) (seg_vec b) w =
      Ret (if cur then (seg_vec a, seg_vec (b @ [w])) else (seg_vec (a @ [w]), seg_vec b))"
  by (cases cur) (simp_all add: push_cur_def seg_vec_push)

lemma memory16_word: "memory16 (word_of_nat n) = [word_of_nat (n mod 256), word_of_nat (n div 256 mod 256)]"
proof -
  have "ucast (word_of_nat n :: 16 word) = (word_of_nat (take_bit 8 n) :: byte)"
    "ucast (drop_bit 8 (word_of_nat n :: 16 word)) = (word_of_nat (take_bit 8 (drop_bit 8 n)) :: byte)"
    by (rule bit_word_eqI; auto simp: bit_simps)+
  then show ?thesis by (simp add: memory16_def take_bit_eq_mod drop_bit_eq_div)
qed

lemma memory16_swap16: "memory16 (swap16 w) = rev (memory16 w)"
proof -
  have "ucast (push_bit 8 w OR drop_bit 8 w) = (ucast (drop_bit 8 w) :: byte)"
    "ucast (drop_bit 8 (push_bit 8 w OR drop_bit 8 w)) = (ucast w :: byte)"
    by (rule bit_word_eqI; auto simp: bit_simps)+
  then show ?thesis by (simp add: memory16_def swap16_def)
qed

lemma memory16_join16: "memory16 (join16 hi lo) = [lo, hi]"
proof -
  have "ucast (push_bit 8 (ucast hi) OR ucast lo :: 16 word) = lo"
    "ucast (drop_bit 8 (push_bit 8 (ucast hi) OR ucast lo :: 16 word)) = hi"
    by (rule bit_word_eqI; auto simp: bit_simps dest: bit_imp_le_length)+
  then show ?thesis by (simp add: memory16_def join16_def)
qed

lemma memory16_seg_value: "hex_segment d \<Longrightarrow> memory16 (seg_value d) = segment_bytes d"
  using div_le_mono [of "digits_to_nat 16 d" 65535 256]
  by (simp add: seg_value_def memory16_swap16 memory16_word segment_bytes_def hex_segment_def)

lemma dotted_chars:
  "length ds = 4 \<Longrightarrow> \<forall>d \<in> set ds. decimal_octet d \<Longrightarrow>
    CHR ''.'' \<in> set (dotted ds) \<and> CHR '':'' \<notin> set (dotted ds)"
  using dot_no_digit colon_no_digit by (auto simp: list4 dotted_def decimal_octet_def simp del: dot_no_digit colon_no_digit)

lemma not_inet:
  assumes "CHR ''.'' \<notin> set s \<or> CHR '':'' \<in> set s"
  shows "\<exists>e. inet_from_string s = Inl e"
proof (cases "inet_from_string s")
  case (Inr a)
  then show ?thesis using assms dotted_chars by (auto simp: inet_from_string_iff)
qed auto

lemma span_segment:
  assumes "hex_segment d" "no_digit 16 rest"
  shows "span_number 65535 16 (d @ rest) = (Some (digits_to_nat 16 d), rest)"
  using assms by (auto simp: span_number_iff hex_segment_def)

lemma hex_segment_head:
  assumes "hex_segment d"
  shows "d \<noteq> []" "hd (d @ s) \<noteq> CHR '':''" "CHR ''.'' \<notin> set d" "CHR '':'' \<notin> set d"
  using assms by (auto simp: hex_segment_def neq_Nil_conv)

text \<open>One segment, followed by a colon or by the end of the text.\<close>

lemma inet6_segment:
  assumes "hex_segment d" "n < 8" "length a \<le> n" "length b \<le> n"
  shows "inet6_loop n (d @ '':'' @ rest) cur (seg_vec a) (seg_vec b) =
      (if cur then inet6_loop (Suc n) rest cur (seg_vec a) (seg_vec (b @ [seg_value d]))
       else inet6_loop (Suc n) rest cur (seg_vec (a @ [seg_value d])) (seg_vec b))" (is ?t1)
    "inet6_loop n d cur (seg_vec a) (seg_vec b) =
      Ret (Inr ([], if cur then (seg_vec a, seg_vec (b @ [seg_value d]))
                    else (seg_vec (a @ [seg_value d]), seg_vec b)))" (is ?t2)
proof -
  note h = hex_segment_head [OF assms(1)]
  have len: "length (if cur then b else a) < 8" using assms by auto
  obtain e where e: "inet_from_string (d @ '':'' @ rest) = Inl e"
    using not_inet [of "d @ '':'' @ rest"] by auto
  obtain e' where e': "inet_from_string d = Inl e'" using not_inet h(3) by blast
  have "span_number 65535 16 (d @ '':'' @ rest) = (Some (digits_to_nat 16 d), '':'' @ rest)"
    by (rule span_segment [OF assms(1)]) (simp add: no_digit_def)
  then show ?t1 using e h assms(2) push_cur_seg_vec [OF len, of "seg_value d"]
    by (subst inet6_loop.simps) (simp add: seg_value_def [symmetric] split: if_splits)
  have "span_number 65535 16 d = (Some (digits_to_nat 16 d), [])"
    using span_segment [OF assms(1), of "[]"] by (simp add: no_digit_def)
  then show ?t2 using e' h(1) h(2) [of "[]"] assms(2) push_cur_seg_vec [OF len, of "seg_value d"]
    by (subst inet6_loop.simps) (simp add: seg_value_def [symmetric] split: if_splits)
qed

lemma inet6_segments:
  assumes "list_all hex_segment ds" "n + length ds \<le> 8" "length a \<le> n" "length b \<le> n"
  shows "inet6_loop n (seg_text ds @ rest) cur (seg_vec a) (seg_vec b) =
      (if cur then inet6_loop (n + length ds) rest cur (seg_vec a) (seg_vec (b @ map seg_value ds))
       else inet6_loop (n + length ds) rest cur (seg_vec (a @ map seg_value ds)) (seg_vec b))"
  using assms
proof (induction ds arbitrary: n a b)
  case (Cons d ds)
  have "seg_text (d # ds) @ rest = d @ '':'' @ (seg_text ds @ rest)" by (simp add: seg_text_def)
  moreover from Cons.prems have "hex_segment d" "n < 8" "length a \<le> n" "length b \<le> n" by simp_all
  note inet6_segment(1) [OF this, of "seg_text ds @ rest" cur]
  ultimately show ?case using Cons.prems Cons.IH [of "Suc n"] by (cases cur) simp_all
qed (simp add: seg_text_def)

lemma colon_join_snoc: "colon_join (ds @ [d]) = seg_text ds @ d"
  by (induction ds rule: colon_join.induct) (simp_all add: seg_text_def)

lemma colon_join_seg_text: "ds \<noteq> [] \<Longrightarrow> colon_join ds @ '':'' = seg_text ds"
  by (induction ds rule: colon_join.induct) (simp_all add: seg_text_def)

lemma inet6_segments_end:
  assumes "list_all hex_segment ds" "n + length ds \<le> 8" "length a \<le> n" "length b \<le> n"
    "cur \<or> ds \<noteq> []"
  shows "inet6_loop n (colon_join ds) cur (seg_vec a) (seg_vec b) =
      Ret (Inr ([], if cur then (seg_vec a, seg_vec (b @ map seg_value ds))
                    else (seg_vec (a @ map seg_value ds), seg_vec b)))"
proof (cases ds rule: rev_cases)
  case Nil
  obtain e where "inet_from_string [] = Inl e" using not_inet [of "[]"] by auto
  with Nil assms show ?thesis by (subst inet6_loop.simps) (simp split: sum.splits)
next
  case (snoc es d)
  then have es: "list_all hex_segment es" "n + length es \<le> 8" and d: "hex_segment d" "n + length es < 8"
    using assms by simp_all
  show ?thesis
    unfolding snoc colon_join_snoc inet6_segments [OF es assms(3,4)]
    using inet6_segment(2) [OF d] assms(3,4) by (cases cur) simp_all
qed

text \<open>The embedded IPv4 address.\<close>

lemma inet6_v4:
  assumes "inet_from_string s = Inr v4" "1 \<le> n" "n \<le> 6" "length a \<le> n" "length b \<le> n"
  shows "inet6_loop n s cur (seg_vec a) (seg_vec b) =
      (let ws = [join16 (v4 ! 1) (v4 ! 0), join16 (v4 ! 3) (v4 ! 2)] in
       Ret (Inr ([], if cur then (seg_vec a, seg_vec (b @ ws)) else (seg_vec (a @ ws), seg_vec b))))"
  using assms
  by (subst inet6_loop.simps) (simp add: push_cur_seg_vec Let_def)

text \<open>The bytes the parser makes of the segments before and after the gap.\<close>

definition inet6_bytes :: "16 word list \<Rightarrow> 16 word list \<Rightarrow> byte list" where
  "inet6_bytes a b = concat (map memory16 a) @ replicate (16 - 2 * (length a + length b)) 0 @
     concat (map memory16 b)"

lemma length_memory16: "length (concat (map memory16 ws)) = 2 * length ws"
  by (induction ws) (simp_all add: memory16_def)

lemma inet6_bytes_copy:
  assumes "length a + length b \<le> 8"
  shows "copy_at (copy_at (replicate 16 0) 0 (concat (map memory16 a))) (16 - length b * 2)
      (concat (map memory16 b)) = inet6_bytes a b"
  using assms by (simp add: copy_at_def inet6_bytes_def length_memory16)

lemma inet6_from_string_result:
  assumes "inet6_loop (if take 2 s = ''::'' then 1 else 0) (if take 2 s = ''::'' then drop 2 s else s)
      (take 2 s = ''::'') (seg_vec []) (seg_vec []) = Ret (Inr ([], seg_vec a, seg_vec b))"
    "length a + length b \<le> 8"
  shows "inet6_from_string s = Ret (Inr (inet6_bytes a b))"
  using assms(1) assms(2) inet6_bytes_copy [OF assms(2)]
  by (simp add: inet6_from_string_def seg_vec_Nil Let_def split: if_splits)

lemma seg_text_head:
  assumes "list_all hex_segment ds" "ds \<noteq> []"
  shows "take 2 (seg_text ds @ r) \<noteq> ''::''" "take 2 (colon_join ds) \<noteq> ''::''"
proof -
  obtain d es c t where "ds = d # es" "d = c # t" "c \<noteq> CHR '':''"
    using assms hex_segment_head(1,4) [of "hd ds"] by (cases ds; cases "hd ds") auto
  then show "take 2 (seg_text ds @ r) \<noteq> ''::''" "take 2 (colon_join ds) \<noteq> ''::''"
    by (cases es; simp add: seg_text_def numeral_2_eq_2)+
qed

lemma inet6_gap:
  assumes "list_all hex_segment xs" "length xs \<le> 7"
    "inet6_loop (Suc (length xs)) r True (seg_vec (map seg_value xs)) (seg_vec []) =
      Ret (Inr ([], seg_vec a, seg_vec b))" "length a + length b \<le> 8"
  shows "inet6_from_string (colon_join xs @ ''::'' @ r) = Ret (Inr (inet6_bytes a b))"
proof (cases "xs = []")
  case True
  then show ?thesis using assms by (intro inet6_from_string_result) simp_all
next
  case False
  have eq: "colon_join xs @ ''::'' @ r = seg_text xs @ '':'' @ r"
    using colon_join_seg_text [OF False] by (metis append.assoc append_Cons append_Nil)
  obtain e where e: "inet_from_string (CHR '':'' # r) = Inl e" using not_inet [of "CHR '':'' # r"] by auto
  have "inet6_loop (length xs) (CHR '':'' # r) False (seg_vec (map seg_value xs)) (seg_vec []) =
      Ret (Inr ([], seg_vec a, seg_vec b))"
    using assms(2,3) e by (subst inet6_loop.simps) simp
  then show ?thesis
    unfolding eq using seg_text_head(1) [OF assms(1) False] assms
    by (intro inet6_from_string_result) (simp_all add: inet6_segments)
qed

lemma memory16_segments:
  "list_all hex_segment ds \<Longrightarrow> concat (map memory16 (map seg_value ds)) = concat (map segment_bytes ds)"
  by (induction ds) (simp_all add: memory16_seg_value)

lemma memory16_v4:
  "length v4 = 4 \<Longrightarrow>
    concat (map memory16 [join16 (v4 ! 1) (v4 ! 0), join16 (v4 ! 3) (v4 ! 2)]) = v4"
  by (auto simp: list4 memory16_join16)

lemma inet_from_string_length: "inet_from_string s = Inr a \<Longrightarrow> length a = 4"
  by (auto simp: inet_from_string_iff)

text \<open>Whatever the text, the parser returns: its vectors never overflow.\<close>

definition seg_result :: "(error_code + string \<times> segments \<times> segments) run \<Rightarrow> bool" where
  "seg_result r \<longleftrightarrow> r = Ret (Inl (make_error_code invalid_address_format)) \<or>
     (\<exists>s a b. r = Ret (Inr (s, seg_vec a, seg_vec b)) \<and> length a + length b \<le> 8)"

lemma seg_resultI [simp, intro]:
  "seg_result (Ret (Inl (make_error_code invalid_address_format)))"
  "length a + length b \<le> 8 \<Longrightarrow> seg_result (Ret (Inr (s, seg_vec a, seg_vec b)))"
  by (auto simp: seg_result_def)

lemma inet6_loop_returns:
  "length a + length b + (if cur then 1 else 0) \<le> n \<Longrightarrow> n \<le> 8 \<Longrightarrow>
    seg_result (inet6_loop n s cur (seg_vec a) (seg_vec b))"
proof (induction "8 - n" arbitrary: n s cur a b)
  case 0
  then show ?case by (subst inet6_loop.simps) simp
next
  case (Suc k)
  then have n: "n < 8" "k = 8 - Suc n" by simp_all
  note IH = Suc.hyps(1) [OF n(2)]
  show ?case
  proof (cases "1 \<le> n \<and> n \<le> 6 \<and> (\<exists>v4. inet_from_string s = Inr v4)")
    case True
    then obtain v4 where "inet_from_string s = Inr v4" "1 \<le> n" "n \<le> 6" by blast
    from inet6_v4 [OF this, of a b cur] Suc.prems(1) \<open>n \<le> 6\<close> show ?thesis
      by (cases cur) (simp_all add: Let_def)
  next
    case False
    have "\<exists>e. (if 1 \<le> n \<and> n \<le> 6 then inet_from_string s
        else Inl (make_error_code invalid_address_format)) = Inl e"
      using False by (cases "inet_from_string s") simp_all
    then obtain e where "(if 1 \<le> n \<and> n \<le> 6 then inet_from_string s
        else Inl (make_error_code invalid_address_format)) = Inl e" by blast
    then show ?thesis
      using n(1) Suc.prems
      by (subst inet6_loop.simps) (auto simp: push_cur_seg_vec IH split: option.splits prod.splits)
  qed
qed

subsection \<open>Comparison and system addresses\<close>

lemma three_way_Equal: "lexicographical_compare_three_way xs ys = Equal \<longleftrightarrow> xs = ys"
  by (induction xs ys rule: lexicographical_compare_three_way.induct) auto

lemma three_way_Less:
  "lexicographical_compare_three_way xs ys = Less \<longleftrightarrow> (xs, ys) \<in> lexord {(x, y). x < y}"
  by (induction xs ys rule: lexicographical_compare_three_way.induct) auto

lemma address_eq_iff: "address_eq a b \<longleftrightarrow> contained_tag a = contained_tag b \<and> as_bytes a = as_bytes b"
  by (auto simp: address_eq_def three_way_Equal)

lemma address_less_iff:
  "address_less a b \<longleftrightarrow> contained_tag a < contained_tag b \<or>
    contained_tag a = contained_tag b \<and> (as_bytes a, as_bytes b) \<in> lexord {(x, y). x < y}"
  by (auto simp: address_less_def three_way_Less)

lemma byte_lexord:
  "(x, y) \<in> lexord {(x :: byte, y). x < y} \<or> x = y \<or> (y, x) \<in> lexord {(x, y). x < y}"
  "(x, x) \<notin> lexord {(x :: byte, y). x < y}"
  "(x, y) \<in> lexord {(x :: byte, y). x < y} \<Longrightarrow> (y, z) \<in> lexord {(x, y). x < y} \<Longrightarrow>
    (x, z) \<in> lexord {(x, y). x < y}"
proof -
  show "(x, y) \<in> lexord {(x :: byte, y). x < y} \<or> x = y \<or> (y, x) \<in> lexord {(x, y). x < y}"
    by (rule lexord_linear) auto
  show "(x, x) \<notin> lexord {(x :: byte, y). x < y}" by (rule lexord_irreflexive) simp
  show "(x, y) \<in> lexord {(x :: byte, y). x < y} \<Longrightarrow> (y, z) \<in> lexord {(x, y). x < y} \<Longrightarrow>
      (x, z) \<in> lexord {(x, y). x < y}"
    by (rule lexord_trans) (auto simp: trans_def)
qed

lemma inet_from_word32_at:
  assumes "i + 4 \<le> length sa"
  shows "inet_from_in_addr_t (word32_at sa i) = segment sa i (i + 4)"
proof -
  have "ucast (drop_bit (8 * k) (word32_at sa i)) = sa ! (i + k)" if "k < 4" for k
  proof -
    consider "k = 0" | "k = 1" | "k = 2" | "k = 3" using \<open>k < 4\<close> by linarith
    then show ?thesis
      by cases (simp_all add: word32_at_def, (rule bit_word_eqI; auto simp: bit_simps dest: bit_imp_le_length)+)
  qed
  then show ?thesis
    using assms by (intro nth_equalityI) (simp_all add: inet_from_in_addr_t_def segment_def)
qed

subsection \<open>Properties\<close>

text \<open>C38: IPv4 addresses: the text of an address parses back to it. Printing returns that text
  except when every octet has three digits: then the array is one character too short for
  \<^verbatim>\<open>to_chars\<close> and the check fails.\<close>

theorem inet_text_roundtrip:
  assumes "length addr = 4"
  shows "inet_from_string (inet_text addr) = Inr addr \<and>
    inet_to_string addr =
      (if list_all (\<lambda>b. 100 \<le> unat b) addr then Abort ''to_chars failure''
       else Ret (Inr (inet_text addr)))"
proof -
  have "length (to_chars 10 (unat (b :: byte))) = (if unat b < 10 then 1 else if unat b < 100 then 2 else 3)"
    for b using unat_byte [of b] by (simp add: length_to_chars_octet)
  then have "length (inet_text addr) \<le> 14 \<longleftrightarrow> \<not> list_all (\<lambda>b. 100 \<le> unat b) addr"
    using assms by (auto simp: list4 inet_text_def dotted_def)
  then show ?thesis using inet_from_inet_text [OF assms] inet_to_string_eq [OF assms] by auto
qed

theorem inet_text_roundtrip_witness:
  "inet_to_string [127, 0, 0, 1] = Ret (Inr ''127.0.0.1'') \<and>
   inet_to_string [192, 168, 100, 200] = Abort ''to_chars failure''"
  using inet_text_roundtrip [of "[127, 0, 0, 1]"] inet_text_roundtrip [of "[192, 168, 100, 200]"]
  by (simp add: inet_text_def dotted_def to_chars.simps digit_char_def char_of_def bit_0)

text \<open>What the IPv4 parser accepts, exactly: four decimal numbers of at least one digit and
  value at most 255 separated by single dots; their values are the bytes of the address.\<close>

theorem inet_from_string_grammar:
  "inet_from_string s = Inr a \<longleftrightarrow>
    (\<exists>ds. length ds = 4 \<and> list_all decimal_octet ds \<and> s = dotted ds \<and>
          a = map (\<lambda>d. word_of_nat (digits_to_nat 10 d)) ds)"
  by (simp add: inet_from_string_iff list_all_iff)

text \<open>C37: The IPv6 parser on the standard forms: eight segments; segments around a gap, which
  becomes zeros; both with an IPv4 address as the last four bytes. The bytes are those of the
  segments in network order.\<close>

theorem inet6_from_string_forms:
  assumes "list_all hex_segment xs" "list_all hex_segment ys" "inet_from_string v = Inr v4"
  shows
    "(length xs = 8 \<longrightarrow> inet6_from_string (colon_join xs) = Ret (Inr (concat (map segment_bytes xs)))) \<and>
     (length xs + length ys \<le> 7 \<longrightarrow>
       inet6_from_string (colon_join xs @ ''::'' @ colon_join ys) =
         Ret (Inr (concat (map segment_bytes xs) @ replicate (16 - 2 * (length xs + length ys)) 0 @
                   concat (map segment_bytes ys)))) \<and>
     (length xs = 6 \<longrightarrow>
       inet6_from_string (seg_text xs @ v) = Ret (Inr (concat (map segment_bytes xs) @ v4))) \<and>
     (length xs + length ys \<le> 5 \<longrightarrow>
       inet6_from_string (colon_join xs @ ''::'' @ seg_text ys @ v) =
         Ret (Inr (concat (map segment_bytes xs) @ replicate (12 - 2 * (length xs + length ys)) 0 @
                   concat (map segment_bytes ys) @ v4)))" (is "?a \<and> ?b \<and> ?c \<and> ?d")
proof (intro conjI impI)
  let ?w = "[join16 (v4 ! 1) (v4 ! 0), join16 (v4 ! 3) (v4 ! 2)]"
  note bytes = inet6_bytes_def memory16_segments [OF assms(1)] memory16_segments [OF assms(2)]
    memory16_v4 [OF inet_from_string_length [OF assms(3)]] map_append concat_append
  {
    assume n: "length xs = 8"
    then have ne: "xs \<noteq> []" by auto
    from n have "inet6_from_string (colon_join xs) = Ret (Inr (inet6_bytes (map seg_value xs) []))"
      using seg_text_head(2) [OF assms(1) ne] assms(1) ne
      by (intro inet6_from_string_result) (simp_all add: inet6_segments_end)
    with n show "inet6_from_string (colon_join xs) = Ret (Inr (concat (map segment_bytes xs)))"
      by (simp add: bytes del: map_map)
  next
    assume n: "length xs + length ys \<le> 7"
    then have "inet6_from_string (colon_join xs @ ''::'' @ colon_join ys) =
        Ret (Inr (inet6_bytes (map seg_value xs) (map seg_value ys)))"
      using assms(1,2) by (intro inet6_gap) (simp_all add: inet6_segments_end)
    with n show "inet6_from_string (colon_join xs @ ''::'' @ colon_join ys) =
         Ret (Inr (concat (map segment_bytes xs) @ replicate (16 - 2 * (length xs + length ys)) 0 @
                   concat (map segment_bytes ys)))"
      by (simp add: bytes del: map_map)
  next
    assume n: "length xs = 6"
    then have ne: "xs \<noteq> []" by auto
    from n have "inet6_from_string (seg_text xs @ v) = Ret (Inr (inet6_bytes (map seg_value xs @ ?w) []))"
      using seg_text_head(1) [OF assms(1) ne, of v] assms(1)
      by (intro inet6_from_string_result) (simp_all add: inet6_segments inet6_v4 [OF assms(3)])
    with n show "inet6_from_string (seg_text xs @ v) = Ret (Inr (concat (map segment_bytes xs) @ v4))"
      by (simp add: bytes del: map_map list.map concat.simps One_nat_def)
  next
    assume n: "length xs + length ys \<le> 5"
    then have "inet6_from_string (colon_join xs @ ''::'' @ seg_text ys @ v) =
        Ret (Inr (inet6_bytes (map seg_value xs) (map seg_value ys @ ?w)))"
      using assms(1,2)
      by (intro inet6_gap) (simp_all add: inet6_segments inet6_v4 [OF assms(3)])
    with n show "inet6_from_string (colon_join xs @ ''::'' @ seg_text ys @ v) =
         Ret (Inr (concat (map segment_bytes xs) @ replicate (12 - 2 * (length xs + length ys)) 0 @
                   concat (map segment_bytes ys) @ v4))"
      by (simp add: bytes del: map_map list.map concat.simps One_nat_def)
  }
qed

theorem inet6_from_string_forms_witness:
  "inet6_from_string (colon_join [''fe80''] @ ''::'' @ colon_join [''1'', ''ABc'']) =
     Ret (Inr ([0xfe, 0x80] @ replicate 10 0 @ [0, 1, 0x0a, 0xbc])) \<and>
   inet6_from_string (colon_join [] @ ''::'' @ seg_text [''ffff''] @ inet_text [10, 0, 0, 1]) =
     Ret (Inr (replicate 10 0 @ [0xff, 0xff, 10, 0, 0, 1]))"
proof -
  have h: "list_all hex_segment [''fe80'']" "list_all hex_segment [''1'', ''ABc'']"
    "list_all hex_segment [''ffff'']" "list_all hex_segment []"
    by (simp_all add: hex_segment_def is_digit_def digit_value_def digits_to_nat_def)
  have v: "inet_from_string (inet_text [10, 0, 0, 1]) = Inr [10, 0, 0, 1]"
    by (rule inet_from_inet_text) simp
  show ?thesis
    using inet6_from_string_forms [OF h(1,2) v] inet6_from_string_forms [OF h(4,3) v]
    by (simp add: segment_bytes_def digits_to_nat_def digit_value_def)
qed

text \<open>For every text the IPv6 parser returns, with 16 bytes or with the address-format error:
  its vectors of eight segments never overflow and the two copies into the address stay inside
  it.\<close>

theorem inet6_from_string_total:
  "\<exists>r. inet6_from_string s = Ret r \<and>
    (case r of Inl e \<Rightarrow> e = make_error_code invalid_address_format | Inr a \<Rightarrow> length a = 16)"
proof -
  have "seg_result (inet6_loop (if take 2 s = ''::'' then 1 else 0)
      (if take 2 s = ''::'' then drop 2 s else s) (take 2 s = ''::'') (seg_vec []) (seg_vec []))"
    by (rule inet6_loop_returns) simp_all
  then show ?thesis
    by (auto simp: seg_result_def inet6_from_string_def seg_vec_Nil Let_def length_memory16 split: if_splits)
qed

text \<open>What the IPv6 parser accepts beyond the standard forms: one to seven segments without a
  gap, filled up with zeros at the end; a single colon where a gap is meant at the start; a colon
  after the eighth segment.\<close>

theorem inet6_from_string_lenient:
  assumes "list_all hex_segment xs" "xs \<noteq> []" "length xs \<le> 8"
  shows "inet6_from_string (colon_join xs) =
      Ret (Inr (concat (map segment_bytes xs) @ replicate (16 - 2 * length xs) 0)) \<and>
    (length xs \<le> 7 \<longrightarrow>
      inet6_from_string ('':'' @ colon_join xs) = inet6_from_string (''::'' @ colon_join xs)) \<and>
    (length xs = 8 \<longrightarrow> inet6_from_string (seg_text xs) = inet6_from_string (colon_join xs))"
proof (intro conjI impI)
  have full: "inet6_from_string (colon_join xs) = Ret (Inr (inet6_bytes (map seg_value xs) []))"
    using seg_text_head(2) [OF assms(1,2)] assms
    by (intro inet6_from_string_result) (simp_all add: inet6_segments_end)
  then show "inet6_from_string (colon_join xs) =
      Ret (Inr (concat (map segment_bytes xs) @ replicate (16 - 2 * length xs) 0))"
    using assms(1) by (simp add: inet6_bytes_def memory16_segments del: map_map)
  {
    assume n: "length xs \<le> 7"
    obtain e where "inet_from_string (CHR '':'' # colon_join xs) = Inl e"
      using not_inet [of "CHR '':'' # colon_join xs"] by auto
    moreover have "take 2 (CHR '':'' # colon_join xs) \<noteq> ''::''"
    proof -
      have "colon_join xs \<noteq> [] \<and> hd (colon_join xs) \<noteq> CHR '':''"
        using assms(1,2) hex_segment_head(1,2) [of "hd xs"] by (cases xs rule: colon_join.cases) auto
      then show ?thesis by (cases "colon_join xs") (auto simp: numeral_2_eq_2)
    qed
    moreover have "inet6_loop 1 (colon_join xs) True (seg_vec []) (seg_vec []) =
        Ret (Inr ([], seg_vec [], seg_vec (map seg_value xs)))"
      using assms n by (simp add: inet6_segments_end)
    ultimately show "inet6_from_string ('':'' @ colon_join xs) = inet6_from_string (''::'' @ colon_join xs)"
      by (simp add: inet6_from_string_def seg_vec_Nil inet6_loop.simps [of 0])
  next
    assume n: "length xs = 8"
    then show "inet6_from_string (seg_text xs) = inet6_from_string (colon_join xs)"
      unfolding full using seg_text_head(1) [OF assms(1,2), of "[]"] assms
        inet6_segments [OF assms(1), of 0 "[]" "[]" "[]" False] inet6_loop.simps [of 8]
      by (intro inet6_from_string_result) simp_all
  }
qed

theorem inet6_from_string_lenient_witness:
  "inet6_from_string ''1'' = Ret (Inr ([0, 1] @ replicate 14 0)) \<and>
   inet6_from_string '':1'' = inet6_from_string ''::1''"
  using inet6_from_string_lenient [of "[''1'']"]
  by (simp add: hex_segment_def is_digit_def digit_value_def digits_to_nat_def segment_bytes_def)

text \<open>UNIX addresses: a path of at most 108 characters without a NUL is stored and printed back
  unchanged, the one that fills the array included; a longer one is refused.\<close>

theorem unix_path_roundtrip:
  assumes "CHR 0x00 \<notin> set s"
  shows "(length s \<le> unix_address_size \<longrightarrow>
      (\<exists>a. make_unix_address s = Inr a \<and> length a = unix_address_size \<and> unix_to_string a = Inr s \<and>
           as_bytes (Unix a) = map of_char s)) \<and>
    (length s > unix_address_size \<longrightarrow> make_unix_address s = Inl errc_value_too_large)"
proof -
  have "takeWhile (\<lambda>c. c \<noteq> CHR 0x00) s = s"
    using assms by (auto simp: takeWhile_eq_all_conv)
  then have "takeWhile (\<lambda>c. c \<noteq> CHR 0x00) (s @ replicate n CHR 0x00) = s" for n
    using assms by (cases n) (auto simp: takeWhile_append)
  then show ?thesis
    by (auto simp: make_unix_address_def unix_from_string_def unix_to_string_def copy_at_def
        unix_as_bytes_def)
qed

theorem unix_path_roundtrip_witness:
  "\<exists>a. make_unix_address ''/tmp/s'' = Inr a \<and> unix_to_string a = Inr ''/tmp/s''"
  using unix_path_roundtrip [of "''/tmp/s''"] by (auto simp: unix_address_size_def)

text \<open>Comparison of addresses is a total order on family and bytes: exactly one of less, equal
  and greater holds, less is transitive, and equality is equality of the family and of the bytes.\<close>

theorem address_order:
  "(address_eq a b \<longleftrightarrow> contained_tag a = contained_tag b \<and> as_bytes a = as_bytes b) \<and>
   (address_less a b \<or> address_eq a b \<or> address_less b a) \<and>
   \<not> (address_less a b \<and> address_eq a b) \<and> \<not> (address_less a b \<and> address_less b a) \<and>
   (address_less a b \<and> address_less b c \<longrightarrow> address_less a c)"
proof -
  note order = byte_lexord(1) [of "as_bytes a" "as_bytes b"] byte_lexord(2) [of "as_bytes a"]
    byte_lexord(3) [of "as_bytes a" "as_bytes b" "as_bytes a"]
    byte_lexord(3) [of "as_bytes a" "as_bytes b" "as_bytes c"]
  show ?thesis
    unfolding address_eq_iff address_less_iff
    by (intro conjI) (use order in \<open>auto dest: less_trans\<close>)
qed

theorem address_order_witness:
  "address_less (Inet [10, 0, 0, 1]) (Inet6 (replicate 16 0)) \<and>
   address_less (Unix (replicate 108 CHR 0x00)) (Inet6 (replicate 16 0))"
  using address_order [of "Unix (replicate 108 CHR 0x00)" "Inet [10, 0, 0, 1]" "Inet6 (replicate 16 0)"]
  by (simp add: address_less_def AF_INET_def AF_INET6_def AF_UNIX_def)

text \<open>An address made of a system socket address: of each supported family, the address bytes
  at the place of that family in the structure, with that family as the tag; too short a
  structure and any other family are errors. The IPv4 and IPv6 constructors agree with it up to
  the cast.\<close>

theorem sockaddr_address:
  assumes "length sa = len" "2 \<le> len"
  shows "make_unspecified_address_sockaddr sa len =
      Ret (if sa_family sa = AF_INET then
             (if len < 16 then Inl errc_invalid_argument else Inr (Inet (segment sa 4 8)))
           else if sa_family sa = AF_INET6 then
             (if len < 28 then Inl errc_invalid_argument else Inr (Inet6 (segment sa 8 24)))
           else if sa_family sa = AF_UNIX then
             (if len < 110 then Inl errc_invalid_argument
              else Inr (Unix (map (\<lambda>b. char_of (unat b)) (segment sa 2 110))))
           else Inl errc_address_family_not_supported) \<and>
    (\<forall>a. make_unspecified_address_sockaddr sa len = Ret (Inr a) \<longrightarrow>
         socket_address_family a = sa_family sa \<and>
         make_inet_address_sockaddr sa len = Ret (inet_cast a) \<and>
         make_inet6_address_sockaddr sa len = Ret (inet6_cast a))"
proof -
  have "inet_from_in_addr_t (word32_at sa 4) = segment sa 4 8" if "16 \<le> len"
    using inet_from_word32_at [of 4 sa] that assms(1) by simp
  moreover have "inet6_from_in6_addr (segment sa 8 24) = segment sa 8 24" if "28 \<le> len"
    using that assms(1) by (simp add: inet6_from_in6_addr_def copy_at_full)
  moreover have "unix_from_array (map (\<lambda>b. char_of (unat b)) (segment sa 2 110)) =
      map (\<lambda>b. char_of (unat b)) (segment sa 2 110)" if "110 \<le> len"
    using that assms(1) by (simp add: unix_from_array_def copy_at_full unix_address_size_def)
  ultimately show ?thesis using assms(2)
    by (auto simp: make_unspecified_address_sockaddr_def make_inet_address_sockaddr_def
        make_inet6_address_sockaddr_def inet_cast_def inet6_cast_def
        socket_address_family_def AF_INET_def AF_INET6_def AF_UNIX_def split: if_splits)
qed

theorem sockaddr_address_witness:
  "make_unspecified_address_sockaddr ([2, 0, 0, 80, 127, 0, 0, 1] @ replicate 8 0) 16 =
    Ret (Inr (Inet [127, 0, 0, 1]))"
  using sockaddr_address [of "[2, 0, 0, 80, 127, 0, 0, 1] @ replicate 8 0" 16]
  by (simp add: sa_family_def AF_INET_def segment_def)

end
