(* ===== verification/Patricia_Containers.thy ===== *)
theory Patricia_Containers
  imports Patricia_Store Address
begin

text \<open>
  The containers of \<^verbatim>\<open>patricia.hxx\<close> on top of the trie, \<^verbatim>\<open>patricia_set\<close> and \<^verbatim>\<open>patricia_map\<close>, with
  the key maker as an argument, and the key makers of network addresses (\<^verbatim>\<open>net/address.hxx\<close>).
  \<open>fixed_key\<close> is what the containers rely on of a key maker: keys of one length, different keys
  for different values. It is interpreted on the key makers of the library; \<open>ordered_key\<close> adds
  that the order of the keys is that of the values.
\<close>

subsection \<open>Iterators of the containers\<close>

definition set_iterator_post_inc :: "'v patricia_trie \<Rightarrow> ptr \<Rightarrow> (ptr \<times> ptr) run" where
  "set_iterator_post_inc t this = bind_run (iterator_advance t this) (\<lambda>next. Ret (this, next))"

text \<open>In the map it is the copy that moves.\<close>

definition map_iterator_post_inc :: "'v patricia_trie \<Rightarrow> ptr \<Rightarrow> (ptr \<times> ptr) run" where
  "map_iterator_post_inc t this = bind_run (iterator_advance t this) (\<lambda>ret. Ret (ret, this))"

definition iterator_equal :: "ptr \<Rightarrow> ptr \<Rightarrow> bool" where
  "iterator_equal a b \<longleftrightarrow> a = b"

subsection \<open>Operations\<close>

text \<open>The part of \<^verbatim>\<open>insert\<close> both containers have in common, after \<^verbatim>\<open>_insert_node\<close>.\<close>

definition insert_value ::
  "'v patricia_trie \<Rightarrow> patricia_key \<Rightarrow> 'v \<Rightarrow> ((ptr \<times> bool) \<times> 'v patricia_trie) run" where
  "insert_value t key value =
     bind_run (insert_node t key) (\<lambda>(node, t).
       sk_check (node \<noteq> None) ''node != nullptr'' (
       bind_run (load t node) (\<lambda>n.
         if n_value n \<noteq> None then
           bind_run (make_iterator t node) (\<lambda>it. Ret ((it, False), t))
         else
           bind_run (modify t node (\<lambda>n. n\<lparr>n_value := Some value\<rparr>)) (\<lambda>t.
           bind_run (make_iterator t node) (\<lambda>it. Ret ((it, True), t))))))"

definition set_insert ::
  "('v \<Rightarrow> patricia_key run) \<Rightarrow> 'v patricia_trie \<Rightarrow> 'v \<Rightarrow> ((ptr \<times> bool) \<times> 'v patricia_trie) run" where
  "set_insert key_maker t value = bind_run (key_maker value) (\<lambda>key. insert_value t key value)"

fun set_insert_all ::
  "('v \<Rightarrow> patricia_key run) \<Rightarrow> 'v patricia_trie \<Rightarrow> 'v list \<Rightarrow> 'v patricia_trie run" where
  "set_insert_all key_maker t [] = Ret t"
| "set_insert_all key_maker t (v # vs) =
     bind_run (set_insert key_maker t v) (\<lambda>(_, t). set_insert_all key_maker t vs)"

definition patricia_set :: "('v \<Rightarrow> patricia_key run) \<Rightarrow> 'v list \<Rightarrow> 'v patricia_trie run" where
  "patricia_set key_maker vs = set_insert_all key_maker trie_new vs"

text \<open>\<^verbatim>\<open>_find_node\<close> with the key maker of the type that is looked for, and the test of the callers.\<close>

definition found_node :: "('k \<Rightarrow> patricia_key run) \<Rightarrow> 'v patricia_trie \<Rightarrow> 'k \<Rightarrow> ptr run" where
  "found_node key_maker t k =
     bind_run (key_maker k) (\<lambda>key.
     bind_run (find_node t key) (\<lambda>node.
       if node = None then Ret None
       else bind_run (load t node) (\<lambda>n. Ret (if n_value n \<noteq> None then node else None))))"

definition set_find :: "('k \<Rightarrow> patricia_key run) \<Rightarrow> 'v patricia_trie \<Rightarrow> 'k \<Rightarrow> ptr run" where
  "set_find key_maker t k =
     bind_run (found_node key_maker t k) (\<lambda>node.
       if node \<noteq> None then make_iterator t node else Ret None)"

definition set_contains :: "('k \<Rightarrow> patricia_key run) \<Rightarrow> 'v patricia_trie \<Rightarrow> 'k \<Rightarrow> bool run" where
  "set_contains key_maker t k = bind_run (found_node key_maker t k) (\<lambda>node. Ret (node \<noteq> None))"

definition set_prefix_match :: "('k \<Rightarrow> patricia_key run) \<Rightarrow> 'v patricia_trie \<Rightarrow> 'k \<Rightarrow> ptr run" where
  "set_prefix_match key_maker t k =
     bind_run (key_maker k) (\<lambda>key.
     bind_run (prefix_match t key) (\<lambda>r. if r \<noteq> None then make_iterator t r else Ret None))"

definition set_erase ::
  "('k \<Rightarrow> patricia_key run) \<Rightarrow> 'v patricia_trie \<Rightarrow> 'k \<Rightarrow> (nat \<times> 'v patricia_trie) run" where
  "set_erase key_maker t k =
     bind_run (found_node key_maker t k) (\<lambda>node.
       if node \<noteq> None then bind_run (remove_node t node) (\<lambda>t. Ret (1, t)) else Ret (0, t))"

definition set_begin :: "'v patricia_trie \<Rightarrow> ptr run" where
  "set_begin t = make_iterator t (tr_root t)"

definition set_end :: ptr where
  "set_end = None"

definition set_values :: "'v patricia_trie \<Rightarrow> 'v list run" where
  "set_values t = bind_run (set_begin t) (\<lambda>it. collect (walk_bound t) t it)"

definition map_insert ::
  "('k \<Rightarrow> patricia_key run) \<Rightarrow> ('k \<times> 'v) patricia_trie \<Rightarrow> 'k \<times> 'v \<Rightarrow>
     ((ptr \<times> bool) \<times> ('k \<times> 'v) patricia_trie) run" where
  "map_insert key_maker t value = bind_run (key_maker (fst value)) (\<lambda>key. insert_value t key value)"

fun map_insert_all ::
  "('k \<Rightarrow> patricia_key run) \<Rightarrow> ('k \<times> 'v) patricia_trie \<Rightarrow> ('k \<times> 'v) list \<Rightarrow> ('k \<times> 'v) patricia_trie run" where
  "map_insert_all key_maker t [] = Ret t"
| "map_insert_all key_maker t (v # vs) =
     bind_run (map_insert key_maker t v) (\<lambda>(_, t). map_insert_all key_maker t vs)"

definition patricia_map ::
  "('k \<Rightarrow> patricia_key run) \<Rightarrow> ('k \<times> 'v) list \<Rightarrow> ('k \<times> 'v) patricia_trie run" where
  "patricia_map key_maker vs = map_insert_all key_maker trie_new vs"

text \<open>\<^verbatim>\<open>operator[]\<close> returns a reference into the node: the node and what it refers to. \<open>dflt\<close> is the
  value-initialised \<^verbatim>\<open>T\<close>.\<close>

definition map_index ::
  "('k \<Rightarrow> patricia_key run) \<Rightarrow> 'v \<Rightarrow> ('k \<times> 'v) patricia_trie \<Rightarrow> 'k \<Rightarrow>
     ((ptr \<times> 'v) \<times> ('k \<times> 'v) patricia_trie) run" where
  "map_index key_maker dflt t k =
     bind_run (key_maker k) (\<lambda>key.
     bind_run (insert_node t key) (\<lambda>(node, t).
     bind_run (load t node) (\<lambda>n.
     bind_run (if n_value n = None then modify t node (\<lambda>n. n\<lparr>n_value := Some (k, dflt)\<rparr>) else Ret t) (\<lambda>t.
     bind_run (load t node) (\<lambda>n. Ret ((node, snd (the (n_value n))), t))))))"

text \<open>The assignment \<^verbatim>\<open>m[k] = v\<close>.\<close>

definition map_assign ::
  "('k \<Rightarrow> patricia_key run) \<Rightarrow> 'v \<Rightarrow> ('k \<times> 'v) patricia_trie \<Rightarrow> 'k \<Rightarrow> 'v \<Rightarrow> ('k \<times> 'v) patricia_trie run" where
  "map_assign key_maker dflt t k v =
     bind_run (map_index key_maker dflt t k) (\<lambda>((node, _), t).
       modify t node (\<lambda>n. n\<lparr>n_value := map_option (\<lambda>p. (fst p, v)) (n_value n)\<rparr>))"

definition map_find :: "('k \<Rightarrow> patricia_key run) \<Rightarrow> 'v patricia_trie \<Rightarrow> 'k \<Rightarrow> ptr run" where
  "map_find key_maker t k =
     bind_run (found_node key_maker t k) (\<lambda>node.
       if node \<noteq> None then make_iterator t node else Ret None)"

definition map_contains :: "('k \<Rightarrow> patricia_key run) \<Rightarrow> 'v patricia_trie \<Rightarrow> 'k \<Rightarrow> bool run" where
  "map_contains key_maker t k = bind_run (found_node key_maker t k) (\<lambda>node. Ret (node \<noteq> None))"

definition map_erase ::
  "('k \<Rightarrow> patricia_key run) \<Rightarrow> 'v patricia_trie \<Rightarrow> 'k \<Rightarrow> (nat \<times> 'v patricia_trie) run" where
  "map_erase key_maker t k =
     bind_run (found_node key_maker t k) (\<lambda>node.
       if node \<noteq> None then bind_run (remove_node t node) (\<lambda>t. Ret (1, t)) else Ret (0, t))"

definition map_begin :: "'v patricia_trie \<Rightarrow> ptr run" where
  "map_begin t = make_iterator t (tr_root t)"

subsection \<open>Keys of network addresses\<close>

definition inet_key_maker :: "byte list \<Rightarrow> patricia_key run" where
  "inet_key_maker a = patricia_key_of a 32"

definition inet6_key_maker :: "byte list \<Rightarrow> patricia_key run" where
  "inet6_key_maker a = patricia_key_of a 128"

subsection \<open>The containers on the trie\<close>

lemma insert_value_trie:
  assumes "trie_insert t key x = Ret (b, t')" "insert_node t key = Ret (Some p, t1)"
  shows "insert_value t key x = Ret ((Some p, b), t')"
proof -
  obtain n where n: "load t1 (Some p) = Ret n" using assms by (auto simp: trie_insert_def bind_run_eq_Ret)
  have h: "tr_heap t1 p = Some n" using n by (auto simp: load_def split: option.splits)
  show ?thesis using assms h
    by (cases "n_value n") (auto simp: trie_insert_def insert_value_def load_Some modify_Some make_iterator_def)
qed

lemma map_index_trie:
  assumes "trie_insert t key (k, dflt) = Ret (b, t')" "insert_node t key = Ret (Some p, t1)"
    "key_maker k = Ret key" "iterator_deref t' (Some p) = Ret y"
  shows "map_index key_maker dflt t k = Ret ((Some p, snd y), t')"
proof -
  obtain n where n: "load t1 (Some p) = Ret n" using assms(1,2) by (auto simp: trie_insert_def bind_run_eq_Ret)
  have h: "tr_heap t1 p = Some n" using n by (auto simp: load_def split: option.splits)
  show ?thesis using assms h
    by (cases "n_value n") (auto simp: trie_insert_def map_index_def load_Some modify_Some iterator_deref_def)
qed

lemma found_node_find:
  assumes "key_maker k = Ret key"
  shows "found_node key_maker t k = trie_find t key"
proof (cases "find_node t key")
  case (Ret p)
  then show ?thesis using assms
    by (cases "load t p") (auto simp: found_node_def trie_find_def make_iterator_def)
qed (use assms in \<open>auto simp: found_node_def trie_find_def\<close>)

lemma set_erase_trie:
  assumes "key_maker k = Ret key"
  shows "set_erase key_maker t k = bind_run (trie_remove t key) (\<lambda>(b, t). Ret (if b then 1 else 0, t))"
proof (cases "trie_find t key")
  case (Ret p)
  then show ?thesis using assms
    by (cases "remove_node t p") (auto simp: set_erase_def found_node_find trie_remove_def trie_erase_def)
qed (use assms in \<open>auto simp: set_erase_def found_node_find trie_remove_def\<close>)

lemma contains_lookup:
  assumes "key_maker k = Ret key" "trie_lookup t key = Ret y"
  shows "set_contains key_maker t k = Ret (y \<noteq> None)" "map_contains key_maker t k = Ret (y \<noteq> None)"
proof -
  obtain p where p: "trie_find t key = Ret p" using assms(2) by (auto simp: trie_lookup_def bind_run_eq_Ret)
  then have "p = None \<longleftrightarrow> y = None" using assms(2) by (auto simp: trie_lookup_def bind_run_eq_Ret split: if_splits)
  then show "set_contains key_maker t k = Ret (y \<noteq> None)" "map_contains key_maker t k = Ret (y \<noteq> None)"
    using p found_node_find [of key_maker k, OF assms(1), of t] by (cases p; cases y; simp add: set_contains_def map_contains_def)+
qed

lemma set_values_trie: "set_values = trie_values"
  by (auto simp: fun_eq_iff set_values_def trie_values_def set_begin_def trie_begin_def)

subsection \<open>What the containers rely on of a key maker\<close>

fun set_erase_all :: "('k \<Rightarrow> patricia_key run) \<Rightarrow> 'v patricia_trie \<Rightarrow> 'k list \<Rightarrow> 'v patricia_trie run" where
  "set_erase_all key_maker t [] = Ret t"
| "set_erase_all key_maker t (k # ks) =
     bind_run (set_erase key_maker t k) (\<lambda>(_, t). set_erase_all key_maker t ks)"

locale fixed_key =
  fixes key_maker :: "'k \<Rightarrow> patricia_key run"
    and key_of :: "'k \<Rightarrow> patricia_key"
    and L :: nat
    and admissible :: "'k \<Rightarrow> bool"
  assumes key_maker_eq: "admissible k \<Longrightarrow> key_maker k = Ret (key_of k)"
    and key_usable: "admissible k \<Longrightarrow> trie_usable L (key_of k)"
    and length_pos: "0 < L"
    and key_inj: "admissible k \<Longrightarrow> admissible k' \<Longrightarrow> key_bits (key_of k) = key_bits (key_of k') \<longleftrightarrow> k = k'"
begin

lemma set_insert_all_trie:
  assumes "trie_models L t m" "\<forall>v \<in> set vs. admissible v"
  shows "set_insert_all key_maker t vs = put_all trie_insert t (map (\<lambda>v. (key_of v, v)) vs)"
  using assms
proof (induction vs arbitrary: t m)
  case (Cons v vs)
  have u: "trie_usable L (key_of v)" "key_maker v = Ret (key_of v)"
    using Cons.prems(2) key_usable key_maker_eq by simp_all
  from trie_insert_node [OF Cons.prems(1) u(1), of v] obtain t' t1 p m' b where t':
    "trie_insert t (key_of v) v = Ret (b, t')" "trie_models L t' m'" "insert_node t (key_of v) = Ret (Some p, t1)"
    by blast
  with insert_value_trie [OF t'(1,3)] Cons.IH [OF t'(2)] Cons.prems(2) u(2) show ?case
    by (simp add: set_insert_def)
qed simp

lemma set_erase_all_trie:
  assumes "trie_holds t m" "\<forall>k \<in> set ks. admissible k"
  shows "set_erase_all key_maker t ks = drop_all trie_remove t (map key_of ks)"
  using assms
proof (induction ks arbitrary: t m)
  case (Cons k ks)
  have u: "wf_key (key_of k)" "key_maker k = Ret (key_of k)"
    using Cons.prems(2) key_usable key_maker_eq by (simp_all add: trie_usable_def)
  from trie_remove_holds [OF Cons.prems(1) u(1)] obtain t' m' b where
    "trie_remove t (key_of k) = Ret (b, t')" "trie_holds t' m'" by blast
  with Cons.IH [of t' m'] Cons.prems(2) show ?case by (simp add: set_erase_trie [of key_maker k, OF u(2)])
qed simp

text \<open>The first value inserted under a key stays: for a set it is the value itself.\<close>

lemma first_value:
  assumes "\<forall>v \<in> set vs. admissible v" "admissible w"
  shows "map_of (map (\<lambda>(k, x). (key_bits k, x)) (map (\<lambda>v. (key_of v, v)) vs)) (key_bits (key_of w)) =
    (if w \<in> set vs then Some w else None)"
  using assms(1)
proof (induction vs)
  case (Cons v vs)
  then show ?case using key_inj [of w v] assms(2) by auto
qed simp

lemma set_contains_after:
  assumes "\<forall>v \<in> set xs. admissible v" "\<forall>v \<in> set ys. admissible v" "admissible w"
  shows "bind_run (patricia_set key_maker xs) (\<lambda>t.
      bind_run (set_erase_all key_maker t ys) (\<lambda>t. set_contains key_maker t w)) =
    Ret (w \<in> set xs \<and> w \<notin> set ys)"
proof -
  let ?kxs = "map (\<lambda>v. (key_of v, v)) xs" and ?ks = "map key_of ys" and ?k = "key_of w"
  note start = trie_models_new [OF length_pos]
  have u: "\<forall>e \<in> set ?kxs. trie_usable L (fst e)" "\<forall>k \<in> set ?ks. trie_usable L k" "trie_usable L ?k"
    using assms key_usable by auto
  from trie.put_all_models [OF start u(1)] obtain t1 m1 where
    t1: "put_all trie_insert trie_new ?kxs = Ret t1" "trie_models L t1 m1" by blast
  from trie.drop_all_holds [OF trie_models_holds [OF t1(2)] u(2)] obtain t2 m2 where
    t2: "drop_all trie_remove t1 ?ks = Ret t2" "trie_holds t2 m2" by blast
  have "trie_lookup t2 ?k = Ret (if w \<in> set xs \<and> w \<notin> set ys then Some w else None)"
    using trie.get_after [OF start u] t1(1) t2(1) first_value [OF assms(1,3)] key_inj [OF assms(3)] assms(2)
    by (auto simp: image_image)
  from contains_lookup(1) [of key_maker w, OF key_maker_eq [OF assms(3)] this] show ?thesis
    using t1(1) t2(1) set_insert_all_trie [OF start assms(1)]
      set_erase_all_trie [OF trie_models_holds [OF t1(2)] assms(2)]
    by (simp add: patricia_set_def)
qed

end

locale ordered_key = fixed_key key_maker key_of L admissible
  for key_maker :: "'k \<Rightarrow> patricia_key run" and key_of L admissible +
  fixes lesser :: "'k \<Rightarrow> 'k \<Rightarrow> bool"
  assumes key_order: "admissible k \<Longrightarrow> admissible k' \<Longrightarrow>
    bit_less (key_bits (key_of k)) (key_bits (key_of k')) \<longleftrightarrow> lesser k k'"
begin

text \<open>The entries of a set after insertions and removals, by the bits of their keys.\<close>

lemma key_image:
  assumes "\<forall>v \<in> A. admissible v" "\<forall>v \<in> B. admissible v"
  shows "(key_bits \<circ> key_of) ` A \<inter> (key_bits \<circ> key_of) ` B = {} \<longleftrightarrow> A \<inter> B = {}"
    "(key_bits \<circ> key_of) ` A - (key_bits \<circ> key_of) ` B = (key_bits \<circ> key_of) ` (A - B)"
    "card ((key_bits \<circ> key_of) ` A) = card A"
proof -
  have inj: "inj_on (key_bits \<circ> key_of) (A \<union> B)" using assms key_inj by (auto simp: inj_on_def)
  show "(key_bits \<circ> key_of) ` A \<inter> (key_bits \<circ> key_of) ` B = {} \<longleftrightarrow> A \<inter> B = {}"
    using inj_on_image_Int [OF inj, of A B] by auto
  show "(key_bits \<circ> key_of) ` A - (key_bits \<circ> key_of) ` B = (key_bits \<circ> key_of) ` (A - B)"
    using inj_on_image_set_diff [OF inj, of A B] by auto
  show "card ((key_bits \<circ> key_of) ` A) = card A" 
    by (rule card_image, rule inj_on_subset [OF inj]) blast
qed

lemma set_values_after:
  assumes xs: "\<forall>v \<in> set xs. admissible v" and ys: "\<forall>v \<in> set ys. admissible v"
  defines "run \<equiv> bind_run (patricia_set key_maker xs) (\<lambda>t. bind_run (set_erase_all key_maker t ys) set_values)"
  shows "(set ys \<inter> set xs = {} \<or> 2 \<le> card (set xs - set ys) \<longrightarrow>
      (\<exists>vs. run = Ret vs \<and> set vs = set xs - set ys \<and> sorted_wrt lesser vs)) \<and>
    (set ys \<inter> set xs \<noteq> {} \<and> card (set xs - set ys) < 2 \<longrightarrow> run = Abort ''null pointer'')"
proof -
  let ?kxs = "map (\<lambda>v. (key_of v, v)) xs" and ?ks = "map key_of ys" and ?kb = "key_bits \<circ> key_of"
  let ?D = "set xs - set ys"
  define m where "m = map_of (map (\<lambda>(k, x). (key_bits k, x)) ?kxs) |` (- key_bits ` set ?ks)"
  note start = trie_models_new [OF length_pos]
  have u: "\<forall>e \<in> set ?kxs. trie_usable L (fst e)" "\<forall>k \<in> set ?ks. trie_usable L k" using xs ys key_usable by auto
  obtain t1 m1 where t1: "put_all trie_insert trie_new ?kxs = Ret t1" "trie_models L t1 m1"
    using trie.put_all_models [OF start u(1)] by blast
  have run: "run = bind_run (put_all trie_insert trie_new ?kxs) (\<lambda>t. bind_run (drop_all trie_remove t ?ks) trie_values)"
    using set_insert_all_trie [OF start xs] set_erase_all_trie [OF trie_models_holds [OF t1(2)] ys] t1(1)
    by (simp add: run_def patricia_set_def set_values_trie)
  have img: "key_bits ` set ?ks = ?kb ` set ys" "key_bits ` fst ` set ?kxs = ?kb ` set xs"
    by (simp_all add: image_image)
  have dom: "dom m = ?kb ` ?D"
  proof -
    have "dom m = key_bits ` fst ` set ?kxs - key_bits ` set ?ks"
      unfolding m_def dom_restrict by (force simp: dom_map_of_conv_image_fst)
    then show ?thesis unfolding img key_image(2) [OF xs ys] .
  qed
  have val: "the (m (?kb v)) = v" if "v \<in> ?D" for v
  proof -
    have "?kb v \<in> - key_bits ` set ?ks" using that dom unfolding m_def dom_restrict by blast
    then show ?thesis using first_value [OF xs, of v] xs that unfolding m_def by simp
  qed
  have listing: "sorted_wrt lesser (map (\<lambda>b. the (m b)) bs) \<and> set (map (\<lambda>b. the (m b)) bs) = ?D"
    if bs: "set bs = dom m" "sorted_wrt bit_less bs" for bs
  proof -
    have el: "\<exists>v \<in> ?D. b = ?kb v \<and> the (m b) = v" if "b \<in> set bs" for b using that bs(1) dom val by auto
    have "sorted_wrt lesser (map (\<lambda>b. the (m b)) bs)"
      unfolding sorted_wrt_map
    proof (rule sorted_wrt_mono_rel [OF _ bs(2)])
      fix b b' assume "b \<in> set bs" "b' \<in> set bs" "bit_less b b'"
      then show "lesser (the (m b)) (the (m b'))" using el [of b] el [of b'] key_order xs by force
    qed
    moreover have "set (map (\<lambda>b. the (m b)) bs) = ?D" using val unfolding set_map bs(1) dom by force
    ultimately show ?thesis by blast
  qed
  have "card (dom m) = card ?D" unfolding dom by (rule key_image(3) [where B = "{}"]) (use xs in auto)
  moreover have "?kb ` set ys \<inter> ?kb ` set xs = {} \<longleftrightarrow> set ys \<inter> set xs = {}" by (rule key_image(1) [OF ys xs])
  ultimately show ?thesis
    using trie.elements_after [OF start u m_def refl] listing unfolding run img by fastforce
qed

end

subsection \<open>Assignment through a reference\<close>

lemma entries_revalue:
  assumes "dist s" "(p, k, y) \<in> set (entries s)" "sub p s = Nd p b k (Some y) l r"
  shows "set (entries (subst p (Nd p b k (Some z) l r) s)) = insert (p, k, z) (set (entries s) - {(p, k, y)})"
proof -
  have p: "p \<in> addrs s" using entries_addrs [OF assms(2)] .
  note E = entry_entries [OF sub_dist [OF assms(1), of p, unfolded assms(3)]]
  have "set (entries (sub p s)) = insert (p, k, y) (set (entries l) \<union> set (entries r))" using assms(3) by simp
  moreover have "(p, k, y) \<notin> set (entries l) \<union> set (entries r)" unfolding E by simp
  ultimately show ?thesis
    using entries_subst [OF assms(1) p, of "Nd p b k (Some z) l r"] sub_entries [OF p] by auto
qed

lemma contents_revalue:
  assumes "ok s" "ok s'" "(p, k, y) \<in> set (entries s)" "set (entries s') = insert (p, k, z) (set (entries s) - {(p, k, y)})"
  shows "contents s' = (contents s)(key_bits k \<mapsto> z)"
proof
  fix ks
  have one: "e = (p, k, y)" if "e \<in> set (entries s)" "key_bits (fst (snd e)) = key_bits k" for e
    using distinct_entries [OF assms(1)] that assms(3) unfolding distinct_map inj_on_def
    by (metis fst_conv snd_conv)
  have "contents s' ks = Some v \<longleftrightarrow> ((contents s)(key_bits k \<mapsto> z)) ks = Some v" for v
    using one by (force simp: contents_eq_Some [OF assms(1)] contents_eq_Some [OF assms(2)] assms(4))
  then show "contents s' ks = ((contents s)(key_bits k \<mapsto> z)) ks" by (metis not_Some_eq)
qed

lemma grown_revalue:
  assumes g: "grown L s" and d: "dist s" and e: "(p, k, y) \<in> set (entries s)"
    and u: "sub p s = Nd p b k (Some y) l r"
  shows "grown L (subst p (Nd p b k (Some z) l r) s)"
proof -
  let ?u = "Nd p b k (Some z) l r"
  have p: "p \<in> addrs s" using entries_addrs [OF e] .
  obtain a l0 r0 where s: "s = Nd a 0 empty_key None l0 r0" "joined l0" "joined r0" using g by (auto simp: grown_def)
  have ok: "ok s" "\<forall>k \<in> keys s. pk_bits k = L" "0 < L" using g by (simp_all add: grown_def)
  have pa: "p \<noteq> a" using u s(1) by auto
  have oku: "ok (sub p s)" by (rule sub_ok [OF ok(1)])
  have "root_of s \<noteq> Some p" using pa s(1) by simp
  then have "joined (sub p s)" using nonroot_joined [OF _ p] grown_loose [OF g] by simp
  then have ju: "joined ?u" using u by simp
  have ks: "keys ?u \<subseteq> keys (sub p s)" using u by simp
  have "ok ?u" using oku unfolding u ok.simps(2) keys_simps(2) by simp
  then have "ok (subst p ?u s)" using ok_subst [OF ok(1) _ d p ks] u by simp
  moreover have "keys (subst p ?u s) \<subseteq> keys s" by (rule keys_subst [OF d p ks])
  moreover have "joined (subst p ?u l0)" "joined (subst p ?u r0)" using s ju by (auto intro!: joined_subst)
  ultimately show ?thesis using s(1) pa ok(2,3) unfolding grown_def by auto
qed

lemma trie_revalue:
  assumes m: "trie_models L t m" and find: "trie_find t key = Ret (Some p)" and key: "trie_usable L key"
    and v: "m (key_bits key) = Some y"
  shows "\<exists>t'. modify t (Some p) (\<lambda>n. n\<lparr>n_value := map_option f (n_value n)\<rparr>) = Ret t' \<and>
    trie_models L t' (m(key_bits key \<mapsto> f y))"
proof -
  obtain s where s: "trie_rep t s" "grown L s" "m = contents s" "0 < L" using m v by (auto simp: trie_models_def)
  have ok: "ok s" using s(2) by (simp add: grown_def)
  obtain p' k where e: "(p', k, y) \<in> set (entries s)" "key_bits k = key_bits key"
    using contents_eq_Some [OF ok] v s(3) by auto
  have "p' = p" using trie_find_shape(2) [OF s(1) ok _ e] find key by (auto simp: trie_usable_def)
  with e have e: "(p, k, y) \<in> set (entries s)" "key_bits k = key_bits key" by simp_all
  have d: "dist s" using s(1) by (simp add: trie_rep_def)
  obtain b l r where u: "sub p s = Nd p b k (Some y) l r" using entry_sub [OF d e(1)] by blast
  let ?u = "Nd p b k (Some (f y)) l r"
  have "root_of s \<noteq> Some p"
  proof
    assume "root_of s = Some p"
    then have "s = Nd p b k (Some y) l r" using root_sub [of s p] u by simp
    then show False using s(2) by (simp add: grown_def)
  qed
  then obtain q where q: "child_of q p s" using child_ofE [OF entries_addrs [OF e(1)]] by blast
  from entry_store [OF s(1) q u] obtain b' k' v' p' l' r' where ey:
    "q \<noteq> p" "q \<notin> addrs (sub p s)"
    "l' = sub p s \<and> root_of r' \<noteq> Some p \<or> r' = sub p s \<and> root_of l' \<noteq> Some p"
    "tr_heap t q = Some (node_rec b' k' v' p' (root_of l') (root_of r'))"
    "tr_heap t p = Some (node_rec b k (Some y) (Some q) (root_of l) (root_of r))"
    "shape_at (tr_heap t) (Some q) (sub p s)"
    by blast
  let ?h = "(tr_heap t)(p := Some (node_rec b k (Some (f y)) (Some q) (root_of l) (root_of r)))"
  have du: "dist (sub p s)" by (rule sub_dist [OF d])
  have "trie_rep (t\<lparr>tr_heap := ?h\<rparr>) (subst p ?u s)"
  proof (rule rep_subst [OF s(1) q])
    show "dist ?u" "addrs ?u \<subseteq> addrs (sub p s)" using du u by auto
    show "\<forall>z. z \<notin> addrs (sub p s) \<and> z \<noteq> q \<longrightarrow> ?h z = tr_heap t z" using u by auto
    show "?h q = map_option (\<lambda>m. set_edge (n_right m = Some p) (root_of ?u) m) (tr_heap t q)" using ey u by auto
    show "shape_at ?h (Some q) ?u" using du u ey(6) by simp
  qed
  moreover have g: "grown L (subst p ?u s)" by (rule grown_revalue [OF s(2) d e(1) u])
  moreover have "contents (subst p ?u s) = m(key_bits key \<mapsto> f y)"
    using contents_revalue [OF ok _ e(1) entries_revalue [OF d e(1) u]] g e(2) s(3) by (simp add: grown_def)
  moreover have "modify t (Some p) (\<lambda>n. n\<lparr>n_value := map_option f (n_value n)\<rparr>) = Ret (t\<lparr>tr_heap := ?h\<rparr>)"
    using ey(5) by (simp add: modify_Some)
  moreover have "m(key_bits key \<mapsto> f y) \<noteq> Map.empty" by (rule map_upd_nonempty)
  ultimately show ?thesis using s(4) unfolding trie_models_def
    by (intro exI [of _ "t\<lparr>tr_heap := ?h\<rparr>"] conjI disjI2 exI [of _ "subst p ?u s"]) simp_all
qed

subsection \<open>The map as a function\<close>

text \<open>A trie of pairs as a partial function from keys to values.\<close>

definition map_models ::
  "('k \<Rightarrow> patricia_key) \<Rightarrow> nat \<Rightarrow> ('k \<Rightarrow> bool) \<Rightarrow> ('k \<times> 'v) patricia_trie \<Rightarrow> ('k \<Rightarrow> 'v option) \<Rightarrow> bool" where
  "map_models key_of L admissible t f \<longleftrightarrow> (\<exists>m. trie_models L t m \<and>
     (\<forall>k. admissible k \<longrightarrow> m (key_bits (key_of k)) = map_option (Pair k) (f k)))"

text \<open>\<^verbatim>\<open>find\<close> and the pair the iterator refers to.\<close>

definition map_lookup :: "('k \<Rightarrow> patricia_key run) \<Rightarrow> 'v patricia_trie \<Rightarrow> 'k \<Rightarrow> 'v option run" where
  "map_lookup key_maker t k =
     bind_run (map_find key_maker t k) (\<lambda>it.
       if it = None then Ret None else bind_run (iterator_deref t it) (\<lambda>x. Ret (Some x)))"

fun map_assign_all ::
  "('k \<Rightarrow> patricia_key run) \<Rightarrow> 'v \<Rightarrow> ('k \<times> 'v) patricia_trie \<Rightarrow> ('k \<times> 'v) list \<Rightarrow>
     ('k \<times> 'v) patricia_trie run" where
  "map_assign_all key_maker dflt t [] = Ret t"
| "map_assign_all key_maker dflt t ((k, v) # kvs) =
     bind_run (map_assign key_maker dflt t k v) (\<lambda>t. map_assign_all key_maker dflt t kvs)"

text \<open>The value \<^verbatim>\<open>m[k]\<close> refers to after assignments to an empty map.\<close>

definition map_read :: "('k \<Rightarrow> patricia_key run) \<Rightarrow> 'v \<Rightarrow> ('k \<times> 'v) list \<Rightarrow> 'k \<Rightarrow> 'v run" where
  "map_read key_maker dflt kvs k =
     bind_run (map_assign_all key_maker dflt trie_new kvs) (\<lambda>t.
     bind_run (map_index key_maker dflt t k) (\<lambda>((_, v), _). Ret v))"

lemma map_lookup_trie:
  assumes "key_maker k = Ret key"
  shows "map_lookup key_maker t k = trie_lookup t key"
proof (cases "trie_find t key")
  case (Ret p)
  then have "p \<noteq> None \<Longrightarrow> make_iterator t p = Ret p"
    by (auto simp: trie_find_def make_iterator_def bind_run_eq_Ret split: if_splits)
  then show ?thesis using Ret assms
    by (simp add: map_lookup_def map_find_def found_node_find [of key_maker k, OF assms] trie_lookup_def)
qed (simp_all add: map_lookup_def map_find_def found_node_find [of key_maker k, OF assms] trie_lookup_def)

lemma map_models_new: "0 < L \<Longrightarrow> map_models key_of L admissible trie_new Map.empty"
  unfolding map_models_def by (intro exI [of _ Map.empty]) (simp add: trie_models_new)

context fixed_key
begin

lemma map_models_upd:
  assumes "trie_models L t m" "admissible k" "\<forall>k. admissible k \<longrightarrow> m0 (key_bits (key_of k)) = map_option (Pair k) (f k)"
    "m = m0(key_bits (key_of k) \<mapsto> (k, v))"
  shows "map_models key_of L admissible t (f(k \<mapsto> v))"
proof -
  have "m (key_bits (key_of k')) = map_option (Pair k') ((f(k \<mapsto> v)) k')" if "admissible k'" for k'
    using assms(3,4) key_inj [OF that assms(2)] that by simp
  then show ?thesis using assms(1) unfolding map_models_def by blast
qed

lemma map_index_models:
  assumes "map_models key_of L admissible t f" "admissible k"
  shows "\<exists>p t'. map_index key_maker dflt t k = Ret ((Some p, case f k of None \<Rightarrow> dflt | Some v \<Rightarrow> v), t') \<and>
    map_models key_of L admissible t' (if f k = None then f(k \<mapsto> dflt) else f) \<and>
    trie_find t' (key_of k) = Ret (Some p)"
proof -
  obtain m where m: "trie_models L t m" "\<forall>k. admissible k \<longrightarrow> m (key_bits (key_of k)) = map_option (Pair k) (f k)"
    using assms(1) unfolding map_models_def by blast
  let ?b = "key_bits (key_of k)" and ?y = "case m (key_bits (key_of k)) of None \<Rightarrow> (k, dflt) | Some y \<Rightarrow> y"
  let ?m = "if m ?b = None then m(?b \<mapsto> (k, dflt)) else m"
  from trie_insert_node [OF m(1) key_usable [OF assms(2)], of "(k, dflt)"] obtain t' t1 p where t':
    "trie_insert t (key_of k) (k, dflt) = Ret (m ?b = None, t')" "trie_models L t' ?m"
    "insert_node t (key_of k) = Ret (Some p, t1)" "trie_find t' (key_of k) = Ret (Some p)"
    "iterator_deref t' (Some p) = Ret ?y" by blast
  have mb: "m ?b = map_option (Pair k) (f k)" using m(2) assms(2) by blast
  then have y: "snd ?y = (case f k of None \<Rightarrow> dflt | Some v \<Rightarrow> v)" by (cases "f k") simp_all
  have "map_models key_of L admissible t' (if f k = None then f(k \<mapsto> dflt) else f)"
  proof (cases "f k")
    case None
    then have "?m = m(?b \<mapsto> (k, dflt))" using mb by simp
    from map_models_upd [OF t'(2) assms(2) m(2) this] None show ?thesis by simp
  next
    case (Some v)
    then show ?thesis using t'(2) mb m(2) unfolding map_models_def by auto
  qed
  moreover have "map_index key_maker dflt t k = Ret ((Some p, snd ?y), t')"
    by (rule map_index_trie [of t "key_of k" k dflt _ t' p t1 key_maker, OF t'(1,3) key_maker_eq [OF assms(2)] t'(5)])
  ultimately show ?thesis using t'(4) y by auto
qed

lemma map_assign_models:
  assumes "map_models key_of L admissible t f" "admissible k"
  shows "\<exists>t'. map_assign key_maker dflt t k v = Ret t' \<and> map_models key_of L admissible t' (f(k \<mapsto> v))"
proof -
  let ?f = "if f k = None then f(k \<mapsto> dflt) else f" and ?b = "key_bits (key_of k)"
  obtain p t1 d where t1: "map_index key_maker dflt t k = Ret ((Some p, d), t1)"
    "map_models key_of L admissible t1 ?f" "trie_find t1 (key_of k) = Ret (Some p)"
    using map_index_models [OF assms] by blast
  obtain m where m: "trie_models L t1 m" "\<forall>k. admissible k \<longrightarrow> m (key_bits (key_of k)) = map_option (Pair k) (?f k)"
    using t1(2) unfolding map_models_def by blast
  have "?f k \<noteq> None" by simp
  then obtain d' where d': "?f k = Some d'" by blast
  then have "m ?b = Some (k, d')" using m(2) assms(2) by simp
  from trie_revalue [OF m(1) t1(3) key_usable [OF assms(2)] this, of "\<lambda>p. (fst p, v)"] obtain t2 where t2:
    "modify t1 (Some p) (\<lambda>n. n\<lparr>n_value := map_option (\<lambda>p. (fst p, v)) (n_value n)\<rparr>) = Ret t2"
    "trie_models L t2 (m(?b \<mapsto> (k, v)))" by auto
  have "?f(k \<mapsto> v) = f(k \<mapsto> v)" by simp
  with map_models_upd [OF t2(2) assms(2) m(2) refl] have "map_models key_of L admissible t2 (f(k \<mapsto> v))" by simp
  moreover have "map_assign key_maker dflt t k v = Ret t2" using t1(1) t2(1) by (simp add: map_assign_def)
  ultimately show ?thesis by blast
qed

lemma map_lookup_models:
  assumes "map_models key_of L admissible t f" "admissible k"
  shows "map_lookup key_maker t k = Ret (map_option (Pair k) (f k))"
proof -
  obtain m where m: "trie_models L t m" "m (key_bits (key_of k)) = map_option (Pair k) (f k)"
    using assms unfolding map_models_def by blast
  have "wf_key (key_of k)" using key_usable [OF assms(2)] by (simp add: trie_usable_def)
  from trie_lookup_holds [OF trie_models_holds [OF m(1)] this] m(2) show ?thesis
    by (simp add: map_lookup_trie [of key_maker k, OF key_maker_eq [OF assms(2)]])
qed

lemma map_assign_all_models:
  assumes "map_models key_of L admissible t f" "\<forall>e \<in> set kvs. admissible (fst e)"
  shows "\<exists>t'. map_assign_all key_maker dflt t kvs = Ret t' \<and>
    map_models key_of L admissible t' (f ++ map_of (rev kvs))"
  using assms
proof (induction kvs arbitrary: t f)
  case (Cons kv kvs)
  obtain k v where kv: "kv = (k, v)" by (cases kv)
  then have k: "admissible k" using Cons.prems(2) by simp
  from map_assign_models [OF Cons.prems(1) k] obtain t1 where t1:
    "map_assign key_maker dflt t k v = Ret t1" "map_models key_of L admissible t1 (f(k \<mapsto> v))" by blast
  moreover have "f(k \<mapsto> v) ++ map_of (rev kvs) = f ++ map_of (rev (kv # kvs))"
    using kv by (auto simp: fun_eq_iff map_add_def map_of_append split: option.splits)
  moreover have "map_assign_all key_maker dflt t (kv # kvs) = map_assign_all key_maker dflt t1 kvs"
    using t1(1) kv by simp
  ultimately show ?case using Cons.IH [OF t1(2)] Cons.prems(2) by (metis list.set_intros(2))
qed simp

lemma map_lookup_after:
  assumes "\<forall>e \<in> set kvs. admissible (fst e)" "admissible k"
  shows "bind_run (map_assign_all key_maker dflt trie_new kvs) (\<lambda>t. map_lookup key_maker t k) =
    Ret (map_option (Pair k) (map_of (rev kvs) k))"
proof -
  obtain t where t: "map_assign_all key_maker dflt trie_new kvs = Ret t"
    "map_models key_of L admissible t (Map.empty ++ map_of (rev kvs))"
    using map_assign_all_models [OF map_models_new [OF length_pos] assms(1), of dflt] by blast
  then show ?thesis using map_lookup_models [OF t(2) assms(2)] by simp
qed

lemma map_read_after:
  assumes "\<forall>e \<in> set kvs. admissible (fst e)" "admissible k"
  shows "map_read key_maker dflt kvs k = Ret (case map_of (rev kvs) k of None \<Rightarrow> dflt | Some v \<Rightarrow> v)"
proof -
  obtain t where t: "map_assign_all key_maker dflt trie_new kvs = Ret t"
    "map_models key_of L admissible t (Map.empty ++ map_of (rev kvs))"
    using map_assign_all_models [OF map_models_new [OF length_pos] assms(1), of dflt] by blast
  then show ?thesis using map_index_models [OF t(2) assms(2), of dflt] by (auto simp: map_read_def)
qed

end

subsection \<open>The key makers of the library\<close>

definition signed_key :: "'t::len word \<Rightarrow> patricia_key" where
  "signed_key v = unsigned_key (signed_image v)"

definition address_key :: "nat \<Rightarrow> byte list \<Rightarrow> patricia_key" where
  "address_key n a = \<lparr>pk_key = a, pk_bits = 8 * n\<rparr>"

lemma unsigned_key_inj:
  "whole_bytes TYPE('t::len) \<Longrightarrow> key_bits (unsigned_key (v :: 't word)) = key_bits (unsigned_key w) \<longleftrightarrow> v = w"
  by (metis bits_value_unsigned_key unsigned_word_eqI)

lemma signed_image_inj: "signed_image v = signed_image w \<longleftrightarrow> v = w"
  by (metis signed_image_eq add_right_cancel signed_word_eqI)

lemma unsigned_key_usable: "whole_bytes TYPE('t::len) \<Longrightarrow> trie_usable LENGTH('t) (unsigned_key (v :: 't word))"
  using wf_unsigned_key [of v] by (simp add: trie_usable_def unsigned_key_def)

lemma address_key_inj:
  assumes "length a = n" "length b = n"
  shows "key_bits (address_key n a) = key_bits (address_key n b) \<longleftrightarrow> a = b"
proof
  assume eq: "key_bits (address_key n a) = key_bits (address_key n b)"
  then have "take (8 * n) (key_bits (address_key n a)) = take (8 * n) (key_bits (address_key n b))" by simp
  then have "\<forall>i < 8 * n. test_bit (address_key n a) i = test_bit (address_key n b) i"
    by (subst (asm) take_key_bits_eq_iff) (simp_all add: address_key_def)
  then have "take n (pk_key (address_key n a)) = take n (pk_key (address_key n b))"
    using assms by (subst bits_bytes_eq_iff) (simp_all add: address_key_def)
  then show "a = b" using assms by (simp add: address_key_def)
qed simp

lemma address_key_usable: "length a = n \<Longrightarrow> trie_usable (8 * n) (address_key n a)"
  by (simp add: trie_usable_def wf_key_def address_key_def div_add1_eq)

lemma inet_key_maker_eq:
  "length a = 4 \<Longrightarrow> inet_key_maker a = Ret (address_key 4 a)"
  "length a = 16 \<Longrightarrow> inet6_key_maker a = Ret (address_key 16 a)"
  by (simp_all add: inet_key_maker_def inet6_key_maker_def patricia_key_of_def address_key_def Let_def)

interpretation unsigned: ordered_key "key_maker_unsigned :: 't::len word \<Rightarrow> patricia_key run" unsigned_key
    "LENGTH('t)" "\<lambda>_. whole_bytes TYPE('t)" "(<)"
  by unfold_locales
    (simp_all add: key_maker_unsigned_eq unsigned_key_usable unsigned_key_inj unsigned_key_order bit_less_def)

lemma signed_order:
  "whole_bytes TYPE('t::len) \<Longrightarrow> bit_less (key_bits (signed_key (v :: 't word))) (key_bits (signed_key w)) \<longleftrightarrow> v <s w"
  by (simp add: bit_less_def signed_key_def unsigned_key_order word_less_def signed_image_eq word_sless_alt)

interpretation signed: ordered_key "key_maker_signed :: 't::len word \<Rightarrow> patricia_key run" signed_key
    "LENGTH('t)" "\<lambda>_. whole_bytes TYPE('t)" word_sless
  by unfold_locales
    (simp_all add: key_maker_signed_def key_maker_unsigned_eq unsigned_key_usable unsigned_key_inj
      signed_key_def signed_image_inj signed_order [unfolded signed_key_def])

interpretation inet: fixed_key inet_key_maker "address_key 4" 32 "\<lambda>a. length a = 4"
  using address_key_usable [of _ 4] by unfold_locales (auto simp: inet_key_maker_eq address_key_inj)

interpretation inet6: fixed_key inet6_key_maker "address_key 16" 128 "\<lambda>a. length a = 16"
  using address_key_usable [of _ 16] by unfold_locales (auto simp: inet_key_maker_eq address_key_inj)

subsection \<open>Properties\<close>

text \<open>C6: A trie of keys of one length that was built by insertions is a map: inserting returns whether
  the key was absent, keeps the first value and keeps the invariant; looking up returns the value;
  removing returns whether the key was present, and what is left can be looked up and removed. After
  a removal the full invariant holds again, so that insertion works, when keys with both values of
  the first bit are left. In general either it holds or the trie is stuck below a common prefix of
  the keys that are left: inserting a key without that prefix follows a null pointer. With one
  entry left, this is every other key.\<close>

theorem patricia_trie_contract:
  assumes "trie_models L t m" "trie_usable L key"
  shows "(\<exists>t'. trie_insert t key x = Ret (m (key_bits key) = None, t') \<and>
      trie_models L t' (if m (key_bits key) = None then m(key_bits key \<mapsto> x) else m)) \<and>
    trie_lookup t key = Ret (m (key_bits key)) \<and>
    (\<exists>t'. trie_remove t key = Ret (m (key_bits key) \<noteq> None, t') \<and> trie_holds t' (m(key_bits key := None)) \<and>
      (m (key_bits key) = None \<longrightarrow> t' = t) \<and>
      (\<forall>m'. m (key_bits key) \<noteq> None \<and> m' = m(key_bits key := None) \<longrightarrow>
        ((\<exists>ks \<in> dom m'. \<exists>ks' \<in> dom m'. hd ks \<noteq> hd ks') \<longrightarrow> trie_models L t' m') \<and>
        (m' \<noteq> Map.empty \<longrightarrow> trie_models L t' m' \<or>
          (\<exists>pfx. pfx \<noteq> [] \<and> trie_stuck L pfx t' \<and> (\<forall>ks \<in> dom m'. take (length pfx) ks = pfx))) \<and>
        (\<forall>ks. dom m' = {ks} \<longrightarrow> trie_stuck L ks t')))"
proof (cases "m (key_bits key)")
  case None
  then have "m(key_bits key := None) = m" by auto
  then show ?thesis
    using None trie.put_models [OF assms, of x] trie.get_holds [OF trie.models_holds [OF assms(1)] assms(2)]
      trie.dele_models [OF assms] trie.models_holds [OF assms(1)] by auto
next
  case (Some y)
  define m' where "m' = m(key_bits key := None)"
  obtain t' where t': "trie_remove t key = Ret (True, t')" "trie_pruned L t' m'"
    "m' \<noteq> Map.empty \<longrightarrow> trie_models L t' m' \<or>
      (\<exists>pfx. pfx \<noteq> [] \<and> trie_stuck L pfx t' \<and> (\<forall>ks \<in> dom m'. take (length pfx) ks = pfx))"
    "\<forall>ks. dom m' = {ks} \<longrightarrow> trie_stuck L ks t'"
    using trie_remove_models [OF assms Some m'_def] by blast
  have "hd ks = hd pfx" if "take (length pfx) ks = pfx" "pfx \<noteq> []" for ks pfx :: "bool list"
    using that by (metis hd_take length_greater_0_conv)
  with t'(3) have "(\<exists>ks \<in> dom m'. \<exists>ks' \<in> dom m'. hd ks \<noteq> hd ks') \<longrightarrow> trie_models L t' m'" by (metis domIff)
  then show ?thesis unfolding m'_def [symmetric]
    using t' trie_pruned_holds [OF t'(2)] Some trie.put_models [OF assms, of x]
      trie.get_holds [OF trie.models_holds [OF assms(1)] assms(2)] by auto
qed

theorem patricia_trie_contract_witness:
  "\<exists>t'. trie_insert trie_new (unsigned_key (7 :: 32 word)) ''seven'' = Ret (True, t') \<and>
    trie_models 32 t' [key_bits (unsigned_key (7 :: 32 word)) \<mapsto> ''seven'']"
proof -
  have "trie_usable 32 (unsigned_key (7 :: 32 word))"
    using unsigned_key_usable [where 't = 32] by (simp add: whole_bytes_def)
  moreover have "trie_models 32 (trie_new :: string patricia_trie) Map.empty" by (rule trie_models_new) simp
  ultimately show ?thesis
    using patricia_trie_contract [of 32 trie_new Map.empty "unsigned_key (7 :: 32 word)" "''seven''"] by simp
qed

text \<open>C5: A \<^verbatim>\<open>patricia_set\<close> of integers is the set of integers: after it was built from a range and
  other values were erased, \<^verbatim>\<open>contains\<close> returns membership, for unsigned and signed integers of
  every width of whole bytes (the key maker of signed ones is taken to wrap around).\<close>

theorem patricia_set_is_set:
  assumes "whole_bytes TYPE('t::len)"
  shows "bind_run (patricia_set key_maker_unsigned (xs :: 't word list)) (\<lambda>t.
      bind_run (set_erase_all key_maker_unsigned t ys) (\<lambda>t. set_contains key_maker_unsigned t w)) =
    Ret (w \<in> set xs \<and> w \<notin> set ys) \<and>
    bind_run (patricia_set key_maker_signed xs) (\<lambda>t.
      bind_run (set_erase_all key_maker_signed t ys) (\<lambda>t. set_contains key_maker_signed t w)) =
    Ret (w \<in> set xs \<and> w \<notin> set ys)"
  using unsigned.set_contains_after [of xs ys] signed.set_contains_after [of xs ys] assms by blast

theorem patricia_set_is_set_witness:
  "bind_run (patricia_set key_maker_unsigned [4, 2, 0xFFFF, 2 :: 16 word]) (\<lambda>t.
     bind_run (set_erase_all key_maker_unsigned t [2, 5 :: 16 word]) (\<lambda>t.
     set_contains key_maker_unsigned t (0xFFFF :: 16 word))) = Ret True \<and>
   bind_run (patricia_set key_maker_signed [4, 2, 0xFFFF, 2 :: 16 word]) (\<lambda>t.
     bind_run (set_erase_all key_maker_signed t [2, 5 :: 16 word]) (\<lambda>t.
     set_contains key_maker_signed t (2 :: 16 word))) = Ret False"
proof -
  have "whole_bytes TYPE(16)" by (simp add: whole_bytes_def)
  from patricia_set_is_set [OF this, of "[4, 2, 0xFFFF, 2]" "[2, 5]" "0xFFFF"]
    patricia_set_is_set [OF this, of "[4, 2, 0xFFFF, 2]" "[2, 5]" 2] show ?thesis
    by (simp del: set_erase_all.simps)
qed

text \<open>C32: A loop over a \<^verbatim>\<open>patricia_set\<close> of integers built from a range, after other values were erased. When
  the erasing found nothing or left at least two values, the loop ends and sees every value once, in
  increasing order: of the unsigned value for unsigned types, of the signed value for signed types.
  When it left one value or none, the loop follows a null pointer.\<close>

theorem patricia_set_sorted:
  fixes xs ys :: "'t::len word list"
  assumes "whole_bytes TYPE('t)"
  defines "run km \<equiv> bind_run (patricia_set km xs) (\<lambda>t. bind_run (set_erase_all km t ys) set_values)"
  shows "if set ys \<inter> set xs = {} \<or> 2 \<le> card (set xs - set ys)
    then run key_maker_unsigned = Ret (sorted_list_of_set (set xs - set ys)) \<and>
      (\<exists>vs. run key_maker_signed = Ret vs \<and> set vs = set xs - set ys \<and> sorted_wrt word_sless vs)
    else run key_maker_unsigned = Abort ''null pointer'' \<and> run key_maker_signed = Abort ''null pointer''"
proof (cases "set ys \<inter> set xs = {} \<or> 2 \<le> card (set xs - set ys)")
  case True
  obtain vs where vs: "run key_maker_unsigned = Ret vs" "set vs = set xs - set ys" "sorted_wrt (<) vs"
    using unsigned.set_values_after [of xs ys] assms(1) True unfolding run_def by blast
  from vs(3) have "sorted vs \<and> distinct vs" by (simp add: strict_sorted_iff)
  then have "vs = sorted_list_of_set (set xs - set ys)" using vs(2) by (metis sorted_list_of_set.idem_if_sorted_distinct)
  then show ?thesis using vs(1) signed.set_values_after [of xs ys] assms(1) True unfolding run_def by auto
next
  case False
  then show ?thesis using unsigned.set_values_after [of xs ys] signed.set_values_after [of xs ys] assms(1)
    unfolding run_def by (auto simp: not_le)
qed

theorem patricia_set_sorted_witness:
  "bind_run (patricia_set key_maker_unsigned [4, 2, 0xFF, 2 :: 8 word])
      (\<lambda>t. bind_run (set_erase_all key_maker_unsigned t [4 :: 8 word]) set_values) = Ret [2, 0xFF] \<and>
    bind_run (patricia_set key_maker_unsigned [4, 2, 0xFF, 2 :: 8 word])
      (\<lambda>t. bind_run (set_erase_all key_maker_unsigned t [4, 0xFF :: 8 word]) set_values) = Abort ''null pointer''"
proof -
  have w: "whole_bytes TYPE(8)" by (simp add: whole_bytes_def)
  have d: "set [4, 2, 0xFF, 2 :: 8 word] - set [4] = {2, 0xFF}"
    "set [4, 2, 0xFF, 2 :: 8 word] - set [4, 0xFF] = {2}" by auto
  have "sorted_list_of_set {2, 0xFF :: 8 word} = sorted_list_of_set (set [2, 0xFF])" by simp
  also have "\<dots> = [2, 0xFF]" by (simp only: sorted_list_of_set_sort_remdups) simp
  finally have s: "sorted_list_of_set {2, 0xFF :: 8 word} = [2, 0xFF]" .
  from patricia_set_sorted [OF w, of "[4]" "[4, 2, 0xFF, 2]"] patricia_set_sorted [OF w, of "[4, 0xFF]" "[4, 2, 0xFF, 2]"]
  show ?thesis unfolding d s by (simp del: set_erase_all.simps)
qed

text \<open>C33: A \<^verbatim>\<open>patricia_map\<close> is a map: after any sequence of assignments \<^verbatim>\<open>m[k] = v\<close>, reading \<^verbatim>\<open>m[k]\<close> gives the
  value assigned last, or the default for a key that was not assigned, whether the keys are IPv4
  addresses, IPv6 addresses or unsigned integers; and for integers \<^verbatim>\<open>find\<close> leads to the pair of the key
  and the value assigned last, or to \<^verbatim>\<open>end()\<close>. (\<^verbatim>\<open>find\<close> does not compile for addresses: their key makers
  have no \<^verbatim>\<open>rebind\<close>.)\<close>

theorem patricia_map_is_map:
  fixes ivs :: "('t::len word \<times> 'v) list"
  assumes "length a4 = 4" "\<forall>e \<in> set kvs. length (fst e) = 4" "length a6 = 16" "\<forall>e \<in> set kvs6. length (fst e) = 16"
    "whole_bytes TYPE('t)"
  shows "map_read inet_key_maker dflt kvs a4 = Ret (case map_of (rev kvs) a4 of None \<Rightarrow> dflt | Some v \<Rightarrow> v) \<and>
    map_read inet6_key_maker dflt kvs6 a6 = Ret (case map_of (rev kvs6) a6 of None \<Rightarrow> dflt | Some v \<Rightarrow> v) \<and>
    map_read key_maker_unsigned dflt ivs i = Ret (case map_of (rev ivs) i of None \<Rightarrow> dflt | Some v \<Rightarrow> v) \<and>
    bind_run (map_assign_all key_maker_unsigned dflt trie_new ivs) (\<lambda>t. map_lookup key_maker_unsigned t i) =
      Ret (map_option (Pair i) (map_of (rev ivs) i))"
  using assms inet.map_read_after [of kvs a4 dflt] inet6.map_read_after [of kvs6 a6 dflt]
    unsigned.map_read_after [where kvs = ivs and k = i and dflt = dflt]
    unsigned.map_lookup_after [where kvs = ivs and k = i and dflt = dflt] by blast

theorem patricia_map_is_map_witness:
  "map_read inet_key_maker (0 :: nat) [([10, 0, 0, 1], 1), ([10, 0, 0, 2], 2), ([10, 0, 0, 1], 3)] [10, 0, 0, 1] = Ret 3 \<and>
   map_read inet6_key_maker (0 :: nat) [] (replicate 16 0) = Ret 0 \<and>
   bind_run (map_assign_all key_maker_unsigned 0 trie_new [(7 :: 32 word, 1 :: nat), (8, 2), (7, 3)])
     (\<lambda>t. map_lookup key_maker_unsigned t (7 :: 32 word)) = Ret (Some (7, 3))"
proof -
  have "whole_bytes TYPE(32)" by (simp add: whole_bytes_def)
  from patricia_map_is_map [of "[10, 0, 0, 1]" "[([10, 0, 0, 1], 1), ([10, 0, 0, 2], 2), ([10, 0, 0, 1], 3)]"
    "replicate 16 0" "[]" "0 :: nat" "[(7 :: 32 word, 1), (8, 2), (7, 3)]" 7, OF _ _ _ _ this]
  show ?thesis by (simp del: map_assign_all.simps)
qed

text \<open>Where the code fails. Keys of different length: of 10.0/9, 10.128/9 and 10/8 the last one is
  reported as inserted and not found afterwards, since the inner node it takes over has no key.
  After a removal that leaves one entry, the root is that entry: inserting another key or
  iterating goes through the null parent pointer of the root. \<^verbatim>\<open>prefix_match\<close> takes an inner node
  without a key for a match, so that a key without any prefix in the set leads to some other
  value.\<close>

theorem patricia_failures:
  "bind_run (trie_insert trie_new \<lparr>pk_key = [10, 0], pk_bits = 9\<rparr> (1 :: nat)) (\<lambda>(_, t).
   bind_run (trie_insert t \<lparr>pk_key = [10, 0x80], pk_bits = 9\<rparr> 2) (\<lambda>(_, t).
   bind_run (trie_insert t \<lparr>pk_key = [10], pk_bits = 8\<rparr> 3) (\<lambda>(b, t).
   bind_run (trie_lookup t \<lparr>pk_key = [10], pk_bits = 8\<rparr>) (\<lambda>r. Ret (b, r))))) = Ret (True, None) \<and>
   bind_run (patricia_set key_maker_unsigned [0x61, 0x80 :: 8 word]) (\<lambda>t.
   bind_run (set_erase key_maker_unsigned t (0x80 :: 8 word)) (\<lambda>(_, t).
   bind_run (set_insert key_maker_unsigned t 0x62) (\<lambda>(r, _). Ret r))) = Abort ''null pointer'' \<and>
   bind_run (patricia_set key_maker_unsigned [0x61, 0x80 :: 8 word]) (\<lambda>t.
   bind_run (set_erase key_maker_unsigned t (0x80 :: 8 word)) (\<lambda>(_, t). set_values t)) = Abort ''null pointer'' \<and>
   bind_run (patricia_set key_maker_string [''abc'']) (\<lambda>t.
   bind_run (set_prefix_match key_maker_string t ''x'') (\<lambda>it. iterator_deref t it)) = Ret ''abc''"
  by code_simp

end
