(* ===== verification/Patricia_Memory.thy ===== *)
theory Patricia_Memory
  imports Patricia_Store
begin

text \<open>
  The destructor of the trie: the walk of \<^verbatim>\<open>_delete_children\<close>, which needs no stack and no recursion,
  ends and frees every node below its start once, and nothing else.
\<close>

text \<open>The iterations of the walks below a node.\<close>

fun walk_steps :: "'v shape \<Rightarrow> nat" where
  "walk_steps Tip = 0"
| "walk_steps (Nd a b k v l r) =
     walk_steps l + walk_steps r + (if l = Tip then 0 else 2) + (if r = Tip then 0 else 2) -
     (if l \<noteq> Tip \<and> r \<noteq> Tip then 1 else 0)"

lemma walk_steps_bound: "s \<noteq> Tip \<Longrightarrow> walk_steps s + 2 \<le> 2 * nodes s"
proof (induction s)
  case (Nd a b k v l r)
  then show ?case by (cases "l = Tip"; cases "r = Tip") auto
qed simp

text \<open>The store when the walk is back at the top: a single node is left.\<close>

fun pruned :: "(nat \<Rightarrow> 'v patricia_node option) \<Rightarrow> ptr \<Rightarrow> 'v shape \<Rightarrow> nat \<Rightarrow> 'v patricia_node option" where
  "pruned h par Tip = h"
| "pruned h par (Nd a b k v l r) = (\<lambda>x.
     if x = a then Some (node_rec b k v par None None)
     else if x \<in> addrs l \<union> addrs r then None else h x)"

lemma pruned_out: "x \<notin> addrs s \<Longrightarrow> pruned h par s x = h x"
  by (cases s) auto

lemma shape_pruned: "addrs s \<inter> addrs u = {} \<Longrightarrow> shape_at (pruned h par u) p s = shape_at h p s"
  by (rule shape_at_cong) (auto intro: pruned_out)

lemma delete_node_Some:
  "tr_heap t a = Some n \<Longrightarrow> delete_node t (Some a) = Ret (t\<lparr>tr_heap := (tr_heap t)(a := None)\<rparr>)"
  by (simp add: delete_node_def load_Some)

text \<open>One child of \<open>a\<close> done and freed, the other one not there: back at \<open>a\<close>.\<close>

lemma delete_last_child:
  assumes "tr_heap t c = Some (node_rec b' k' v' (Some a) None None)"
    "tr_heap t a = Some (node_rec b k v par lp rp)" "a \<noteq> c" "lp = Some c \<and> rp = None \<or> lp = None \<and> rp = Some c"
  shows "delete_children_loop (Suc f) False t (Some c) =
    delete_children_loop f False (t\<lparr>tr_heap := (tr_heap t)(a := Some (node_rec b k v par None None), c := None)\<rparr>) (Some a)"
  using assms by (auto simp: load_Some delete_edge_def modify_Some delete_node_Some)

lemma delete_first_child:
  assumes "tr_heap t c = Some (node_rec b' k' v' (Some a) None None)"
    "tr_heap t a = Some (node_rec b k v par (Some c) (Some d))" "a \<noteq> c"
  shows "delete_children_loop (Suc f) False t (Some c) =
    delete_children_loop f True (t\<lparr>tr_heap := (tr_heap t)(a := Some (node_rec b k v par None (Some d)), c := None)\<rparr>) (Some d)"
  using assms by (simp add: load_Some modify_Some delete_node_Some)

lemma delete_down:
  "tr_heap t a = Some (node_rec b k v p (Some c) rp) \<Longrightarrow>
    delete_children_loop (Suc f) True t (Some a) = delete_children_loop f True t (Some c)"
  "tr_heap t a = Some (node_rec b k v p None (Some c)) \<Longrightarrow>
    delete_children_loop (Suc f) True t (Some a) = delete_children_loop f True t (Some c)"
  by (simp_all add: load_Some)

lemma delete_at_leaf:
  "tr_heap t a = Some (node_rec b k v p None None) \<Longrightarrow>
    delete_children_loop f True t (Some a) = delete_children_loop f False t (Some a)"
  by (cases f) (simp_all add: load_Some)

declare delete_children_loop.simps [simp del]

lemma delete_loop_shape:
  assumes "shape_at (tr_heap t) par s" "dist s" "s \<noteq> Tip"
  shows "delete_children_loop (walk_steps s + f) True t (root_of s) =
    delete_children_loop f False (t\<lparr>tr_heap := pruned (tr_heap t) par s\<rparr>) (root_of s)"
  using assms
proof (induction s arbitrary: t par f)
  case (Nd a b k v l r)
  have ha: "tr_heap t a = Some (node_rec b k v par (root_of l) (root_of r))"
    and sl: "shape_at (tr_heap t) (Some a) l" and sr: "shape_at (tr_heap t) (Some a) r"
    using Nd.prems(1) by simp_all
  have d: "a \<notin> addrs l" "a \<notin> addrs r" "addrs l \<inter> addrs r = {}" "dist l" "dist r" using Nd.prems(2) by simp_all
  have same: "t\<lparr>tr_heap := pruned (tr_heap t) par (Nd a b k v Tip Tip)\<rparr> = t"
    if "l = Tip" "r = Tip" using ha that by (auto simp: fun_eq_iff)
  note IH = Nd.IH(1) [of _ "Some a"] Nd.IH(2) [of _ "Some a"]
  have top: "pruned h (Some a) c (addr c) = Some (node_rec (bitn c) (nkey c) (nval c) (Some a) None None)"
    if "c \<noteq> Tip" for h c using that by (cases c) auto
  consider "l = Tip" "r = Tip" | "l \<noteq> Tip" "r = Tip" | "l = Tip" "r \<noteq> Tip" | "l \<noteq> Tip" "r \<noteq> Tip" by blast
  then show ?case
  proof cases
    case 1
    then show ?thesis using same ha delete_at_leaf [of t a b k v par f] by simp
  next
    case 2
    obtain al where al: "root_of l = Some al" "al \<in> addrs l" "addr l = al" using 2 by (cases l) auto
    let ?t = "t\<lparr>tr_heap := pruned (tr_heap t) (Some a) l\<rparr>"
    have "delete_children_loop (walk_steps (Nd a b k v l r) + f) True t (Some a) =
        delete_children_loop (walk_steps l + Suc f) True t (Some al)"
      using 2 ha al delete_down(1) [of t a b k v par al None "walk_steps l + Suc f"] by simp
    also have "\<dots> = delete_children_loop (Suc f) False ?t (Some al)"
      using IH(1) [OF sl d(4) 2(1), of "Suc f"] al by simp
    also have "\<dots> = delete_children_loop f False (?t\<lparr>tr_heap := (tr_heap ?t)
        (a := Some (node_rec b k v par None None), al := None)\<rparr>) (Some a)"
      by (rule delete_last_child) (use 2 al d ha top [of l] pruned_out [of a l] in auto)
    also have "(tr_heap ?t)(a := Some (node_rec b k v par None None), al := None) =
        pruned (tr_heap t) par (Nd a b k v l r)"
      using 2 al d by (cases l) (auto simp: fun_eq_iff)
    finally show ?thesis by simp
  next
    case 3
    obtain ar where ar: "root_of r = Some ar" "ar \<in> addrs r" "addr r = ar" using 3 by (cases r) auto
    let ?t = "t\<lparr>tr_heap := pruned (tr_heap t) (Some a) r\<rparr>"
    have "delete_children_loop (walk_steps (Nd a b k v l r) + f) True t (Some a) =
        delete_children_loop (walk_steps r + Suc f) True t (Some ar)"
      using 3 ha ar delete_down(2) [of t a b k v par ar "walk_steps r + Suc f"] by simp
    also have "\<dots> = delete_children_loop (Suc f) False ?t (Some ar)"
      using IH(2) [OF sr d(5) 3(2), of "Suc f"] ar by simp
    also have "\<dots> = delete_children_loop f False (?t\<lparr>tr_heap := (tr_heap ?t)
        (a := Some (node_rec b k v par None None), ar := None)\<rparr>) (Some a)"
      by (rule delete_last_child) (use 3 ar d ha top [of r] pruned_out [of a r] in auto)
    also have "(tr_heap ?t)(a := Some (node_rec b k v par None None), ar := None) =
        pruned (tr_heap t) par (Nd a b k v l r)"
      using 3 ar d by (cases r) (auto simp: fun_eq_iff)
    finally show ?thesis by simp
  next
    case 4
    obtain al where al: "root_of l = Some al" "al \<in> addrs l" "addr l = al" using 4 by (cases l) auto
    obtain ar where ar: "root_of r = Some ar" "ar \<in> addrs r" "addr r = ar" using 4 by (cases r) auto
    let ?t = "t\<lparr>tr_heap := pruned (tr_heap t) (Some a) l\<rparr>"
    let ?u = "t\<lparr>tr_heap := (pruned (tr_heap t) (Some a) l)(a := Some (node_rec b k v par None (Some ar)), al := None)\<rparr>"
    let ?w = "?u\<lparr>tr_heap := pruned (tr_heap ?u) (Some a) r\<rparr>"
    have "delete_children_loop (walk_steps (Nd a b k v l r) + f) True t (Some a) =
        delete_children_loop (walk_steps l + Suc (walk_steps r + Suc f)) True t (Some al)"
      using 4 ha al delete_down(1) [of t a b k v par al "root_of r" "walk_steps l + Suc (walk_steps r + Suc f)"]
      by (simp add: add.assoc)
    also have "\<dots> = delete_children_loop (Suc (walk_steps r + Suc f)) False ?t (Some al)"
      using IH(1) [OF sl d(4) 4(1), of "Suc (walk_steps r + Suc f)"] al by simp
    also have "\<dots> = delete_children_loop (walk_steps r + Suc f) True ?u (Some ar)"
    proof -
      have "a \<noteq> al" using al(2) d(1) by auto
      moreover have "tr_heap ?t al = Some (node_rec (bitn l) (nkey l) (nval l) (Some a) None None)"
        "tr_heap ?t a = Some (node_rec b k v par (Some al) (Some ar))"
        using al ar d ha top [OF 4(1)] pruned_out [of a l] by auto
      ultimately show ?thesis using delete_first_child [of ?t al] by simp
    qed
    also have "\<dots> = delete_children_loop (Suc f) False ?w (Some ar)"
    proof -
      have "shape_at (tr_heap ?u) (Some a) r" using sr shape_pruned [of r l] d al by (auto simp: disjoint_iff)
      from IH(2) [OF this d(5) 4(2), of "Suc f"] show ?thesis unfolding ar(1) .
    qed
    also have "\<dots> = delete_children_loop f False (?w\<lparr>tr_heap := (tr_heap ?w)
        (a := Some (node_rec b k v par None None), ar := None)\<rparr>) (Some a)"
      by (rule delete_last_child) (use 4 al ar d ha top [of r] pruned_out [of a r] in auto)
    also have "(tr_heap ?w)(a := Some (node_rec b k v par None None), ar := None) =
        pruned (tr_heap t) par (Nd a b k v l r)"
      using 4 al ar d by (cases l; cases r) (auto simp: fun_eq_iff)
    finally show ?thesis by simp
  qed
qed simp

subsection \<open>The destructor\<close>

definition freed :: "'v patricia_trie \<Rightarrow> nat set \<Rightarrow> 'v patricia_trie" where
  "freed t A = t\<lparr>tr_heap := (\<lambda>x. if x \<in> A then None else tr_heap t x)\<rparr>"

lemma delete_children_shape:
  assumes "shape_at (tr_heap t) par s" "dist s" "s \<noteq> Tip" "nodes s \<le> tr_next t"
  shows "delete_children t (root_of s) = Ret (t\<lparr>tr_heap := pruned (tr_heap t) None s\<rparr>)"
proof -
  obtain a b k v l r where s: "s = Nd a b k v l r" using assms(3) by (cases s) auto
  let ?t = "t\<lparr>tr_heap := (tr_heap t)(a := Some (node_rec b k v None (root_of l) (root_of r)))\<rparr>"
  have t: "modify t (Some a) (\<lambda>n. n\<lparr>n_parent := None\<rparr>) = Ret ?t" using assms(1) s by (simp add: modify_Some)
  have sh: "shape_at (tr_heap ?t) None s" using assms(1,2) s by simp
  define f where "f = 2 * tr_next t + 1 - walk_steps s"
  have f: "walk_bound ?t = walk_steps s + Suc f"
    using walk_steps_bound [OF assms(3)] assms(4) by (simp add: walk_bound_def f_def)
  have "pruned (tr_heap ?t) None s = pruned (tr_heap t) None s" using s by (auto simp: fun_eq_iff)
  then show ?thesis
    using delete_loop_shape [OF sh assms(2,3), of "Suc f"] t s
    by (simp add: delete_children_def f delete_children_loop.simps load_Some)
qed

lemma delete_subtree_shape:
  assumes "shape_at (tr_heap t) par s" "dist s" "nodes s \<le> tr_next t"
  shows "delete_subtree t (root_of s) = Ret (freed t (addrs s))"
proof (cases s)
  case Tip
  then show ?thesis by (simp add: delete_subtree_def freed_def)
next
  case (Nd a b k v l r)
  then have "delete_children t (Some a) = Ret (t\<lparr>tr_heap := pruned (tr_heap t) None s\<rparr>)"
    using delete_children_shape [OF assms(1,2) _ assms(3)] by simp
  then show ?thesis using Nd
    by (auto simp: delete_subtree_def delete_node_Some freed_def fun_eq_iff intro!: arg_cong [where f = "\<lambda>h. t\<lparr>tr_heap := h\<rparr>"])
qed

lemma trie_destroy_shape:
  assumes "trie_rep t s"
  shows "trie_destroy t = Ret (freed t (addrs s))"
proof (cases s)
  case Tip
  then show ?thesis using assms by (simp add: trie_destroy_def trie_rep_def freed_def)
next
  case (Nd a b k v l r)
  have n: "nodes l \<le> tr_next t" "nodes r \<le> tr_next t" using nodes_bound [OF assms] Nd by simp_all
  have d: "a \<notin> addrs l" "a \<notin> addrs r" "addrs l \<inter> addrs r = {}" "dist l" "dist r"
    and sh: "shape_at (tr_heap t) (Some a) l" "shape_at (tr_heap t) (Some a) r"
      "tr_heap t a = Some (node_rec b k v None (root_of l) (root_of r))" "tr_root t = Some a"
    using assms Nd by (simp_all add: trie_rep_def)
  let ?t = "freed t (addrs l)"
  have L: "delete_subtree t (root_of l) = Ret ?t" by (rule delete_subtree_shape [OF sh(1) d(4) n(1)])
  have "shape_at (tr_heap ?t) (Some a) r" "nodes r \<le> tr_next ?t"
  proof -
    have "shape_at (tr_heap ?t) (Some a) r = shape_at (tr_heap t) (Some a) r"
      by (rule shape_at_cong) (use d(3) in \<open>auto simp: freed_def\<close>)
    then show "shape_at (tr_heap ?t) (Some a) r" "nodes r \<le> tr_next ?t" using sh(2) n(2) by (simp_all add: freed_def)
  qed
  then have R: "delete_subtree ?t (root_of r) = Ret (freed ?t (addrs r))" by (rule delete_subtree_shape [OF _ d(5)])
  show ?thesis using L R sh(3,4) d(1,2) Nd
    by (auto simp: trie_destroy_def delete_self_def load_Some delete_node_Some freed_def fun_eq_iff
        intro!: arg_cong [where f = "\<lambda>h. t\<lparr>tr_heap := h\<rparr>"])
qed

subsection \<open>Copies\<close>

text \<open>The copy has the nodes of the original in the order of the walk, at fresh addresses; the key of
  a node without a value becomes the empty key.\<close>

definition copy_key :: "patricia_key \<Rightarrow> patricia_key" where
  "copy_key k = (if pk_bits k = 0 then empty_key else k)"

fun clone :: "nat \<Rightarrow> 'v shape \<Rightarrow> 'v shape" where
  "clone n Tip = Tip"
| "clone n (Nd a b k v l r) = Nd n b (copy_key k) v (clone (Suc n) l) (clone (Suc n + nodes l) r)"

lemma addrs_clone: "addrs (clone n s) = {n..<n + nodes s}"
proof (induction s arbitrary: n)
  case (Nd a b k v l r)
  then show ?case by (auto simp: Suc_le_eq)
qed simp

lemma dist_clone: "dist (clone n s)"
  by (induction s arbitrary: n) (auto simp: addrs_clone)

lemma root_clone: "root_of (clone n s) = (if s = Tip then None else Some n)"
  by (cases s) auto

lemma nodes_pos: "s \<noteq> Tip \<Longrightarrow> 0 < nodes s"
  by (cases s) auto

lemma entries_clone:
  "ok s \<Longrightarrow> map (\<lambda>e. (key_bits (fst (snd e)), snd (snd e))) (entries (clone n s)) =
    map (\<lambda>e. (key_bits (fst (snd e)), snd (snd e))) (entries s)"
proof (induction s arbitrary: n)
  case (Nd a b k v l r)
  have "key_bits (copy_key k) = key_bits k" by (simp add: copy_key_def key_bits_def empty_key_def)
  with Nd show ?case by (cases v) auto
qed simp

definition loadable :: "patricia_key \<Rightarrow> bool" where
  "loadable k \<longleftrightarrow> pk_bits k = 0 \<or> wf_key k"

lemma ok_loadable: "ok (Nd a b k v l r) \<Longrightarrow> loadable k"
  by (auto simp: loadable_def split: if_splits)

lemma make_node_copy:
  "loadable k \<Longrightarrow> make_node t k b = Ret (tr_next t, t\<lparr>tr_next := Suc (tr_next t),
    tr_heap := (tr_heap t)(tr_next t := Some (node_rec b (copy_key k) None None None None))\<rparr>)"
proof (cases "pk_bits k = 0")
  case True
  then show ?thesis
    by (simp add: make_node_def key_empty_def copy_key_def Let_def store_def node_rec_def)
next
  case False
  assume "loadable k"
  with False show ?thesis using make_node_eq [of k t b] by (simp add: loadable_def copy_key_def)
qed

lemma shallow_copy_eq:
  assumes "tr_heap t c = Some (node_rec b k v par l r)" "loadable k" "c \<noteq> tr_next t"
  shows "shallow_copy t (Some c) = Ret (tr_next t, t\<lparr>tr_next := Suc (tr_next t),
    tr_heap := (tr_heap t)(tr_next t := Some (node_rec b (copy_key k) v par None None))\<rparr>)"
  using assms by (simp add: shallow_copy_def load_Some make_node_copy modify_Some)

lemma copy_edge_eq:
  assumes "tr_heap t c = Some (node_rec b k v par l r)" "loadable k" "c \<noteq> tr_next t"
    "tr_heap t q = Some nq" "q \<noteq> tr_next t"
  shows "copy_edge t (Some q) e (Some c) = Ret (tr_next t, t\<lparr>tr_next := Suc (tr_next t),
    tr_heap := (tr_heap t)(tr_next t := Some (node_rec b (copy_key k) v (Some q) None None),
      q := Some (set_edge e (Some (tr_next t)) nq))\<rparr>)"
  using assms by (simp add: copy_edge_def shallow_copy_eq modify_Some fun_upd_twist)

text \<open>The steps of the loop: down to a child, across to the right child, up.\<close>

lemma copy_down:
  assumes "tr_heap t a = Some (node_rec b k v p lp rp)" "if lp \<noteq> None then c = lp \<and> e = False else c = rp \<and> e = True"
    "c \<noteq> None" "copy_edge t q e c = Ret (m, t')"
  shows "copy_loop (Suc f) True t (Some a) q = copy_loop f True t' c (Some m)"
  using assms by (auto simp: load_Some split: if_splits)

lemma copy_across:
  assumes "tr_heap t c = Some (node_rec b' k' v' (Some a) lc rc)" "tr_heap t a = Some (node_rec b k v p (Some c) (Some d))"
    "tr_heap t m = Some nm" "copy_edge t (n_parent nm) True (Some d) = Ret (m', t')"
  shows "copy_loop (Suc f) False t (Some c) (Some m) = copy_loop f True t' (Some d) (Some m')"
  using assms by (simp add: load_Some)

lemma copy_up:
  assumes "tr_heap t c = Some (node_rec b' k' v' (Some a) lc rc)" "tr_heap t a = Some (node_rec b k v p lp rp)"
    "\<not> (Some c = lp \<and> rp \<noteq> None)" "tr_heap t m = Some nm"
  shows "copy_loop (Suc f) False t (Some c) (Some m) =
    (if p = None then Ret t else copy_loop f False t (Some a) (n_parent nm))"
  using assms by (auto simp: load_Some)

lemma copy_at_leaf:
  "tr_heap t a = Some (node_rec b k v p None None) \<Longrightarrow> copy_loop f True t (Some a) q = copy_loop f False t (Some a) q"
  by (cases f) (simp_all add: load_Some)

declare copy_loop.simps [simp del]

definition cloned :: "'v patricia_trie \<Rightarrow> nat \<Rightarrow> 'v shape \<Rightarrow> ptr \<Rightarrow> 'v patricia_trie \<Rightarrow> bool" where
  "cloned t n s par t' \<longleftrightarrow> tr_next t' = n + nodes s \<and> tr_root t' = tr_root t \<and>
     shape_at (tr_heap t') par (clone n s) \<and>
     (\<forall>x. x < n \<or> n + nodes s \<le> x \<longrightarrow> tr_heap t' x = tr_heap t x)"

text \<open>The child \<open>c\<close> of a node copied, as the edge \<open>e\<close> of the copy of the node.\<close>

definition child_copied ::
  "'v patricia_trie \<Rightarrow> nat \<Rightarrow> bool \<Rightarrow> nat \<Rightarrow> 'v shape \<Rightarrow> 'v patricia_trie \<Rightarrow> bool" where
  "child_copied u q e N c t2 \<longleftrightarrow>
     (\<exists>t1. copy_edge u (Some q) e (root_of c) = Ret (N, t1) \<and>
       (\<forall>f. copy_loop (walk_steps c + f) True t1 (root_of c) (Some N) = copy_loop f False t2 (root_of c) (Some N))) \<and>
     tr_next t2 = N + nodes c \<and> tr_root t2 = tr_root u \<and> shape_at (tr_heap t2) (Some q) (clone N c) \<and>
     (\<forall>x. x \<noteq> q \<and> (x < N \<or> N + nodes c \<le> x) \<longrightarrow> tr_heap t2 x = tr_heap u x) \<and>
     tr_heap t2 q = map_option (set_edge e (Some N)) (tr_heap u q)"

lemma child_copiedI:
  assumes IH: "\<And>t n par npar. shape_at (tr_heap t) par c \<Longrightarrow> addrs c \<subseteq> {..<n} \<Longrightarrow> tr_next t = Suc n \<Longrightarrow>
      tr_heap t n = Some (node_rec (bitn c) (copy_key (nkey c)) (nval c) npar None None) \<Longrightarrow> par \<noteq> None \<Longrightarrow>
      \<exists>t'. cloned t n c npar t' \<and>
        (\<forall>f. copy_loop (walk_steps c + f) True t (root_of c) (Some n) = copy_loop f False t' (root_of c) (Some n))"
    and c: "ok c" "c \<noteq> Tip" "shape_at (tr_heap u) (Some a) c" "addrs c \<subseteq> {..<q}"
    and q: "q < tr_next u" "tr_heap u q = Some nq"
  shows "\<exists>t2. child_copied u q e (tr_next u) c t2"
proof -
  let ?N = "tr_next u"
  obtain ca b k v l r where c': "c = Nd ca b k v l r" using c(2) by (cases c) auto
  let ?t = "u\<lparr>tr_next := Suc ?N, tr_heap := (tr_heap u)(?N := Some (node_rec b (copy_key k) v (Some q) None None),
      q := Some (set_edge e (Some ?N) nq))\<rparr>"
  have ce: "copy_edge u (Some q) e (Some ca) = Ret (?N, ?t)"
    by (rule copy_edge_eq) (use c c' q ok_loadable [of ca b k v l r] in \<open>auto simp del: ok.simps\<close>)
  have sub: "addrs c \<subseteq> {..<?N}" "?N \<notin> addrs c" "q \<notin> addrs c" using c(4) q(1) by auto
  then have "shape_at (tr_heap ?t) (Some a) c" using c(3) by simp
  from IH [OF this sub(1), of "Some q"] c' q(1) obtain t2 where t2: "cloned ?t ?N c (Some q) t2"
    "\<forall>f. copy_loop (walk_steps c + f) True ?t (root_of c) (Some ?N) = copy_loop f False t2 (root_of c) (Some ?N)"
    by auto
  then have "child_copied u q e ?N c t2"
    using ce c' q nodes_pos [OF c(2)] unfolding child_copied_def cloned_def by (intro conjI exI [of _ ?t]) auto
  then show ?thesis by blast
qed

lemma copy_loop_shape:
  assumes "shape_at (tr_heap t) par s" "ok s" "dist s" "s \<noteq> Tip" "addrs s \<subseteq> {..<n}" "tr_next t = Suc n"
    "tr_heap t n = Some (node_rec (bitn s) (copy_key (nkey s)) (nval s) npar None None)"
    "par = None \<longrightarrow> child False s \<noteq> Tip \<or> child True s \<noteq> Tip"
  shows "\<exists>t'. cloned t n s npar t' \<and> (\<forall>f. copy_loop (walk_steps s + f) True t (root_of s) (Some n) =
    (if par = None then Ret t' else copy_loop f False t' (root_of s) (Some n)))"
  using assms
proof (induction s arbitrary: t n par npar)
  case (Nd a b k v l r)
  note hn = Nd.prems(7)
  have ha: "tr_heap t a = Some (node_rec b k v par (root_of l) (root_of r))" "a < n"
    and sl: "shape_at (tr_heap t) (Some a) l" and sr: "shape_at (tr_heap t) (Some a) r"
    and d: "a \<notin> addrs l" "a \<notin> addrs r" "addrs l \<inter> addrs r = {}"
    and sub: "addrs l \<subseteq> {..<n}" "addrs r \<subseteq> {..<n}"
    using Nd.prems(1,3,5) by auto
  have IH: "\<exists>t'. cloned t n c npar t' \<and>
      (\<forall>f. copy_loop (walk_steps c + f) True t (root_of c) (Some n) = copy_loop f False t' (root_of c) (Some n))"
    if "c = l \<or> c = r" "c \<noteq> Tip" "shape_at (tr_heap t) par c" "addrs c \<subseteq> {..<n}" "tr_next t = Suc n"
      "tr_heap t n = Some (node_rec (bitn c) (copy_key (nkey c)) (nval c) npar None None)" "par \<noteq> None"
    for c t n par npar
  proof -
    have okc: "ok c" "dist c" using that(1) Nd.prems(2,3) by auto
    from that(1) show ?thesis
    proof
      assume "c = l"
      then show ?thesis using Nd.IH(1) [of t par n npar] okc that(2-7) by simp
    next
      assume "c = r"
      then show ?thesis using Nd.IH(2) [of t par n npar] okc that(2-7) by simp
    qed
  qed
  have copied: "\<exists>t2. child_copied u n e (tr_next u) c t2"
    if "c = l \<or> c = r" "c \<noteq> Tip" "shape_at (tr_heap u) (Some a) c" "n < tr_next u" "tr_heap u n = Some nq" for c e u nq
  proof -
    have c: "ok c" "addrs c \<subseteq> {..<n}" using that(1) Nd.prems(2) sub by auto
    show ?thesis by (rule child_copiedI [OF _ c(1) that(2,3) c(2) that(4,5)]) (rule IH [OF that(1,2)])
  qed
  have top: "\<exists>nm. tr_heap u m = Some nm \<and> n_parent nm = Some n" if "shape_at (tr_heap u) (Some n) (clone m c)" "c \<noteq> Tip" for u m c
    using that by (cases c) auto
  consider "l = Tip" "r = Tip" | c e where "l \<noteq> Tip \<and> r = Tip \<and> c = l \<and> e = False \<or> l = Tip \<and> r \<noteq> Tip \<and> c = r \<and> e = True"
    | "l \<noteq> Tip" "r \<noteq> Tip" by blast
  then show ?case
  proof cases
    case 1
    then have "cloned t n (Nd a b k v l r) npar t" using hn Nd.prems(6) by (simp add: cloned_def)
    then show ?thesis using 1 Nd.prems(8) copy_at_leaf [of t a b k v par _ "Some n"] ha by (intro exI [of _ t]) auto
  next
    case 2
    then have c: "c = l \<or> c = r" "c \<noteq> Tip" by auto
    have sc: "shape_at (tr_heap t) (Some a) c" "a \<notin> addrs c" "addrs c \<subseteq> {..<n}" using c(1) sl sr d sub by auto
    obtain t2 where t2: "child_copied t n e (Suc n) c t2"
      using copied [OF c sc(1), where e = e] hn Nd.prems(6) by auto
    obtain ca where ca: "root_of c = Some ca" "ca \<in> addrs c" "ca < n" using c(2) sc(3) by (cases c) auto
    obtain t1 where t1: "copy_edge t (Some n) e (Some ca) = Ret (Suc n, t1)"
      "\<And>f. copy_loop (walk_steps c + f) True t1 (Some ca) (Some (Suc n)) = copy_loop f False t2 (Some ca) (Some (Suc n))"
      using t2 ca(1) unfolding child_copied_def by auto
    have keep: "\<forall>x < n. tr_heap t2 x = tr_heap t x" using t2 unfolding child_copied_def by auto
    obtain b' k' v' lc rc where hc: "tr_heap t ca = Some (node_rec b' k' v' (Some a) lc rc)"
      using sc(1) ca(1) by (cases c) auto
    obtain nm where nm: "tr_heap t2 (Suc n) = Some nm" "n_parent nm = Some n"
      using top [of t2 "Suc n" c] t2 c(2) unfolding child_copied_def by auto
    have loop: "copy_loop (walk_steps (Nd a b k v l r) + f) True t (Some a) (Some n) =
        (if par = None then Ret t2 else copy_loop f False t2 (Some a) (Some n))" for f
    proof -
      have "copy_loop (walk_steps (Nd a b k v l r) + f) True t (Some a) (Some n) =
          copy_loop (Suc (walk_steps c + Suc f)) True t (Some a) (Some n)" using 2 by auto
      also have "\<dots> = copy_loop (walk_steps c + Suc f) True t1 (Some ca) (Some (Suc n))"
        by (rule copy_down [OF ha(1) _ _ t1(1)]) (use 2 ca(1) in auto)
      also have "\<dots> = copy_loop (Suc f) False t2 (Some ca) (Some (Suc n))" by (rule t1(2))
      also have "\<dots> = (if par = None then Ret t2 else copy_loop f False t2 (Some a) (n_parent nm))"
        by (rule copy_up [OF _ _ _ nm(1)]) (use keep ca ha hc 2 in auto)
      finally show ?thesis using nm(2) by simp
    qed
    moreover have "cloned t n (Nd a b k v l r) npar t2"
      using 2 t2 hn unfolding cloned_def child_copied_def by (auto simp: root_clone)
    ultimately show ?thesis by auto
  next
    case 3
    obtain al where al: "root_of l = Some al" "al \<in> addrs l" "al < n" using 3(1) sub(1) by (cases l) auto
    obtain ar where ar: "root_of r = Some ar" "ar \<in> addrs r" "ar < n" using 3(2) sub(2) by (cases r) auto
    let ?m = "Suc n + nodes l"
    obtain t2 where t2: "child_copied t n False (Suc n) l t2"
      using copied [OF disjI1 [OF refl] 3(1) sl, where e = False] hn Nd.prems(6) by auto
    obtain t1 where t1: "copy_edge t (Some n) False (Some al) = Ret (Suc n, t1)"
      "\<And>f. copy_loop (walk_steps l + f) True t1 (Some al) (Some (Suc n)) = copy_loop f False t2 (Some al) (Some (Suc n))"
      using t2 al(1) unfolding child_copied_def by auto
    have keep2: "\<forall>x < n. tr_heap t2 x = tr_heap t x" and next2: "tr_next t2 = ?m"
      and n2: "tr_heap t2 n = Some (node_rec b (copy_key k) v npar (Some (Suc n)) None)"
      using t2 hn unfolding child_copied_def by auto
    have "shape_at (tr_heap t2) (Some a) r = shape_at (tr_heap t) (Some a) r"
      by (rule shape_at_cong) (use keep2 sub(2) in auto)
    then obtain t4 where t4: "child_copied t2 n True ?m r t4"
      using copied [OF disjI2 [OF refl] 3(2), of t2 _ True] sr n2 next2 by auto
    obtain t3 where t3: "copy_edge t2 (Some n) True (Some ar) = Ret (?m, t3)"
      "\<And>f. copy_loop (walk_steps r + f) True t3 (Some ar) (Some ?m) = copy_loop f False t4 (Some ar) (Some ?m)"
      using t4 ar(1) unfolding child_copied_def by auto
    have keep4: "\<forall>x < n. tr_heap t4 x = tr_heap t x" using t4 keep2 unfolding child_copied_def by auto
    obtain bl kl vl ll rl where hl: "tr_heap t al = Some (node_rec bl kl vl (Some a) ll rl)"
      using sl al(1) by (cases l) auto
    obtain br kr vr lr rr where hr: "tr_heap t ar = Some (node_rec br kr vr (Some a) lr rr)"
      using sr ar(1) by (cases r) auto
    have ne: "Some ar \<noteq> root_of l" using al ar d(3) by auto
    obtain nm where nm: "tr_heap t2 (Suc n) = Some nm" "n_parent nm = Some n"
      using top [of t2 "Suc n" l] t2 3(1) unfolding child_copied_def by auto
    obtain nr where nr: "tr_heap t4 ?m = Some nr" "n_parent nr = Some n"
      using top [of t4 ?m r] t4 3(2) unfolding child_copied_def by auto
    have loop: "copy_loop (walk_steps (Nd a b k v l r) + f) True t (Some a) (Some n) =
        (if par = None then Ret t4 else copy_loop f False t4 (Some a) (Some n))" for f
    proof -
      have "copy_loop (walk_steps (Nd a b k v l r) + f) True t (Some a) (Some n) =
          copy_loop (Suc (walk_steps l + Suc (walk_steps r + Suc f))) True t (Some a) (Some n)"
        using 3 by (simp add: add.assoc)
      also have "\<dots> = copy_loop (walk_steps l + Suc (walk_steps r + Suc f)) True t1 (Some al) (Some (Suc n))"
        by (rule copy_down [OF ha(1) _ _ t1(1)]) (use 3 al(1) in auto)
      also have "\<dots> = copy_loop (Suc (walk_steps r + Suc f)) False t2 (Some al) (Some (Suc n))" by (rule t1(2))
      also have "\<dots> = copy_loop (walk_steps r + Suc f) True t3 (Some ar) (Some ?m)"
        by (rule copy_across [OF _ _ nm(1)]) (use keep2 al ar ha hl t3(1) nm(2) in auto)
      also have "\<dots> = copy_loop (Suc f) False t4 (Some ar) (Some ?m)" by (rule t3(2))
      also have "\<dots> = (if par = None then Ret t4 else copy_loop f False t4 (Some a) (n_parent nr))"
        by (rule copy_up [OF _ _ _ nr(1)]) (use keep4 al ar ha hr ne in auto)
      finally show ?thesis using nr(2) by simp
    qed
    moreover have "cloned t n (Nd a b k v l r) npar t4"
    proof -
      have "shape_at (tr_heap t4) (Some n) (clone (Suc n) l) = shape_at (tr_heap t2) (Some n) (clone (Suc n) l)"
        by (rule shape_at_cong) (use t4 in \<open>auto simp: addrs_clone child_copied_def\<close>)
      then show ?thesis
        using 3 t2 t4 hn next2 unfolding cloned_def child_copied_def by (auto simp: root_clone)
    qed
    ultimately show ?thesis by auto
  qed
qed simp

text \<open>The copy constructor on a trie with a node below the root.\<close>

lemma trie_copy_shape:
  assumes rep: "trie_rep t s" and s: "ok s" "s = Nd a b k v l r" "l \<noteq> Tip \<or> r \<noteq> Tip"
  shows "\<exists>t'. trie_copy t (tr_root t) = Ret (tr_next t, t') \<and> trie_rep t' s \<and>
    trie_rep (t'\<lparr>tr_root := Some (tr_next t)\<rparr>) (clone (tr_next t) s)"
proof -
  let ?n = "tr_next t"
  let ?t = "t\<lparr>tr_next := Suc ?n, tr_heap := (tr_heap t)(?n := Some (node_rec b (copy_key k) v None None None))\<rparr>"
  have sh: "shape_at (tr_heap t) None s" "dist s" "addrs s \<subseteq> {..<?n}" "\<forall>x \<ge> ?n. tr_heap t x = None" "tr_root t = Some a"
    using rep s(2) by (simp_all add: trie_rep_def)
  have "shallow_copy t (Some a) = Ret (?n, ?t)"
    by (rule shallow_copy_eq) (use sh s(1,2) ok_loadable [of a b k v l r] in \<open>auto simp del: ok.simps\<close>)
  moreover have "\<exists>t'. cloned ?t ?n s None t' \<and> (\<forall>f. copy_loop (walk_steps s + f) True ?t (root_of s) (Some ?n) = Ret t')"
  proof -
    have "?n \<notin> addrs s" using sh(3) by auto
    then have "shape_at (tr_heap ?t) None s" using sh(1) by simp
    moreover have "s \<noteq> Tip" "None = None \<longrightarrow> child False s \<noteq> Tip \<or> child True s \<noteq> Tip"
      "tr_heap ?t ?n = Some (node_rec (bitn s) (copy_key (nkey s)) (nval s) None None None)"
      using s(2,3) by auto
    ultimately show ?thesis using copy_loop_shape [of ?t None s ?n None, OF _ s(1) sh(2) _ sh(3)] by simp
  qed
  then obtain t' where t': "cloned ?t ?n s None t'"
    "\<And>f. copy_loop (walk_steps s + f) True ?t (Some a) (Some ?n) = Ret t'" using s(2) by auto
  moreover have "walk_steps s \<le> walk_bound t"
    using walk_steps_bound [of s] s(2) nodes_bound [OF rep] by (simp add: walk_bound_def)
  then have "copy_loop (walk_bound t) True ?t (Some a) (Some ?n) = Ret t'"
    using t'(2) [of "walk_bound t - walk_steps s"] by simp
  ultimately have "trie_copy t (tr_root t) = Ret (?n, t')" using sh(5) by (simp add: trie_copy_def copy_node_def)
  moreover have "shape_at (tr_heap t') None s = shape_at (tr_heap t) None s"
    by (rule shape_at_cong) (use t'(1) sh(3) in \<open>auto simp: cloned_def\<close>)
  then have "trie_rep t' s" using t'(1) sh s(2) unfolding trie_rep_def cloned_def by auto
  moreover have "trie_rep (t'\<lparr>tr_root := Some ?n\<rparr>) (clone ?n s)"
    using t'(1) sh(4) s(2) unfolding trie_rep_def cloned_def
    by (auto simp: addrs_clone dist_clone simp del: clone.simps) (simp add: root_clone)
  ultimately show ?thesis by blast
qed

lemma copy_key_wf: "wf_key k \<Longrightarrow> copy_key k = k"
  by (auto simp: copy_key_def wf_key_def empty_key_def)

lemma keys_clone: "ok s \<Longrightarrow> keys (clone n s) = keys s"
proof (induction s arbitrary: n)
  case (Nd a b k v l r)
  then have "v \<noteq> None \<Longrightarrow> copy_key k = k" using copy_key_wf by auto
  with Nd show ?case by auto
qed simp

lemma clone_Tip [simp]: "clone n s = Tip \<longleftrightarrow> s = Tip"
  by (cases s) auto

lemma bit_above_clone: "bit_above b (clone n s) \<longleftrightarrow> bit_above b s"
  by (cases s) (auto simp: bit_above_def)

lemma ok_clone: "ok s \<Longrightarrow> ok (clone n s)"
proof (induction s arbitrary: n)
  case (Nd a b k v l r)
  have "v \<noteq> None \<Longrightarrow> copy_key k = k" using Nd.prems copy_key_wf by auto
  moreover have "pk_bits (copy_key k) = pk_bits k" by (simp add: copy_key_def empty_key_def)
  moreover note keys_clone [of l "Suc n"] keys_clone [of r "Suc n + nodes l"]
  moreover have "keys (clone n (Nd a b k v l r)) = keys (Nd a b k v l r)" by (rule keys_clone [OF Nd.prems])
  ultimately show ?case using Nd by (auto simp: bit_above_clone)
qed simp

lemma joined_clone: "joined s \<Longrightarrow> joined (clone n s)"
  by (induction s arbitrary: n) auto

lemma grown_clone:
  assumes "grown L s"
  shows "grown L (clone n s)"
proof -
  obtain a l r where s: "s = Nd a 0 empty_key None l r" "joined l" "joined r" and ok: "ok s"
    using assms by (auto simp: grown_def)
  have "copy_key empty_key = empty_key" by (rule copy_key_wf) simp
  then show ?thesis
    using assms s joined_clone ok_clone [OF ok, of n] keys_clone [OF ok, of n] unfolding grown_def by auto
qed

lemma contents_clone: "ok s \<Longrightarrow> contents (clone n s) = contents s"
  by (simp only: contents_def entries_clone)

lemma trie_rep_freed:
  assumes "trie_rep t s" "A \<inter> addrs s = {}"
  shows "trie_rep (freed t A) s"
proof -
  have "shape_at (tr_heap (freed t A)) None s = shape_at (tr_heap t) None s"
    by (rule shape_at_cong) (use assms(2) in \<open>auto simp: freed_def\<close>)
  then show ?thesis using assms(1) by (auto simp: trie_rep_def freed_def)
qed

text \<open>A copy with nodes of its own: whatever \<open>P\<close> says of a trie, it says of both, and of either one after the
  other was destroyed.\<close>

definition copy_independent :: "'v patricia_trie \<Rightarrow> ('v patricia_trie \<Rightarrow> bool) \<Rightarrow> bool" where
  "copy_independent t P \<longleftrightarrow> (\<exists>r t'. trie_copy t (tr_root t) = Ret (r, t') \<and> P t' \<and> P (t'\<lparr>tr_root := Some r\<rparr>) \<and>
     (\<exists>t''. trie_destroy t' = Ret t'' \<and> P (t''\<lparr>tr_root := Some r\<rparr>)) \<and>
     (\<exists>t''. trie_destroy (t'\<lparr>tr_root := Some r\<rparr>) = Ret t'' \<and> P (t''\<lparr>tr_root := tr_root t\<rparr>)))"

lemma loose_clone: "loose s \<Longrightarrow> loose (clone n s)"
  by (cases s) (auto intro: joined_clone)

lemma trie_copy_independent:
  assumes s: "trie_rep t s" and ok: "ok s" and root: "s \<noteq> Tip" "\<not> childless s"
    and P: "\<And>u. trie_rep u s \<or> trie_rep u (clone (tr_next t) s) \<Longrightarrow> P u"
  shows "copy_independent t P"
proof -
  obtain a b k v l r where "s = Nd a b k v l r" "l \<noteq> Tip \<or> r \<noteq> Tip" using root by (cases s) auto
  from trie_copy_shape [OF s ok this] obtain t' where t':
    "trie_copy t (tr_root t) = Ret (tr_next t, t')" "trie_rep t' s"
    "trie_rep (t'\<lparr>tr_root := Some (tr_next t)\<rparr>) (clone (tr_next t) s)" by blast
  let ?c = "clone (tr_next t) s"
  have dj: "addrs s \<inter> addrs ?c = {}" using s by (auto simp: trie_rep_def addrs_clone)
  have "(freed t' (addrs s))\<lparr>tr_root := Some (tr_next t)\<rparr> = freed (t'\<lparr>tr_root := Some (tr_next t)\<rparr>) (addrs s)"
    by (cases t') (simp add: freed_def cong: if_cong)
  then have 1: "P ((freed t' (addrs s))\<lparr>tr_root := Some (tr_next t)\<rparr>)"
    using trie_rep_freed [OF t'(3) dj] P by simp
  have "tr_root t = tr_root t'" using t'(2) s by (simp add: trie_rep_def)
  then have "(freed (t'\<lparr>tr_root := Some (tr_next t)\<rparr>) (addrs ?c))\<lparr>tr_root := tr_root t\<rparr> = freed t' (addrs ?c)"
    by (cases t') (simp add: freed_def cong: if_cong)
  then have 2: "P ((freed (t'\<lparr>tr_root := Some (tr_next t)\<rparr>) (addrs ?c))\<lparr>tr_root := tr_root t\<rparr>)"
    using trie_rep_freed [OF t'(2), of "addrs ?c"] dj P by (simp add: Int_commute)
  show ?thesis unfolding copy_independent_def
    using t'(1) P t'(2,3) 1 2 trie_destroy_shape [OF t'(2)] trie_destroy_shape [OF t'(3)] by blast
qed

lemma trie_copy_childless:
  assumes rep: "trie_rep t s" and ok: "ok s" and s: "childless s"
  shows "trie_copy t (tr_root t) = Abort ''null pointer''"
proof -
  obtain a b k v where sh: "s = Nd a b k v Tip Tip" using s by (cases s) auto
  have ha: "tr_heap t a = Some (node_rec b k v None None None)" "tr_root t = Some a" "a \<noteq> tr_next t"
    using rep sh by (auto simp: trie_rep_def)
  define u where "u = t\<lparr>tr_next := Suc (tr_next t),
    tr_heap := (tr_heap t)(tr_next t := Some (node_rec b (copy_key k) v None None None))\<rparr>"
  have "shallow_copy t (Some a) = Ret (tr_next t, u)"
    unfolding u_def
    by (rule shallow_copy_eq) (use ha rep ok sh ok_loadable [of a b k v Tip Tip] in \<open>auto simp del: ok.simps simp: trie_rep_def\<close>)
  moreover have "load u (Some a) = Ret (node_rec b k v None None None)" "load u None = Abort ''null pointer''"
    using ha by (simp_all add: load_def u_def)
  then have "copy_loop (Suc w) True u (Some a) (Some (tr_next t)) = Abort ''null pointer''" for w by (subst copy_loop.simps) simp
  then have "copy_loop (walk_bound t) True u (Some a) (Some (tr_next t)) = Abort ''null pointer''"
    by (simp add: walk_bound_def)
  ultimately show ?thesis using ha(2) by (simp add: trie_copy_def copy_node_def)
qed

subsection \<open>Properties\<close>

text \<open>C35: The destructor of a trie ends, frees every node of the trie, none of them twice, and leaves
  every other node of the store as it was.\<close>

theorem patricia_destroy_frees:
  assumes "trie_rep t s"
  shows "trie_destroy t = Ret (t\<lparr>tr_heap := (\<lambda>x. if x \<in> addrs s then None else tr_heap t x)\<rparr>)"
  using trie_destroy_shape [OF assms] by (simp add: freed_def)

theorem patricia_destroy_frees_witness:
  "\<exists>h. trie_destroy \<lparr>tr_heap = [0 \<mapsto> node_rec 0 empty_key None None (Some 1) (Some 2),
       1 \<mapsto> node_rec 8 \<lparr>pk_key = [1], pk_bits = 8\<rparr> (Some ''a'') (Some 0) None None,
       2 \<mapsto> node_rec 8 \<lparr>pk_key = [0x80], pk_bits = 8\<rparr> (Some ''b'') (Some 0) None None], tr_next = 3, tr_root = Some 0\<rparr> =
     Ret \<lparr>tr_heap = h, tr_next = 3, tr_root = Some 0\<rparr> \<and> h 0 = None \<and> h 1 = None \<and> h 2 = None"
  (is "\<exists>h. trie_destroy ?t = _ \<and> _")
proof -
  have "trie_rep ?t (Nd 0 0 empty_key None (Nd 1 8 \<lparr>pk_key = [1], pk_bits = 8\<rparr> (Some ''a'') Tip Tip)
      (Nd 2 8 \<lparr>pk_key = [0x80], pk_bits = 8\<rparr> (Some ''b'') Tip Tip))"
    by (auto simp: trie_rep_def)
  from patricia_destroy_frees [OF this] show ?thesis by auto
qed

text \<open>C34: The copy constructor of a trie that may have lost entries, exactly. When the trie is empty, or is
  one over which a loop follows a null pointer, copying follows a null pointer as well. Otherwise it
  ends and makes a trie that is the same map and shares no node with the original: destroying
  either leaves the other one usable. A trie built by insertions with an entry in it, and its copy,
  keep the full invariant.\<close>

theorem patricia_copy_independent:
  assumes "trie_holds t m"
  shows "(tr_root t = None \<or> trie_values t = Abort ''null pointer'' \<longrightarrow> trie_copy t (tr_root t) = Abort ''null pointer'') \<and>
    (tr_root t \<noteq> None \<and> trie_values t \<noteq> Abort ''null pointer'' \<longrightarrow> copy_independent t (\<lambda>u. trie_holds u m)) \<and>
    (trie_models L t m \<and> m \<noteq> Map.empty \<longrightarrow> copy_independent t (\<lambda>u. trie_models L u m))"
proof -
  have models: "copy_independent t (\<lambda>u. trie_models L u m)" if tm: "trie_models L t m" and ne: "m \<noteq> Map.empty"
  proof -
    obtain s where s: "trie_rep t s" "grown L s" "m = contents s" "0 < L"
      using tm ne unfolding trie_models_def by blast
    have ok: "ok s" using s(2) by (simp add: grown_def)
    have "entries s \<noteq> []" using s(3) ne by (auto simp: contents_def)
    then have root: "s \<noteq> Tip" "\<not> childless s" using s(2) by (auto simp: grown_def)
    show ?thesis
    proof (rule trie_copy_independent [OF s(1) ok root])
      show "trie_models L u m" if "trie_rep u s \<or> trie_rep u (clone (tr_next t) s)" for u
        using that s(2-4) ne grown_clone [OF s(2), of "tr_next t"] contents_clone [OF ok, of "tr_next t"]
        unfolding trie_models_def by metis
    qed
  qed
  consider (null) "tr_root t = None" | (shape) s where "trie_rep t s" "ok s" "loose s" "m = contents s" "s \<noteq> Tip"
    using assms unfolding trie_holds_def trie_rep_def by fastforce
  then show ?thesis
  proof cases
    case null
    then show ?thesis using models by (simp add: trie_copy_def copy_node_def shallow_copy_def load_def)
  next
    case shape
    have rt: "tr_root t \<noteq> None" using shape(1,5) by (simp add: trie_rep_def)
    show ?thesis
    proof (cases "childless s")
      case True
      then obtain a b k v where "s = Nd a b k v Tip Tip" by (cases s) auto
      then have "trie_values t = Abort ''null pointer''" using trie_values_childless shape(1) by blast
      then show ?thesis using models trie_copy_childless [OF shape(1,2) True] by simp
    next
      case False
      have holds: "trie_holds u m" if "trie_rep u s \<or> trie_rep u (clone (tr_next t) s)" for u
        using that shape(2-4) ok_clone [OF shape(2), of "tr_next t"] loose_clone [OF shape(3), of "tr_next t"]
          contents_clone [OF shape(2), of "tr_next t"] unfolding trie_holds_def by metis
      have "copy_independent t (\<lambda>u. trie_holds u m)" by (rule trie_copy_independent [OF shape(1,2,5) False holds])
      moreover have "trie_values t \<noteq> Abort ''null pointer''" using trie_values_rooted [OF shape(1,2,5) False] by auto
      ultimately show ?thesis using models rt by blast
    qed
  qed
qed

theorem patricia_copy_independent_witness:
  "trie_copy (trie_new :: string patricia_trie) (tr_root (trie_new :: string patricia_trie)) = Abort ''null pointer'' \<and>
   (\<exists>t. trie_insert trie_new \<lparr>pk_key = [7], pk_bits = 8\<rparr> ''seven'' = Ret (True, t) \<and>
    copy_independent t (\<lambda>u. trie_models 8 u [key_bits \<lparr>pk_key = [7], pk_bits = 8\<rparr> \<mapsto> ''seven'']))"
proof -
  have new: "trie_models 8 (trie_new :: string patricia_trie) Map.empty" by (rule trie_models_new) simp
  from trie_insert_models [OF this, of "\<lparr>pk_key = [7], pk_bits = 8\<rparr>" "''seven''"] obtain t where
    t: "trie_insert trie_new \<lparr>pk_key = [7], pk_bits = 8\<rparr> ''seven'' = Ret (True, t)"
      "trie_models 8 t [key_bits \<lparr>pk_key = [7], pk_bits = 8\<rparr> \<mapsto> ''seven'']"
    by (auto simp: trie_usable_def wf_key_def)
  with patricia_copy_independent [OF trie_models_holds [OF t(2)], of 8]
    patricia_copy_independent [OF trie_models_holds [OF new], of 8] show ?thesis
    by (auto simp: trie_new_def)
qed

end
