(* ===== verification/Posix_Api.thy ===== *)
theory Posix_Api
  imports Channel_Types
begin

text \<open>
  The lowest layer on POSIX systems: \<^verbatim>\<open>posix/error.hxx\<close>, \<^verbatim>\<open>posix/fd.hxx\<close> and the file operations of
  \<^verbatim>\<open>posix/detail/epoll_reactor.hxx\<close>, which \<^verbatim>\<open>posix/async_api.hxx\<close> and \<^verbatim>\<open>posix/detail/linux_reactor.hxx\<close>
  pass on in a build without \<^verbatim>\<open>io_uring\<close>.

  The operating system is an argument: \<open>'w\<close> is the state of the system and \<open>posix\<close> its calls. A call
  returns the C result; reading calls also return what they stored at the start of the buffer.
  \<open>sys_errno\<close> is \<^verbatim>\<open>errno\<close> of the thread that made the last call. \<^verbatim>\<open>async_invoke\<close> runs a call on
  another thread; the model has the value the awaiting coroutine gets.
\<close>

record 'w posix =
  sys_open :: "string \<Rightarrow> 32 word \<Rightarrow> nat \<Rightarrow> 'w \<Rightarrow> int \<times> 'w"
  sys_close :: "int \<Rightarrow> 'w \<Rightarrow> int \<times> 'w"
  sys_read :: "int \<Rightarrow> nat \<Rightarrow> 'w \<Rightarrow> (int \<times> byte list) \<times> 'w"
  sys_pread :: "int \<Rightarrow> nat \<Rightarrow> int \<Rightarrow> 'w \<Rightarrow> (int \<times> byte list) \<times> 'w"
  sys_write :: "int \<Rightarrow> byte list \<Rightarrow> 'w \<Rightarrow> int \<times> 'w"
  sys_pwrite :: "int \<Rightarrow> byte list \<Rightarrow> int \<Rightarrow> 'w \<Rightarrow> int \<times> 'w"
  sys_errno :: "'w \<Rightarrow> int"

subsection \<open>Errors\<close>

definition make_error :: "int \<Rightarrow> error_code" where
  "make_error e = \<lparr>ec_category = System_category, ec_value = e\<rparr>"

definition get_errno :: "'w posix \<Rightarrow> 'w \<Rightarrow> error_code" where
  "get_errno os w = make_error (sys_errno os w)"

subsection \<open>File descriptors\<close>

record unique_fd =
  fd_value :: int

definition invalid_fd :: int where
  "invalid_fd = - 1"

definition unique_fd_empty :: unique_fd where
  "unique_fd_empty = \<lparr>fd_value = invalid_fd\<rparr>"

definition unique_fd_of :: "int \<Rightarrow> unique_fd" where
  "unique_fd_of fd = \<lparr>fd_value = fd\<rparr>"

text \<open>\<^verbatim>\<open>close\<close> leaves the object as it is.\<close>

definition unique_fd_close :: "'w posix \<Rightarrow> unique_fd \<Rightarrow> 'w \<Rightarrow> error_code \<times> 'w" where
  "unique_fd_close os this w =
     (if fd_value this = invalid_fd then (default_error_code, w)
      else let (r, w) = sys_close os (fd_value this) w
           in if r = 0 then (default_error_code, w) else (get_errno os w, w))"

text \<open>A moved-from object is the second component of the result.\<close>

definition unique_fd_move :: "unique_fd \<Rightarrow> unique_fd \<times> unique_fd" where
  "unique_fd_move other = (unique_fd_of (fd_value other), other\<lparr>fd_value := invalid_fd\<rparr>)"

definition unique_fd_move_assign ::
  "'w posix \<Rightarrow> unique_fd \<Rightarrow> unique_fd \<Rightarrow> 'w \<Rightarrow> (unique_fd \<times> unique_fd) \<times> 'w" where
  "unique_fd_move_assign os this other w =
     (let (_, w) = unique_fd_close os this w
      in ((this\<lparr>fd_value := fd_value other\<rparr>, other\<lparr>fd_value := invalid_fd\<rparr>), w))"

definition unique_fd_destroy :: "'w posix \<Rightarrow> unique_fd \<Rightarrow> 'w \<Rightarrow> 'w" where
  "unique_fd_destroy os this w = snd (unique_fd_close os this w)"

definition unique_fd_assign :: "'w posix \<Rightarrow> unique_fd \<Rightarrow> int \<Rightarrow> 'w \<Rightarrow> unique_fd \<times> 'w" where
  "unique_fd_assign os this fd w = (let (_, w) = unique_fd_close os this w in (this\<lparr>fd_value := fd\<rparr>, w))"

definition unique_fd_bool :: "unique_fd \<Rightarrow> bool" where
  "unique_fd_bool this \<longleftrightarrow> fd_value this \<noteq> invalid_fd"

definition unique_fd_value :: "unique_fd \<Rightarrow> int run" where
  "unique_fd_value this =
     sk_check (fd_value this \<noteq> invalid_fd) ''attempt to access invalid handle'' (Ret (fd_value this))"

definition unique_fd_release :: "unique_fd \<Rightarrow> int \<times> unique_fd" where
  "unique_fd_release this = (fd_value this, this\<lparr>fd_value := invalid_fd\<rparr>)"

subsection \<open>File operations of the reactor\<close>

text \<open>The lambda on the other thread returns the result or the negated \<^verbatim>\<open>errno\<close>.\<close>

definition or_errno :: "'w posix \<Rightarrow> int \<times> 'w \<Rightarrow> int \<times> 'w" where
  "or_errno os r = (if fst r \<ge> 0 then fst r else - sys_errno os (snd r), snd r)"

definition async_fd_open :: "'w posix \<Rightarrow> string \<Rightarrow> 32 word \<Rightarrow> nat \<Rightarrow> 'w \<Rightarrow> (error_code + int) \<times> 'w" where
  "async_fd_open os path flags mode w =
     (let (fd, w) = or_errno os (sys_open os path flags mode w)
      in (if fd < 0 then Inl (make_error (- fd)) else Inr fd, w))"

definition async_fd_close :: "'w posix \<Rightarrow> int \<Rightarrow> 'w \<Rightarrow> (error_code + int) \<times> 'w" where
  "async_fd_close os fd w =
     (let (ret, w) = or_errno os (sys_close os fd w)
      in (if ret = - 1 then Inl (make_error (- ret)) else Inr fd, w))"

text \<open>The error number is narrowed from \<^verbatim>\<open>ssize_t\<close> to \<^verbatim>\<open>int\<close>, which ends the program when it does not
  fit.\<close>

definition narrow_errno :: "int \<Rightarrow> int run" where
  "narrow_errno e = (if e \<in> {- (2 ^ 31)..<2 ^ 31} then Ret e else Abort ''narrow() would truncate'')"

definition async_result ::
  "'w posix \<Rightarrow> int \<times> 'w \<Rightarrow> (int \<Rightarrow> 'r) \<Rightarrow> ((error_code + 'r) \<times> 'w) run" where
  "async_result os r f =
     (let (ret, w) = or_errno os r
      in if ret < 0 then bind_run (narrow_errno (- ret)) (\<lambda>e. Ret (Inl (make_error e), w))
         else Ret (Inr (f ret), w))"

definition async_fd_read ::
  "'w posix \<Rightarrow> int \<Rightarrow> nat \<Rightarrow> 'w \<Rightarrow> ((error_code + int \<times> byte list) \<times> 'w) run" where
  "async_fd_read os fd n w =
     (let ((r, buf), w) = sys_read os fd n w in async_result os (r, w) (\<lambda>ret. (ret, buf)))"

definition async_fd_pread ::
  "'w posix \<Rightarrow> int \<Rightarrow> nat \<Rightarrow> int \<Rightarrow> 'w \<Rightarrow> ((error_code + int \<times> byte list) \<times> 'w) run" where
  "async_fd_pread os fd n offs w =
     (let ((r, buf), w) = sys_pread os fd n offs w in async_result os (r, w) (\<lambda>ret. (ret, buf)))"

definition async_fd_write :: "'w posix \<Rightarrow> int \<Rightarrow> byte list \<Rightarrow> 'w \<Rightarrow> ((error_code + int) \<times> 'w) run" where
  "async_fd_write os fd buf w = async_result os (sys_write os fd buf w) (\<lambda>ret. ret)"

definition async_fd_pwrite ::
  "'w posix \<Rightarrow> int \<Rightarrow> byte list \<Rightarrow> int \<Rightarrow> 'w \<Rightarrow> ((error_code + int) \<times> 'w) run" where
  "async_fd_pwrite os fd buf offs w = async_result os (sys_pwrite os fd buf offs w) (\<lambda>ret. ret)"

end
