(* ===== verification/File_Channel.thy ===== *)
theory File_Channel
  imports Posix_Api Safeint Channel_IO
begin

text \<open>
  \<^verbatim>\<open>channel/filechannel.hxx\<close> and \<^verbatim>\<open>posix/detail/filechannel_base.hxx\<close>: channels on files. The channel is
  its file descriptor; every operation takes the system and its state. The six channel classes
  differ in the flags they add and refuse when opening and in the operations they expose.
\<close>

subsection \<open>Flags\<close>

type_synonym fileflag = "64 word flag"
type_synonym fileflagset = "64 word flagset"

definition fileflags_none :: fileflag where "fileflags_none = \<lparr>flag_value = 0\<rparr>"
definition fileflags_write :: fileflag where "fileflags_write = \<lparr>flag_value = push_bit 0 1\<rparr>"
definition fileflags_read :: fileflag where "fileflags_read = \<lparr>flag_value = push_bit 1 1\<rparr>"
definition fileflags_trunc :: fileflag where "fileflags_trunc = \<lparr>flag_value = push_bit 2 1\<rparr>"
definition fileflags_append :: fileflag where "fileflags_append = \<lparr>flag_value = push_bit 3 1\<rparr>"
definition fileflags_create_new :: fileflag where "fileflags_create_new = \<lparr>flag_value = push_bit 4 1\<rparr>"
definition fileflags_open_existing :: fileflag where "fileflags_open_existing = \<lparr>flag_value = push_bit 5 1\<rparr>"

text \<open>The constants of \<^verbatim>\<open>fcntl.h\<close> on Linux.\<close>

definition O_RDONLY :: "32 word" where "O_RDONLY = 0"
definition O_WRONLY :: "32 word" where "O_WRONLY = 1"
definition O_RDWR :: "32 word" where "O_RDWR = 2"
definition O_CREAT :: "32 word" where "O_CREAT = 0x40"
definition O_EXCL :: "32 word" where "O_EXCL = 0x80"
definition O_TRUNC :: "32 word" where "O_TRUNC = 0x200"
definition O_APPEND :: "32 word" where "O_APPEND = 0x400"
definition ENOENT :: int where "ENOENT = 2"

text \<open>\<^verbatim>\<open>_make_flags\<close>: the value returned and \<^verbatim>\<open>*open_flags\<close>.\<close>

definition make_flags :: "fileflagset \<Rightarrow> bool \<times> 32 word" where
  "make_flags flags =
     (if \<not> any_set flags (flag_or fileflags_read fileflags_write) then (False, 0)
      else if is_set flags fileflags_read \<and> \<not> is_set flags fileflags_write then
        (if any_set flags (flagset_or (flag_or fileflags_trunc fileflags_append) fileflags_create_new) then (False, 0)
         else (True, O_RDONLY))
      else if is_set flags fileflags_write then
        (if \<not> any_set flags (flag_or fileflags_create_new fileflags_open_existing) then (False, 0)
         else
           let open_flags = (if is_set flags fileflags_read then O_RDWR else O_WRONLY);
               open_flags =
                 (if is_set flags fileflags_create_new \<and> \<not> is_set flags fileflags_open_existing then
                    open_flags OR (O_CREAT OR O_EXCL)
                  else if is_set flags fileflags_create_new \<and> is_set flags fileflags_open_existing then
                    (if is_set flags fileflags_trunc then open_flags OR (O_CREAT OR O_TRUNC) else open_flags OR O_CREAT)
                  else if \<not> is_set flags fileflags_create_new \<and> is_set flags fileflags_open_existing then
                    (if is_set flags fileflags_trunc then open_flags OR O_TRUNC else open_flags)
                  else open_flags)
           in (True, open_flags))
      else (False, 0))"

subsection \<open>Opening and closing\<close>

record filechannel =
  fc_fd :: unique_fd

definition filechannel_new :: filechannel where
  "filechannel_new = \<lparr>fc_fd = unique_fd_empty\<rparr>"

definition filechannel_is_open :: "filechannel \<Rightarrow> bool" where
  "filechannel_is_open c \<longleftrightarrow> unique_fd_bool (fc_fd c)"

definition base_open ::
  "'w posix \<Rightarrow> filechannel \<Rightarrow> string \<Rightarrow> fileflagset \<Rightarrow> 'w \<Rightarrow> (error_code + unit) \<times> filechannel \<times> 'w" where
  "base_open os c path flags w =
     (if filechannel_is_open c then (Inl (make_error_code channel_already_open), c, w)
      else let (valid, open_flags) = make_flags flags
      in if \<not> valid then (Inl (make_error_code filechannel_invalid_flags), c, w)
      else if CHR 0x00 \<in> set path then (Inl (make_error ENOENT), c, w)
      else let (fd, w) = sys_open os path open_flags 0x1FF w
      in if fd = - 1 then (Inl (get_errno os w), c, w)
      else let (u, w) = unique_fd_assign os (fc_fd c) fd w
      in (Inr (), c\<lparr>fc_fd := u\<rparr>, w))"

text \<open>The coroutine, over the \<^verbatim>\<open>async_fd_open\<close> of the reactor.\<close>

definition base_open_with ::
  "(string \<Rightarrow> 32 word \<Rightarrow> nat \<Rightarrow> 'w \<Rightarrow> (error_code + int) \<times> 'w) \<Rightarrow> 'w posix \<Rightarrow> filechannel \<Rightarrow> string \<Rightarrow> fileflagset \<Rightarrow> 'w \<Rightarrow>
   (error_code + unit) \<times> filechannel \<times> 'w" where
  "base_open_with fd_open os c path flags w =
     (if filechannel_is_open c then (Inl (make_error_code channel_already_open), c, w)
      else let (valid, open_flags) = make_flags flags
      in if \<not> valid then (Inl (make_error_code filechannel_invalid_flags), c, w)
      else if CHR 0x00 \<in> set path then (Inl (make_error ENOENT), c, w)
      else let (fd, w) = fd_open path open_flags 0x1FF w
      in case fd of
           Inl e \<Rightarrow> (Inl e, c, w)
         | Inr fd \<Rightarrow> let (u, w) = unique_fd_assign os (fc_fd c) fd w in (Inr (), c\<lparr>fc_fd := u\<rparr>, w))"

definition async_base_open ::
  "'w posix \<Rightarrow> filechannel \<Rightarrow> string \<Rightarrow> fileflagset \<Rightarrow> 'w \<Rightarrow> (error_code + unit) \<times> filechannel \<times> 'w" where
  "async_base_open os = base_open_with (async_fd_open os) os"

definition filechannel_close :: "'w posix \<Rightarrow> filechannel \<Rightarrow> 'w \<Rightarrow> (error_code + unit) \<times> filechannel \<times> 'w" where
  "filechannel_close os c w =
     (if \<not> filechannel_is_open c then (Inl (make_error_code channel_not_open), c, w)
      else let (err, w) = unique_fd_close os (fc_fd c) w
      in (if is_error err then Inl err else Inr (), c, w))"

definition filechannel_async_close :: "'w posix \<Rightarrow> filechannel \<Rightarrow> 'w \<Rightarrow> (error_code + unit) \<times> filechannel \<times> 'w" where
  "filechannel_async_close os c w =
     (let (fd, u) = unique_fd_release (fc_fd c);
          (err, w) = async_fd_close os fd w
      in (case err of Inl e \<Rightarrow> Inl e | Inr _ \<Rightarrow> Inr (), c\<lparr>fc_fd := u\<rparr>, w))"

definition filechannel_destroy :: "'w posix \<Rightarrow> filechannel \<Rightarrow> 'w \<Rightarrow> 'w" where
  "filechannel_destroy os c w = unique_fd_destroy os (fc_fd c) w"

subsection \<open>Reading and writing\<close>

text \<open>\<^verbatim>\<open>io_offset_t\<close> is 64 bits wide and unsigned, \<^verbatim>\<open>off_t\<close> signed.\<close>

definition to_off_t :: "64 word \<Rightarrow> int" where
  "to_off_t loc = sint (truncate_signed loc :: 64 word)"

definition da_read_some_at ::
  "'w posix \<Rightarrow> filechannel \<Rightarrow> 64 word \<Rightarrow> nat \<Rightarrow> 'w \<Rightarrow> ((error_code + int \<times> byte list) \<times> 'w) run" where
  "da_read_some_at os c loc n w =
     sk_check (filechannel_is_open c) ''attempt to read on a closed channel'' (
     bind_run (unique_fd_value (fc_fd c)) (\<lambda>fd.
       let ((ret, buf), w) = sys_pread os fd n (to_off_t loc) w
       in Ret (if ret = - 1 then Inl (get_errno os w)
               else if ret = 0 then Inl (make_error_code end_of_file)
               else Inr (ret, buf), w)))"

definition da_async_read_some_at ::
  "'w posix \<Rightarrow> filechannel \<Rightarrow> 64 word \<Rightarrow> nat \<Rightarrow> 'w \<Rightarrow> ((error_code + int \<times> byte list) \<times> 'w) run" where
  "da_async_read_some_at os c loc n w =
     sk_check (filechannel_is_open c) ''attempt to read on a closed channel'' (
     bind_run (unique_fd_value (fc_fd c)) (\<lambda>fd.
     bind_run (async_fd_pread os fd n (to_off_t loc) w) (\<lambda>(ret, w).
       Ret (case ret of Inl e \<Rightarrow> Inl e
            | Inr (k, buf) \<Rightarrow> if k = 0 then Inl (make_error_code end_of_file) else Inr (k, buf), w))))"

definition da_write_some_at ::
  "'w posix \<Rightarrow> filechannel \<Rightarrow> 64 word \<Rightarrow> byte list \<Rightarrow> 'w \<Rightarrow> ((error_code + int) \<times> 'w) run" where
  "da_write_some_at os c loc buf w =
     sk_check (filechannel_is_open c) ''attempt to read on a closed channel'' (
     bind_run (unique_fd_value (fc_fd c)) (\<lambda>fd.
       let (ret, w) = sys_pwrite os fd buf (to_off_t loc) w
       in Ret (if ret < 0 then Inl (get_errno os w) else Inr ret, w)))"

definition da_async_write_some_at ::
  "'w posix \<Rightarrow> filechannel \<Rightarrow> 64 word \<Rightarrow> byte list \<Rightarrow> 'w \<Rightarrow> ((error_code + int) \<times> 'w) run" where
  "da_async_write_some_at os c loc buf w =
     sk_check (filechannel_is_open c) ''attempt to read on a closed channel'' (
     bind_run (unique_fd_value (fc_fd c)) (\<lambda>fd. async_fd_pwrite os fd buf (to_off_t loc) w))"

definition seq_read_some ::
  "'w posix \<Rightarrow> filechannel \<Rightarrow> nat \<Rightarrow> 'w \<Rightarrow> ((error_code + int \<times> byte list) \<times> 'w) run" where
  "seq_read_some os c n w =
     sk_check (filechannel_is_open c) ''attempt to read on a closed channel'' (
     bind_run (unique_fd_value (fc_fd c)) (\<lambda>fd.
       let ((ret, buf), w) = sys_read os fd n w
       in Ret (if ret = 0 then Inl (make_error_code end_of_file)
               else if ret < 0 then Inl (get_errno os w)
               else Inr (ret, buf), w)))"

definition seq_async_read_some ::
  "'w posix \<Rightarrow> filechannel \<Rightarrow> nat \<Rightarrow> 'w \<Rightarrow> ((error_code + int \<times> byte list) \<times> 'w) run" where
  "seq_async_read_some os c n w =
     sk_check (filechannel_is_open c) ''attempt to read on a closed channel'' (
     bind_run (unique_fd_value (fc_fd c)) (\<lambda>fd.
     bind_run (async_fd_read os fd n w) (\<lambda>(ret, w).
       Ret (case ret of Inl e \<Rightarrow> Inl e
            | Inr (k, buf) \<Rightarrow> if k = 0 then Inl (make_error_code end_of_file) else Inr (k, buf), w))))"

definition seq_write_some ::
  "'w posix \<Rightarrow> filechannel \<Rightarrow> byte list \<Rightarrow> 'w \<Rightarrow> ((error_code + int) \<times> 'w) run" where
  "seq_write_some os c buf w =
     sk_check (filechannel_is_open c) ''attempt to read on a closed channel'' (
     bind_run (unique_fd_value (fc_fd c)) (\<lambda>fd.
       let (ret, w) = sys_write os fd buf w
       in Ret (if ret < 0 then Inl (get_errno os w) else Inr ret, w)))"

text \<open>An error is replaced by \<^verbatim>\<open>errno\<close> of the thread that resumes the coroutine, \<open>here\<close>, which is not
  the thread that made the call.\<close>

definition seq_async_write_some ::
  "'w posix \<Rightarrow> int \<Rightarrow> filechannel \<Rightarrow> byte list \<Rightarrow> 'w \<Rightarrow> ((error_code + int) \<times> 'w) run" where
  "seq_async_write_some os here c buf w =
     sk_check (filechannel_is_open c) ''attempt to read on a closed channel'' (
     bind_run (unique_fd_value (fc_fd c)) (\<lambda>fd.
     bind_run (async_fd_write os fd buf w) (\<lambda>(ret, w).
       Ret (case ret of Inl _ \<Rightarrow> Inl (make_error here) | Inr k \<Rightarrow> Inr k, w))))"

subsection \<open>The channel classes\<close>

text \<open>What their \<^verbatim>\<open>open\<close> does with the flags: input channels refuse \<^verbatim>\<open>write\<close> and add \<^verbatim>\<open>read\<close>, output
  channels the other way round, the others add both. \<^verbatim>\<open>opener\<close> is \<^verbatim>\<open>base_open\<close> or its coroutine.\<close>

type_synonym 'w opener = "filechannel \<Rightarrow> string \<Rightarrow> fileflagset \<Rightarrow> 'w \<Rightarrow> (error_code + unit) \<times> filechannel \<times> 'w"

definition input_open :: "'w opener \<Rightarrow> 'w opener" where
  "input_open opener c path flags w =
     (if is_set flags fileflags_write then (Inl (make_error_code filechannel_invalid_flags), c, w)
      else opener c path (flagset_or_assign flags fileflags_read) w)"

definition output_open :: "'w opener \<Rightarrow> 'w opener" where
  "output_open opener c path flags w =
     (if is_set flags fileflags_read then (Inl (make_error_code filechannel_invalid_flags), c, w)
      else opener c path (flagset_or_assign flags fileflags_write) w)"

definition inout_open :: "'w opener \<Rightarrow> 'w opener" where
  "inout_open opener c path flags w =
     opener c path (flagset_union_assign flags (flag_or fileflags_read fileflags_write)) w"

definition idafilechannel_open :: "'w posix \<Rightarrow> 'w opener" where
  "idafilechannel_open os = input_open (base_open os)"

definition idafilechannel_async_open :: "'w posix \<Rightarrow> 'w opener" where
  "idafilechannel_async_open os = input_open (async_base_open os)"

definition odafilechannel_open :: "'w posix \<Rightarrow> 'w opener" where
  "odafilechannel_open os = output_open (base_open os)"

definition odafilechannel_async_open :: "'w posix \<Rightarrow> 'w opener" where
  "odafilechannel_async_open os = output_open (async_base_open os)"

definition dafilechannel_open :: "'w posix \<Rightarrow> 'w opener" where
  "dafilechannel_open os = inout_open (base_open os)"

definition dafilechannel_async_open :: "'w posix \<Rightarrow> 'w opener" where
  "dafilechannel_async_open os = inout_open (async_base_open os)"

definition iseqfilechannel_open :: "'w posix \<Rightarrow> 'w opener" where
  "iseqfilechannel_open os = input_open (base_open os)"

definition iseqfilechannel_async_open :: "'w posix \<Rightarrow> 'w opener" where
  "iseqfilechannel_async_open os = input_open (async_base_open os)"

definition oseqfilechannel_open :: "'w posix \<Rightarrow> 'w opener" where
  "oseqfilechannel_open os = output_open (base_open os)"

definition oseqfilechannel_async_open :: "'w posix \<Rightarrow> 'w opener" where
  "oseqfilechannel_async_open os = output_open (async_base_open os)"

definition seqfilechannel_open :: "'w posix \<Rightarrow> 'w opener" where
  "seqfilechannel_open os = inout_open (base_open os)"

definition seqfilechannel_async_open :: "'w posix \<Rightarrow> 'w opener" where
  "seqfilechannel_async_open os = inout_open (async_base_open os)"

subsection \<open>Facts\<close>

lemmas fd_defs = filechannel_is_open_def unique_fd_bool_def unique_fd_value_def invalid_fd_def

lemmas open_flag_defs = O_RDONLY_def O_WRONLY_def O_RDWR_def O_CREAT_def O_EXCL_def O_TRUNC_def O_APPEND_def

text \<open>What POSIX documents of the results of the calls: minus one on failure, with a positive error
  number, and otherwise a result that is not negative.\<close>

definition errno_ok :: "'w posix \<Rightarrow> int \<times> 'w \<Rightarrow> bool" where
  "errno_ok os r \<longleftrightarrow> fst r \<ge> 0 \<or> fst r = - 1 \<and> sys_errno os (snd r) \<in> {0<..<2 ^ 31}"

definition posix_results :: "'w posix \<Rightarrow> bool" where
  "posix_results os \<longleftrightarrow>
     (\<forall>path flags mode w. errno_ok os (sys_open os path flags mode w)) \<and>
     (\<forall>fd n w. errno_ok os (fst (fst (sys_read os fd n w)), snd (sys_read os fd n w))) \<and>
     (\<forall>fd n offs w. errno_ok os (fst (fst (sys_pread os fd n offs w)), snd (sys_pread os fd n offs w))) \<and>
     (\<forall>fd buf w. errno_ok os (sys_write os fd buf w)) \<and>
     (\<forall>fd buf offs w. errno_ok os (sys_pwrite os fd buf offs w))"

lemma or_errno_ok:
  assumes "errno_ok os (r, w)"
  shows "or_errno os (r, w) = (if r = - 1 then - sys_errno os w else r, w)"
  using assms by (auto simp: errno_ok_def or_errno_def)

lemma async_result_ok:
  assumes "errno_ok os (r, w)"
  shows "async_result os (r, w) f = Ret (if r = - 1 then Inl (get_errno os w) else Inr (f r), w)"
  using assms
  by (auto simp: async_result_def or_errno_ok Let_def narrow_errno_def get_errno_def errno_ok_def)

lemma async_base_open_eq:
  assumes "posix_results os"
  shows "async_base_open os c path flags w = base_open os c path flags w"
proof -
  obtain fd w' where o1: "sys_open os path (snd (make_flags flags)) 0x1FF w = (fd, w')" by fastforce
  have "errno_ok os (fd, w')" using assms o1 unfolding posix_results_def by metis
  then have "async_fd_open os path (snd (make_flags flags)) 0x1FF w =
      (if fd = - 1 then Inl (get_errno os w') else Inr fd, w')"
    unfolding async_fd_open_def o1 or_errno_ok [OF \<open>errno_ok os (fd, w')\<close>]
    by (auto simp: errno_ok_def get_errno_def)
  then show ?thesis using o1 by (auto simp: async_base_open_def base_open_with_def base_open_def split: prod.splits)
qed

lemma async_read_eq:
  assumes "posix_results os"
  shows "seq_async_read_some os c n w = seq_read_some os c n w"
    "da_async_read_some_at os c loc n w = da_read_some_at os c loc n w"
proof -
  have "seq_async_read_some os c n w = seq_read_some os c n w" if "fd_value (fc_fd c) \<noteq> - 1"
  proof -
    obtain r buf w' where o1: "sys_read os (fd_value (fc_fd c)) n w = ((r, buf), w')" by (metis surj_pair)
    have e: "errno_ok os (r, w')" using assms o1 unfolding posix_results_def by (metis fst_conv snd_conv)
    show ?thesis using that o1 e
      by (auto simp: seq_async_read_some_def seq_read_some_def async_fd_read_def async_result_ok [OF e]
          fd_defs errno_ok_def)
  qed
  then show "seq_async_read_some os c n w = seq_read_some os c n w"
    by (cases "fd_value (fc_fd c) = - 1")
      (auto simp: seq_async_read_some_def seq_read_some_def fd_defs)
  have "da_async_read_some_at os c loc n w = da_read_some_at os c loc n w" if "fd_value (fc_fd c) \<noteq> - 1"
  proof -
    obtain r buf w' where o1: "sys_pread os (fd_value (fc_fd c)) n (to_off_t loc) w = ((r, buf), w')" by (metis surj_pair)
    have e: "errno_ok os (r, w')" using assms o1 unfolding posix_results_def by (metis fst_conv snd_conv)
    show ?thesis using that o1 e
      by (auto simp: da_async_read_some_at_def da_read_some_at_def async_fd_pread_def async_result_ok [OF e]
          fd_defs errno_ok_def)
  qed
  then show "da_async_read_some_at os c loc n w = da_read_some_at os c loc n w"
    by (cases "fd_value (fc_fd c) = - 1")
      (auto simp: da_async_read_some_at_def da_read_some_at_def fd_defs)
qed

lemma async_write_eq:
  assumes "posix_results os"
  shows "da_async_write_some_at os c loc buf w = da_write_some_at os c loc buf w"
    "seq_async_write_some os here c buf w =
      (case seq_write_some os c buf w of Ret (Inl e, w) \<Rightarrow> Ret (Inl (make_error here), w) | r \<Rightarrow> r)"
proof -
  show "da_async_write_some_at os c loc buf w = da_write_some_at os c loc buf w"
  proof (cases "fd_value (fc_fd c) = - 1")
    case False
    obtain r w' where o1: "sys_pwrite os (fd_value (fc_fd c)) buf (to_off_t loc) w = (r, w')" by fastforce
    have e: "errno_ok os (r, w')" using assms o1 unfolding posix_results_def by metis
    show ?thesis using False o1 e
      by (auto simp: da_async_write_some_at_def da_write_some_at_def async_fd_pwrite_def async_result_ok [OF e]
          fd_defs errno_ok_def)
  qed (auto simp: da_async_write_some_at_def da_write_some_at_def fd_defs)
  show "seq_async_write_some os here c buf w =
      (case seq_write_some os c buf w of Ret (Inl e, w) \<Rightarrow> Ret (Inl (make_error here), w) | r \<Rightarrow> r)"
  proof (cases "fd_value (fc_fd c) = - 1")
    case False
    obtain r w' where o1: "sys_write os (fd_value (fc_fd c)) buf w = (r, w')" by fastforce
    have e: "errno_ok os (r, w')" using assms o1 unfolding posix_results_def by metis
    show ?thesis using False o1 e
      by (auto simp: seq_async_write_some_def seq_write_some_def async_fd_write_def async_result_ok [OF e]
          fd_defs errno_ok_def)
  qed (auto simp: seq_async_write_some_def seq_write_some_def fd_defs)
qed

subsection \<open>Sequential file channels as readers\<close>

text \<open>What \<^verbatim>\<open>read\<close> does on a descriptor that delivers a finite sequence of bytes: it returns between
  one and \<open>n\<close> of the bytes left, or zero when none is left. \<open>good\<close> are the states in which the
  descriptor is in order, \<open>rest\<close> what is left.\<close>

definition reads_stream :: "'w posix \<Rightarrow> int \<Rightarrow> ('w \<Rightarrow> bool) \<Rightarrow> ('w \<Rightarrow> byte list) \<Rightarrow> bool" where
  "reads_stream os fd good rest \<longleftrightarrow> (\<forall>w n. good w \<and> 0 < n \<longrightarrow>
     (\<exists>k w'. sys_read os fd n w = ((int k, take k (rest w)), w') \<and> k \<le> n \<and> k \<le> length (rest w) \<and>
       (k = 0 \<longleftrightarrow> rest w = []) \<and> good w' \<and> rest w' = drop k (rest w)))"

text \<open>An open channel, with the system, as the channel of \<^verbatim>\<open>read_all\<close>.\<close>

definition file_read_op :: "'w posix \<Rightarrow> (filechannel \<times> 'w, byte) read_op" where
  "file_read_op os = (\<lambda>(c, w) n.
     case seq_read_some os c n w of
       Ret (r, w') \<Rightarrow> (map_sum (\<lambda>e. e) snd r, (c, w'))
     | _ \<Rightarrow> (Inl default_error_code, (c, w)))"

lemma file_seq_reader:
  assumes "reads_stream os fd good rest" "fd \<noteq> - 1"
  shows "seq_reader (\<lambda>(c, w). fd_value (fc_fd c) = fd \<and> good w) (\<lambda>(c, w). rest w) (file_read_op os)
    (make_error_code end_of_file)"
proof (unfold_locales, goal_cases)
  case 1
  show ?case by simp
next
  case (2 cw n)
  then obtain c w where c: "cw = (c, w)" "fd_value (fc_fd c) = fd" "good w" "rest w \<noteq> []" by (cases cw) auto
  from assms(1) 2(2) c(3) obtain k w' where "sys_read os fd n w = ((int k, take k (rest w)), w')" "k \<le> n"
    "k \<le> length (rest w)" "k = 0 \<longleftrightarrow> rest w = []" "good w'" "rest w' = drop k (rest w)"
    unfolding reads_stream_def by blast
  then show ?case using c assms(2) by (auto simp: file_read_op_def seq_read_some_def fd_defs)
next
  case (3 cw n)
  then obtain c w where c: "cw = (c, w)" "fd_value (fc_fd c) = fd" "good w" "rest w = []" by (cases cw) auto
  from assms(1) 3(2) c(3) obtain k w' where "sys_read os fd n w = ((int k, take k (rest w)), w')" "k \<le> n"
    "k \<le> length (rest w)" "k = 0 \<longleftrightarrow> rest w = []" "good w'" "rest w' = drop k (rest w)"
    unfolding reads_stream_def by blast
  then show ?case using c assms(2) by (auto simp: file_read_op_def seq_read_some_def fd_defs)
qed

subsection \<open>Properties\<close>

text \<open>\<^verbatim>\<open>_make_flags\<close> decides exactly which combinations of file flags are valid and what they mean
  to \<^verbatim>\<open>open(2)\<close>; the flag \<^verbatim>\<open>append\<close> is accepted for writing and has no effect.\<close>

theorem make_flags_meaning:
  fixes flags :: fileflagset
  defines "r \<equiv> is_set flags fileflags_read" and "w \<equiv> is_set flags fileflags_write"
    and "t \<equiv> is_set flags fileflags_trunc" and "a \<equiv> is_set flags fileflags_append"
    and "cn \<equiv> is_set flags fileflags_create_new" and "oe \<equiv> is_set flags fileflags_open_existing"
  shows "make_flags flags =
    (if w \<and> (cn \<or> oe) then
       (True, (if r then O_RDWR else O_WRONLY) OR (if cn then O_CREAT else 0) OR
         (if cn \<and> \<not> oe then O_EXCL else 0) OR (if t \<and> oe then O_TRUNC else 0))
     else (\<not> w \<and> r \<and> \<not> t \<and> \<not> a \<and> \<not> cn, O_RDONLY)) \<and>
    snd (make_flags flags) AND O_APPEND = 0"
  unfolding r_def w_def t_def a_def cn_def oe_def make_flags_def Let_def is_set_or
  by (auto simp: open_flag_defs)

text \<open>The coroutine operations of file channels compute what their synchronous twins compute,
  for every system whose calls return what POSIX documents: opening, both ways of reading and
  writing at a position. Sequential writing reports the wrong error: the error number of the
  resuming thread.\<close>

theorem file_async_twins:
  assumes "posix_results os"
  shows "seqfilechannel_async_open os = seqfilechannel_open os \<and> iseqfilechannel_async_open os = iseqfilechannel_open os \<and>
    oseqfilechannel_async_open os = oseqfilechannel_open os \<and> dafilechannel_async_open os = dafilechannel_open os \<and>
    idafilechannel_async_open os = idafilechannel_open os \<and> odafilechannel_async_open os = odafilechannel_open os \<and>
    seq_async_read_some os c n w = seq_read_some os c n w \<and>
    da_async_read_some_at os c loc n w = da_read_some_at os c loc n w \<and>
    da_async_write_some_at os c loc buf w = da_write_some_at os c loc buf w \<and>
    seq_async_write_some os here c buf w =
      (case seq_write_some os c buf w of Ret (Inl e, w) \<Rightarrow> Ret (Inl (make_error here), w) | r \<Rightarrow> r)"
proof -
  have "async_base_open os = base_open os" by (intro ext async_base_open_eq [OF assms])
  then show ?thesis
    using async_read_eq [OF assms] async_write_eq [OF assms]
    by (simp add: seqfilechannel_async_open_def seqfilechannel_open_def iseqfilechannel_async_open_def
        iseqfilechannel_open_def oseqfilechannel_async_open_def oseqfilechannel_open_def
        dafilechannel_async_open_def dafilechannel_open_def idafilechannel_async_open_def
        idafilechannel_open_def odafilechannel_async_open_def odafilechannel_open_def)
qed

definition full_disk :: "unit posix" where
  "full_disk = \<lparr>sys_open = (\<lambda>_ _ _ w. (3, w)), sys_close = (\<lambda>_ w. (0, w)), sys_read = (\<lambda>_ _ w. ((0, []), w)),
     sys_pread = (\<lambda>_ _ _ w. ((0, []), w)), sys_write = (\<lambda>_ _ w. (- 1, w)), sys_pwrite = (\<lambda>_ _ _ w. (- 1, w)),
     sys_errno = (\<lambda>_. 28)\<rparr>"

theorem file_async_twins_witness:
  "seq_write_some full_disk \<lparr>fc_fd = \<lparr>fd_value = 3\<rparr>\<rparr> [1] () = Ret (Inl (make_error 28), ()) \<and>
   seq_async_write_some full_disk 0 \<lparr>fc_fd = \<lparr>fd_value = 3\<rparr>\<rparr> [1] () = Ret (Inl (make_error 0), ())"
proof -
  have "posix_results full_disk" by (simp add: posix_results_def full_disk_def errno_ok_def)
  moreover have "seq_write_some full_disk \<lparr>fc_fd = \<lparr>fd_value = 3\<rparr>\<rparr> [1] () = Ret (Inl (make_error 28), ())"
    by (simp add: seq_write_some_def fd_defs full_disk_def get_errno_def)
  ultimately show ?thesis 
    using file_async_twins [of full_disk, where here = 0 and c = "\<lparr>fc_fd = \<lparr>fd_value = 3\<rparr>\<rparr>" and buf = "[1]" and w = "()"]
    by auto
qed

text \<open>Closing a file channel does not close the channel: whatever \<^verbatim>\<open>close\<close> returns, the channel still
  reports to be open and refuses to be opened again, and its destructor closes the same descriptor
  number a second time, by when it may belong to another file.\<close>

theorem file_close_keeps_fd:
  assumes "filechannel_is_open c" "filechannel_close os c w = (r, c', w')"
  shows "filechannel_is_open c' \<and>
    base_open os c' path flags w' = (Inl (make_error_code channel_already_open), c', w') \<and>
    filechannel_destroy os c' w' = snd (sys_close os (fd_value (fc_fd c)) w')"
proof -
  have "c' = c" using assms by (auto simp: filechannel_close_def split: prod.splits if_splits)
  then show ?thesis using assms(1)
    by (auto simp: base_open_def filechannel_destroy_def unique_fd_destroy_def unique_fd_close_def fd_defs
        split: prod.splits)
qed

theorem file_close_keeps_fd_witness:
  "filechannel_close full_disk \<lparr>fc_fd = \<lparr>fd_value = 3\<rparr>\<rparr> () = (Inr (), \<lparr>fc_fd = \<lparr>fd_value = 3\<rparr>\<rparr>, ()) \<and>
   filechannel_is_open \<lparr>fc_fd = \<lparr>fd_value = 3\<rparr>\<rparr>"
proof -
  have "filechannel_close full_disk \<lparr>fc_fd = \<lparr>fd_value = 3\<rparr>\<rparr> () = (Inr (), \<lparr>fc_fd = \<lparr>fd_value = 3\<rparr>\<rparr>, ())"
    by (simp add: filechannel_close_def unique_fd_close_def fd_defs full_disk_def is_error_def default_error_code_def)
  moreover have "filechannel_is_open \<lparr>fc_fd = \<lparr>fd_value = 3\<rparr>\<rparr>" by (simp add: fd_defs)
  ultimately show ?thesis using file_close_keeps_fd [of "\<lparr>fc_fd = \<lparr>fd_value = 3\<rparr>\<rparr>" full_disk "()" "Inr ()"] by simp
qed

text \<open>C31: \<^verbatim>\<open>read_all\<close> on an open sequential file channel for both directions (it does not accept channels for
  input only) ends, whatever pieces the system delivers the file
  in, with exactly the bytes asked for, or with all bytes left and end of file when there are
  fewer.\<close>

theorem file_read_all:
  assumes "reads_stream os fd good rest" "fd \<noteq> - 1" "good w" "fd_value (fc_fd c) = fd" "min sz n \<le> fuel"
  shows "\<exists>w'. read_all fuel (file_read_op os) (c, w) sz n =
      Ret (take (min sz n) (rest w),
        if length (rest w) < min sz n then make_error_code end_of_file else make_error_code no_error, (c, w')) \<and>
    good w' \<and> rest w' = drop (min sz n) (rest w)"
proof -
  have inv: "(\<lambda>(c, w). fd_value (fc_fd c) = fd \<and> good w) (c, w)" using assms(3,4) by simp
  from seq_reader.read_all_ok [OF file_seq_reader [OF assms(1,2)] inv assms(5)] obtain c' w' where
    "read_all fuel (file_read_op os) (c, w) sz n = Ret (take (min sz n) (rest w),
      if length (rest w) < min sz n then make_error_code end_of_file else make_error_code no_error, (c', w'))"
    "fd_value (fc_fd c') = fd" "good w'" "rest w' = drop (min sz n) (rest w)" by auto
  moreover have "c' = c" using calculation(2) assms(4) by simp
  ultimately show ?thesis by blast
qed

definition slow_disk :: "byte list posix" where
  "slow_disk = \<lparr>sys_open = (\<lambda>_ _ _ w. (3, w)), sys_close = (\<lambda>_ w. (0, w)),
     sys_read = (\<lambda>_ n w. ((int (length (take (min n 2) w)), take (min n 2) w), drop (min n 2) w)),
     sys_pread = (\<lambda>_ _ _ w. ((0, []), w)), sys_write = (\<lambda>_ _ w. (- 1, w)), sys_pwrite = (\<lambda>_ _ _ w. (- 1, w)),
     sys_errno = (\<lambda>_. 28)\<rparr>"

theorem file_read_all_witness:
  "\<exists>w'. read_all 5 (file_read_op slow_disk) (\<lparr>fc_fd = \<lparr>fd_value = 3\<rparr>\<rparr>, [1, 2, 3]) 5 9 =
    Ret ([1, 2, 3], make_error_code end_of_file, (\<lparr>fc_fd = \<lparr>fd_value = 3\<rparr>\<rparr>, w'))"
proof -
  have "reads_stream slow_disk 3 (\<lambda>_. True) (\<lambda>w. w)"
    unfolding reads_stream_def
  proof (intro allI impI)
    fix w :: "byte list" and n :: nat assume "True \<and> 0 < n"
    then show "\<exists>k w'. sys_read slow_disk 3 n w = ((int k, take k w), w') \<and> k \<le> n \<and> k \<le> length w \<and>
        (k = 0) = (w = []) \<and> True \<and> w' = drop k w"
      by (intro exI [of _ "length (take (min n 2) w)"] exI [of _ "drop (min n 2) w"])
        (auto simp: slow_disk_def min_def)
  qed
  from file_read_all [OF this, where w = "[1, 2, 3]" and c = "\<lparr>fc_fd = \<lparr>fd_value = 3\<rparr>\<rparr>" and sz = 5 and n = 9 and fuel = 5]
  show ?thesis by auto
qed

end
