(* ===== verification/Executor.thy ===== *)
theory Executor
  imports Prelude "HOL-Library.Multiset"
begin

text \<open>
  The executors of \<^verbatim>\<open>src/src/include/sk/executor.hxx\<close> and \<^verbatim>\<open>wait.hxx\<close>. The thread pool \<^verbatim>\<open>mt_executor\<close>
  is a labelled step relation on the executor and the control states of its threads: one step is
  one critical section of the mutex, a return of a work item, or a wakeup of the condition variable,
  spurious ones included; posts may come at any time and from any thread. \<^verbatim>\<open>st_executor\<close> is a loop
  that may not end. \<^verbatim>\<open>wait_executor\<close> is a pool of one thread that leaves when its task is done.
  A work item is a value of the type variable; what it does is a parameter where it matters.
\<close>

section \<open>Executors\<close>

text \<open>What every executor promises: \<^verbatim>\<open>post\<close> puts the work behind the work that is waiting.\<close>

locale executor =
  fixes post :: "'i \<Rightarrow> 'x \<Rightarrow> 'x" and pending :: "'x \<Rightarrow> 'i list"
  assumes pending_post: "pending (post w x) = pending x @ [w]"
begin

lemma pending_fold_post: "pending (fold post ws x) = pending x @ ws"
  by (induction ws arbitrary: x) (simp_all add: pending_post)

end

subsection \<open>mt_executor\<close>

text \<open>Where a thread is in \<^verbatim>\<open>run\<close>: before the mutex (or woken and taking it again), asleep in
  \<^verbatim>\<open>_cv.wait\<close>, in \<^verbatim>\<open>work()\<close>, or returned.\<close>

datatype 'i thread = At_lock | Sleeping | Running 'i | Exited

record 'i mt_executor =
  mt_work :: "'i list"
  mt_threads :: "'i thread list"
  mt_stopped :: bool

definition mt_new :: "'i mt_executor" where
  "mt_new = \<lparr>mt_work = [], mt_threads = [], mt_stopped = False\<rparr>"

text \<open>\<^verbatim>\<open>notify_one\<close> wakes one waiting thread, whichever, or does nothing when none waits; \<open>c\<close> is the
  choice.\<close>

definition notify_choice :: "nat option \<Rightarrow> 'i thread list \<Rightarrow> bool" where
  "notify_choice c ts \<longleftrightarrow> (case c of None \<Rightarrow> Sleeping \<notin> set ts | Some t \<Rightarrow> t < length ts \<and> ts ! t = Sleeping)"

definition notify_one :: "nat option \<Rightarrow> 'i thread list \<Rightarrow> 'i thread list" where
  "notify_one c ts = (case c of None \<Rightarrow> ts | Some t \<Rightarrow> ts[t := At_lock])"

definition notify_all :: "'i thread list \<Rightarrow> 'i thread list" where
  "notify_all ts = map (case_thread At_lock At_lock Running Exited) ts"

definition mt_post :: "nat option \<Rightarrow> 'i \<Rightarrow> 'i mt_executor \<Rightarrow> 'i mt_executor" where
  "mt_post c work x = x\<lparr>mt_work := mt_work x @ [work], mt_threads := notify_one c (mt_threads x)\<rparr>"

datatype 'i mt_event = Post 'i | Begin nat 'i | Sleep nat | Exit nat | Wake nat | Finish nat | Stop | Join | Spawn nat

text \<open>The critical section of \<^verbatim>\<open>run\<close>, by the thread \<open>t\<close>: the predicate of \<^verbatim>\<open>_cv.wait\<close>, the test of \<^verbatim>\<open>_stop\<close>
  and the removal of the first work item.\<close>

definition mt_enter :: "nat \<Rightarrow> 'i mt_executor \<Rightarrow> 'i mt_event \<times> 'i mt_executor" where
  "mt_enter t x =
     (if \<not> (mt_work x \<noteq> [] \<or> mt_stopped x) then (Sleep t, x\<lparr>mt_threads := (mt_threads x)[t := Sleeping]\<rparr>)
      else if mt_stopped x then (Exit t, x\<lparr>mt_threads := (mt_threads x)[t := Exited]\<rparr>)
      else let work = hd (mt_work x)
      in (Begin t work, x\<lparr>mt_work := tl (mt_work x), mt_threads := (mt_threads x)[t := Running work]\<rparr>))"

text \<open>\<^verbatim>\<open>stop\<close> sets the flag and wakes all threads in one critical section, and then joins the threads
  from the last one on, each when it has returned.\<close>

definition mt_stop :: "'i mt_executor \<Rightarrow> 'i mt_executor" where
  "mt_stop x = x\<lparr>mt_stopped := True, mt_threads := notify_all (mt_threads x)\<rparr>"

definition mt_join :: "'i mt_executor \<Rightarrow> 'i mt_executor option" where
  "mt_join x = (if mt_threads x \<noteq> [] \<and> last (mt_threads x) = Exited
     then Some (x\<lparr>mt_threads := butlast (mt_threads x)\<rparr>) else None)"

primrec spawn_loop :: "nat \<Rightarrow> 'i thread list \<Rightarrow> 'i thread list" where
  "spawn_loop 0 ts = ts"
| "spawn_loop (Suc n) ts = spawn_loop n (ts @ [At_lock])"

definition mt_start_threads :: "nat \<Rightarrow> 'i mt_executor \<Rightarrow> 'i mt_executor" where
  "mt_start_threads nthreads x =
     x\<lparr>mt_threads := spawn_loop (if nthreads = 0 then 1 else nthreads) (mt_threads x)\<rparr>"

definition mt_destroy :: "'i mt_executor \<Rightarrow> 'i mt_executor" where
  "mt_destroy x = (if mt_threads x \<noteq> [] then mt_stop x else x)"

inductive mt_step :: "'i mt_executor \<Rightarrow> 'i mt_event \<Rightarrow> 'i mt_executor \<Rightarrow> bool" where
  step_post: "notify_choice c (mt_threads x) \<Longrightarrow> mt_step x (Post w) (mt_post c w x)"
| step_enter: "t < length (mt_threads x) \<Longrightarrow> mt_threads x ! t = At_lock \<Longrightarrow> mt_enter t x = (e, x') \<Longrightarrow> mt_step x e x'"
| step_wake: "t < length (mt_threads x) \<Longrightarrow> mt_threads x ! t = Sleeping \<Longrightarrow>
    mt_step x (Wake t) (x\<lparr>mt_threads := (mt_threads x)[t := At_lock]\<rparr>)"
| step_finish: "t < length (mt_threads x) \<Longrightarrow> mt_threads x ! t = Running w \<Longrightarrow>
    mt_step x (Finish t) (x\<lparr>mt_threads := (mt_threads x)[t := At_lock]\<rparr>)"
| step_stop: "mt_step x Stop (mt_stop x)"
| step_join: "mt_stopped x \<Longrightarrow> mt_join x = Some x' \<Longrightarrow> mt_step x Join x'"
| step_spawn: "mt_step x (Spawn n) (mt_start_threads n x)"

inductive mt_steps :: "'i mt_executor \<Rightarrow> 'i mt_event list \<Rightarrow> 'i mt_executor \<Rightarrow> bool" where
  steps_nil: "mt_steps x [] x"
| steps_cons: "mt_step x e x' \<Longrightarrow> mt_steps x' es y \<Longrightarrow> mt_steps x (e # es) y"

inductive_cases mt_steps_nilE [elim!]: "mt_steps x [] y"
inductive_cases mt_steps_consE: "mt_steps x (e # es) y"
inductive_cases mt_stepE: "mt_step x e y"

text \<open>What was posted and what was started in a run, in order, and the number of steps that threads
  of the pool and the join took.\<close>

fun posted :: "'i mt_event list \<Rightarrow> 'i list" where
  "posted [] = []"
| "posted (Post w # es) = w # posted es"
| "posted (_ # es) = posted es"

fun started :: "'i mt_event list \<Rightarrow> 'i list" where
  "started [] = []"
| "started (Begin t w # es) = w # started es"
| "started (_ # es) = started es"

fun thread_event :: "'i mt_event \<Rightarrow> bool" where
  "thread_event (Post w) \<longleftrightarrow> False"
| "thread_event Stop \<longleftrightarrow> False"
| "thread_event Join \<longleftrightarrow> False"
| "thread_event (Spawn n) \<longleftrightarrow> False"
| "thread_event _ \<longleftrightarrow> True"

fun control_event :: "'i mt_event \<Rightarrow> bool" where
  "control_event Stop \<longleftrightarrow> True"
| "control_event Join \<longleftrightarrow> True"
| "control_event (Spawn n) \<longleftrightarrow> True"
| "control_event _ \<longleftrightarrow> False"

subsection \<open>Facts about runs of the pool\<close>

lemma mt_steps_append: "mt_steps x es y \<Longrightarrow> mt_steps y fs z \<Longrightarrow> mt_steps x (es @ fs) z"
  by (induction rule: mt_steps.induct) (auto intro: steps_cons)

lemma spawn_loop_eq: "spawn_loop n ts = ts @ replicate n At_lock"
  by (induction n arbitrary: ts) (simp_all add: replicate_app_Cons_same)

lemmas mt_defs = mt_post_def mt_stop_def mt_start_threads_def spawn_loop_eq notify_one_def notify_choice_def notify_all_def

lemma mt_enter_cases:
  assumes "mt_enter t x = (e, x')"
  obtains (sleep) "mt_work x = []" "\<not> mt_stopped x" "e = Sleep t" "x' = x\<lparr>mt_threads := (mt_threads x)[t := Sleeping]\<rparr>"
  | (exit) "mt_stopped x" "e = Exit t" "x' = x\<lparr>mt_threads := (mt_threads x)[t := Exited]\<rparr>"
  | (commence) w ws where "\<not> mt_stopped x" "mt_work x = w # ws" "e = Begin t w"
      "x' = x\<lparr>mt_work := ws, mt_threads := (mt_threads x)[t := Running w]\<rparr>"
  using assms by (cases "mt_work x") (auto simp: mt_enter_def Let_def split: if_splits)

lemma mt_join_Some:
  "mt_join x = Some x' \<longleftrightarrow> (\<exists>ts. mt_threads x = ts @ [Exited] \<and> x' = x\<lparr>mt_threads := ts\<rparr>)"
  unfolding mt_join_def by (cases "mt_threads x" rule: rev_cases) auto

text \<open>Case analysis of one step with the states of the pool written out.\<close>

lemma mt_step_cases [consumes 1, case_names post commence sleep exit wake finish stop join spawn]:
  assumes "mt_step x e y"
    and "\<And>c w. notify_choice c (mt_threads x) \<Longrightarrow> e = Post w \<Longrightarrow> y = mt_post c w x \<Longrightarrow> P"
    and "\<And>t w ws. t < length (mt_threads x) \<Longrightarrow> mt_threads x ! t = At_lock \<Longrightarrow> \<not> mt_stopped x \<Longrightarrow>
      mt_work x = w # ws \<Longrightarrow> e = Begin t w \<Longrightarrow>
      y = x\<lparr>mt_work := ws, mt_threads := (mt_threads x)[t := Running w]\<rparr> \<Longrightarrow> P"
    and "\<And>t. t < length (mt_threads x) \<Longrightarrow> mt_threads x ! t = At_lock \<Longrightarrow> \<not> mt_stopped x \<Longrightarrow> mt_work x = [] \<Longrightarrow>
      e = Sleep t \<Longrightarrow> y = x\<lparr>mt_threads := (mt_threads x)[t := Sleeping]\<rparr> \<Longrightarrow> P"
    and "\<And>t. t < length (mt_threads x) \<Longrightarrow> mt_threads x ! t = At_lock \<Longrightarrow> mt_stopped x \<Longrightarrow>
      e = Exit t \<Longrightarrow> y = x\<lparr>mt_threads := (mt_threads x)[t := Exited]\<rparr> \<Longrightarrow> P"
    and "\<And>t. t < length (mt_threads x) \<Longrightarrow> mt_threads x ! t = Sleeping \<Longrightarrow> e = Wake t \<Longrightarrow>
      y = x\<lparr>mt_threads := (mt_threads x)[t := At_lock]\<rparr> \<Longrightarrow> P"
    and "\<And>t w. t < length (mt_threads x) \<Longrightarrow> mt_threads x ! t = Running w \<Longrightarrow> e = Finish t \<Longrightarrow>
      y = x\<lparr>mt_threads := (mt_threads x)[t := At_lock]\<rparr> \<Longrightarrow> P"
    and "e = Stop \<Longrightarrow> y = mt_stop x \<Longrightarrow> P"
    and "\<And>ts. mt_stopped x \<Longrightarrow> mt_threads x = ts @ [Exited] \<Longrightarrow> e = Join \<Longrightarrow> y = x\<lparr>mt_threads := ts\<rparr> \<Longrightarrow> P"
    and "\<And>n. e = Spawn n \<Longrightarrow> y = mt_start_threads n x \<Longrightarrow> P"
  shows P
  using assms(1)
proof cases
  case (step_enter t)
  from step_enter(3) show P by (cases rule: mt_enter_cases) (use step_enter assms in blast)+
qed (use assms in \<open>auto simp: mt_join_Some\<close>)

lemma mt_step_fifo:
  assumes "mt_step x e y"
  shows "mt_work x @ posted [e] = started [e] @ mt_work y" "mt_stopped x \<Longrightarrow> mt_stopped y"
  using assms by (cases rule: mt_step_cases; simp add: mt_defs split: option.splits)+

lemma posted_Cons: "posted (e # es) = posted [e] @ posted es"
  and started_Cons: "started (e # es) = started [e] @ started es"
  by (cases e; simp)+

lemma mt_steps_fifo:
  assumes "mt_steps x es y"
  shows "mt_work x @ posted es = started es @ mt_work y"
  using assms
proof (induction rule: mt_steps.induct)
  case (steps_cons x e x' es y)
  have "mt_work x @ posted (e # es) = (mt_work x @ posted [e]) @ posted es" by (simp add: posted_Cons [of e es])
  also have "\<dots> = started [e] @ mt_work x' @ posted es" by (simp add: mt_step_fifo(1) [OF steps_cons(1)])
  also have "\<dots> = started (e # es) @ mt_work y" by (simp add: steps_cons.IH started_Cons [of e es])
  finally show ?case .
qed simp

lemma mt_step_stopped: "mt_step x e y \<Longrightarrow> mt_stopped x \<Longrightarrow> started [e] = []"
  by (cases rule: mt_step_cases) auto

lemma mt_steps_stopped:
  assumes "mt_steps x es y" "mt_stopped x"
  shows "started es = [] \<and> mt_stopped y"
  using assms
proof (induction rule: mt_steps.induct)
  case (steps_cons x e x' es y)
  then show ?case using mt_step_stopped [of x e x'] mt_step_fifo(2) [of x e x'] started_Cons [of e es] by simp
qed simp

subsubsection \<open>No wakeup is lost\<close>

text \<open>If a thread is asleep, at least as many threads are awake and on their way to the queue as
  there are work items; nobody sleeps once the pool is stopped, and nobody returns before.\<close>

abbreviation n_threads :: "'i thread \<Rightarrow> 'i mt_executor \<Rightarrow> nat" where
  "n_threads s x \<equiv> count (mset (mt_threads x)) s"

definition mt_inv :: "'i mt_executor \<Rightarrow> bool" where
  "mt_inv x \<longleftrightarrow>
     (Sleeping \<in> set (mt_threads x) \<longrightarrow> length (mt_work x) \<le> n_threads At_lock x \<and> \<not> mt_stopped x) \<and>
     (Exited \<in> set (mt_threads x) \<longrightarrow> mt_stopped x)"

lemma count_update:
  assumes "t < length ts"
  shows "count (mset (ts[t := s])) a + of_bool (ts ! t = a) = count (mset ts) a + of_bool (s = a)"
proof -
  have "ts ! t \<in># mset ts" using assms by simp
  then have "count (mset ts) (ts ! t) > 0" by (meson count_greater_zero_iff)
  then show ?thesis using assms by (auto simp: mset_update)
qed

lemma set_update_in: "a \<in> set (ts[t := s]) \<Longrightarrow> a = s \<or> a \<in> set ts"
  using set_update_subset_insert [of ts t s] by auto

lemma mt_inv_new [simp]: "mt_inv mt_new"
  by (simp add: mt_inv_def mt_new_def)

lemma mt_inv_step:
  assumes "mt_step x e y" "mt_inv x"
  shows "mt_inv y"
  using assms
proof (cases rule: mt_step_cases)
  case (post c w)
  then show ?thesis using assms(2)
    by (cases c) (auto simp: mt_inv_def mt_defs dest: set_update_in count_update [where s = At_lock and a = At_lock])
next
  case (commence t w ws)
  then show ?thesis using assms(2) count_update [of t "mt_threads x" "Running w" At_lock]
    by (auto simp: mt_inv_def dest: set_update_in)
next
  case (sleep t)
  then show ?thesis using assms(2) by (auto simp: mt_inv_def dest: set_update_in)
next
  case (exit t)
  then show ?thesis using assms(2) by (auto simp: mt_inv_def dest: set_update_in)
next
  case (wake t)
  then show ?thesis using assms(2) count_update [of t "mt_threads x" At_lock At_lock]
    by (auto simp: mt_inv_def dest: set_update_in)
next
  case (finish t w)
  then show ?thesis using assms(2) count_update [of t "mt_threads x" At_lock At_lock]
    by (auto simp: mt_inv_def dest: set_update_in)
next
  case stop
  then show ?thesis using assms(2) by (auto simp: mt_inv_def mt_defs split: thread.splits)
next
  case (join ts)
  then show ?thesis using assms(2) by (auto simp: mt_inv_def)
next
  case (spawn n)
  then show ?thesis using assms(2) by (auto simp: mt_inv_def mt_defs)
qed

lemma mt_inv_steps: "mt_steps x es y \<Longrightarrow> mt_inv x \<Longrightarrow> mt_inv y"
  by (induction rule: mt_steps.induct) (auto dest: mt_inv_step)

lemma mt_steps_stopped_mono: "mt_steps x es y \<Longrightarrow> \<not> mt_stopped y \<Longrightarrow> \<not> mt_stopped x"
  using mt_steps_stopped by blast

subsubsection \<open>Counting the steps of the threads\<close>

text \<open>Steps a thread can still make before it takes work, and before it returns from a stopped pool.\<close>

fun busy :: "'i thread \<Rightarrow> nat" where
  "busy At_lock = 0"
| "busy Exited = 0"
| "busy _ = 1"

fun to_leave :: "'i thread \<Rightarrow> nat" where
  "to_leave Exited = 1"
| "to_leave At_lock = 2"
| "to_leave _ = 3"

abbreviation total :: "('i thread \<Rightarrow> nat) \<Rightarrow> 'i mt_executor \<Rightarrow> nat" where
  "total f x \<equiv> sum_list (map f (mt_threads x))"

lemmas total_update = sum_list_map_update [where f = f for f :: "'i thread \<Rightarrow> nat"]

lemma total_le:
  "sum_list (map busy ts) \<le> length ts" "sum_list (map to_leave ts) \<le> 3 * length ts"
proof (induction ts)
  case (Cons s ts)
  { case 1 show ?case using Cons(1) by (cases s) auto }
  { case 2 show ?case using Cons(2) by (cases s) auto }
qed auto

lemma mt_step_busy:
  assumes "mt_step x e y" "\<not> control_event e" "mt_work x \<noteq> []" "\<not> mt_stopped x"
  shows "of_bool (thread_event e) + total busy y \<le> 2 * length (started [e]) + total busy x"
  using assms
proof (cases rule: mt_step_cases)
  case (post c w)
  then show ?thesis
    by (cases c) (auto simp: mt_defs dest: total_update [where f = busy and y = At_lock])
next
  case (commence t w ws)
  then show ?thesis using total_update [of t "mt_threads x" busy "Running w"] by simp
next
  case (wake t)
  then show ?thesis using total_update [of t "mt_threads x" busy At_lock] by simp
next
  case (finish t w)
  then show ?thesis using total_update [of t "mt_threads x" busy At_lock] by simp
qed (use assms in auto)

lemma mt_step_calm: "mt_step x e y \<Longrightarrow> \<not> control_event e \<Longrightarrow> mt_stopped y = mt_stopped x"
  by (cases rule: mt_step_cases) (auto simp: mt_defs)

lemma mt_steps_busy:
  assumes "mt_steps x es y" "\<forall>e\<in>set es. \<not> control_event e" "\<not> mt_stopped x"
    "length (started es) \<le> k" "k < length (mt_work x)"
  shows "length (filter thread_event es) + total busy y \<le> 2 * length (started es) + total busy x"
  using assms
proof (induction arbitrary: k rule: mt_steps.induct)
  case (steps_cons x e x' es y)
  have calm: "\<not> control_event e" "mt_work x \<noteq> []" "\<not> mt_stopped x'"
    using steps_cons.prems mt_step_calm [OF steps_cons(1)] by auto
  have len: "length (started (e # es)) = length (started [e]) + length (started es)"
    using started_Cons [of e es] by (metis length_append)
  have "length (mt_work x) \<le> length (started [e]) + length (mt_work x')"
    using arg_cong [OF mt_step_fifo(1) [OF steps_cons(1)], of length] by simp
  then have "length (started es) \<le> k - length (started [e])" "k - length (started [e]) < length (mt_work x')"
    using steps_cons.prems(3,4) len by auto
  then have "length (filter thread_event es) + total busy y \<le> 2 * length (started es) + total busy x'"
    using steps_cons.IH steps_cons.prems(1) calm(3) by auto
  then show ?case
    using mt_step_busy [OF steps_cons(1) calm(1,2) steps_cons.prems(2)] len by (auto split: if_splits)
qed simp

lemma mt_progress:
  assumes "mt_inv x" "mt_threads x \<noteq> []" "\<not> mt_stopped x" "mt_work x \<noteq> []"
  shows "\<exists>t y. mt_step x (Begin t (hd (mt_work x))) y \<or> mt_step x (Finish t) y"
proof (cases "At_lock \<in> set (mt_threads x)")
  case True
  then obtain t where t: "t < length (mt_threads x)" "mt_threads x ! t = At_lock" by (metis in_set_conv_nth)
  have "fst (mt_enter t x) = Begin t (hd (mt_work x))" using assms(3,4) by (simp add: mt_enter_def Let_def)
  then show ?thesis using step_enter [OF t, of "fst (mt_enter t x)" "snd (mt_enter t x)"] by (metis prod.collapse)
next
  case False
  then have n: "n_threads At_lock x = 0" by (simp add: count_eq_zero_iff)
  have "\<not> length (mt_work x) \<le> n_threads At_lock x" unfolding n using assms(4) by simp
  then have "Sleeping \<notin> set (mt_threads x)" "Exited \<notin> set (mt_threads x)"
    using assms by (auto simp: mt_inv_def)
  then obtain w where "mt_threads x ! 0 = Running w"
    using False assms(2) by (metis nth_mem thread.exhaust length_greater_0_conv)
  then show ?thesis using step_finish [of 0 x w] assms(2) by auto
qed

lemma mt_step_leaving:
  assumes "mt_step x e y" "mt_stopped x" "\<forall>n. e \<noteq> Spawn n"
  shows "of_bool (thread_event e \<or> e = Join) + total to_leave y \<le> total to_leave x"
  using assms
proof (cases rule: mt_step_cases)
  case (post c w)
  then show ?thesis
    by (cases c) (auto simp: mt_defs dest: total_update [where f = to_leave and y = At_lock])
next
  case (exit t)
  then show ?thesis using total_update [of t "mt_threads x" to_leave Exited] by simp
next
  case (wake t)
  then show ?thesis using total_update [of t "mt_threads x" to_leave At_lock] by simp
next
  case (finish t w)
  then show ?thesis using total_update [of t "mt_threads x" to_leave At_lock] by simp
next
  case stop
  have "sum_list (map (\<lambda>s. to_leave (case_thread At_lock At_lock Running Exited s)) ts) \<le> sum_list (map to_leave ts)"
    for ts :: "'a thread list" by (induction ts) (auto intro!: add_mono split: thread.split)
  then show ?thesis using stop by (simp add: mt_defs comp_def)
qed (use assms in auto)

lemma mt_steps_leaving:
  assumes "mt_steps x es y" "mt_stopped x" "\<forall>n. Spawn n \<notin> set es"
  shows "length (filter (\<lambda>e. thread_event e \<or> e = Join) es) + total to_leave y \<le> total to_leave x"
  using assms
proof (induction rule: mt_steps.induct)
  case (steps_cons x e x' es y)
  then have "of_bool (thread_event e \<or> e = Join) + total to_leave x' \<le> total to_leave x"
    using mt_step_leaving [of x e x'] by (metis list.set_intros(1))
  moreover have "length (filter (\<lambda>e. thread_event e \<or> e = Join) es) + total to_leave y \<le> total to_leave x'"
    using steps_cons mt_step_fifo(2) [of x e x'] by auto
  ultimately show ?case by (auto split: if_splits)
qed simp

lemma mt_leaving_progress:
  assumes "mt_inv x" "mt_threads x \<noteq> []" "mt_stopped x"
  shows "\<exists>e y. mt_step x e y \<and> (e = Join \<or> (\<exists>t. e = Finish t \<or> e = Exit t))"
proof (cases "last (mt_threads x)")
  case At_lock
  let ?t = "length (mt_threads x) - 1"
  have "mt_enter ?t x = (Exit ?t, snd (mt_enter ?t x))" using assms(3) by (simp add: mt_enter_def)
  then show ?thesis using step_enter [of ?t x] At_lock assms(2) by (metis diff_less last_conv_nth length_greater_0_conv zero_less_one)
next
  case Sleeping
  then show ?thesis using assms last_in_set [of "mt_threads x"] by (auto simp: mt_inv_def)
next
  case (Running w)
  then show ?thesis using step_finish [of "length (mt_threads x) - 1" x w] assms(2) by (auto simp: last_conv_nth)
next
  case Exited
  then show ?thesis using step_join [OF assms(3)] assms(2) by (auto simp: mt_join_def)
qed

interpretation mt: executor "mt_post c" mt_work for c
  by unfold_locales (simp add: mt_post_def)

subsection \<open>st_executor\<close>

record 'i st_executor =
  st_work :: "'i list"

definition st_new :: "'i st_executor" where
  "st_new = \<lparr>st_work = []\<rparr>"

definition st_post :: "'i \<Rightarrow> 'i st_executor \<Rightarrow> 'i st_executor" where
  "st_post work x = x\<lparr>st_work := st_work x @ [work]\<rparr>"

text \<open>\<open>body w s\<close> is what the work item \<open>w\<close> does to the state of the program, and what it posts while
  it runs, in order. The loop need not end.\<close>

partial_function (option) st_run ::
  "('i \<Rightarrow> 's \<Rightarrow> 's \<times> 'i list) \<Rightarrow> 'i st_executor \<Rightarrow> 's \<Rightarrow> ('i st_executor \<times> 's) option" where
  "st_run body x s =
     (if st_work x = [] then Some (x, s)
      else let work = hd (st_work x); x = x\<lparr>st_work := tl (st_work x)\<rparr>; (s, ps) = body work s
      in st_run body (fold st_post ps x) s)"

declare st_run.simps [code]

interpretation st: executor st_post st_work
  by unfold_locales (simp add: st_post_def)

text \<open>The body with a log of the items that were run and posted.\<close>

definition logged :: "('i \<Rightarrow> 's \<Rightarrow> 's \<times> 'i list) \<Rightarrow> 'i \<Rightarrow> 's \<times> 'i list \<times> 'i list \<Rightarrow> ('s \<times> 'i list \<times> 'i list) \<times> 'i list" where
  "logged body w = (\<lambda>(s, rs, ps). let (s', qs) = body w s in ((s', rs @ [w], ps @ qs), qs))"

lemma st_run_empty: "st_work x = [] \<Longrightarrow> st_run body x s = Some (x, s)"
  by (simp add: st_run.simps)

lemma st_run_Cons:
  assumes "st_work x = w # ws" "body w s = (s', ps)"
  shows "st_run body x s = st_run body \<lparr>st_work = ws @ ps\<rparr> s'"
proof -
  have "fold st_post ps \<lparr>st_work = ws\<rparr> = \<lparr>st_work = ws @ ps\<rparr>"
    using st.pending_fold_post [of ps "\<lparr>st_work = ws\<rparr>"] by (cases "fold st_post ps \<lparr>st_work = ws\<rparr>") simp
  then have "fold st_post ps (x\<lparr>st_work := ws\<rparr>) = \<lparr>st_work = ws @ ps\<rparr>" by (cases x) simp
  then show ?thesis using assms by (simp add: st_run.simps [of body x s] Let_def)
qed

lemma st_run_log:
  assumes "\<And>w s p. p \<in> set (snd (body w s)) \<Longrightarrow> rank p < (rank w :: nat)"
  shows "\<exists>s' rs' ps'. st_run (logged body) x (s, rs, ps) = Some (st_new, (s', rs @ rs', ps @ ps')) \<and>
    rs' = st_work x @ ps' \<and> st_run body x s = Some (st_new, s')"
proof (induction "mset (map rank (st_work x))" arbitrary: x s rs ps rule: wf_induct_rule [OF wf_mult [OF wf_less_than]])
  case 1
  show ?case
  proof (cases "st_work x")
    case Nil
    then show ?thesis by (cases x) (simp add: st_run_empty st_new_def)
  next
    case (Cons w ws)
    obtain s1 qs where b: "body w s = (s1, qs)" by fastforce
    have l: "logged body w (s, rs, ps) = ((s1, rs @ [w], ps @ qs), qs)" by (simp add: logged_def b)
    have "\<forall>k\<in>#mset (map rank qs). \<exists>j\<in>#{#rank w#}. (k, j) \<in> less_than" using assms [of _ w s] b by auto
    from one_step_implies_mult [OF _ this, of "mset (map rank ws)"]
    have "(mset (map rank (ws @ qs)), mset (map rank (st_work x))) \<in> mult less_than" using Cons by simp
    from 1 [of "\<lparr>st_work = ws @ qs\<rparr>" s1 "rs @ [w]" "ps @ qs"] this
    obtain s' rs' ps' where "st_run (logged body) \<lparr>st_work = ws @ qs\<rparr> (s1, rs @ [w], ps @ qs) =
        Some (st_new, (s', (rs @ [w]) @ rs', (ps @ qs) @ ps'))" "rs' = (ws @ qs) @ ps'"
      "st_run body \<lparr>st_work = ws @ qs\<rparr> s1 = Some (st_new, s')" by auto
    then show ?thesis using st_run_Cons [of x w ws body, OF Cons b] st_run_Cons [of x w ws "logged body", OF Cons l] Cons
      by (intro exI [of _ s'] exI [of _ "w # rs'"] exI [of _ "qs @ ps'"]) simp
  qed
qed

subsection \<open>wait_executor\<close>

text \<open>\<^verbatim>\<open>wait\<close> starts a task on the calling thread, which runs to its first suspension, and then runs the
  work posted for it until the task is done. \<open>wx_main\<close> is the control state of the calling thread,
  \<open>wx_done\<close> the state of the task's coroutine.\<close>

record 'i wait_executor =
  wx_work :: "'i list"
  wx_done :: bool
  wx_main :: "'i thread"

definition wait_start :: "bool \<Rightarrow> 'i wait_executor" where
  "wait_start finished = \<lparr>wx_work = [], wx_done = finished, wx_main = At_lock\<rparr>"

definition wait_post :: "'i \<Rightarrow> 'i wait_executor \<Rightarrow> 'i wait_executor" where
  "wait_post work x = x\<lparr>wx_work := wx_work x @ [work],
     wx_main := (if wx_main x = Sleeping then At_lock else wx_main x)\<rparr>"

datatype 'i wait_event = W_post 'i | W_begin 'i | W_sleep | W_return | W_wake | W_finish bool | W_elsewhere

definition wait_enter :: "'i wait_executor \<Rightarrow> 'i wait_event \<times> 'i wait_executor" where
  "wait_enter x =
     (if \<not> (wx_work x \<noteq> [] \<or> wx_done x) then (W_sleep, x\<lparr>wx_main := Sleeping\<rparr>)
      else if wx_done x then (W_return, x\<lparr>wx_main := Exited\<rparr>)
      else let work = hd (wx_work x) in (W_begin work, x\<lparr>wx_work := tl (wx_work x), wx_main := Running work\<rparr>))"

text \<open>The task ends in a work item of this executor, or on another thread (when a coroutine it awaits
  runs on an executor of its own), which tells the waiting thread nothing.\<close>

inductive wait_step :: "'i wait_executor \<Rightarrow> 'i wait_event \<Rightarrow> 'i wait_executor \<Rightarrow> bool" where
  wait_step_post: "wait_step x (W_post w) (wait_post w x)"
| wait_step_enter: "wx_main x = At_lock \<Longrightarrow> wait_enter x = (e, x') \<Longrightarrow> wait_step x e x'"
| wait_step_wake: "wx_main x = Sleeping \<Longrightarrow> wait_step x W_wake (x\<lparr>wx_main := At_lock\<rparr>)"
| wait_step_finish: "wx_main x = Running w \<Longrightarrow> wait_step x (W_finish d) (x\<lparr>wx_done := wx_done x \<or> d, wx_main := At_lock\<rparr>)"
| wait_step_elsewhere: "wait_step x W_elsewhere (x\<lparr>wx_done := True\<rparr>)"

inductive wait_steps :: "'i wait_executor \<Rightarrow> 'i wait_event list \<Rightarrow> 'i wait_executor \<Rightarrow> bool" where
  wait_nil: "wait_steps x [] x"
| wait_cons: "wait_step x e x' \<Longrightarrow> wait_steps x' es y \<Longrightarrow> wait_steps x (e # es) y"

interpretation wx: executor wait_post wx_work
  by unfold_locales (simp add: wait_post_def)

fun wait_posted :: "'i wait_event list \<Rightarrow> 'i list" where
  "wait_posted [] = []"
| "wait_posted (W_post w # es) = w # wait_posted es"
| "wait_posted (_ # es) = wait_posted es"

fun wait_started :: "'i wait_event list \<Rightarrow> 'i list" where
  "wait_started [] = []"
| "wait_started (W_begin w # es) = w # wait_started es"
| "wait_started (_ # es) = wait_started es"

definition wait_inv :: "'i wait_executor \<Rightarrow> bool" where
  "wait_inv x \<longleftrightarrow> (wx_main x = Sleeping \<longrightarrow> wx_work x = [] \<and> \<not> wx_done x) \<and> (wx_main x = Exited \<longrightarrow> wx_done x)"

lemma wait_enter_cases:
  assumes "wait_enter x = (e, y)"
  obtains (sleep) "wx_work x = []" "\<not> wx_done x" "e = W_sleep" "y = x\<lparr>wx_main := Sleeping\<rparr>"
  | (return) "wx_done x" "e = W_return" "y = x\<lparr>wx_main := Exited\<rparr>"
  | (commence) w ws where "\<not> wx_done x" "wx_work x = w # ws" "e = W_begin w" "y = x\<lparr>wx_work := ws, wx_main := Running w\<rparr>"
  using assms by (cases "wx_work x") (auto simp: wait_enter_def Let_def split: if_splits)

lemma wait_step_facts:
  assumes "wait_step x e y"
  shows "wx_work x @ wait_posted [e] = wait_started [e] @ wx_work y"
    "wait_inv x \<Longrightarrow> e \<noteq> W_elsewhere \<Longrightarrow> wait_inv y"
  using assms
  by (cases; auto simp: wait_post_def wait_inv_def elim!: wait_enter_cases)+

lemma wait_steps_facts:
  assumes "wait_steps x es y"
  shows "wx_work x @ wait_posted es = wait_started es @ wx_work y"
    "wait_inv x \<Longrightarrow> W_elsewhere \<notin> set es \<Longrightarrow> wait_inv y"
proof -
  have p: "wait_posted (e # es) = wait_posted [e] @ wait_posted es" and s: "wait_started (e # es) = wait_started [e] @ wait_started es"
    for e :: "'i wait_event" and es by (cases e; simp)+
  show "wx_work x @ wait_posted es = wait_started es @ wx_work y" using assms
  proof (induction rule: wait_steps.induct)
    case (wait_cons x e x' es y)
    then show ?case using wait_step_facts(1) [OF wait_cons(1)] p [of e es] s [of e es] by (metis append.assoc)
  qed simp
  show "wait_inv y" if "wait_inv x" "W_elsewhere \<notin> set es"
    using assms that by (induction rule: wait_steps.induct) (auto dest: wait_step_facts(2))
qed

subsection \<open>Properties\<close>

lemma mt_stopped_iff:
  assumes "mt_steps x es y"
  shows "mt_stopped y \<longleftrightarrow> mt_stopped x \<or> Stop \<in> set es"
  using assms
proof (induction rule: mt_steps.induct)
  case (steps_cons x e x' es y)
  from steps_cons(1) have "mt_stopped x' \<longleftrightarrow> mt_stopped x \<or> e = Stop"
    by (cases rule: mt_step_cases) (auto simp: mt_defs)
  then show ?case using steps_cons by auto
qed simp

lemma mt_new_not_stopped [simp]: "\<not> mt_stopped mt_new" "mt_work mt_new = []"
  by (simp_all add: mt_new_def)

text \<open>A pool of one thread that has gone to sleep and was then given two work items.\<close>

definition small_pool :: "nat mt_executor" where
  "small_pool = \<lparr>mt_work = [7, 8], mt_threads = [At_lock], mt_stopped = False\<rparr>"

lemma small_pool_run: "mt_steps mt_new [Spawn 1, Sleep 0, Post 7, Post 8] small_pool"
proof -
  have "mt_step mt_new (Spawn 1) \<lparr>mt_work = [], mt_threads = [At_lock], mt_stopped = False\<rparr>"
    using step_spawn [of mt_new 1] by (simp add: mt_defs mt_new_def)
  moreover have "mt_step \<lparr>mt_work = [], mt_threads = [At_lock], mt_stopped = False\<rparr> (Sleep 0)
      \<lparr>mt_work = [], mt_threads = [Sleeping], mt_stopped = False\<rparr>"
    by (rule step_enter [of 0]) (simp_all add: mt_enter_def)
  moreover have "mt_step \<lparr>mt_work = [], mt_threads = [Sleeping], mt_stopped = False\<rparr> (Post 7)
      \<lparr>mt_work = [7], mt_threads = [At_lock], mt_stopped = False\<rparr>"
    using step_post [of "Some 0" "\<lparr>mt_work = [], mt_threads = [Sleeping], mt_stopped = False\<rparr>" 7] by (simp add: mt_defs)
  moreover have "mt_step \<lparr>mt_work = [7], mt_threads = [At_lock], mt_stopped = False\<rparr> (Post 8) small_pool"
    using step_post [of None "\<lparr>mt_work = [7], mt_threads = [At_lock], mt_stopped = False\<rparr>" 8] by (simp add: mt_defs small_pool_def)
  ultimately show ?thesis by (meson steps_cons steps_nil)
qed

lemma small_pool_works:
  "mt_steps small_pool [Begin 0 7, Finish 0] \<lparr>mt_work = [8], mt_threads = [At_lock], mt_stopped = False\<rparr>"
proof -
  have "mt_step small_pool (Begin 0 7) \<lparr>mt_work = [8], mt_threads = [Running 7], mt_stopped = False\<rparr>"
    by (rule step_enter [of 0]) (simp_all add: mt_enter_def small_pool_def)
  moreover have "mt_step \<lparr>mt_work = [8], mt_threads = [Running 7], mt_stopped = False\<rparr> (Finish 0)
      \<lparr>mt_work = [8], mt_threads = [At_lock], mt_stopped = False\<rparr>"
    using step_finish [of 0 "\<lparr>mt_work = [8], mt_threads = [Running 7], mt_stopped = False\<rparr>" 7] by simp
  ultimately show ?thesis by (meson steps_cons steps_nil)
qed

lemma small_pool_leaves:
  "mt_steps (mt_stop small_pool) [Exit 0, Join] \<lparr>mt_work = [7, 8], mt_threads = [], mt_stopped = True\<rparr>"
proof -
  have "mt_step (mt_stop small_pool) (Exit 0) \<lparr>mt_work = [7, 8], mt_threads = [Exited], mt_stopped = True\<rparr>"
    by (rule step_enter [of 0]) (simp_all add: mt_enter_def small_pool_def mt_defs)
  moreover have "mt_step \<lparr>mt_work = [7, 8], mt_threads = [Exited], mt_stopped = True\<rparr> Join
      \<lparr>mt_work = [7, 8], mt_threads = [], mt_stopped = True\<rparr>"
    by (rule step_join) (simp_all add: mt_join_def)
  ultimately show ?thesis by (meson steps_cons steps_nil)
qed

text \<open>C12: The thread pool starts every work item at most once and in the order of the posts, whatever
  the interleaving of its threads: what was posted is what was started followed by what still
  waits. Once \<^verbatim>\<open>stop\<close> was called nothing is started any more, and what waits then stays in the queue.\<close>

theorem mt_executor_fifo:
  assumes "mt_steps mt_new es x" "mt_steps x fs y"
  shows "posted es = started es @ mt_work x \<and>
    (Stop \<in> set es \<longrightarrow> started fs = [] \<and> mt_work y = mt_work x @ posted fs)"
  using mt_steps_fifo [OF assms(1)] mt_steps_fifo [OF assms(2)] mt_steps_stopped [OF assms(2)]
    mt_stopped_iff [OF assms(1)]
  by auto

theorem mt_executor_fifo_witness:
  "posted [Spawn 1, Sleep 0, Post 7, Post 8] = started [Spawn 1, Sleep 0, Post (7::nat), Post 8] @ mt_work small_pool"
  using mt_executor_fifo [OF small_pool_run small_pool_works] by blast

text \<open>C8: No work item is left behind: whenever work waits in a pool that has threads and was not
  stopped, a thread can start the first item or finish the one it runs, without relying on a
  spurious wakeup; and the item at position \<open>k\<close> of the queue has been started by the time the threads
  have made \<open>2 * k + n + 1\<close> steps, for \<open>n\<close> threads, however many items are posted meanwhile.\<close>

theorem mt_executor_liveness:
  assumes "mt_steps mt_new es x" "Stop \<notin> set es" "mt_threads x \<noteq> []" "k < length (mt_work x)"
  shows "(\<exists>t y. mt_step x (Begin t (hd (mt_work x))) y \<or> mt_step x (Finish t) y) \<and>
    (\<forall>fs y. mt_steps x fs y \<and> (\<forall>e\<in>set fs. \<not> control_event e) \<and>
       2 * k + length (mt_threads x) < length (filter thread_event fs) \<longrightarrow>
       take (Suc k) (started fs) = take (Suc k) (mt_work x))"
proof -
  have inv: "mt_inv x" "\<not> mt_stopped x"
    using mt_inv_steps [OF assms(1)] mt_stopped_iff [OF assms(1)] assms(2) by auto
  have "take (Suc k) (started fs) = take (Suc k) (mt_work x)"
    if fs: "mt_steps x fs y" "\<forall>e\<in>set fs. \<not> control_event e"
      "2 * k + length (mt_threads x) < length (filter thread_event fs)" for fs y
  proof -
    have "\<not> length (started fs) \<le> k" using mt_steps_busy [OF fs(1,2) inv(2) _ assms(4)] fs(3)
        total_le(1) [of "mt_threads x"] by linarith
    then have "take (Suc k) (started fs @ mt_work y) = take (Suc k) (started fs)"
      "take (Suc k) (mt_work x @ posted fs) = take (Suc k) (mt_work x)" using assms(4) by simp_all
    then show ?thesis unfolding mt_steps_fifo [OF fs(1)] by (rule trans [OF sym])
  qed
  moreover have "mt_work x \<noteq> []" using assms(4) by auto
  ultimately show ?thesis using mt_progress [OF inv(1) assms(3) inv(2)] by blast
qed

theorem mt_executor_liveness_witness:
  "take (Suc 0) (started [Begin 0 7, Finish 0]) = take (Suc 0) (mt_work small_pool)"
  using mt_executor_liveness [OF small_pool_run, of 0] small_pool_works by (fastforce simp: small_pool_def)

text \<open>C16: \<^verbatim>\<open>stop\<close> returns once the running work items return: after it was called, the threads and the
  joins make at most three steps per thread altogether, and as long as a thread is left one of them
  can make a step that is neither a spurious wakeup nor a post.\<close>

theorem mt_stop_returns:
  assumes "mt_steps mt_new es x" "mt_steps (mt_stop x) fs y" "\<forall>n. Spawn n \<notin> set fs"
  shows "length (filter (\<lambda>e. thread_event e \<or> e = Join) fs) \<le> 3 * length (mt_threads x) \<and> started fs = [] \<and>
    (mt_threads y = [] \<or> (\<exists>e z. mt_step y e z \<and> (e = Join \<or> (\<exists>t. e = Finish t \<or> e = Exit t))))"
proof -
  have st: "mt_stopped (mt_stop x)" "mt_step x Stop (mt_stop x)" by (simp add: mt_stop_def, rule step_stop)
  have "mt_inv (mt_stop x)" using mt_inv_step [OF st(2)] mt_inv_steps [OF assms(1)] by simp
  then have inv: "mt_inv y" "mt_stopped y" using mt_inv_steps [OF assms(2)] mt_steps_stopped [OF assms(2) st(1)] by auto
  have "total to_leave (mt_stop x) \<le> 3 * length (mt_threads x)"
    using total_le(2) [of "mt_threads (mt_stop x)"] by (simp add: mt_defs)
  then show ?thesis using mt_steps_leaving [OF assms(2) st(1) assms(3)] mt_leaving_progress [OF inv(1) _ inv(2)]
      mt_steps_stopped [OF assms(2) st(1)] by force
qed

theorem mt_stop_returns_witness:
  "length (filter (\<lambda>e. thread_event e \<or> e = Join) [Exit 0, Join :: nat mt_event]) \<le> 3 * length (mt_threads small_pool)"
  using mt_stop_returns [OF small_pool_run small_pool_leaves] by simp

lemma st_run_forever:
  assumes "st_run body x s = Some r"
  shows "body = (\<lambda>w s. (s, [w])) \<longrightarrow> st_work x = []"
proof (rule st_run.raw_induct [where xa = "((body, x), s)" and y = r and
    P = "\<lambda>body x s r. body = (\<lambda>w s. (s, [w])) \<longrightarrow> st_work x = []", unfolded prod.case, OF _ assms])
  fix run :: "('i \<Rightarrow> 's \<Rightarrow> 's \<times> 'i list) \<Rightarrow> 'i st_executor \<Rightarrow> 's \<Rightarrow> ('i st_executor \<times> 's) option" and body x s r
  assume IH: "\<And>body x s r. run body x s = Some r \<Longrightarrow> body = (\<lambda>w s. (s, [w])) \<longrightarrow> st_work x = []"
    and r: "(if st_work x = [] then Some (x, s)
      else let work = hd (st_work x); x = x\<lparr>st_work := tl (st_work x)\<rparr>; (s, ps) = body work s
           in run body (fold st_post ps x) s) = Some r"
  show "body = (\<lambda>w s. (s, [w])) \<longrightarrow> st_work x = []"
  proof (rule impI, rule ccontr)
    assume b: "body = (\<lambda>w s. (s, [w]))" and ne: "st_work x \<noteq> []"
    have "run body (st_post (hd (st_work x)) (x\<lparr>st_work := tl (st_work x)\<rparr>)) s = Some r"
      using r b ne by (simp add: Let_def)
    from IH [OF this] b show False by (simp add: st_post_def)
  qed
qed

text \<open>C29: The single-threaded executor runs to the end when the work items post work of a lower rank
  only, whatever else they do: it returns with an empty queue after running every item that was
  waiting or was posted on the way exactly once, in the order of the posts. Items that post
  themselves again keep it running for ever.\<close>

theorem st_executor_run:
  assumes "\<And>w s p. p \<in> set (snd (body w s)) \<Longrightarrow> rank p < (rank w :: nat)"
  shows "(\<exists>s' ps. st_run body x s = Some (st_new, s') \<and>
      st_run (logged body) x (s, [], []) = Some (st_new, (s', st_work x @ ps, ps))) \<and>
    (st_work x \<noteq> [] \<longrightarrow> st_run (\<lambda>w s. (s, [w])) x s = None)"
proof
  show "\<exists>s' ps. st_run body x s = Some (st_new, s') \<and>
      st_run (logged body) x (s, [], []) = Some (st_new, (s', st_work x @ ps, ps))"
    using st_run_log [of body rank x s "[]" "[]"] assms by fastforce
  show "st_work x \<noteq> [] \<longrightarrow> st_run (\<lambda>w s. (s, [w])) x s = None"
    using st_run_forever [of "\<lambda>w s. (s, [w])"] by (metis option.exhaust)
qed

theorem st_executor_run_witness:
  "\<exists>s' ps. st_run (\<lambda>w s. (s + w, [0..<w])) \<lparr>st_work = [2::nat, 1]\<rparr> 0 = Some (st_new, s') \<and>
    st_run (logged (\<lambda>w s. (s + w, [0..<w]))) \<lparr>st_work = [2, 1]\<rparr> (0, [], []) = Some (st_new, (s', [2, 1] @ ps, ps))"
  using st_executor_run [of "\<lambda>w s. (s + w, [0..<w])" "\<lambda>w. w" "\<lparr>st_work = [2, 1]\<rparr>" 0] by auto

text \<open>C28: \<^verbatim>\<open>wait\<close> runs the posted work in order and returns only when its task is done; as long as the
  task does not end on another thread, the calling thread is never asleep while there is work or the
  task is done, so it can go on, and a task that is done is returned after at most two more steps of
  it. When the task ends on another thread while the caller sleeps nothing wakes the caller: only
  further posts or spurious wakeups are possible.\<close>

theorem wait_executor_returns:
  assumes "wait_steps (wait_start d) es x" "W_elsewhere \<notin> set es"
  shows "wait_posted es = wait_started es @ wx_work (x :: 'i wait_executor) \<and>
    (wx_main x = Exited \<longrightarrow> wx_done x) \<and>
    (wx_work x \<noteq> [] \<or> wx_done x \<longrightarrow> wx_main x \<noteq> Sleeping) \<and>
    (wx_done x \<and> wx_main x \<noteq> Exited \<longrightarrow>
       (\<exists>fs y. wait_steps x fs y \<and> (fs = [W_return] \<or> fs = [W_finish False, W_return]) \<and> wx_main y = Exited)) \<and>
    (wx_main x = Sleeping \<longrightarrow> (\<forall>e y. wait_step (x\<lparr>wx_done := True\<rparr>) e y \<longrightarrow>
       e = W_wake \<or> e = W_elsewhere \<or> (\<exists>w. e = W_post w)))"
proof -
  have inv: "wait_inv x" using wait_steps_facts(2) [OF assms(1) _ assms(2)] by (simp add: wait_inv_def wait_start_def)
  have ret: "wait_step z W_return (z\<lparr>wx_main := Exited\<rparr>)" if "wx_main z = At_lock" "wx_done z" for z :: "'i wait_executor"
    using wait_step_enter [OF that(1)] that(2) by (simp add: wait_enter_def)
  have "\<exists>fs y. wait_steps x fs y \<and> (fs = [W_return] \<or> fs = [W_finish False, W_return]) \<and> wx_main y = Exited"
    if d: "wx_done x" "wx_main x \<noteq> Exited"
  proof (cases "wx_main x")
    case At_lock
    then show ?thesis using wait_cons [OF ret [OF At_lock d(1)] wait_nil] by fastforce
  next
    case (Running w)
    have "x\<lparr>wx_done := wx_done x \<or> False, wx_main := At_lock\<rparr> = x\<lparr>wx_main := At_lock\<rparr>"
      by (rule wait_executor.equality) simp_all
    then have "wait_step x (W_finish False) (x\<lparr>wx_main := At_lock\<rparr>)" using wait_step_finish [OF Running, of False] by metis
    moreover have "wait_step (x\<lparr>wx_main := At_lock\<rparr>) W_return (x\<lparr>wx_main := Exited\<rparr>)"
      using ret [of "x\<lparr>wx_main := At_lock\<rparr>"] d(1) by simp
    ultimately have "wait_steps x [W_finish False, W_return] (x\<lparr>wx_main := Exited\<rparr>)" by (meson wait_cons wait_nil)
    then show ?thesis by fastforce
  qed (use inv d in \<open>auto simp: wait_inv_def\<close>)
  moreover have "e = W_wake \<or> e = W_elsewhere \<or> (\<exists>w. e = W_post w)"
    if "wx_main x = Sleeping" "wait_step (x\<lparr>wx_done := True\<rparr>) e y" for e y
    using that(2,1) by cases auto
  ultimately show ?thesis using inv wait_steps_facts(1) [OF assms(1)]
    by (auto simp: wait_inv_def wait_start_def)
qed

theorem wait_executor_returns_witness:
  "wait_posted [W_sleep, W_post (5::nat)] = wait_started [W_sleep, W_post (5::nat)] @ [5]"
proof -
  have "wait_step (wait_start False) W_sleep (wait_start False\<lparr>wx_main := Sleeping\<rparr>)"
    by (rule wait_step_enter) (simp_all add: wait_start_def wait_enter_def)
  from wait_cons [OF this wait_cons [OF wait_step_post wait_nil]]
  have "wait_steps (wait_start False) [W_sleep, W_post (5::nat)] (wait_post 5 (wait_start False\<lparr>wx_main := Sleeping\<rparr>))" .
  from wait_executor_returns [OF this] show ?thesis by (simp add: wait_post_def wait_start_def)
qed

end
