(* ===== verification/Reactor.thy ===== *)
theory Reactor
  imports Channel_Types
begin

text \<open>
  The handles of the global reactor, \<^verbatim>\<open>src/src/include/sk/reactor.hxx\<close>. Every handle is its flag
  \<^verbatim>\<open>_valid\<close>; the global state is the number of references and whether the reactor runs. The threads
  of the program make the steps of a step relation: one step is one atomic change of the counter, or
  the critical section of \<^verbatim>\<open>shared_reactor_handle::get\<close>. The destructor of a shared handle holds no
  lock, so that its decrement and its call of \<^verbatim>\<open>stop\<close> are two steps.
\<close>

section \<open>Reactor handles\<close>

record reactor_global =
  reactor_refs :: int
  reactor_running :: bool

subsection \<open>Operations\<close>

text \<open>\<open>started\<close> is the result of \<^verbatim>\<open>start\<close> of the system reactor, which is called for the first handle only.\<close>

definition shared_get :: "error_code + unit \<Rightarrow> reactor_global \<Rightarrow> (error_code + bool) \<times> reactor_global" where
  "shared_get started g =
     (if reactor_refs g = 0 then
        (case started of
           Inl e \<Rightarrow> (Inl e, g)
         | Inr _ \<Rightarrow> (Inr True, g\<lparr>reactor_refs := reactor_refs g + 1, reactor_running := True\<rparr>))
      else (Inr True, g\<lparr>reactor_refs := reactor_refs g + 1\<rparr>))"

text \<open>Move construction: the new handle and what is left of the other, for both kinds.\<close>

definition handle_move :: "bool \<Rightarrow> bool \<times> bool" where
  "handle_move valid = (valid, False)"

definition handle_deref :: "bool \<Rightarrow> unit run" where
  "handle_deref valid = sk_check valid ''attempt to dereference invalid reactor_handle'' (Ret ())"

text \<open>The destructor of a shared handle: the decrement, with the decision to stop, and the stop.\<close>

definition shared_release :: "bool \<Rightarrow> reactor_global \<Rightarrow> bool \<times> reactor_global" where
  "shared_release valid g =
     (if \<not> valid then (False, g)
      else let g = g\<lparr>reactor_refs := reactor_refs g - 1\<rparr> in (\<not> reactor_refs g > 0, g))"

definition reactor_stop :: "reactor_global \<Rightarrow> reactor_global" where
  "reactor_stop g = g\<lparr>reactor_running := False\<rparr>"

definition shared_destroy :: "bool \<Rightarrow> reactor_global \<Rightarrow> reactor_global" where
  "shared_destroy valid g = (let (zero, g) = shared_release valid g in if zero then reactor_stop g else g)"

definition weak_get :: "reactor_global \<Rightarrow> (bool \<times> reactor_global) run" where
  "weak_get g =
     (let g = g\<lparr>reactor_refs := reactor_refs g + 1\<rparr>
      in sk_check (reactor_refs g > 1) ''get_weak_reactor_handle: no reactor'' (Ret (True, g)))"

definition weak_destroy :: "bool \<Rightarrow> reactor_global \<Rightarrow> reactor_global run" where
  "weak_destroy valid g =
     (if \<not> valid then Ret g
      else let g = g\<lparr>reactor_refs := reactor_refs g - 1\<rparr>
      in sk_check (reactor_refs g > 0) ''weak_reactor_handle: lifetime error'' (Ret g))"

text \<open>A weak handle that lives as long as \<open>body\<close> runs.\<close>

definition with_weak_handle :: "reactor_global \<Rightarrow> 'a run \<Rightarrow> 'a run" where
  "with_weak_handle g body =
     bind_run (weak_get g) (\<lambda>(v, g).
     bind_run (handle_deref v) (\<lambda>_.
     bind_run body (\<lambda>a. bind_run (weak_destroy v g) (\<lambda>_. Ret a))))"

lemma with_weak_handle_Ret: "with_weak_handle g body = Ret a \<Longrightarrow> body = Ret a"
  by (auto simp: with_weak_handle_def run_simps)

subsection \<open>The program as a step relation\<close>

text \<open>\<open>shared\<close> and \<open>weak\<close> are the valid handles of the program, by kind; \<open>stopping\<close> are the destructors
  between the decrement and the call of \<^verbatim>\<open>stop\<close>.\<close>

record reactor_world = reactor_global +
  shared_handles :: nat
  weak_handles :: nat
  stopping :: nat

definition reactor_idle :: reactor_world where
  "reactor_idle = \<lparr>reactor_refs = 0, reactor_running = False, shared_handles = 0, weak_handles = 0, stopping = 0\<rparr>"

definition global_of :: "reactor_world \<Rightarrow> reactor_global" where
  "global_of w = \<lparr>reactor_refs = reactor_refs w, reactor_running = reactor_running w\<rparr>"

definition with_global :: "reactor_global \<Rightarrow> reactor_world \<Rightarrow> reactor_world" where
  "with_global g w = w\<lparr>reactor_refs := reactor_refs g, reactor_running := reactor_running g\<rparr>"

text \<open>With \<open>careful\<close> no call of \<^verbatim>\<open>shared_reactor_handle::get\<close> overlaps a destructor that stops the reactor;
  nothing in the code sees to that, since the destructor does not take the mutex. So a call of \<^verbatim>\<open>get\<close>, which
  reads the counter and increments it later, is one step here.\<close>

inductive reactor_step :: "bool \<Rightarrow> reactor_world \<Rightarrow> reactor_world \<Rightarrow> bool" for careful where
  get_ok: "(careful \<longrightarrow> stopping w = 0) \<Longrightarrow> shared_get started (global_of w) = (Inr v, g) \<Longrightarrow>
    reactor_step careful w (with_global g w\<lparr>shared_handles := shared_handles w + of_bool v\<rparr>)"
| get_failed: "shared_get started (global_of w) = (Inl e, g) \<Longrightarrow> reactor_step careful w (with_global g w)"
| release: "0 < shared_handles w \<Longrightarrow> shared_release True (global_of w) = (zero, g) \<Longrightarrow>
    reactor_step careful w
      (with_global g w\<lparr>shared_handles := shared_handles w - 1, stopping := stopping w + of_bool zero\<rparr>)"
| stop: "0 < stopping w \<Longrightarrow> reactor_step careful w (with_global (reactor_stop (global_of w)) w\<lparr>stopping := stopping w - 1\<rparr>)"
| get_weak: "weak_get (global_of w) = Ret (v, g) \<Longrightarrow>
    reactor_step careful w (with_global g w\<lparr>weak_handles := weak_handles w + of_bool v\<rparr>)"
| release_weak: "0 < weak_handles w \<Longrightarrow> weak_destroy True (global_of w) = Ret g \<Longrightarrow>
    reactor_step careful w (with_global g w\<lparr>weak_handles := weak_handles w - 1\<rparr>)"

inductive reactor_reachable :: "bool \<Rightarrow> reactor_world \<Rightarrow> bool" for careful where
  reach_idle: "reactor_reachable careful reactor_idle"
| reach_step: "reactor_reachable careful w \<Longrightarrow> reactor_step careful w w' \<Longrightarrow> reactor_reachable careful w'"

definition refs_inv :: "reactor_world \<Rightarrow> bool" where
  "refs_inv w \<longleftrightarrow> reactor_refs w = int (shared_handles w) + int (weak_handles w)"

definition running_inv :: "reactor_world \<Rightarrow> bool" where
  "running_inv w \<longleftrightarrow> reactor_running w = (reactor_refs w > 0 \<or> stopping w > 0) \<and>
     (stopping w > 0 \<longrightarrow> reactor_refs w = 0 \<and> stopping w = 1)"

lemmas handle_defs = shared_get_def shared_release_def reactor_stop_def weak_get_def weak_destroy_def
  global_of_def with_global_def sk_check_eq_Ret

lemma refs_inv_step: "reactor_step careful w w' \<Longrightarrow> refs_inv w \<Longrightarrow> refs_inv w'"
  by (cases rule: reactor_step.cases)
    (auto simp: refs_inv_def handle_defs Let_def split: if_splits sum.splits)

lemma running_inv_step:
  assumes "reactor_step True w w'" "refs_inv w" "running_inv w"
  shows "running_inv w'"
  using assms
  by (cases rule: reactor_step.cases)
    (auto simp: refs_inv_def running_inv_def handle_defs Let_def split: if_splits sum.splits)

lemma reachable_refs: "reactor_reachable careful w \<Longrightarrow> refs_inv w"
  by (induction rule: reactor_reachable.induct) (auto simp: refs_inv_def reactor_idle_def dest: refs_inv_step)

lemma reachable_running: "reactor_reachable True w \<Longrightarrow> running_inv w"
proof (induction rule: reactor_reachable.induct)
  case reach_idle
  show ?case by (simp add: running_inv_def reactor_idle_def)
next
  case (reach_step w w')
  then show ?case using running_inv_step reachable_refs by blast
qed

subsection \<open>Properties\<close>

definition one_reader :: reactor_world where
  "one_reader = \<lparr>reactor_refs = 1, reactor_running = True, shared_handles = 1, weak_handles = 0, stopping = 0\<rparr>"

lemma one_reader_reachable: "reactor_reachable careful one_reader"
proof -
  have "reactor_step careful reactor_idle one_reader"
    using get_ok [of careful reactor_idle "Inr ()" True "\<lparr>reactor_refs = 1, reactor_running = True\<rparr>"]
    by (simp add: reactor_idle_def one_reader_def handle_defs)
  then show ?thesis by (meson reach_idle reach_step)
qed

text \<open>C13: In every reachable state of a program the counter is the number of valid handles. When no
  thread takes a shared handle during a shutdown, the reactor runs exactly while a handle exists or
  the last one is being destroyed, so that every handle that can be dereferenced leads to a running
  reactor, and a weak handle that is destroyed while a shared handle exists never fails its check.
  One that outlives the shared handles does.\<close>

theorem reactor_handles_sound:
  assumes "reactor_reachable True w"
  shows "reactor_refs w = int (shared_handles w + weak_handles w) \<and>
    (reactor_running w \<longleftrightarrow> 0 < shared_handles w + weak_handles w \<or> 0 < stopping w) \<and>
    (0 < shared_handles w \<longrightarrow> (\<exists>g. weak_get (global_of w) = Ret (True, g) \<and> weak_destroy True g = Ret (global_of w))) \<and>
    (shared_handles w = 0 \<and> weak_handles w = 1 \<longrightarrow>
       weak_destroy True (global_of w) = Abort ''weak_reactor_handle: lifetime error'')"
  using reachable_refs [OF assms] reachable_running [OF assms]
  by (auto simp: refs_inv_def running_inv_def handle_defs sk_check_def Let_def)

theorem reactor_handles_sound_witness:
  "reactor_refs one_reader = int (shared_handles one_reader + weak_handles one_reader)"
  using reactor_handles_sound [OF one_reader_reachable] by blast

text \<open>Without that care a shared handle can lead to a reactor that was stopped: a thread that
  destroys the last handle has decremented the counter when another thread takes a new handle, which
  starts the reactor; the first thread then stops the reactor the second one has just started.\<close>

theorem reactor_handle_race:
  "\<exists>w. reactor_reachable False w \<and> shared_handles w = 1 \<and> stopping w = 0 \<and> \<not> reactor_running w \<and>
     handle_deref True = Ret ()"
proof -
  define w1 where "w1 = one_reader\<lparr>reactor_refs := 0, shared_handles := 0, stopping := 1\<rparr>"
  define w2 where "w2 = one_reader\<lparr>stopping := 1\<rparr>"
  define w3 where "w3 = one_reader\<lparr>reactor_running := False\<rparr>"
  have "reactor_step False one_reader w1"
    using release [of one_reader True "\<lparr>reactor_refs = 0, reactor_running = True\<rparr>" False]
    by (simp add: w1_def one_reader_def handle_defs)
  moreover have "reactor_step False w1 w2"
    using get_ok [of False w1 "Inr ()" True "\<lparr>reactor_refs = 1, reactor_running = True\<rparr>"]
    by (simp add: w1_def w2_def one_reader_def handle_defs)
  moreover have "reactor_step False w2 w3"
    using stop [of w2 False] by (simp add: w2_def w3_def one_reader_def handle_defs)
  ultimately have "reactor_reachable False w3" by (meson reach_step one_reader_reachable)
  then show ?thesis by (intro exI [of _ w3]) (simp add: w3_def one_reader_def handle_deref_def)
qed

end
