(* ===== verification/Epoll_Reactor.thy ===== *)
theory Epoll_Reactor
  imports Posix_Api Executor Reactor
begin

text \<open>
  The socket part of \<^verbatim>\<open>src/src/include/sk/posix/detail/epoll_reactor.hxx\<close>: the table of descriptor
  states, the registration of waiting coroutines, the thread that dispatches events, and the socket
  operations, which try a call and wait for readiness when it would block.

  A coroutine is a value of \<open>'c\<close>, an executor a value of \<open>'x\<close>. The table is changed under its mutex
  only, so that every operation on it is one step. \<^verbatim>\<open>assert\<close> is modelled as in a build that has it: it
  ends the program. The socket calls of the system are the record \<open>sockets\<close>, a parameter.
\<close>

unbundle bit_operations_syntax

section \<open>The epoll reactor\<close>

datatype epoll_op = EPOLL_CTL_ADD | EPOLL_CTL_MOD | EPOLL_CTL_DEL

definition EPOLLIN :: "32 word" where "EPOLLIN = 0x1"
definition EPOLLOUT :: "32 word" where "EPOLLOUT = 0x4"
definition EPOLLERR :: "32 word" where "EPOLLERR = 0x8"
definition EPOLLHUP :: "32 word" where "EPOLLHUP = 0x10"
definition EPOLLONESHOT :: "32 word" where "EPOLLONESHOT = 0x40000000"
definition EPOLLET :: "32 word" where "EPOLLET = 0x80000000"
definition O_NONBLOCK :: "32 word" where "O_NONBLOCK = 0x800"
definition EWOULDBLOCK :: int where "EWOULDBLOCK = 11"

text \<open>\<open>net_os\<close> are the calls on files. \<open>sys_thread\<close> creates the thread or gives the error of the exception.
  \<open>sys_socket\<close> gets the address family; type and protocol are those of the channel class. Addresses
  are the bytes of the \<^verbatim>\<open>sockaddr\<close>.\<close>

record 'w sockets =
  net_os :: "'w posix"
  sys_pipe :: "'w \<Rightarrow> (int \<times> int \<times> int) \<times> 'w"
  sys_epoll_create :: "'w \<Rightarrow> int \<times> 'w"
  sys_epoll_ctl :: "int \<Rightarrow> epoll_op \<Rightarrow> int \<Rightarrow> 32 word option \<Rightarrow> 'w \<Rightarrow> int \<times> 'w"
  sys_getfl :: "int \<Rightarrow> 'w \<Rightarrow> 32 word \<times> 'w"
  sys_setfl :: "int \<Rightarrow> 32 word \<Rightarrow> 'w \<Rightarrow> 'w"
  sys_thread :: "'w \<Rightarrow> error_code option \<times> 'w"
  sys_join :: "'w \<Rightarrow> 'w"
  sys_recv :: "int \<Rightarrow> nat \<Rightarrow> int \<Rightarrow> 'w \<Rightarrow> (int \<times> byte list) \<times> 'w"
  sys_send :: "int \<Rightarrow> byte list \<Rightarrow> int \<Rightarrow> 'w \<Rightarrow> int \<times> 'w"
  sys_connect :: "int \<Rightarrow> byte list \<Rightarrow> 'w \<Rightarrow> int \<times> 'w"
  sys_accept :: "int \<Rightarrow> 'w \<Rightarrow> int \<times> 'w"
  sys_socket :: "nat \<Rightarrow> 'w \<Rightarrow> int \<times> 'w"
  sys_reuseaddr :: "int \<Rightarrow> 'w \<Rightarrow> int \<times> 'w"
  sys_bind :: "int \<Rightarrow> byte list \<Rightarrow> 'w \<Rightarrow> int \<times> 'w"
  sys_listen :: "int \<Rightarrow> 'w \<Rightarrow> int \<times> 'w"

abbreviation net_errno :: "'w sockets \<Rightarrow> 'w \<Rightarrow> error_code" where
  "net_errno os w \<equiv> get_errno (net_os os) w"

subsection \<open>State\<close>

record ('x, 'c) epoll_coro_state =
  coro_handle :: 'c
  task_executor :: 'x

record ('x, 'c) fd_state =
  fs_fd :: int
  fs_events :: "32 word"
  read_waiter :: "('x, 'c) epoll_coro_state option"
  write_waiter :: "('x, 'c) epoll_coro_state option"

definition fd_state_new :: "int \<Rightarrow> ('x, 'c) fd_state" where
  "fd_state_new fd = \<lparr>fs_fd = fd, fs_events = EPOLLET OR EPOLLONESHOT, read_waiter = None, write_waiter = None\<rparr>"

type_synonym ('x, 'c) fd_table = "('x, 'c) fd_state option list"

record ('x, 'c) epoll_reactor =
  epoll_fd :: unique_fd
  fd_states :: "('x, 'c) fd_table"
  epoll_thread :: bool
  shutdown_pipe :: "int \<times> int"

definition epoll_reactor_new :: "('x, 'c) epoll_reactor" where
  "epoll_reactor_new = \<lparr>epoll_fd = unique_fd_empty, fd_states = [], epoll_thread = False, shutdown_pipe = (- 1, - 1)\<rparr>"

subsection \<open>Starting and stopping\<close>

definition epoll_start ::
  "'w sockets \<Rightarrow> ('x, 'c) epoll_reactor \<Rightarrow> 'w \<Rightarrow> (error_code + unit) \<times> ('x, 'c) epoll_reactor \<times> 'w" where
  "epoll_start os r w =
     (let ((ret, p0, p1), w) = sys_pipe os w
      in if ret = - 1 then (Inl (net_errno os w), r, w)
      else let r = r\<lparr>shutdown_pipe := (p0, p1)\<rparr>; (ep, w) = sys_epoll_create os w
      in if ep = - 1 then (Inl (net_errno os w), r, w)
      else let (ret, w) = sys_epoll_ctl os ep EPOLL_CTL_ADD p0 (Some (EPOLLET OR EPOLLONESHOT OR EPOLLIN)) w
      in if ret = - 1 then (Inl (net_errno os w), r, w)
      else let (u, w) = unique_fd_assign (net_os os) (epoll_fd r) ep w; r = r\<lparr>epoll_fd := u\<rparr>
      in case sys_thread os w of
           (Some e, w) \<Rightarrow> (Inl e, r, snd (unique_fd_close (net_os os) (epoll_fd r) w))
         | (None, w) \<Rightarrow> (Inr (), r\<lparr>epoll_thread := True\<rparr>, w))"

definition epoll_stop :: "'w sockets \<Rightarrow> ('x, 'c) epoll_reactor \<Rightarrow> 'w \<Rightarrow> (('x, 'c) epoll_reactor \<times> 'w) run" where
  "epoll_stop os r w =
     bind_run
       (if unique_fd_bool (epoll_fd r) then
          let (ret, w) = sys_write (net_os os) (snd (shutdown_pipe r)) [0] w
          in sk_check (ret = 1) ''epoll_reactor::stop: shutdown write failed'' (
               Ret (snd (unique_fd_close (net_os os) (epoll_fd r) w)))
        else Ret w)
       (\<lambda>w. Ret (if epoll_thread r then (r\<lparr>epoll_thread := False\<rparr>, sys_join os w) else (r, w)))"

subsection \<open>The table of descriptors\<close>

text \<open>The entry of a descriptor; to use one that is out of range or empty is undefined, and ends the
  model's run.\<close>

definition fd_lookup :: "int \<Rightarrow> ('x, 'c) fd_table \<Rightarrow> ('x, 'c) fd_state option" where
  "fd_lookup fd st = (if 0 \<le> fd \<and> nat fd < length st then st ! nat fd else None)"

definition fd_store :: "int \<Rightarrow> ('x, 'c) fd_state option \<Rightarrow> ('x, 'c) fd_table \<Rightarrow> ('x, 'c) fd_table" where
  "fd_store fd s st = st[nat fd := s]"

definition associate_state :: "int \<Rightarrow> ('x, 'c) fd_table \<Rightarrow> ('x, 'c) fd_table" where
  "associate_state fd st =
     (let st = (if length st \<le> nat fd then st @ replicate (nat fd + 1 - length st) None else st);
          s = (case fd_lookup fd st of None \<Rightarrow> fd_state_new fd | Some s \<Rightarrow> s)
      in fd_store fd (Some (s\<lparr>fs_events := EPOLLET OR EPOLLONESHOT\<rparr>)) st)"

definition associate_fd ::
  "'w sockets \<Rightarrow> ('x, 'c) epoll_reactor \<Rightarrow> int \<Rightarrow> 'w \<Rightarrow> ((error_code + unit) \<times> ('x, 'c) epoll_reactor \<times> 'w) run" where
  "associate_fd os r fd w =
     sk_check (fd \<ge> 0) ''attempt to associate a negative fd'' (
     let r = r\<lparr>fd_states := associate_state fd (fd_states r)\<rparr>;
         (flags, w) = sys_getfl os fd w;
         w = sys_setfl os fd (flags OR O_NONBLOCK) w
     in bind_run (unique_fd_value (epoll_fd r)) (\<lambda>ep.
          let (ret, w) = sys_epoll_ctl os ep EPOLL_CTL_ADD fd (map_option fs_events (fd_lookup fd (fd_states r))) w
          in Ret (if ret = - 1 then Inl (net_errno os w) else Inr (), r, w)))"

definition deassociate_fd ::
  "'w sockets \<Rightarrow> ('x, 'c) epoll_reactor \<Rightarrow> int \<Rightarrow> 'w \<Rightarrow> (('x, 'c) epoll_reactor \<times> 'w) run" where
  "deassociate_fd os r fd w =
     sk_check (fd \<ge> 0) ''attempt to deassociate a negative fd'' (
     bind_run (unique_fd_value (epoll_fd r)) (\<lambda>ep.
       let (ret, w) = sys_epoll_ctl os ep EPOLL_CTL_DEL fd None w
       in sk_check (ret = 0) ''epoll_reactor::deassociate_fd: EPOLL_CTL_DEL failed'' (
          sk_check (nat fd < length (fd_states r)) ''out of range'' (
            Ret (r\<lparr>fd_states := fd_store fd None (fd_states r)\<rparr>, w)))))"

text \<open>Both registrations, with the conditions of the code: the one for writing, too, registers
  \<^verbatim>\<open>EPOLLIN\<close>.\<close>

definition register_interest ::
  "(('x, 'c) epoll_coro_state option \<Rightarrow> ('x, 'c) fd_state \<Rightarrow> ('x, 'c) fd_state) \<Rightarrow> string \<Rightarrow>
   'w sockets \<Rightarrow> ('x, 'c) epoll_reactor \<Rightarrow> int \<Rightarrow> ('x, 'c) epoll_coro_state \<Rightarrow> 'w \<Rightarrow> (('x, 'c) epoll_reactor \<times> 'w) run" where
  "register_interest set_waiter failed os r fd cstate w =
     sk_check (fd \<ge> 0) ''attempt to register a negative fd'' (
     sk_check (length (fd_states r) > nat fd) ''assert'' (
     case fd_lookup fd (fd_states r) of
       None \<Rightarrow> Abort ''assert''
     | Some state \<Rightarrow>
         sk_check (write_waiter state = None) ''assert'' (
         sk_check (fs_events state AND EPOLLIN = 0) ''assert'' (
         let state = set_waiter (Some cstate) state\<lparr>fs_events := fs_events state OR EPOLLIN\<rparr>;
             r = r\<lparr>fd_states := fd_store fd (Some state) (fd_states r)\<rparr>
         in bind_run (unique_fd_value (epoll_fd r)) (\<lambda>ep.
              let (ret, w) = sys_epoll_ctl os ep EPOLL_CTL_MOD fd (Some (fs_events state)) w
              in sk_check (ret = 0) failed (Ret (r, w)))))))"

definition register_read_interest ::
  "'w sockets \<Rightarrow> ('x, 'c) epoll_reactor \<Rightarrow> int \<Rightarrow> ('x, 'c) epoll_coro_state \<Rightarrow> 'w \<Rightarrow> (('x, 'c) epoll_reactor \<times> 'w) run" where
  "register_read_interest = register_interest (\<lambda>c s. s\<lparr>read_waiter := c\<rparr>)
     ''epoll_reactor::register_read_interest: EPOLL_CTL_MOD failed''"

definition register_write_interest ::
  "'w sockets \<Rightarrow> ('x, 'c) epoll_reactor \<Rightarrow> int \<Rightarrow> ('x, 'c) epoll_coro_state \<Rightarrow> 'w \<Rightarrow> (('x, 'c) epoll_reactor \<times> 'w) run" where
  "register_write_interest = register_interest (\<lambda>c s. s\<lparr>write_waiter := c\<rparr>)
     ''epoll_reactor::register_write_interest: EPOLL_CTL_MOD failed''"

subsection \<open>The event thread\<close>

record epoll_event =
  event_fd :: int
  events :: "32 word"

text \<open>One event: the coroutines to post, with their executors, in order, and the new entry.\<close>

definition dispatch_read :: "32 word \<Rightarrow> ('x, 'c) fd_state \<Rightarrow> ('x \<times> 'c) list \<times> ('x, 'c) fd_state" where
  "dispatch_read ev state =
     (case read_waiter state of
        Some c \<Rightarrow> if ev AND EPOLLIN \<noteq> 0
          then ([(task_executor c, coro_handle c)],
            state\<lparr>read_waiter := None, fs_events := fs_events state AND NOT EPOLLIN\<rparr>)
          else ([], state)
      | None \<Rightarrow> ([], state))"

definition dispatch_write :: "32 word \<Rightarrow> ('x, 'c) fd_state \<Rightarrow> ('x \<times> 'c) list \<times> ('x, 'c) fd_state" where
  "dispatch_write ev state =
     (case write_waiter state of
        Some c \<Rightarrow> if ev AND EPOLLOUT \<noteq> 0
          then ([(task_executor c, coro_handle c)],
            state\<lparr>write_waiter := None, fs_events := fs_events state AND NOT EPOLLOUT\<rparr>)
          else ([], state)
      | None \<Rightarrow> ([], state))"

text \<open>The loop over the events of one \<^verbatim>\<open>epoll_wait\<close>. The first component of the result says whether the
  thread goes on; the shutdown pipe ends it at once, with the events after it unseen. A descriptor
  without an entry is a null pointer that is dereferenced when the event has a bit that is looked
  at.\<close>

fun dispatch_events ::
  "int \<Rightarrow> epoll_event list \<Rightarrow> ('x, 'c) fd_table \<Rightarrow> (bool \<times> ('x \<times> 'c) list \<times> ('x, 'c) fd_table) run" where
  "dispatch_events shutdown [] st = Ret (True, [], st)"
| "dispatch_events shutdown (e # es) st =
     (if event_fd e = shutdown then Ret (False, [], st)
      else if \<not> (0 \<le> event_fd e \<and> nat (event_fd e) < length st) then Abort ''out of range''
      else case st ! nat (event_fd e) of
        None \<Rightarrow> if events e AND EPOLLIN = 0 \<and> events e AND EPOLLOUT = 0 then dispatch_events shutdown es st
                else Abort ''null pointer''
      | Some state \<Rightarrow>
          (let (ps, state) = dispatch_read (events e) state; (qs, state) = dispatch_write (events e) state
           in bind_run (dispatch_events shutdown es (fd_store (event_fd e) (Some state) st))
                (\<lambda>(go, rs, st). Ret (go, ps @ qs @ rs, st))))"

text \<open>The loop of the thread over the results of \<^verbatim>\<open>epoll_wait\<close>, where \<open>None\<close> is a failure and the list ends
  where the model's run does; other threads are idle in between.\<close>

fun epoll_thread_fn ::
  "int \<Rightarrow> epoll_event list option list \<Rightarrow> ('x, 'c) fd_table \<Rightarrow> (('x \<times> 'c) list \<times> ('x, 'c) fd_table) run" where
  "epoll_thread_fn shutdown [] st = Ret ([], st)"
| "epoll_thread_fn shutdown (None # bs) st = Ret ([], st)"
| "epoll_thread_fn shutdown (Some es # bs) st =
     bind_run (dispatch_events shutdown es st) (\<lambda>(go, ps, st).
       if go then bind_run (epoll_thread_fn shutdown bs st) (\<lambda>(qs, st). Ret (ps @ qs, st)) else Ret (ps, st))"

subsection \<open>Socket operations\<close>

text \<open>\<open>co\<close> is the executor of the awaiting coroutine, if it has one, and its handle.\<close>

definition await_readable ::
  "'w sockets \<Rightarrow> 'x option \<times> 'c \<Rightarrow> ('x, 'c) epoll_reactor \<Rightarrow> int \<Rightarrow> 'w \<Rightarrow> (('x, 'c) epoll_reactor \<times> 'w) run" where
  "await_readable os co r fd w =
     (case fst co of
        None \<Rightarrow> Abort ''attempt to suspend with no executor''
      | Some x \<Rightarrow> register_read_interest os r fd \<lparr>coro_handle = snd co, task_executor = x\<rparr> w)"

definition await_writable ::
  "'w sockets \<Rightarrow> 'x option \<times> 'c \<Rightarrow> ('x, 'c) epoll_reactor \<Rightarrow> int \<Rightarrow> 'w \<Rightarrow> (('x, 'c) epoll_reactor \<times> 'w) run" where
  "await_writable os co r fd w =
     (case fst co of
        None \<Rightarrow> Abort ''attempt to suspend with no executor''
      | Some x \<Rightarrow> register_write_interest os r fd \<lparr>coro_handle = snd co, task_executor = x\<rparr> w)"

text \<open>\<open>env\<close> is what the rest of the program and the system do while the coroutine is suspended; the loops
  get fuel, and \<open>Diverge\<close> is a loop that has not ended.\<close>

type_synonym ('w, 'x, 'c) surroundings = "('x, 'c) epoll_reactor \<times> 'w \<Rightarrow> ('x, 'c) epoll_reactor \<times> 'w"

fun async_fd_recv ::
  "'w sockets \<Rightarrow> ('w, 'x, 'c) surroundings \<Rightarrow> 'x option \<times> 'c \<Rightarrow> nat \<Rightarrow> int \<Rightarrow> nat \<Rightarrow> int \<Rightarrow> ('x, 'c) epoll_reactor \<times> 'w \<Rightarrow>
   ((error_code + int \<times> byte list) \<times> ('x, 'c) epoll_reactor \<times> 'w) run" where
  "async_fd_recv os env co 0 fd n flags (r, w) = Diverge"
| "async_fd_recv os env co (Suc fuel) fd n flags (r, w) =
     (let ((ret, buf), w) = sys_recv os fd n flags w
      in if ret \<noteq> - 1 then Ret (Inr (ret, buf), r, w)
      else if sys_errno (net_os os) w \<noteq> EWOULDBLOCK then Ret (Inl (net_errno os w), r, w)
      else bind_run (await_readable os co r fd w) (\<lambda>s. async_fd_recv os env co fuel fd n flags (env s)))"

fun async_fd_send ::
  "'w sockets \<Rightarrow> ('w, 'x, 'c) surroundings \<Rightarrow> 'x option \<times> 'c \<Rightarrow> nat \<Rightarrow> int \<Rightarrow> byte list \<Rightarrow> int \<Rightarrow> ('x, 'c) epoll_reactor \<times> 'w \<Rightarrow>
   ((error_code + int) \<times> ('x, 'c) epoll_reactor \<times> 'w) run" where
  "async_fd_send os env co 0 fd buf flags (r, w) = Diverge"
| "async_fd_send os env co (Suc fuel) fd buf flags (r, w) =
     (let (ret, w) = sys_send os fd buf flags w
      in if ret \<noteq> - 1 then Ret (Inr ret, r, w)
      else if sys_errno (net_os os) w \<noteq> EWOULDBLOCK then Ret (Inl (net_errno os w), r, w)
      else bind_run (await_writable os co r fd w) (\<lambda>s. async_fd_send os env co fuel fd buf flags (env s)))"

definition async_fd_connect ::
  "'w sockets \<Rightarrow> ('w, 'x, 'c) surroundings \<Rightarrow> 'x option \<times> 'c \<Rightarrow> int \<Rightarrow> byte list \<Rightarrow> ('x, 'c) epoll_reactor \<times> 'w \<Rightarrow>
   ((error_code + unit) \<times> ('x, 'c) epoll_reactor \<times> 'w) run" where
  "async_fd_connect os env co fd sa = (\<lambda>(r, w).
     let (ret, w) = sys_connect os fd sa w
     in if ret = 0 then Ret (Inr (), r, w)
     else if sys_errno (net_os os) w \<noteq> EWOULDBLOCK then Ret (Inl (net_errno os w), r, w)
     else bind_run (await_writable os co r fd w) (\<lambda>s. Ret (Inr (), env s)))"

fun async_fd_accept ::
  "'w sockets \<Rightarrow> ('w, 'x, 'c) surroundings \<Rightarrow> 'x option \<times> 'c \<Rightarrow> nat \<Rightarrow> int \<Rightarrow> ('x, 'c) epoll_reactor \<times> 'w \<Rightarrow>
   ((error_code + int) \<times> ('x, 'c) epoll_reactor \<times> 'w) run" where
  "async_fd_accept os env co 0 fd (r, w) = Diverge"
| "async_fd_accept os env co (Suc fuel) fd (r, w) =
     (let (ret, w) = sys_accept os fd w
      in if ret \<noteq> - 1 then Ret (Inr ret, r, w)
      else if sys_errno (net_os os) w \<noteq> EWOULDBLOCK then Ret (Inl (net_errno os w), r, w)
      else bind_run (await_readable os co r fd w) (\<lambda>s. async_fd_accept os env co fuel fd (env s)))"

subsection \<open>The table is well formed\<close>

text \<open>Every entry is at the index of its descriptor, and is interested in input at most.\<close>

definition table_wf :: "('x, 'c) fd_table \<Rightarrow> bool" where
  "table_wf st \<longleftrightarrow> (\<forall>i < length st. \<forall>s. st ! i = Some s \<longrightarrow>
     fs_fd s = int i \<and> fs_events s AND NOT EPOLLIN = EPOLLET OR EPOLLONESHOT)"

lemmas event_defs = EPOLLIN_def EPOLLOUT_def EPOLLERR_def EPOLLHUP_def EPOLLONESHOT_def EPOLLET_def

lemma plain_events:
  "(EPOLLET OR EPOLLONESHOT) AND NOT EPOLLIN = EPOLLET OR EPOLLONESHOT"
  "(EPOLLET OR EPOLLONESHOT) AND NOT EPOLLOUT = EPOLLET OR EPOLLONESHOT"
  by (simp_all add: event_defs)

lemma fd_lookup_Some:
  "fd_lookup fd st = Some s \<longleftrightarrow> 0 \<le> fd \<and> nat fd < length st \<and> st ! nat fd = Some s"
  by (auto simp: fd_lookup_def)

lemma table_wf_store:
  assumes "table_wf st" "0 \<le> fd"
    "\<And>s'. s = Some s' \<Longrightarrow> fs_fd s' = fd \<and> fs_events s' AND NOT EPOLLIN = EPOLLET OR EPOLLONESHOT"
  shows "table_wf (fd_store fd s st)"
  using assms
  by (cases "nat fd < length st") (auto simp: table_wf_def fd_store_def nth_list_update split: if_splits)

lemma table_wf_lookup:
  assumes "table_wf st" "fd_lookup fd st = Some s"
  shows "fs_fd s = fd" "fs_events s AND NOT EPOLLIN = EPOLLET OR EPOLLONESHOT"
  using assms by (auto simp: table_wf_def fd_lookup_Some)

lemma table_wf_associate:
  assumes "table_wf st" "0 \<le> fd"
  shows "table_wf (associate_state fd st)"
proof -
  define st' where "st' = (if length st \<le> nat fd then st @ replicate (nat fd + 1 - length st) None else st)"
  have wf: "table_wf st'" using assms(1) by (auto simp: st'_def table_wf_def nth_append)
  show ?thesis unfolding associate_state_def Let_def st'_def [symmetric]
    by (intro table_wf_store [OF wf assms(2)])
      (auto simp: fd_state_new_def plain_events dest: table_wf_lookup(1) [OF wf] split: option.splits)
qed

lemma register_interest_Ret:
  assumes "register_interest f m os r fd c w = Ret (r', w')"
  obtains s where "fd_lookup fd (fd_states r) = Some s" "write_waiter s = None" "fs_events s AND EPOLLIN = 0"
    "r' = r\<lparr>fd_states := fd_store fd (Some (f (Some c) s\<lparr>fs_events := fs_events s OR EPOLLIN\<rparr>)) (fd_states r)\<rparr>"
  using assms
  by (auto simp: register_interest_def run_simps Let_def case_prod_beta split: option.splits)

lemma dispatch_entry:
  assumes "dispatch_read ev s = (ps, s1)" "dispatch_write ev s1 = (qs, s2)"
    "fs_events s AND NOT EPOLLIN = EPOLLET OR EPOLLONESHOT"
  shows "fs_fd s2 = fs_fd s" "fs_events s2 AND NOT EPOLLIN = EPOLLET OR EPOLLONESHOT"
proof -
  have out: "(x AND NOT EPOLLOUT) AND NOT EPOLLIN = (x AND NOT EPOLLIN) AND NOT EPOLLOUT"
    "(x AND NOT EPOLLIN) AND NOT EPOLLIN = x AND NOT EPOLLIN" for x :: "32 word"
    by (simp_all add: ac_simps)
  show "fs_fd s2 = fs_fd s" "fs_events s2 AND NOT EPOLLIN = EPOLLET OR EPOLLONESHOT" using assms
    by (auto simp: dispatch_read_def dispatch_write_def out plain_events split: option.splits if_splits)
qed

lemma dispatch_Cons:
  assumes "dispatch_events sh (e # es) st = Ret (go, ps, st')"
  obtains (stop) "event_fd e = sh" "go = False" "ps = []" "st' = st"
  | (skip) "dispatch_events sh es st = Ret (go, ps, st')" "fd_lookup (event_fd e) st = None"
  | (entry) s s1 s2 qs rs ts where "fd_lookup (event_fd e) st = Some s"
      "dispatch_read (events e) s = (qs, s1)" "dispatch_write (events e) s1 = (rs, s2)"
      "dispatch_events sh es (fd_store (event_fd e) (Some s2) st) = Ret (go, ts, st')" "ps = qs @ rs @ ts"
proof (cases "event_fd e = sh")
  case True
  then show thesis using assms stop by simp
next
  case False
  then have rng: "0 \<le> event_fd e" "nat (event_fd e) < length st" using assms by (auto split: if_splits)
  show thesis
  proof (cases "st ! nat (event_fd e)")
    case None
    then show thesis using assms False rng skip by (auto simp: fd_lookup_def split: if_splits)
  next
    case (Some s)
    obtain qs s1 where d1: "dispatch_read (events e) s = (qs, s1)" by fastforce
    obtain rs s2 where d2: "dispatch_write (events e) s1 = (rs, s2)" by fastforce
    show thesis using assms False rng Some d1 d2 by (auto simp: run_simps fd_lookup_Some intro: entry)
  qed
qed

lemma table_wf_dispatch:
  assumes "dispatch_events sh es st = Ret (go, ps, st')" "table_wf st"
  shows "table_wf st'"
  using assms
proof (induction es arbitrary: st ps)
  case (Cons e es)
  from Cons.prems(1) show ?case
  proof (cases rule: dispatch_Cons)
    case (entry s s1 s2 qs rs ts)
    note wf = table_wf_lookup [OF Cons.prems(2) entry(1)]
    have "table_wf (fd_store (event_fd e) (Some s2) st)"
      using dispatch_entry [OF entry(2,3) wf(2)] wf(1) entry(1)
      by (intro table_wf_store [OF Cons.prems(2)]) (auto simp: fd_lookup_Some)
    then show ?thesis using Cons.IH entry(4) by blast
  qed (use Cons in auto)
qed simp

subsection \<open>Coroutines are resumed at most once\<close>

abbreviation resumption :: "('x, 'c) epoll_coro_state \<Rightarrow> 'x \<times> 'c" where
  "resumption c \<equiv> (task_executor c, coro_handle c)"

definition waiter :: "('x, 'c) epoll_coro_state option \<Rightarrow> ('x \<times> 'c) multiset" where
  "waiter c = (case c of None \<Rightarrow> {#} | Some c \<Rightarrow> {#resumption c#})"

definition waiters :: "('x, 'c) fd_state option \<Rightarrow> ('x \<times> 'c) multiset" where
  "waiters s = (case s of None \<Rightarrow> {#} | Some s \<Rightarrow> waiter (read_waiter s) + waiter (write_waiter s))"

definition waiting :: "('x, 'c) fd_table \<Rightarrow> ('x \<times> 'c) multiset" where
  "waiting st = sum_list (map waiters st)"

lemma waiters_None [simp]: "waiters None = {#}"
  by (simp add: waiters_def)

lemma waiting_store:
  assumes "nat fd < length st"
  shows "waiting (fd_store fd s st) + waiters (st ! nat fd) = waiting st + waiters s"
  unfolding waiting_def fd_store_def by (rule sum_list_map_update [OF assms])

lemma waiting_associate:
  fixes st :: "('a, 'b) fd_table"
  assumes "0 \<le> fd"
  shows "waiting (associate_state fd st) = waiting st"
proof -
  define st' where "st' = (if length st \<le> nat fd then st @ replicate (nat fd + 1 - length st) None else st)"
  define s where "s = (case fd_lookup fd st' of None \<Rightarrow> fd_state_new fd | Some s \<Rightarrow> s)"
  have len: "nat fd < length st'" by (simp add: st'_def)
  have "sum_list (replicate n {#}) = ({#} :: ('a \<times> 'b) multiset)" for n by (induction n) simp_all
  then have "waiting st' = waiting st" by (simp add: st'_def waiting_def waiters_def)
  moreover have "waiters (Some (s\<lparr>fs_events := EPOLLET OR EPOLLONESHOT\<rparr>)) = waiters (st' ! nat fd)"
    using assms len by (auto simp: s_def fd_lookup_def waiters_def fd_state_new_def waiter_def split: option.splits)
  moreover have "associate_state fd st = fd_store fd (Some (s\<lparr>fs_events := EPOLLET OR EPOLLONESHOT\<rparr>)) st'"
    by (simp add: associate_state_def Let_def s_def st'_def)
  ultimately show ?thesis using waiting_store [OF len, of "Some (s\<lparr>fs_events := EPOLLET OR EPOLLONESHOT\<rparr>)"] by simp
qed

lemma waiting_dispatch:
  assumes "dispatch_events sh es st = Ret (go, ps, st')"
  shows "mset ps + waiting st' = waiting st"
  using assms
proof (induction es arbitrary: st ps)
  case (Cons e es)
  from Cons.prems show ?case
  proof (cases rule: dispatch_Cons)
    case (entry s s1 s2 qs rs ts)
    have "waiters (Some s) = mset qs + (mset rs + waiters (Some s2))" using entry(2,3)
      by (auto simp: dispatch_read_def dispatch_write_def waiters_def waiter_def split: option.splits if_splits)
    then have "mset qs + (mset rs + waiting (fd_store (event_fd e) (Some s2) st)) = waiting st"
      using waiting_store [of "event_fd e" st "Some s2"] entry(1) by (simp add: fd_lookup_Some ac_simps)
    then show ?thesis using Cons.IH [OF entry(4)] entry(5) by (metis mset_append add.assoc)
  qed (use Cons in auto)
qed simp

text \<open>The life of a reactor: the operations on its table in any order, each at any state of the system.
  \<open>A\<close> are the coroutines that were registered, \<open>B\<close> those that were posted to their executors.\<close>

inductive epoll_run ::
  "'w sockets \<Rightarrow> ('x, 'c) epoll_reactor \<Rightarrow> ('x \<times> 'c) multiset \<Rightarrow> ('x \<times> 'c) multiset \<Rightarrow> bool" for os where
  run_new: "fd_states r = [] \<Longrightarrow> epoll_run os r {#} {#}"
| run_associate: "epoll_run os r A B \<Longrightarrow> associate_fd os r fd w = Ret (res, r', w') \<Longrightarrow> epoll_run os r' A B"
| run_deassociate: "epoll_run os r A B \<Longrightarrow> deassociate_fd os r fd w = Ret (r', w') \<Longrightarrow> epoll_run os r' A B"
| run_read: "epoll_run os r A B \<Longrightarrow> register_read_interest os r fd c w = Ret (r', w') \<Longrightarrow>
    epoll_run os r' (add_mset (resumption c) A) B"
| run_write: "epoll_run os r A B \<Longrightarrow> register_write_interest os r fd c w = Ret (r', w') \<Longrightarrow>
    epoll_run os r' (add_mset (resumption c) A) B"
| run_events: "epoll_run os r A B \<Longrightarrow>
    dispatch_events (fst (shutdown_pipe r)) es (fd_states r) = Ret (go, ps, st) \<Longrightarrow>
    epoll_run os (r\<lparr>fd_states := st\<rparr>) A (B + mset ps)"

lemma associate_fd_Ret:
  "associate_fd os r fd w = Ret (res, r', w') \<Longrightarrow> 0 \<le> fd \<and> fd_states r' = associate_state fd (fd_states r)"
  by (auto simp: associate_fd_def run_simps Let_def case_prod_beta)

lemma deassociate_fd_Ret:
  "deassociate_fd os r fd w = Ret (r', w') \<Longrightarrow>
    0 \<le> fd \<and> nat fd < length (fd_states r) \<and> fd_states r' = fd_store fd None (fd_states r)"
  by (auto simp: deassociate_fd_def run_simps Let_def case_prod_beta)

lemma register_wf:
  assumes "register_interest f m os r fd c w = Ret (r', w')" "table_wf (fd_states r)"
    "\<And>c s. fs_fd (f c s) = fs_fd s" 
  shows "table_wf (fd_states r')"
proof -
  from assms(1) obtain s where s: "fd_lookup fd (fd_states r) = Some s"
    "r' = r\<lparr>fd_states := fd_store fd (Some (f (Some c) s\<lparr>fs_events := fs_events s OR EPOLLIN\<rparr>)) (fd_states r)\<rparr>"
    by (rule register_interest_Ret)
  have m: "(x OR EPOLLIN) AND NOT EPOLLIN = x AND NOT EPOLLIN" for x :: "32 word"
    by (auto simp: bit_eq_iff bit_simps)
  show ?thesis using s table_wf_lookup [OF assms(2) s(1)] m
    by (auto simp: fd_lookup_Some assms(3) intro!: table_wf_store [OF assms(2)])
qed

lemma register_waiting:
  assumes "register_interest f m os r fd c w = Ret (r', w')"
    "\<And>s. waiters (Some (f (Some c) s)) \<subseteq># add_mset (resumption c) (waiters (Some s))"
    "\<And>s e. waiters (Some (f (Some c) s\<lparr>fs_events := e\<rparr>)) = waiters (Some (f (Some c) s))"
  shows "waiting (fd_states r') \<subseteq># add_mset (resumption c) (waiting (fd_states r))"
proof -
  from assms(1) obtain s where s: "fd_lookup fd (fd_states r) = Some s"
    "r' = r\<lparr>fd_states := fd_store fd (Some (f (Some c) s\<lparr>fs_events := fs_events s OR EPOLLIN\<rparr>)) (fd_states r)\<rparr>"
    by (rule register_interest_Ret)
  have len: "nat fd < length (fd_states r)" "fd_states r ! nat fd = Some s" using s(1) by (auto simp: fd_lookup_Some)
  have "waiting (fd_states r') + waiters (Some s) = waiting (fd_states r) + waiters (Some (f (Some c) s))"
    using waiting_store [OF len(1), of "Some (f (Some c) s\<lparr>fs_events := fs_events s OR EPOLLIN\<rparr>)"] s(2) len(2) assms(3)
    by simp
  also have "\<dots> \<subseteq># add_mset (resumption c) (waiting (fd_states r)) + waiters (Some s)"
    using assms(2) [of s] by (metis union_mset_add_mset_left union_mset_add_mset_right subset_mset.add_left_mono)
  finally show ?thesis by simp
qed

lemma register_waiters:
  "waiters (Some (s\<lparr>read_waiter := Some c\<rparr>)) \<subseteq># add_mset (resumption c) (waiters (Some s))"
  "waiters (Some (s\<lparr>write_waiter := Some c\<rparr>)) \<subseteq># add_mset (resumption c) (waiters (Some s))"
  by (auto simp: waiters_def waiter_def split: option.splits)

lemma epoll_run_wf: "epoll_run os r A B \<Longrightarrow> table_wf (fd_states r)"
proof (induction rule: epoll_run.induct)
  case (run_associate r A B fd w res r' w')
  then show ?case using associate_fd_Ret table_wf_associate by metis
next
  case (run_deassociate r A B fd w r' w')
  then show ?case using deassociate_fd_Ret table_wf_store [of "fd_states r" fd None] by (metis option.distinct(1))
next
  case (run_read r A B fd c w r' w')
  then show ?case unfolding register_read_interest_def by (auto elim: register_wf)
next
  case (run_write r A B fd c w r' w')
  then show ?case unfolding register_write_interest_def by (auto elim: register_wf)
qed (auto simp: table_wf_def dest: table_wf_dispatch)

lemma registered_more:
  assumes "B + W \<subseteq># A" "W' \<subseteq># add_mset x W"
  shows "B + W' \<subseteq># add_mset x A"
proof -
  have "B + W' \<subseteq># B + add_mset x W" using assms(2) by simp
  also have "\<dots> \<subseteq># add_mset x A" using assms(1) by simp
  finally show ?thesis .
qed

lemma epoll_run_waiting: "epoll_run os r A B \<Longrightarrow> B + waiting (fd_states r) \<subseteq># A"
proof (induction rule: epoll_run.induct)
  case (run_associate r A B fd w res r' w')
  then show ?case using associate_fd_Ret waiting_associate by metis
next
  case (run_deassociate r A B fd w r' w')
  then have d: "nat fd < length (fd_states r)" "fd_states r' = fd_store fd None (fd_states r)"
    using deassociate_fd_Ret [OF run_deassociate(2)] by auto
  have "waiting (fd_states r') \<subseteq># waiting (fd_states r)"
    using waiting_store [OF d(1), of None] d(2)
    by (metis mset_subset_eq_add_left waiters_None add.right_neutral)
  then show ?case using run_deassociate(3) by (meson subset_mset.add_left_mono subset_mset.order_trans)
next
  case (run_read r A B fd c w r' w')
  have "waiting (fd_states r') \<subseteq># add_mset (resumption c) (waiting (fd_states r))"
    using run_read(2) unfolding register_read_interest_def
    by (rule register_waiting) (auto simp: register_waiters, simp add: waiters_def)
  from registered_more [OF run_read(3) this] show ?case .
next
  case (run_write r A B fd c w r' w')
  have "waiting (fd_states r') \<subseteq># add_mset (resumption c) (waiting (fd_states r))"
    using run_write(2) unfolding register_write_interest_def
    by (rule register_waiting) (auto simp: register_waiters, simp add: waiters_def)
  from registered_more [OF run_write(3) this] show ?case .
next
  case (run_events r A B es go ps st)
  then show ?case using waiting_dispatch [OF run_events(2)] by (simp add: ac_simps)
qed (simp add: waiting_def)

subsection \<open>Readiness\<close>

lemma fd_lookup_store:
  assumes "fd_lookup fd st = Some s"
  shows "fd_lookup fd' (fd_store fd (Some s') st) = (if fd' = fd then Some s' else fd_lookup fd' st)"
  using assms by (auto simp: fd_lookup_def fd_store_def nth_list_update eq_nat_nat_iff split: if_splits)

lemma dispatch_keeps_writer:
  assumes "dispatch_events sh es st = Ret (go, ps, st')" "fd_lookup fd st = Some s" "write_waiter s = Some c"
    "\<forall>e\<in>set es. event_fd e = fd \<longrightarrow> events e AND EPOLLOUT = 0"
  shows "\<exists>s'. fd_lookup fd st' = Some s' \<and> write_waiter s' = Some c"
  using assms
proof (induction es arbitrary: st ps s)
  case (Cons e es)
  from Cons.prems(1) show ?case
  proof (cases rule: dispatch_Cons)
    case (entry u s1 s2 qs rs ts)
    show ?thesis
    proof (cases "event_fd e = fd")
      case True
      then have "u = s" "events e AND EPOLLOUT = 0" using entry(1) Cons.prems(2,4) by auto
      then have "write_waiter s2 = Some c" using entry(2,3) Cons.prems(3)
        by (auto simp: dispatch_read_def dispatch_write_def split: option.splits if_splits)
      then show ?thesis using Cons.IH [OF entry(4), of s2] Cons.prems(4) True fd_lookup_store [OF entry(1)] by simp
    next
      case False
      then show ?thesis using Cons.IH [OF entry(4), of s] Cons.prems(2-4) fd_lookup_store [OF entry(1)] by simp
    qed
  qed (use Cons in auto)
qed auto

lemma dispatch_no_reader:
  assumes "dispatch_events sh es st = Ret (go, ps, st')" "fd_lookup fd st = Some s" "read_waiter s = None"
  shows "\<exists>s'. fd_lookup fd st' = Some s' \<and> read_waiter s' = None"
  using assms
proof (induction es arbitrary: st ps s)
  case (Cons e es)
  from Cons.prems(1) show ?case
  proof (cases rule: dispatch_Cons)
    case (entry u s1 s2 qs rs ts)
    show ?thesis
    proof (cases "event_fd e = fd")
      case True
      then have "read_waiter s2 = None" using entry(1,2,3) Cons.prems(2,3)
        by (auto simp: dispatch_read_def dispatch_write_def split: option.splits if_splits)
      then show ?thesis using Cons.IH [OF entry(4), of s2] True fd_lookup_store [OF entry(1)] by simp
    next
      case False
      then show ?thesis using Cons.IH [OF entry(4), of s] Cons.prems(2,3) fd_lookup_store [OF entry(1)] by simp
    qed
  qed (use Cons in auto)
qed auto

lemma dispatch_wakes_reader:
  assumes "dispatch_events sh es st = Ret (True, ps, st')" "fd_lookup fd st = Some s" "read_waiter s = Some c"
    "\<exists>e\<in>set es. event_fd e = fd \<and> events e AND EPOLLIN \<noteq> 0"
  shows "resumption c \<in> set ps \<and> (\<exists>s'. fd_lookup fd st' = Some s' \<and> read_waiter s' = None)"
  using assms
proof (induction es arbitrary: st ps s)
  case (Cons e es)
  from Cons.prems(1) show ?case
  proof (cases rule: dispatch_Cons)
    case skip
    then show ?thesis using Cons.IH [OF skip(1) Cons.prems(2,3)] Cons.prems(2,4) by auto
  next
    case (entry u s1 s2 qs rs ts)
    show ?thesis
    proof (cases "event_fd e = fd \<and> events e AND EPOLLIN \<noteq> 0")
      case True
      then have "read_waiter s2 = None" "qs = [resumption c]" using entry(1,2,3) Cons.prems(2,3)
        by (auto simp: dispatch_read_def dispatch_write_def split: option.splits if_splits)
      then show ?thesis using dispatch_no_reader [OF entry(4), of fd s2] True fd_lookup_store [OF entry(1)] entry(5)
        by simp
    next
      case False
      then have "\<exists>t. fd_lookup fd (fd_store (event_fd e) (Some s2) st) = Some t \<and> read_waiter t = Some c"
        using entry(1,2,3) Cons.prems(2,3) fd_lookup_store [OF entry(1)]
        by (auto simp: dispatch_read_def dispatch_write_def split: option.splits if_splits)
      then show ?thesis using Cons.IH [OF entry(4)] Cons.prems(4) False entry(5) by auto
    qed
  qed simp
qed simp

lemma thread_keeps_writer:
  assumes "epoll_thread_fn sh bs st = Ret (ps, st')" "fd_lookup fd st = Some s" "write_waiter s = Some c"
    "\<forall>es e. Some es \<in> set bs \<and> e \<in> set es \<and> event_fd e = fd \<longrightarrow> events e AND EPOLLOUT = 0"
  shows "\<exists>s'. fd_lookup fd st' = Some s' \<and> write_waiter s' = Some c"
  using assms
proof (induction sh bs st arbitrary: ps s rule: epoll_thread_fn.induct)
  case (3 sh es bs st)
  then obtain go qs st1 where d: "dispatch_events sh es st = Ret (go, qs, st1)" by (auto simp: run_simps)
  obtain s1 where s1: "fd_lookup fd st1 = Some s1" "write_waiter s1 = Some c"
    using dispatch_keeps_writer [OF d 3(3,4)] 3(5) by auto
  show ?case
  proof (cases go)
    case True
    then obtain rs where "epoll_thread_fn sh bs st1 = Ret (rs, st')" using 3(2) d by (auto simp: run_simps)
    from 3(1) [OF True this s1] 3(5) show ?thesis by auto
  next
    case False
    then show ?thesis using 3(2) d s1 by (auto simp: run_simps)
  qed
qed auto

text \<open>What \<^verbatim>\<open>epoll_wait\<close> reports for a descriptor: events it was registered for, errors and hangups.\<close>

definition reports :: "32 word \<Rightarrow> 32 word \<Rightarrow> bool" where
  "reports interest ev \<longleftrightarrow> ev AND NOT (interest OR EPOLLERR OR EPOLLHUP) = 0"

lemma reports_no_output:
  assumes "reports interest ev" "interest AND NOT EPOLLIN = EPOLLET OR EPOLLONESHOT"
  shows "ev AND EPOLLOUT = 0"
proof -
  have out: "x AND EPOLLOUT = 0 \<longleftrightarrow> \<not> bit x 2" for x :: "32 word"
  proof -
    have "EPOLLOUT = 2 ^ 2" by (simp add: EPOLLOUT_def)
    then show ?thesis using and_exp_eq_0_iff_not_bit [of x 2] by metis
  qed
  have "bit (EPOLLET OR EPOLLONESHOT) 2 = False" "bit EPOLLIN 2 = False" "bit EPOLLERR 2 = False" "bit EPOLLHUP 2 = False"
    by (simp_all add: event_defs bit_or_iff)
  moreover have "bit (interest AND NOT EPOLLIN) 2 = bit (EPOLLET OR EPOLLONESHOT) 2" using assms(2) by simp
  ultimately have "\<not> bit (interest OR EPOLLERR OR EPOLLHUP) 2" by (simp add: bit_and_iff bit_or_iff bit_not_iff)
  moreover have "\<not> bit (ev AND NOT (interest OR EPOLLERR OR EPOLLHUP)) 2" using assms(1) by (simp add: reports_def)
  ultimately show ?thesis unfolding out by (auto simp: bit_and_iff bit_not_iff bit_or_iff)
qed

subsection \<open>Properties\<close>

text \<open>A system on which every call succeeds, except that the first \<open>w\<close> calls to \<^verbatim>\<open>recv\<close> would block, and a
  reactor with one descriptor; \<open>deliver\<close> dispatches an event for it.\<close>

definition stub_posix :: "nat posix" where
  "stub_posix = \<lparr>sys_open = (\<lambda>_ _ _ w. (3, w)), sys_close = (\<lambda>_ w. (0, w)), sys_read = (\<lambda>_ _ w. ((0, []), w)),
     sys_pread = (\<lambda>_ _ _ w. ((0, []), w)), sys_write = (\<lambda>_ _ w. (1, w)), sys_pwrite = (\<lambda>_ _ _ w. (0, w)),
     sys_errno = (\<lambda>_. EWOULDBLOCK)\<rparr>"

definition stub_net :: "nat sockets" where
  "stub_net = \<lparr>net_os = stub_posix, sys_pipe = (\<lambda>w. ((0, 7, 8), w)), sys_epoll_create = (\<lambda>w. (5, w)),
     sys_epoll_ctl = (\<lambda>_ _ _ _ w. (0, w)), sys_getfl = (\<lambda>_ w. (0, w)), sys_setfl = (\<lambda>_ _ w. w),
     sys_thread = (\<lambda>w. (None, w)), sys_join = (\<lambda>w. w),
     sys_recv = (\<lambda>_ _ _ w. if 0 < w then ((- 1, []), w) else ((1, [42]), w)),
     sys_send = (\<lambda>_ buf _ w. (int (length buf), w)), sys_connect = (\<lambda>_ _ w. (0, w)), sys_accept = (\<lambda>_ w. (4, w)),
     sys_socket = (\<lambda>_ w. (3, w)), sys_reuseaddr = (\<lambda>_ w. (0, w)), sys_bind = (\<lambda>_ _ w. (0, w)), sys_listen = (\<lambda>_ w. (0, w))\<rparr>"

definition ready_reactor :: "(nat, nat) epoll_reactor" where
  "ready_reactor = \<lparr>epoll_fd = \<lparr>fd_value = 5\<rparr>, fd_states = [None, None, None, Some (fd_state_new 3)],
     epoll_thread = True, shutdown_pipe = (7, 8)\<rparr>"

definition deliver :: "(nat, nat, nat) surroundings" where
  "deliver = (\<lambda>(r, w). case dispatch_events (fst (shutdown_pipe r)) [\<lparr>event_fd = 3, events = EPOLLIN\<rparr>] (fd_states r) of
     Ret (_, _, st) \<Rightarrow> (r\<lparr>fd_states := st\<rparr>, w - 1) | _ \<Rightarrow> (r, w))"

definition some_coro :: "(nat, nat) epoll_coro_state" where
  "some_coro = \<lparr>coro_handle = 9, task_executor = 1\<rparr>"

definition waiting_reactor :: "(nat, nat) epoll_reactor" where
  "waiting_reactor = ready_reactor\<lparr>fd_states := [None, None, None, Some ((fd_state_new 3)
     \<lparr>read_waiter := Some some_coro, fs_events := EPOLLET OR EPOLLONESHOT OR EPOLLIN\<rparr>)]\<rparr>"

definition stuck_reactor :: "(nat, nat) epoll_reactor" where
  "stuck_reactor = ready_reactor\<lparr>fd_states := [None, None, None, Some ((fd_state_new 3)
     \<lparr>write_waiter := Some some_coro, fs_events := EPOLLET OR EPOLLONESHOT OR EPOLLIN\<rparr>)]\<rparr>"

lemmas stub_defs = stub_posix_def stub_net_def ready_reactor_def some_coro_def

lemma no_input_yet: "(EPOLLET OR EPOLLONESHOT) AND EPOLLIN = 0"
  by (simp add: event_defs)

lemma stub_registers:
  "register_read_interest stub_net ready_reactor 3 some_coro w = Ret (waiting_reactor, w)"
  "register_write_interest stub_net ready_reactor 3 some_coro w = Ret (stuck_reactor, w)"
  by (simp_all add: register_read_interest_def register_write_interest_def register_interest_def fd_lookup_def
      fd_store_def stub_defs waiting_reactor_def stuck_reactor_def fd_state_new_def no_input_yet
      unique_fd_value_def invalid_fd_def or.assoc)

lemma stub_dispatches:
  "dispatch_events 7 [\<lparr>event_fd = 3, events = EPOLLIN\<rparr>] (fd_states waiting_reactor) =
     Ret (True, [resumption some_coro], fd_states ready_reactor)"
  "dispatch_events 7 [\<lparr>event_fd = 3, events = EPOLLIN\<rparr>] (fd_states stuck_reactor) = Ret (True, [], fd_states stuck_reactor)"
proof -
  have "(EPOLLET OR EPOLLONESHOT OR EPOLLIN) AND NOT EPOLLIN = EPOLLET OR EPOLLONESHOT" "EPOLLIN AND EPOLLIN \<noteq> 0"
    "EPOLLIN AND EPOLLOUT = 0" by (simp_all add: event_defs)
  then show "dispatch_events 7 [\<lparr>event_fd = 3, events = EPOLLIN\<rparr>] (fd_states waiting_reactor) =
     Ret (True, [resumption some_coro], fd_states ready_reactor)"
    "dispatch_events 7 [\<lparr>event_fd = 3, events = EPOLLIN\<rparr>] (fd_states stuck_reactor) = Ret (True, [], fd_states stuck_reactor)"
    by (simp_all add: waiting_reactor_def stuck_reactor_def ready_reactor_def fd_state_new_def dispatch_read_def
        dispatch_write_def fd_store_def)
qed

text \<open>C17: Whatever the order of associations, registrations and events, every entry of the table of
  descriptors is at the index of its descriptor, and its event mask is the edge-triggered one-shot
  mask, with or without interest in input: interest in output is never registered.\<close>

theorem epoll_table_typed:
  assumes "epoll_run os r A B" "fd_lookup fd (fd_states r) = Some s"
  shows "fs_fd s = fd \<and> (fs_events s = EPOLLET OR EPOLLONESHOT \<or> fs_events s = EPOLLET OR EPOLLONESHOT OR EPOLLIN)"
proof -
  note wf = table_wf_lookup [OF epoll_run_wf [OF assms(1)] assms(2)]
  have bits: "\<And>n. bit EPOLLIN n \<longleftrightarrow> n = 0" by (simp add: EPOLLIN_def bit_1_iff)
  have rest: "\<And>n. bit (fs_events s) n \<and> n \<noteq> 0 \<longleftrightarrow> bit (EPOLLET OR EPOLLONESHOT) n"
    unfolding wf(2) [symmetric] by (auto simp: bit_and_iff bit_not_iff bits dest: bit_imp_le_length)
  have "fs_events s = EPOLLET OR EPOLLONESHOT" if "\<not> bit (fs_events s) 0"
    using rest that by (intro bit_word_eqI) (metis gr0I)
  moreover have "fs_events s = EPOLLET OR EPOLLONESHOT OR EPOLLIN" if "bit (fs_events s) 0"
    unfolding or.assoc [symmetric] using rest that bits by (intro bit_word_eqI) (metis bit_or_iff)
  ultimately show ?thesis using wf(1) by blast
qed

lemma stub_run: "epoll_run stub_net ready_reactor {#} {#}"
proof -
  have "epoll_run stub_net (ready_reactor\<lparr>fd_states := []\<rparr>) {#} {#}" by (rule run_new) simp
  moreover have "associate_fd stub_net (ready_reactor\<lparr>fd_states := []\<rparr>) 3 0 = Ret (Inr (), ready_reactor, 0)"
    by (simp add: associate_fd_def associate_state_def fd_store_def fd_lookup_def fd_state_new_def stub_defs
        unique_fd_value_def invalid_fd_def numeral_3_eq_3)
  ultimately show ?thesis by (rule run_associate)
qed

lemma stub_run_served: "epoll_run stub_net ready_reactor {#resumption some_coro#} {#resumption some_coro#}"
proof -
  have run: "epoll_run stub_net waiting_reactor {#resumption some_coro#} {#}"
    by (rule run_read [OF stub_run stub_registers(1)])
  have "fst (shutdown_pipe waiting_reactor) = 7" by (simp add: waiting_reactor_def ready_reactor_def)
  from run_events [OF run, unfolded this, OF stub_dispatches(1)]
  show ?thesis by (simp add: waiting_reactor_def ready_reactor_def)
qed

theorem epoll_table_typed_witness:
  "fs_fd (fd_state_new 3 :: (nat, nat) fd_state) = 3"
proof -
  have "fd_lookup 3 (fd_states ready_reactor) = Some (fd_state_new 3)" by (simp add: fd_lookup_def ready_reactor_def)
  from epoll_table_typed [OF stub_run_served this] show ?thesis by simp
qed

text \<open>C9: A coroutine is resumed at most once for every time it was registered: in every life of the
  reactor, the coroutines that were posted to their executors and those that still wait are,
  counted with their multiplicity, among those that were registered.\<close>

theorem epoll_resumes_once:
  assumes "epoll_run os r A B"
  shows "B + waiting (fd_states r) \<subseteq># A \<and> count B p \<le> count A p"
  using epoll_run_waiting [OF assms] by (metis mset_subset_eq_add_left mset_subset_eq_count subset_mset.order_trans)

theorem epoll_resumes_once_witness:
  "{#resumption some_coro#} + waiting (fd_states ready_reactor) \<subseteq># {#resumption some_coro#}"
  using epoll_resumes_once [OF stub_run_served] by blast

text \<open>A coroutine that waits for input is posted by the first batch of events that reports input on
  its descriptor, and its entry is free again for the next one.\<close>

theorem epoll_wakes_reader:
  assumes "register_read_interest os r fd c w = Ret (r', w')"
    "dispatch_events sh es (fd_states r') = Ret (True, ps, st)"
    "\<exists>e\<in>set es. event_fd e = fd \<and> events e AND EPOLLIN \<noteq> 0"
  shows "resumption c \<in> set ps \<and> (\<exists>s. fd_lookup fd st = Some s \<and> read_waiter s = None)"
proof -
  from assms(1) obtain s where s: "fd_lookup fd (fd_states r) = Some s"
    "r' = r\<lparr>fd_states := fd_store fd (Some (s\<lparr>read_waiter := Some c, fs_events := fs_events s OR EPOLLIN\<rparr>)) (fd_states r)\<rparr>"
    unfolding register_read_interest_def by (rule register_interest_Ret)
  have "fd_lookup fd (fd_states r') = Some (s\<lparr>read_waiter := Some c, fs_events := fs_events s OR EPOLLIN\<rparr>)"
    using s fd_lookup_store [OF s(1)] by simp
  then show ?thesis using dispatch_wakes_reader [OF assms(2)] assms(3) by fastforce
qed

theorem epoll_wakes_reader_witness:
  "resumption some_coro \<in> set [resumption some_coro]"
proof -
  have "\<exists>e\<in>set [\<lparr>event_fd = 3, events = EPOLLIN\<rparr>]. event_fd e = 3 \<and> events e AND EPOLLIN \<noteq> 0"
    by (simp add: EPOLLIN_def)
  from epoll_wakes_reader [OF stub_registers(1) stub_dispatches(1) this] show ?thesis by simp
qed

text \<open>C14: A coroutine that waits for output is never resumed: \<^verbatim>\<open>register_write_interest\<close> registers interest
  in input, the system reports output for nobody who has not asked for it, and the event thread
  resumes writers on output only. After any events the system may report the coroutine still
  waits.\<close>

theorem epoll_strands_writer:
  assumes "epoll_run os r A B" "register_write_interest os r fd c w = Ret (r', w')"
    "fd_lookup fd (fd_states r') = Some s"
    "\<forall>es e. Some es \<in> set bs \<and> e \<in> set es \<and> event_fd e = fd \<longrightarrow> reports (fs_events s) (events e)"
    "epoll_thread_fn sh bs (fd_states r') = Ret (ps, st)"
  shows "\<exists>s'. fd_lookup fd st = Some s' \<and> write_waiter s' = Some c"
proof -
  from assms(2) obtain s0 where s0: "fd_lookup fd (fd_states r) = Some s0"
    "r' = r\<lparr>fd_states := fd_store fd (Some (s0\<lparr>write_waiter := Some c, fs_events := fs_events s0 OR EPOLLIN\<rparr>)) (fd_states r)\<rparr>"
    unfolding register_write_interest_def by (rule register_interest_Ret)
  then have w: "write_waiter s = Some c" using assms(3) fd_lookup_store [OF s0(1)] by auto
  have "table_wf (fd_states r')" using epoll_run_wf [OF run_write [OF assms(1,2)]] .
  from table_wf_lookup(2) [OF this assms(3)] assms(4)
  have "\<forall>es e. Some es \<in> set bs \<and> e \<in> set es \<and> event_fd e = fd \<longrightarrow> events e AND EPOLLOUT = 0"
    using reports_no_output by blast
  from thread_keeps_writer [OF assms(5,3) w this] show ?thesis .
qed

theorem epoll_strands_writer_witness:
  "\<exists>s'. fd_lookup 3 (fd_states stuck_reactor) = Some s' \<and> write_waiter s' = Some some_coro"
proof -
  have l: "fd_lookup 3 (fd_states stuck_reactor) = Some ((fd_state_new 3)
     \<lparr>write_waiter := Some some_coro, fs_events := EPOLLET OR EPOLLONESHOT OR EPOLLIN\<rparr>)"
    by (simp add: fd_lookup_def stuck_reactor_def)
  have "reports (EPOLLET OR EPOLLONESHOT OR EPOLLIN) EPOLLIN" by (simp add: reports_def event_defs)
  then have rep: "\<forall>es e. Some es \<in> set [Some [\<lparr>event_fd = 3, events = EPOLLIN\<rparr>]] \<and> e \<in> set es \<and> event_fd e = 3 \<longrightarrow>
      reports (fs_events ((fd_state_new 3 :: (nat, nat) fd_state)
        \<lparr>write_waiter := Some some_coro, fs_events := EPOLLET OR EPOLLONESHOT OR EPOLLIN\<rparr>)) (events e)" by simp
  have run: "epoll_thread_fn 7 [Some [\<lparr>event_fd = 3, events = EPOLLIN\<rparr>]] (fd_states stuck_reactor) =
      Ret ([], fd_states stuck_reactor)" by (simp only: epoll_thread_fn.simps stub_dispatches(2)) simp
  show ?thesis by (rule epoll_strands_writer [OF stub_run stub_registers(2) l rep run])
qed

text \<open>What a coroutine needs of its surroundings to get on with \<^verbatim>\<open>recv\<close>: whenever the call would block, the
  coroutine can register, and it is resumed in a state that is again good, with fewer refusals
  ahead, as counted by \<open>left\<close>.\<close>

definition served ::
  "'w sockets \<Rightarrow> ('w, 'x, 'c) surroundings \<Rightarrow> 'x option \<times> 'c \<Rightarrow> int \<Rightarrow> nat \<Rightarrow> int \<Rightarrow>
   (('x, 'c) epoll_reactor \<times> 'w \<Rightarrow> bool) \<Rightarrow> (('x, 'c) epoll_reactor \<times> 'w \<Rightarrow> nat) \<Rightarrow> bool" where
  "served os env co fd n flags good left \<longleftrightarrow> (\<forall>r w buf w'. good (r, w) \<and>
     sys_recv os fd n flags w = ((- 1, buf), w') \<and> sys_errno (net_os os) w' = EWOULDBLOCK \<longrightarrow>
     (\<exists>s. await_readable os co r fd w' = Ret s \<and> good (env s) \<and> left (env s) < left (r, w)))"

text \<open>C15: \<^verbatim>\<open>async_fd_recv\<close> returns in such surroundings, after at most one more attempt than there are
  refusals ahead, with what a call to \<^verbatim>\<open>recv\<close> has returned, and never with the error that the call
  would block.\<close>

theorem async_fd_recv_returns:
  assumes "served os env co fd n flags good left" "good s" "left s < fuel"
  shows "\<exists>w0 ret buf r' w'. sys_recv os fd n flags w0 = ((ret, buf), w') \<and>
    (ret = - 1 \<longrightarrow> sys_errno (net_os os) w' \<noteq> EWOULDBLOCK) \<and>
    async_fd_recv os env co fuel fd n flags s =
      Ret (if ret = - 1 then Inl (net_errno os w') else Inr (ret, buf), r', w')"
  using assms(2,3)
proof (induction fuel arbitrary: s)
  case (Suc fuel)
  obtain r w where s: "s = (r, w)" by fastforce
  obtain ret buf w' where c: "sys_recv os fd n flags w = ((ret, buf), w')" by (metis surj_pair)
  show ?case
  proof (cases "ret = - 1 \<and> sys_errno (net_os os) w' = EWOULDBLOCK")
    case True
    from assms(1) Suc.prems(1) c True s obtain t where "await_readable os co r fd w' = Ret t" "good (env t)" "left (env t) < left s"
      unfolding served_def by blast
    moreover have "left (env t) < fuel" using calculation(3) Suc.prems(2) by simp
    ultimately show ?thesis using Suc.IH [of "env t"] s c True by simp
  next
    case False
    then show ?thesis using s c by (intro exI [of _ w]) auto
  qed
qed simp

theorem async_fd_recv_returns_witness:
  "\<exists>r'. async_fd_recv stub_net deliver (Some 1, 9) 4 3 1 0 (ready_reactor, 3) = Ret (Inr (1, [42]), r', 0)"
proof -
  have aw: "await_readable stub_net (Some 1, 9) ready_reactor 3 w = Ret (waiting_reactor, w)" for w
    using stub_registers(1) [of w] by (simp add: await_readable_def some_coro_def)
  have del: "deliver (waiting_reactor, w) = (ready_reactor, w - 1)" for w
  proof -
    have "fst (shutdown_pipe waiting_reactor) = 7" by (simp add: waiting_reactor_def ready_reactor_def)
    then show ?thesis unfolding deliver_def prod.case using stub_dispatches(1)
      by (simp only:) (simp add: waiting_reactor_def ready_reactor_def)
  qed
  have "served stub_net deliver (Some 1, 9) 3 1 0 (\<lambda>s. fst s = ready_reactor) snd"
    unfolding served_def using aw del by (auto simp: stub_net_def split: if_splits)
  from async_fd_recv_returns [OF this, of "(ready_reactor, 3)" 4]
  show ?thesis by (auto simp: stub_net_def stub_posix_def split: if_splits)
qed

end
