(* ===== verification/Streamsocket.thy ===== *)
theory Streamsocket
  imports Epoll_Reactor Address
begin

text \<open>
  Stream sockets on Linux: \<^verbatim>\<open>src/src/include/sk/posix/detail/streamsocket.hxx\<close> with the part of
  \<^verbatim>\<open>linux_reactor.hxx\<close> that starts and stops the reactor. TCP and UNIX channels are these classes at
  their socket types. Socket calls go to the epoll reactor; \<open>g\<close> is the state of the reactor handles,
  which every operation asks for a weak handle. \<open>env\<close> and \<open>co\<close> are as in \<open>Epoll_Reactor\<close>. The blocking
  operations are the coroutines under \<^verbatim>\<open>wait\<close>, with its executor.
\<close>

section \<open>Stream sockets\<close>

type_synonym ('w, 'x, 'c) net_state = "('x, 'c) epoll_reactor \<times> 'w"

subsection \<open>Channels\<close>

record streamsocket =
  ss_fd :: unique_fd

definition streamsocket_new :: streamsocket where
  "streamsocket_new = \<lparr>ss_fd = unique_fd_empty\<rparr>"

definition streamsocket_of :: "unique_fd \<Rightarrow> streamsocket" where
  "streamsocket_of fd = \<lparr>ss_fd = fst (unique_fd_move fd)\<rparr>"

definition streamsocket_is_open :: "streamsocket \<Rightarrow> bool" where
  "streamsocket_is_open s \<longleftrightarrow> unique_fd_bool (ss_fd s)"

text \<open>The destructor, with that of the descriptor after its body.\<close>

definition fd_owner_destroy ::
  "'w sockets \<Rightarrow> reactor_global \<Rightarrow> unique_fd \<Rightarrow> ('w, 'x, 'c) net_state \<Rightarrow> (('w, 'x, 'c) net_state) run" where
  "fd_owner_destroy os g fd = (\<lambda>(r, w).
     bind_run
       (if unique_fd_bool fd then
          with_weak_handle g (bind_run (unique_fd_value fd) (\<lambda>n. deassociate_fd os r n w))
        else Ret (r, w))
       (\<lambda>(r, w). Ret (r, unique_fd_destroy (net_os os) fd w)))"

definition streamsocket_destroy ::
  "'w sockets \<Rightarrow> reactor_global \<Rightarrow> streamsocket \<Rightarrow> ('w, 'x, 'c) net_state \<Rightarrow> (('w, 'x, 'c) net_state) run" where
  "streamsocket_destroy os g s st = fd_owner_destroy os g (ss_fd s) st"

definition streamsocket_close ::
  "'w sockets \<Rightarrow> streamsocket \<Rightarrow> 'w \<Rightarrow> ((error_code + unit) \<times> streamsocket \<times> 'w) run" where
  "streamsocket_close os s w =
     sk_check (streamsocket_is_open s) ''attempt to close a channel that isn't open'' (
     if \<not> streamsocket_is_open s then Ret (Inl (make_error_code channel_not_open), s, w)
     else let (err, w) = unique_fd_close (net_os os) (ss_fd s) w
     in Ret (if is_error err then Inl err else Inr (), s, w))"

definition streamsocket_async_close ::
  "'w sockets \<Rightarrow> reactor_global \<Rightarrow> streamsocket \<Rightarrow> 'w \<Rightarrow> ((error_code + unit) \<times> streamsocket \<times> 'w) run" where
  "streamsocket_async_close os g s w =
     sk_check (streamsocket_is_open s) ''attempt to close a channel that isn't open'' (
     let (fd, u) = unique_fd_release (ss_fd s); s = s\<lparr>ss_fd := u\<rparr>
     in with_weak_handle g (
          let (err, w) = async_fd_close (net_os os) fd w
          in Ret (case err of Inl e \<Rightarrow> Inl e | Inr _ \<Rightarrow> Inr (), s, w)))"

text \<open>\<open>af\<close> is the address family and \<open>sa\<close> the socket address. The local descriptor closes itself on
  every early return.\<close>

definition streamsocket_async_connect ::
  "'w sockets \<Rightarrow> reactor_global \<Rightarrow> ('w, 'x, 'c) surroundings \<Rightarrow> 'x option \<times> 'c \<Rightarrow> nat \<Rightarrow> byte list \<Rightarrow> streamsocket \<Rightarrow>
   ('w, 'x, 'c) net_state \<Rightarrow> ((error_code + unit) \<times> streamsocket \<times> ('w, 'x, 'c) net_state) run" where
  "streamsocket_async_connect os g env co af sa s = (\<lambda>(r, w).
     sk_check (\<not> streamsocket_is_open s) ''attempt to re-connect an open channel'' (
     let (sock, w) = sys_socket os af w
     in if sock = - 1 then Ret (Inl (net_errno os w), s, r, w)
     else let fd = unique_fd_of sock
     in bind_run (with_weak_handle g (async_fd_connect os env co sock sa (r, w))) (\<lambda>(ret, r, w).
        case ret of
          Inl e \<Rightarrow> Ret (Inl e, s, r, unique_fd_destroy (net_os os) fd w)
        | Inr _ \<Rightarrow>
            bind_run (with_weak_handle g (associate_fd os r sock w)) (\<lambda>(aret, r, w).
            case aret of
              Inl e \<Rightarrow> Ret (Inl e, s, r, unique_fd_destroy (net_os os) fd w)
            | Inr _ \<Rightarrow>
                let ((u, fd), w) = unique_fd_move_assign (net_os os) (ss_fd s) fd w
                in Ret (Inr (), s\<lparr>ss_fd := u\<rparr>, r, unique_fd_destroy (net_os os) fd w)))))"

definition streamsocket_connect ::
  "'w sockets \<Rightarrow> reactor_global \<Rightarrow> ('w, 'x, 'c) surroundings \<Rightarrow> 'x \<Rightarrow> 'c \<Rightarrow> nat \<Rightarrow> byte list \<Rightarrow> streamsocket \<Rightarrow>
   ('w, 'x, 'c) net_state \<Rightarrow> ((error_code + unit) \<times> streamsocket \<times> ('w, 'x, 'c) net_state) run" where
  "streamsocket_connect os g env xer h af sa s st = streamsocket_async_connect os g env (Some xer, h) af sa s st"

definition streamsocket_async_read_some ::
  "'w sockets \<Rightarrow> reactor_global \<Rightarrow> ('w, 'x, 'c) surroundings \<Rightarrow> 'x option \<times> 'c \<Rightarrow> nat \<Rightarrow> streamsocket \<Rightarrow> nat \<Rightarrow>
   ('w, 'x, 'c) net_state \<Rightarrow> ((error_code + int \<times> byte list) \<times> ('w, 'x, 'c) net_state) run" where
  "streamsocket_async_read_some os g env co fuel s n st =
     sk_check (streamsocket_is_open s) ''attempt to read on a closed channel'' (
     bind_run (unique_fd_value (ss_fd s)) (\<lambda>fd.
     bind_run (with_weak_handle g (async_fd_recv os env co fuel fd n 0 st)) (\<lambda>(ret, st).
       Ret (case ret of
              Inl e \<Rightarrow> Inl e
            | Inr (k, buf) \<Rightarrow> if k = 0 then Inl (make_error_code end_of_file) else Inr (k, buf), st))))"

definition streamsocket_read_some ::
  "'w sockets \<Rightarrow> reactor_global \<Rightarrow> ('w, 'x, 'c) surroundings \<Rightarrow> 'x \<Rightarrow> 'c \<Rightarrow> nat \<Rightarrow> streamsocket \<Rightarrow> nat \<Rightarrow>
   ('w, 'x, 'c) net_state \<Rightarrow> ((error_code + int \<times> byte list) \<times> ('w, 'x, 'c) net_state) run" where
  "streamsocket_read_some os g env xer h fuel s n st =
     sk_check (streamsocket_is_open s) ''attempt to read on a closed channel'' (
     streamsocket_async_read_some os g env (Some xer, h) fuel s n st)"

definition streamsocket_async_write_some ::
  "'w sockets \<Rightarrow> reactor_global \<Rightarrow> ('w, 'x, 'c) surroundings \<Rightarrow> 'x option \<times> 'c \<Rightarrow> nat \<Rightarrow> streamsocket \<Rightarrow> byte list \<Rightarrow>
   ('w, 'x, 'c) net_state \<Rightarrow> ((error_code + int) \<times> ('w, 'x, 'c) net_state) run" where
  "streamsocket_async_write_some os g env co fuel s buf st =
     sk_check (streamsocket_is_open s) ''attempt to write on a closed channel'' (
     bind_run (unique_fd_value (ss_fd s)) (\<lambda>fd.
     bind_run (with_weak_handle g (async_fd_send os env co fuel fd buf 0 st)) (\<lambda>(ret, st).
       Ret (case ret of
              Inl e \<Rightarrow> Inl e
            | Inr k \<Rightarrow> if k = 0 then Inl (make_error_code end_of_file) else Inr k, st))))"

definition streamsocket_write_some ::
  "'w sockets \<Rightarrow> reactor_global \<Rightarrow> ('w, 'x, 'c) surroundings \<Rightarrow> 'x \<Rightarrow> 'c \<Rightarrow> nat \<Rightarrow> streamsocket \<Rightarrow> byte list \<Rightarrow>
   ('w, 'x, 'c) net_state \<Rightarrow> ((error_code + int) \<times> ('w, 'x, 'c) net_state) run" where
  "streamsocket_write_some os g env xer h fuel s buf st =
     streamsocket_async_write_some os g env (Some xer, h) fuel s buf st"

subsection \<open>Servers\<close>

record streamsocketserver =
  sv_fd :: unique_fd

definition server_of :: "unique_fd \<Rightarrow> streamsocketserver" where
  "server_of fd = \<lparr>sv_fd = fst (unique_fd_move fd)\<rparr>"

definition server_destroy ::
  "'w sockets \<Rightarrow> reactor_global \<Rightarrow> streamsocketserver \<Rightarrow> ('w, 'x, 'c) net_state \<Rightarrow> (('w, 'x, 'c) net_state) run" where
  "server_destroy os g s st = fd_owner_destroy os g (sv_fd s) st"

definition server_is_open :: "streamsocketserver \<Rightarrow> bool" where
  "server_is_open s \<longleftrightarrow> unique_fd_bool (sv_fd s)"

text \<open>An early return after the socket was created destroys the local descriptor, after the error code
  was built.\<close>

definition server_listen ::
  "'w sockets \<Rightarrow> reactor_global \<Rightarrow> nat \<Rightarrow> byte list \<Rightarrow> ('w, 'x, 'c) net_state \<Rightarrow>
   ((error_code + streamsocketserver) \<times> ('w, 'x, 'c) net_state) run" where
  "server_listen os g af sa = (\<lambda>(r, w).
     let (listener, w) = sys_socket os af w
     in if listener = - 1 then Ret (Inl (net_errno os w), r, w)
     else let fd = unique_fd_of listener;
              fail = (\<lambda>r w. Ret (Inl (net_errno os w), r, unique_fd_destroy (net_os os) fd w));
              (ret, w) = (if af \<noteq> AF_UNIX then sys_reuseaddr os listener w else (0, w))
     in if ret \<noteq> 0 then fail r w
     else let (ret, w) = sys_bind os listener sa w
     in if ret = - 1 then fail r w
     else let (ret, w) = sys_listen os listener w
     in if ret = - 1 then fail r w
     else bind_run (with_weak_handle g (associate_fd os r listener w)) (\<lambda>(aret, r, w).
        case aret of
          Inl e \<Rightarrow> Ret (Inl e, r, unique_fd_destroy (net_os os) fd w)
        | Inr _ \<Rightarrow> Ret (Inr (server_of fd), r, w)))"

definition server_close ::
  "'w sockets \<Rightarrow> streamsocketserver \<Rightarrow> 'w \<Rightarrow> (error_code + unit) \<times> 'w" where
  "server_close os s w =
     (if \<not> server_is_open s then (Inl (make_error_code channel_not_open), w)
      else let (err, w) = unique_fd_close (net_os os) (sv_fd s) w
      in (if is_error err then Inl err else Inr (), w))"

definition server_async_close ::
  "'w sockets \<Rightarrow> streamsocketserver \<Rightarrow> 'w \<Rightarrow> (error_code + unit) \<times> 'w" where
  "server_async_close os s w =
     (let (err, w) = unique_fd_close (net_os os) (sv_fd s) w
      in (if is_error err then Inl err else Inr (), w))"

text \<open>What both ways of accepting do with the new descriptor.\<close>

definition accepted ::
  "'w sockets \<Rightarrow> reactor_global \<Rightarrow> int \<Rightarrow> ('w, 'x, 'c) net_state \<Rightarrow> ((error_code + streamsocket) \<times> ('w, 'x, 'c) net_state) run" where
  "accepted os g client = (\<lambda>(r, w).
     let fd = unique_fd_of client
     in bind_run (with_weak_handle g (associate_fd os r client w)) (\<lambda>(aret, r, w).
        case aret of
          Inl e \<Rightarrow> Ret (Inl e, r, unique_fd_destroy (net_os os) fd w)
        | Inr _ \<Rightarrow> Ret (Inr (streamsocket_of fd), r, w)))"

definition server_async_accept ::
  "'w sockets \<Rightarrow> reactor_global \<Rightarrow> ('w, 'x, 'c) surroundings \<Rightarrow> 'x option \<times> 'c \<Rightarrow> nat \<Rightarrow> streamsocketserver \<Rightarrow>
   ('w, 'x, 'c) net_state \<Rightarrow> ((error_code + streamsocket) \<times> ('w, 'x, 'c) net_state) run" where
  "server_async_accept os g env co fuel s st =
     bind_run (unique_fd_value (sv_fd s)) (\<lambda>fd.
     bind_run (with_weak_handle g (async_fd_accept os env co fuel fd st)) (\<lambda>(client, st).
       case client of
         Inl e \<Rightarrow> Ret (Inl e, st)
       | Inr client \<Rightarrow> accepted os g client st))"

definition server_accept ::
  "'w sockets \<Rightarrow> reactor_global \<Rightarrow> streamsocketserver \<Rightarrow> ('w, 'x, 'c) net_state \<Rightarrow>
   ((error_code + streamsocket) \<times> ('w, 'x, 'c) net_state) run" where
  "server_accept os g s = (\<lambda>(r, w).
     bind_run (unique_fd_value (sv_fd s)) (\<lambda>fd.
       let (client, w) = sys_accept os fd w
       in if client < 0 then Ret (Inl (net_errno os w), r, w) else accepted os g client (r, w)))"

subsection \<open>The Linux reactor\<close>

text \<open>In a build without \<^verbatim>\<open>io_uring\<close>: the epoll reactor, made anew by every \<^verbatim>\<open>start\<close>, and the system
  executor, which lives as long as the program; \<open>cores\<close> is the hardware concurrency.\<close>

record ('x, 'c, 'i) linux_reactor =
  lr_epoll :: "('x, 'c) epoll_reactor option"
  lr_executor :: "'i mt_executor"

definition linux_start ::
  "'w sockets \<Rightarrow> nat \<Rightarrow> ('x, 'c, 'i) linux_reactor \<Rightarrow> 'w \<Rightarrow> (error_code + unit) \<times> ('x, 'c, 'i) linux_reactor \<times> 'w" where
  "linux_start os cores l w =
     (let l = l\<lparr>lr_executor := mt_start_threads cores (lr_executor l)\<rparr>;
          (ret, r, w) = epoll_start os epoll_reactor_new w
      in (ret, l\<lparr>lr_epoll := Some r\<rparr>, w))"

definition linux_stop ::
  "'w sockets \<Rightarrow> ('x, 'c, 'i) linux_reactor \<Rightarrow> 'w \<Rightarrow> (('x, 'c, 'i) linux_reactor \<times> 'w) run" where
  "linux_stop os l w =
     (case lr_epoll l of
        None \<Rightarrow> Abort ''null pointer''
      | Some r \<Rightarrow> bind_run (epoll_stop os r w) (\<lambda>(r, w). Ret (l\<lparr>lr_epoll := Some r\<rparr>, w)))"

subsection \<open>Who owns which descriptor\<close>

text \<open>What the system documents of descriptors: \<^verbatim>\<open>socket\<close> and \<^verbatim>\<open>accept\<close> give one that was not in use, or fail
  without effect, \<^verbatim>\<open>close\<close> frees its argument, and no other call changes which descriptors are in use,
  the set \<open>opened w\<close>.\<close>

definition fresh_fd :: "('w \<Rightarrow> int set) \<Rightarrow> 'w \<Rightarrow> int \<times> 'w \<Rightarrow> bool" where
  "fresh_fd opened w = (\<lambda>(fd, w').
     fd = - 1 \<and> opened w' = opened w \<or> 0 \<le> fd \<and> fd \<notin> opened w \<and> opened w' = insert fd (opened w))"

definition fd_laws :: "'w sockets \<Rightarrow> ('w \<Rightarrow> int set) \<Rightarrow> bool" where
  "fd_laws os opened \<longleftrightarrow>
     (\<forall>af w. fresh_fd opened w (sys_socket os af w)) \<and> (\<forall>fd w. fresh_fd opened w (sys_accept os fd w)) \<and>
     (\<forall>fd w. opened (snd (sys_close (net_os os) fd w)) = opened w - {fd}) \<and>
     (\<forall>fd sa w. opened (snd (sys_connect os fd sa w)) = opened w) \<and>
     (\<forall>fd w. opened (snd (sys_reuseaddr os fd w)) = opened w) \<and>
     (\<forall>fd sa w. opened (snd (sys_bind os fd sa w)) = opened w) \<and>
     (\<forall>fd w. opened (snd (sys_listen os fd w)) = opened w) \<and>
     (\<forall>ep op fd ev w. opened (snd (sys_epoll_ctl os ep op fd ev w)) = opened w) \<and>
     (\<forall>fd w. opened (snd (sys_getfl os fd w)) = opened w) \<and>
     (\<forall>fd flags w. opened (sys_setfl os fd flags w) = opened w)"

definition acquired :: "('w \<Rightarrow> int set) \<Rightarrow> 'w \<Rightarrow> unique_fd \<Rightarrow> ('w, 'x, 'c) net_state \<Rightarrow> bool" where
  "acquired opened w fd = (\<lambda>(r, w'). 0 \<le> fd_value fd \<and> fd_value fd \<notin> opened w \<and>
     opened w' = insert (fd_value fd) (opened w) \<and> fd_lookup (fd_value fd) (fd_states r) \<noteq> None)"

lemma weak_bindE:
  assumes "bind_run (with_weak_handle g b) f = Ret y"
  obtains x where "b = Ret x" "f x = Ret y"
  using assms by (auto simp: bind_run_eq_Ret dest: with_weak_handle_Ret)

lemma associate_bindE:
  assumes "bind_run (with_weak_handle g (associate_fd os r fd w)) (\<lambda>(aret, r, w).
      case aret of Inl e \<Rightarrow> F e r w | Inr _ \<Rightarrow> G r w) = Ret y"
  obtains (fail) e r1 w1 where "associate_fd os r fd w = Ret (Inl e, r1, w1)" "F e r1 w1 = Ret y"
  | (ok) r1 w1 where "associate_fd os r fd w = Ret (Inr (), r1, w1)" "G r1 w1 = Ret y"
proof -
  from assms obtain x where x: "associate_fd os r fd w = Ret x"
    "(\<lambda>(aret, r, w). case aret of Inl e \<Rightarrow> F e r w | Inr _ \<Rightarrow> G r w) x = Ret y" by (rule weak_bindE)
  obtain a r1 w1 where "x = (a, r1, w1)" by (metis surj_pair)
  then show thesis using x fail ok by (cases a) auto
qed

lemma associate_lookup:
  assumes "0 \<le> fd"
  shows "fd_lookup fd (associate_state fd st) \<noteq> None"
  using assms by (auto simp: associate_state_def Let_def fd_lookup_def fd_store_def)

lemma associate_opened:
  assumes "fd_laws os opened" "associate_fd os r fd w = Ret (res, r', w')"
  shows "opened w' = opened w" "fd_lookup fd (fd_states r') \<noteq> None"
proof -
  show "opened w' = opened w" using assms
    by (auto simp: associate_fd_def run_simps Let_def case_prod_beta fd_laws_def)
  show "fd_lookup fd (fd_states r') \<noteq> None"
    using associate_fd_Ret [OF assms(2)] associate_lookup by metis
qed

lemma register_opened:
  assumes "fd_laws os opened" "register_interest f m os r fd c w = Ret (r', w')"
  shows "opened w' = opened w"
  using assms
  by (auto simp: register_interest_def run_simps Let_def case_prod_beta fd_laws_def split: option.splits)

lemma await_opened:
  assumes "fd_laws os opened"
  shows "await_readable os co r fd w = Ret (r', w') \<Longrightarrow> opened w' = opened w"
    "await_writable os co r fd w = Ret (r', w') \<Longrightarrow> opened w' = opened w"
  by (auto simp: await_readable_def await_writable_def register_read_interest_def register_write_interest_def
      dest!: register_opened [OF assms] split: option.splits)

lemma destroy_opened:
  assumes "fd_laws os opened" "0 \<le> fd"
  shows "opened (unique_fd_destroy (net_os os) (unique_fd_of fd) w) = opened w - {fd}"
  using assms
  by (auto simp: unique_fd_destroy_def unique_fd_of_def unique_fd_close_def invalid_fd_def fd_laws_def case_prod_beta Let_def)

lemma connect_opened:
  assumes "fd_laws os opened" "\<And>s. opened (snd (env s)) = opened (snd s)"
    "async_fd_connect os env co fd sa (r, w) = Ret (ret, r', w')"
  shows "opened w' = opened w"
proof -
  obtain k w1 where c: "sys_connect os fd sa w = (k, w1)" by fastforce
  have w1: "opened w1 = opened w" using assms(1) c unfolding fd_laws_def by (metis snd_conv)
  show ?thesis
  proof (cases "k = 0 \<or> sys_errno (net_os os) w1 \<noteq> EWOULDBLOCK")
    case True
    then show ?thesis using assms(3) c w1 by (auto simp: async_fd_connect_def split: if_splits)
  next
    case False
    then obtain s where s: "await_writable os co r fd w1 = Ret s" "(r', w') = env s"
      using assms(3) c by (auto simp: async_fd_connect_def run_simps)
    have "opened (snd s) = opened w1" using await_opened(2) [OF assms(1)] s(1) by (metis surjective_pairing)
    then show ?thesis using assms(2) [of s] s(2) w1 by (metis snd_conv)
  qed
qed

lemma accept_opened:
  assumes "fd_laws os opened" "\<And>s. opened (snd (env s)) = opened (snd s)"
    "async_fd_accept os env co fuel fd (r, w) = Ret (ret, r', w')"
  shows "case ret of Inl e \<Rightarrow> opened w' = opened w | Inr c \<Rightarrow> 0 \<le> c \<and> c \<notin> opened w \<and> opened w' = insert c (opened w)"
  using assms(3)
proof (induction fuel arbitrary: r w)
  case (Suc fuel)
  obtain k w1 where c: "sys_accept os fd w = (k, w1)" by fastforce
  have k: "fresh_fd opened w (k, w1)" using assms(1) c unfolding fd_laws_def by metis
  show ?case
  proof (cases "k = - 1 \<and> sys_errno (net_os os) w1 = EWOULDBLOCK")
    case True
    then obtain s where s: "await_readable os co r fd w1 = Ret s" "async_fd_accept os env co fuel fd (env s) = Ret (ret, r', w')"
      using Suc.prems c by (auto simp: run_simps)
    have "opened w1 = opened w" using k True by (simp add: fresh_fd_def)
    then have "opened (snd (env s)) = opened w"
      using await_opened(1) [OF assms(1)] s(1) assms(2) [of s] by (metis surjective_pairing)
    then show ?thesis using Suc.IH [of "fst (env s)" "snd (env s)"] s(2) by (simp split: sum.splits)
  next
    case False
    then show ?thesis using Suc.prems c k by (auto simp: fresh_fd_def split: if_splits)
  qed
qed simp

lemma acquiredI:
  assumes "fd_laws os opened" "fresh_fd opened w (fd, w1)" "fd \<noteq> - 1" "opened w2 = opened w1"
    "associate_fd os r fd w2 = Ret (Inr (), r', w')"
  shows "acquired opened w (unique_fd_of fd) (r', w')"
  using associate_opened [OF assms(1,5)] assms(2-4)
  by (auto simp: acquired_def fresh_fd_def unique_fd_of_def)

lemma given_back:
  assumes "fd_laws os opened" "fresh_fd opened w (fd, w1)" "fd \<noteq> - 1" "opened w2 = opened w1"
  shows "opened (unique_fd_destroy (net_os os) (unique_fd_of fd) w2) = opened w"
  using destroy_opened [OF assms(1), of fd w2] assms(2-4) by (auto simp: fresh_fd_def)

lemma move_fd_of: "fst (unique_fd_move (unique_fd_of fd)) = unique_fd_of fd"
  by (simp add: unique_fd_move_def unique_fd_of_def)

lemma accepted_opened:
  assumes "fd_laws os opened" "fresh_fd opened w (fd, w1)" "fd \<noteq> - 1" "accepted os g fd (r, w1) = Ret (res, r', w')"
  shows "case res of Inl e \<Rightarrow> opened w' = opened w | Inr s \<Rightarrow> acquired opened w (ss_fd s) (r', w')"
proof -
  from assms(4) have "bind_run (with_weak_handle g (associate_fd os r fd w1)) (\<lambda>(aret, r, w). case aret of
      Inl e \<Rightarrow> Ret (Inl e, r, unique_fd_destroy (net_os os) (unique_fd_of fd) w)
    | Inr _ \<Rightarrow> Ret (Inr (streamsocket_of (unique_fd_of fd)), r, w)) = Ret (res, r', w')"
    by (simp add: accepted_def Let_def)
  then show ?thesis
  proof (cases rule: associate_bindE)
    case (fail e r2 w2)
    then show ?thesis using given_back [OF assms(1-3) associate_opened(1) [OF assms(1) fail(1)]] by auto
  next
    case (ok r2 w2)
    then show ?thesis using acquiredI [OF assms(1-3) refl ok(1)] by (auto simp: streamsocket_of_def move_fd_of)
  qed
qed

lemma listen_opened:
  assumes "fd_laws os opened" "server_listen os g af sa (r, w) = Ret (res, r', w')"
  shows "case res of Inl e \<Rightarrow> opened w' = opened w | Inr s \<Rightarrow> acquired opened w (sv_fd s) (r', w')"
proof -
  obtain fd w1 where so: "sys_socket os af w = (fd, w1)" by fastforce
  obtain k2 w2 where ro: "(if af \<noteq> AF_UNIX then sys_reuseaddr os fd w1 else (0, w1)) = (k2, w2)" by fastforce
  obtain k3 w3 where bi: "sys_bind os fd sa w2 = (k3, w3)" by fastforce
  obtain k4 w4 where li: "sys_listen os fd w3 = (k4, w4)" by fastforce
  have fresh: "fresh_fd opened w (fd, w1)" using assms(1) so unfolding fd_laws_def by metis
  have "opened w2 = opened w1" using assms(1) ro unfolding fd_laws_def by (metis snd_conv)
  moreover have "opened w3 = opened w2" using assms(1) bi unfolding fd_laws_def by (metis snd_conv)
  moreover have "opened w4 = opened w3" using assms(1) li unfolding fd_laws_def by (metis snd_conv)
  ultimately have same: "opened w2 = opened w1" "opened w3 = opened w1" "opened w4 = opened w1" by auto
  show ?thesis
  proof (cases "fd = - 1 \<or> k2 \<noteq> 0 \<or> k3 = - 1 \<or> k4 = - 1")
    case True
    then show ?thesis using assms(2) so ro bi li given_back [OF assms(1) fresh] same fresh
      by (auto simp: server_listen_def Let_def fresh_fd_def split: if_splits)
  next
    case False
    then have "bind_run (with_weak_handle g (associate_fd os r fd w4)) (\<lambda>(aret, r, w). case aret of
        Inl e \<Rightarrow> Ret (Inl e, r, unique_fd_destroy (net_os os) (unique_fd_of fd) w)
      | Inr _ \<Rightarrow> Ret (Inr (server_of (unique_fd_of fd)), r, w)) = Ret (res, r', w')"
      using assms(2) so ro bi li by (simp add: server_listen_def Let_def)
    then show ?thesis
    proof (cases rule: associate_bindE)
      case (fail e r2 w5)
      have "opened w5 = opened w1" using associate_opened(1) [OF assms(1) fail(1)] same(3) by simp
      then show ?thesis using fail(2) False given_back [OF assms(1) fresh] by auto
    next
      case (ok r2 w5)
      then show ?thesis using False acquiredI [OF assms(1) fresh _ same(3) ok(1)] by (auto simp: server_of_def move_fd_of)
    qed
  qed
qed

lemma connect_socket_opened:
  assumes "fd_laws os opened" "\<And>s. opened (snd (env s)) = opened (snd s)"
    "streamsocket_async_connect os g env co af sa s (r, w) = Ret (res, s', r', w')"
  shows "case res of Inl e \<Rightarrow> opened w' = opened w \<and> s' = s | Inr _ \<Rightarrow> acquired opened w (ss_fd s') (r', w')"
proof -
  obtain fd w1 where so: "sys_socket os af w = (fd, w1)" by fastforce
  have fresh: "fresh_fd opened w (fd, w1)" using assms(1) so unfolding fd_laws_def by metis
  have closed: "fd_value (ss_fd s) = - 1" using assms(3)
    by (auto simp: streamsocket_async_connect_def run_simps Let_def streamsocket_is_open_def unique_fd_bool_def invalid_fd_def)
  show ?thesis
  proof (cases "fd = - 1")
    case True
    then show ?thesis using assms(3) so fresh by (auto simp: streamsocket_async_connect_def run_simps Let_def fresh_fd_def)
  next
    case False
    with assms(3) so obtain cret r1 w2 where c: "async_fd_connect os env co fd sa (r, w1) = Ret (cret, r1, w2)"
      "(case cret of
          Inl e \<Rightarrow> Ret (Inl e, s, r1, unique_fd_destroy (net_os os) (unique_fd_of fd) w2)
        | Inr _ \<Rightarrow>
            bind_run (with_weak_handle g (associate_fd os r1 fd w2)) (\<lambda>(aret, r, w).
            case aret of
              Inl e \<Rightarrow> Ret (Inl e, s, r, unique_fd_destroy (net_os os) (unique_fd_of fd) w)
            | Inr _ \<Rightarrow>
                let ((u, fd), w) = unique_fd_move_assign (net_os os) (ss_fd s) (unique_fd_of fd) w
                in Ret (Inr (), s\<lparr>ss_fd := u\<rparr>, r, unique_fd_destroy (net_os os) fd w))) = Ret (res, s', r', w')"
      by (auto simp: streamsocket_async_connect_def sk_check_eq_Ret Let_def elim!: weak_bindE)
    have w2: "opened w2 = opened w1" by (rule connect_opened [OF assms(1,2) c(1)])
    show ?thesis
    proof (cases cret)
      case (Inl e)
      then show ?thesis using c(2) given_back [OF assms(1) fresh False w2] by auto
    next
      case (Inr u)
      from c(2) [unfolded Inr sum.case] show ?thesis
      proof (cases rule: associate_bindE)
        case (fail e r2 w3)
        have "opened w3 = opened w1" using associate_opened(1) [OF assms(1) fail(1)] w2 by simp
        then show ?thesis using fail(2) given_back [OF assms(1) fresh False] by auto
      next
        case (ok r2 w3)
        then show ?thesis using acquiredI [OF assms(1) fresh False w2 ok(1)] closed
          by (auto simp: acquired_def unique_fd_move_assign_def unique_fd_close_def unique_fd_destroy_def
              unique_fd_of_def invalid_fd_def)
      qed
    qed
  qed
qed

subsection \<open>Properties\<close>

text \<open>C11: Connecting, listening and accepting lose no descriptor on any path: when they fail, the
  descriptors in use are those from before, however far they got; when they succeed, the one new
  descriptor is owned by the channel or server that is returned, and the reactor knows it. The
  surroundings of a waiting coroutine are assumed to leave the descriptors alone.\<close>

theorem socket_no_leak:
  assumes "fd_laws os opened" "\<And>s. opened (snd (env s)) = opened (snd s)"
  shows "(streamsocket_async_connect os g env co af sa s (r, w) = Ret (cres, s', r', w') \<longrightarrow>
      (case cres of Inl e \<Rightarrow> opened w' = opened w \<and> s' = s | Inr _ \<Rightarrow> acquired opened w (ss_fd s') (r', w'))) \<and>
    (server_listen os g af sa (r, w) = Ret (lres, r', w') \<longrightarrow>
      (case lres of Inl e \<Rightarrow> opened w' = opened w | Inr v \<Rightarrow> acquired opened w (sv_fd v) (r', w'))) \<and>
    (server_accept os g v (r, w) = Ret (ares, r', w') \<or>
      server_async_accept os g env co fuel v (r, w) = Ret (ares, r', w') \<longrightarrow>
      (case ares of Inl e \<Rightarrow> opened w' = opened w | Inr c \<Rightarrow> acquired opened w (ss_fd c) (r', w')))"
proof -
  have "case ares of Inl e \<Rightarrow> opened w' = opened w | Inr c \<Rightarrow> acquired opened w (ss_fd c) (r', w')"
    if "server_accept os g v (r, w) = Ret (ares, r', w')"
  proof -
    obtain k w1 where a: "sys_accept os (fd_value (sv_fd v)) w = (k, w1)" by fastforce
    have f: "fresh_fd opened w (k, w1)" using assms(1) a unfolding fd_laws_def by metis
    show ?thesis
    proof (cases "k < 0")
      case True
      then show ?thesis using that a f
        by (auto simp: server_accept_def unique_fd_value_def bind_run_eq_Ret sk_check_eq_Ret fresh_fd_def)
    next
      case False
      then have "accepted os g k (r, w1) = Ret (ares, r', w')" using that a
        by (auto simp: server_accept_def unique_fd_value_def bind_run_eq_Ret sk_check_eq_Ret)
      then show ?thesis using accepted_opened [OF assms(1) f] False by auto
    qed
  qed
  moreover have "case ares of Inl e \<Rightarrow> opened w' = opened w | Inr c \<Rightarrow> acquired opened w (ss_fd c) (r', w')"
    if acc: "server_async_accept os g env co fuel v (r, w) = Ret (ares, r', w')"
  proof -
    from acc obtain k r1 w1 where a: "async_fd_accept os env co fuel (fd_value (sv_fd v)) (r, w) = Ret (k, r1, w1)"
      "(case k of Inl e \<Rightarrow> Ret (Inl e, r1, w1) | Inr client \<Rightarrow> accepted os g client (r1, w1)) = Ret (ares, r', w')"
      by (auto simp: server_async_accept_def unique_fd_value_def bind_run_eq_Ret sk_check_eq_Ret dest!: with_weak_handle_Ret)
    note k = accept_opened [OF assms a(1)]
    show ?thesis
    proof (cases k)
      case (Inl e)
      then show ?thesis using a(2) k by auto
    next
      case (Inr c)
      then have "fresh_fd opened w (c, w1)" "c \<noteq> - 1" using k by (auto simp: fresh_fd_def)
      then show ?thesis using accepted_opened [OF assms(1)] a(2) Inr by simp
    qed
  qed
  ultimately show ?thesis using connect_socket_opened [OF assms] listen_opened [OF assms(1)] by blast
qed

text \<open>A system whose state is the list of descriptors in use, on which binding always fails, and closed
  descriptors are unknown to epoll.\<close>

definition busy_posix :: "int list posix" where
  "busy_posix = \<lparr>sys_open = (\<lambda>_ _ _ w. (- 1, w)), sys_close = (\<lambda>fd w. (0, removeAll fd w)), sys_read = (\<lambda>_ _ w. ((0, []), w)),
     sys_pread = (\<lambda>_ _ _ w. ((0, []), w)), sys_write = (\<lambda>_ _ w. (1, w)), sys_pwrite = (\<lambda>_ _ _ w. (0, w)),
     sys_errno = (\<lambda>_. 98)\<rparr>"

definition fresh_in :: "int list \<Rightarrow> int \<times> int list" where
  "fresh_in w = (let fd = Max (insert 0 (set w)) + 1 in (fd, fd # w))"

definition busy_net :: "int list sockets" where
  "busy_net = \<lparr>net_os = busy_posix, sys_pipe = (\<lambda>w. ((- 1, 0, 0), w)), sys_epoll_create = (\<lambda>w. (- 1, w)),
     sys_epoll_ctl = (\<lambda>_ _ fd _ w. (if fd \<in> set w then 0 else - 1, w)), sys_getfl = (\<lambda>_ w. (0, w)), sys_setfl = (\<lambda>_ _ w. w),
     sys_thread = (\<lambda>w. (None, w)), sys_join = (\<lambda>w. w), sys_recv = (\<lambda>_ _ _ w. ((0, []), w)),
     sys_send = (\<lambda>_ buf _ w. (int (length buf), w)), sys_connect = (\<lambda>_ _ w. (0, w)), sys_accept = (\<lambda>_. fresh_in),
     sys_socket = (\<lambda>_. fresh_in), sys_reuseaddr = (\<lambda>_ w. (0, w)), sys_bind = (\<lambda>_ _ w. (- 1, w)), sys_listen = (\<lambda>_ w. (0, w))\<rparr>"

lemma fresh_in_fresh: "fresh_fd set w (fresh_in w)"
proof -
  define m where "m = Max (insert 0 (set w))"
  have "x \<le> m" if "x \<in> insert 0 (set w)" for x unfolding m_def using that by (intro Max_ge) auto
  then have "0 \<le> m" "m + 1 \<notin> set w" by (simp, metis insertI2 add_le_same_cancel1 not_one_le_zero)
  then show ?thesis by (simp add: fresh_fd_def fresh_in_def Let_def m_def [symmetric])
qed

lemma busy_net_laws: "fd_laws busy_net set"
  by (auto simp: fd_laws_def busy_net_def busy_posix_def fresh_in_fresh)

abbreviation held_reactor :: reactor_global where
  "held_reactor \<equiv> \<lparr>reactor_refs = 1, reactor_running = True\<rparr>"

theorem socket_no_leak_witness:
  "\<exists>w'. server_listen busy_net held_reactor 2 [] (ready_reactor, [3]) = Ret (Inl (make_error 98), ready_reactor, w') \<and>
    set w' = {3}"
proof -
  define w' where "w' = unique_fd_destroy busy_posix (unique_fd_of 4) [4, 3]"
  have "server_listen busy_net held_reactor 2 [] (ready_reactor, [3]) = Ret (Inl (make_error 98), ready_reactor, w')"
    by (simp add: server_listen_def busy_net_def fresh_in_def AF_UNIX_def get_errno_def w'_def busy_posix_def)
  moreover have "set w' = {3}"
    using socket_no_leak [OF busy_net_laws, where env = "\<lambda>s. s" and g = held_reactor and af = 2 and sa = "[]" and
        r = ready_reactor and w = "[3]" and lres = "Inl (make_error 98)" and r' = ready_reactor and w' = w'] calculation
    by simp
  ultimately show ?thesis by blast
qed

text \<open>C30: Closing a stream socket leaves a trap: \<^verbatim>\<open>close\<close> keeps the descriptor in the object, so that the
  destructor asks the reactor to remove a descriptor that is closed, which the system refuses and
  which ends the program. \<^verbatim>\<open>async_close\<close> does release it, and the destructor has nothing to do.\<close>

theorem socket_close_traps:
  assumes "streamsocket_is_open s" "0 \<le> fd_value (ss_fd s)" "unique_fd_bool (epoll_fd r)" "1 \<le> reactor_refs g"
    "streamsocket_close os s w = Ret (res, s', w')"
    "fst (sys_epoll_ctl os (fd_value (epoll_fd r)) EPOLL_CTL_DEL (fd_value (ss_fd s)) None w') = - 1"
  shows "streamsocket_is_open s' \<and>
    streamsocket_destroy os g s' (r, w') = Abort ''epoll_reactor::deassociate_fd: EPOLL_CTL_DEL failed'' \<and>
    (\<exists>res s2 w2. streamsocket_async_close os g s w = Ret (res, s2, w2) \<and> \<not> streamsocket_is_open s2 \<and>
       streamsocket_destroy os g s2 (r, w2) = Ret (r, w2))"
proof -
  have "s' = s" using assms(1,5) by (auto simp: streamsocket_close_def Let_def split: prod.splits)
  then have "streamsocket_is_open s'" using assms(1) by simp
  moreover have "streamsocket_destroy os g s' (r, w') = Abort ''epoll_reactor::deassociate_fd: EPOLL_CTL_DEL failed''"
    using assms \<open>s' = s\<close>
    by (auto simp: streamsocket_destroy_def fd_owner_destroy_def streamsocket_is_open_def unique_fd_bool_def
        with_weak_handle_def weak_get_def handle_deref_def deassociate_fd_def unique_fd_value_def case_prod_beta Let_def)
  moreover have "\<exists>res s2 w2. streamsocket_async_close os g s w = Ret (res, s2, w2) \<and> \<not> streamsocket_is_open s2 \<and>
       streamsocket_destroy os g s2 (r, w2) = Ret (r, w2)"
    using assms(1,4)
    by (auto simp: streamsocket_async_close_def unique_fd_release_def with_weak_handle_def weak_get_def weak_destroy_def
        handle_deref_def case_prod_beta Let_def streamsocket_is_open_def unique_fd_bool_def streamsocket_destroy_def
        fd_owner_destroy_def unique_fd_destroy_def unique_fd_close_def)
  ultimately show ?thesis by blast
qed

theorem socket_close_traps_witness:
  "streamsocket_destroy busy_net held_reactor \<lparr>ss_fd = unique_fd_of 3\<rparr> (ready_reactor, []) =
     Abort ''epoll_reactor::deassociate_fd: EPOLL_CTL_DEL failed''"
proof -
  have "streamsocket_close busy_net \<lparr>ss_fd = unique_fd_of 3\<rparr> [3] = Ret (Inr (), \<lparr>ss_fd = unique_fd_of 3\<rparr>, [])"
    by (simp add: streamsocket_close_def streamsocket_is_open_def unique_fd_bool_def unique_fd_of_def invalid_fd_def
        unique_fd_close_def busy_net_def busy_posix_def is_error_def default_error_code_def)
  from socket_close_traps [OF _ _ _ _ this, of ready_reactor held_reactor] show ?thesis
    by (simp add: streamsocket_is_open_def unique_fd_bool_def unique_fd_of_def invalid_fd_def busy_net_def ready_reactor_def)
qed

text \<open>Every start of the reactor adds threads to the system executor and no stop ends them.\<close>

lemma linux_start_threads:
  assumes "linux_start os cores a x = (y, b, z)"
  shows "length (mt_threads (lr_executor b)) = length (mt_threads (lr_executor a)) + max 1 cores"
  using assms by (auto simp: linux_start_def Let_def mt_start_threads_def spawn_loop_eq split: prod.splits)

lemma linux_restart_threads:
  assumes "linux_start os cores l w = (Inr (), l1, w1)" "linux_stop os l1 w1 = Ret (l2, w2)"
    "linux_start os cores l2 w2 = (Inr (), l3, w3)" "mt_threads (lr_executor l) = []"
  shows "length (mt_threads (lr_executor l3)) = 2 * max 1 cores"
proof -
  have "lr_executor l2 = lr_executor l1" using assms(2)
    by (auto simp: linux_stop_def bind_run_eq_Ret split: option.splits)
  then show ?thesis using linux_start_threads [OF assms(1)] linux_start_threads [OF assms(3)] assms(4) by simp
qed

end
