(* ===== verification/Io_Uring.thy ===== *)
theory Io_Uring
  imports File_Channel Streamsocket "HOL-Library.Multiset"
begin

text \<open>
  The \<^verbatim>\<open>io_uring\<close> backend for files, \<^verbatim>\<open>src/src/include/sk/posix/detail/io_uring_reactor.hxx\<close>, and the choice
  \<^verbatim>\<open>linux_reactor.hxx\<close> makes between the backends. A request is a value of a type variable. The rings,
  which liburing shares with the system, are the submission queue of bounded size, the requests the
  system works on, and the completion queue; the system takes requests from the front of the
  submission queue when the library submits, and completes them in any order.
\<close>

section \<open>The io_uring reactor\<close>

record 'r ring =
  sq :: "'r list"
  sq_entries :: nat
  in_flight :: "'r list"
  cq :: "('r \<times> int) list"

text \<open>An entry is the request of a coroutine, or \<open>None\<close> for the no-op with null user data that asks the
  thread to end.\<close>

record 'r io_uring_reactor =
  ring :: "'r option ring"
  pending :: "'r option list"
  running :: bool

text \<open>\<^verbatim>\<open>io_uring_get_sqe\<close> and the copy into the entry: fails when the queue is full.\<close>

definition try_put_sq :: "'r \<Rightarrow> 'r ring \<Rightarrow> bool \<times> 'r ring" where
  "try_put_sq newsqe r =
     (if length (sq r) < sq_entries r then (True, r\<lparr>sq := sq r @ [newsqe]\<rparr>) else (False, r))"

text \<open>\<^verbatim>\<open>io_uring_submit\<close>: the system takes the first \<open>k\<close> entries; the result is \<open>ret\<close>, a number of entries or a
  negated error number.\<close>

definition ring_submit :: "nat \<Rightarrow> 'r ring \<Rightarrow> 'r ring" where
  "ring_submit k r = r\<lparr>sq := drop k (sq r), in_flight := in_flight r @ take k (sq r)\<rparr>"

definition EBUSY :: int where "EBUSY = 16"

definition ENOMEM :: int where "ENOMEM = 12"

text \<open>\<open>submitted\<close> is what the call of \<^verbatim>\<open>io_uring_submit\<close> does, \<open>alloc\<close> whether \<^verbatim>\<open>push_back\<close> gets memory. The error
  that is returned is \<^verbatim>\<open>errno\<close> of the thread, which \<^verbatim>\<open>io_uring_submit\<close> does not set.\<close>

definition put_sq ::
  "int \<times> nat \<Rightarrow> bool \<Rightarrow> int \<Rightarrow> 'r option \<Rightarrow> 'r io_uring_reactor \<Rightarrow> (error_code + unit) \<times> 'r io_uring_reactor" where
  "put_sq submitted alloc errno newsqe u =
     (let (ok, r) = try_put_sq newsqe (ring u)
      in if ok then
           let (ret, k) = submitted; u = u\<lparr>ring := ring_submit k r\<rparr>
           in (if ret \<ge> 0 \<or> ret = - EBUSY then Inr () else Inl (make_error errno), u)
         else if alloc then (Inr (), u\<lparr>pending := pending u @ [newsqe]\<rparr>)
         else (Inl (generic_error ENOMEM), u))"

text \<open>The thread posts the completions that are there, with their results, up to the first one with null
  user data; the second component are the completions that are left.\<close>

fun post_completions :: "('r option \<times> int) list \<Rightarrow> ('r \<times> int) list \<times> ('r option \<times> int) list" where
  "post_completions [] = ([], [])"
| "post_completions ((None, res) # cqes) = ([], (None, res) # cqes)"
| "post_completions ((Some q, res) # cqes) =
     (let (ds, rest) = post_completions cqes in ((q, res) # ds, rest))"

fun put_pending :: "'r list \<Rightarrow> 'r ring \<Rightarrow> 'r list \<times> 'r ring" where
  "put_pending [] r = ([], r)"
| "put_pending (q # qs) r =
     (let (ok, r') = try_put_sq q r in if ok then put_pending qs r' else (q # qs, r))"

text \<open>One round of the thread: without a shutdown request pending requests are put into the submission
  queue as long as there is room, and submitted.\<close>

definition thread_round :: "nat \<Rightarrow> 'r io_uring_reactor \<Rightarrow> ('r \<times> int) list \<times> 'r io_uring_reactor" where
  "thread_round k u =
     (let (ds, rest) = post_completions (cq (ring u)); r = (ring u)\<lparr>cq := rest\<rparr>
      in if rest \<noteq> [] then (ds, u\<lparr>ring := r, running := False\<rparr>)
         else let (qs, r) = put_pending (pending u) r in (ds, u\<lparr>ring := ring_submit k r, pending := qs\<rparr>))"

text \<open>\<^verbatim>\<open>start\<close> and \<^verbatim>\<open>stop\<close>; \<open>thrown\<close> is the error with which the constructor of the thread throws, if it does.
  \<^verbatim>\<open>stop\<close> ignores the result, and waits for the thread.\<close>

definition uring_start :: "error_code option \<Rightarrow> 'r io_uring_reactor \<Rightarrow> (error_code + unit) \<times> 'r io_uring_reactor" where
  "uring_start thrown u = (case thrown of None \<Rightarrow> (Inr (), u\<lparr>running := True\<rparr>) | Some e \<Rightarrow> (Inl e, u))"

definition uring_stop :: "int \<times> nat \<Rightarrow> bool \<Rightarrow> int \<Rightarrow> 'r io_uring_reactor \<Rightarrow> 'r io_uring_reactor" where
  "uring_stop submitted alloc errno u = snd (put_sq submitted alloc errno None u)"

text \<open>The system completes a request with a result.\<close>

definition complete :: "nat \<Rightarrow> int \<Rightarrow> 'r ring \<Rightarrow> 'r ring" where
  "complete i res r =
     r\<lparr>in_flight := take i (in_flight r) @ drop (Suc i) (in_flight r), cq := cq r @ [(in_flight r ! i, res)]\<rparr>"

definition uring_new :: "nat \<Rightarrow> 'r io_uring_reactor" where
  "uring_new n = \<lparr>ring = \<lparr>sq = [], sq_entries = n, in_flight = [], cq = []\<rparr>, pending = [], running = False\<rparr>"

definition ring_full :: "'r ring \<Rightarrow> bool" where
  "ring_full r \<longleftrightarrow> sq_entries r \<le> length (sq r)"

text \<open>The life of a reactor. \<open>A\<close> are the entries that were put, \<open>D\<close> those refused for lack of memory, \<open>C\<close> those
  whose coroutines were posted.\<close>

inductive uring_run ::
  "'r io_uring_reactor \<Rightarrow> 'r option multiset \<Rightarrow> 'r option multiset \<Rightarrow> 'r option multiset \<Rightarrow> bool" where
  run_new: "0 < n \<Longrightarrow> uring_run (uring_new n) {#} {#} {#}"
| run_start: "uring_run u A D C \<Longrightarrow> uring_run (snd (uring_start thrown u)) A D C"
| run_put: "uring_run u A D C \<Longrightarrow> put_sq s alloc errno q u = (res, u') \<Longrightarrow>
    uring_run u' (add_mset q A) (if ring_full (ring u) \<and> \<not> alloc then add_mset q D else D) C"
| run_complete: "uring_run u A D C \<Longrightarrow> i < length (in_flight (ring u)) \<Longrightarrow>
    uring_run (u\<lparr>ring := complete i res (ring u)\<rparr>) A D C"
| run_thread: "uring_run u A D C \<Longrightarrow> running u \<Longrightarrow> cq (ring u) \<noteq> [] \<Longrightarrow> thread_round k u = (ds, u') \<Longrightarrow>
    uring_run u' A D (C + mset (map (Some \<circ> fst) ds))"

definition ring_requests :: "'r ring \<Rightarrow> 'r multiset" where
  "ring_requests r = mset (sq r) + mset (in_flight r) + mset (map fst (cq r))"

lemma ring_submit_requests [simp]: "ring_requests (ring_submit k r) = ring_requests r"
proof -
  have "mset (take k (sq r)) + mset (drop k (sq r)) = mset (sq r)" by (metis append_take_drop_id mset_append)
  then show ?thesis by (simp add: ring_requests_def ring_submit_def ac_simps)
qed

lemma ring_submit_entries [simp]: "sq_entries (ring_submit k r) = sq_entries r"
  by (simp add: ring_submit_def)

lemma try_put_requests:
  "try_put_sq q r = (True, r') \<Longrightarrow> \<not> ring_full r \<and> ring_requests r' = add_mset q (ring_requests r) \<and> sq_entries r' = sq_entries r"
  "try_put_sq q r = (False, r') \<Longrightarrow> r' = r \<and> ring_full r"
  by (auto simp: try_put_sq_def ring_requests_def ring_full_def split: if_splits)

lemma put_pending_requests:
  assumes "put_pending qs r = (qs', r')"
  shows "ring_requests r' + mset qs' = ring_requests r + mset qs \<and> (qs' \<noteq> [] \<longrightarrow> ring_full r') \<and>
    sq_entries r' = sq_entries r"
  using assms
proof (induction qs r rule: put_pending.induct)
  case (2 q qs r)
  obtain ok r1 where t: "try_put_sq q r = (ok, r1)" by fastforce
  show ?case
  proof (cases ok)
    case True
    then show ?thesis using 2(1) [OF t [symmetric] refl True] 2(2) t try_put_requests(1) [of q r r1] by simp
  next
    case False
    then show ?thesis using 2 t try_put_requests(2) [of q r r1] by auto
  qed
qed simp

lemma complete_requests:
  assumes "i < length (in_flight r)"
  shows "ring_requests (complete i res r) = ring_requests r"
proof -
  have "mset (in_flight r) = mset (take i (in_flight r) @ drop (Suc i) (in_flight r)) + {#in_flight r ! i#}"
    by (metis (no_types) add_mset_add_single assms id_take_nth_drop mset.simps(2) mset_append union_mset_add_mset_right)
  then show ?thesis by (simp add: ring_requests_def complete_def ac_simps)
qed

lemma put_sq_requests:
  assumes "put_sq s alloc errno q u = (res, u')"
  shows "ring_requests (ring u') + mset (pending u') + (if ring_full (ring u) \<and> \<not> alloc then {#q#} else {#}) =
      add_mset q (ring_requests (ring u) + mset (pending u)) \<and>
    sq_entries (ring u') = sq_entries (ring u) \<and> (ring_requests (ring u') \<noteq> {#} \<or> ring_full (ring u) \<and> ring u' = ring u)"
proof -
  obtain ok r where t: "try_put_sq q (ring u) = (ok, r)" by fastforce
  obtain ret k where s: "s = (ret, k)" by fastforce
  show ?thesis
  proof (cases ok)
    case True
    then have "ring u' = ring_submit k r" "pending u' = pending u" using assms t s by (auto simp: put_sq_def Let_def)
    then show ?thesis using try_put_requests(1) [of q "ring u" r] t True by simp
  next
    case False
    then show ?thesis using assms t s try_put_requests(2) [of q "ring u" r] by (auto simp: put_sq_def Let_def split: if_splits)
  qed
qed

lemma post_completions_eq: "post_completions cs = (ds, rest) \<Longrightarrow>
    cs = map (\<lambda>(q, res). (Some q, res)) ds @ rest \<and> (rest \<noteq> [] \<longrightarrow> fst (hd rest) = None)"
  by (induction cs arbitrary: ds rest rule: post_completions.induct) (auto simp: Let_def split: prod.splits)

text \<open>Requests are neither lost nor repeated; and pending requests are never left alone.\<close>

definition uring_inv :: "'r io_uring_reactor \<Rightarrow> 'r option multiset \<Rightarrow> 'r option multiset \<Rightarrow> 'r option multiset \<Rightarrow> bool" where
  "uring_inv u A D C \<longleftrightarrow> A = C + D + (ring_requests (ring u) + mset (pending u)) \<and> 0 < sq_entries (ring u) \<and>
     (pending u \<noteq> [] \<longrightarrow> ring_requests (ring u) \<noteq> {#})"

lemma full_requests: "0 < sq_entries r \<Longrightarrow> ring_full r \<Longrightarrow> ring_requests r \<noteq> {#}"
  by (auto simp: ring_requests_def ring_full_def)

lemma thread_round_inv:
  assumes "uring_inv u A D C" "thread_round k u = (ds, u')"
  shows "uring_inv u' A D (C + mset (map (Some \<circ> fst) ds))"
proof -
  obtain rest where c: "post_completions (cq (ring u)) = (ds, rest)"
    using assms(2) by (auto simp: thread_round_def Let_def split: prod.splits if_splits)
  define r where "r = (ring u)\<lparr>cq := rest\<rparr>"
  have "map fst (cq (ring u)) = map (Some \<circ> fst) ds @ map fst rest"
    using post_completions_eq [OF c] by (simp add: case_prod_beta comp_def)
  then have q: "ring_requests (ring u) = ring_requests r + mset (map (Some \<circ> fst) ds)"
    by (simp add: ring_requests_def r_def del: map_map)
  show ?thesis
  proof (cases "rest = []")
    case False
    then have "u' = u\<lparr>ring := r, running := False\<rparr>" using assms(2) c by (auto simp: thread_round_def r_def)
    moreover have "fst (hd rest) \<in># ring_requests r" using False by (simp add: ring_requests_def r_def)
    ultimately show ?thesis using assms(1) q by (auto simp: uring_inv_def r_def)
  next
    case True
    obtain qs r' where p: "put_pending (pending u) r = (qs, r')" by fastforce
    then have "u' = u\<lparr>ring := ring_submit k r', pending := qs\<rparr>" using assms(2) c True by (simp add: thread_round_def r_def)
    then show ?thesis using put_pending_requests [OF p] assms(1) q full_requests [of r']
      by (auto simp: uring_inv_def r_def ac_simps)
  qed
qed

lemma uring_run_inv: "uring_run u A D C \<Longrightarrow> uring_inv u A D C"
proof (induction rule: uring_run.induct)
  case (run_new n)
  then show ?case by (simp add: uring_inv_def ring_requests_def uring_new_def)
next
  case (run_start u A D C thrown)
  then show ?case by (cases thrown) (simp_all add: uring_inv_def uring_start_def)
next
  case (run_put u A D C s alloc errno q res u')
  have "ring_requests (ring u') \<noteq> {#}" "0 < sq_entries (ring u')"
    using put_sq_requests [OF run_put(2)] run_put(3) full_requests [of "ring u"] by (auto simp: uring_inv_def)
  then show ?case using run_put(3) put_sq_requests [OF run_put(2)] by (auto simp: uring_inv_def split: if_splits)
next
  case (run_complete u A D C i res)
  then show ?case by (simp add: uring_inv_def complete_requests) (simp add: complete_def)
next
  case (run_thread u A D C k ds u')
  then show ?case using thread_round_inv by blast
qed

text \<open>A request whose coroutine is told that it could not be submitted is in the ring all the same.\<close>

lemma put_sq_failed_queued:
  assumes "\<not> ring_full (ring u)" "ret < 0" "ret \<noteq> - EBUSY"
  shows "fst (put_sq (ret, k) alloc errno q u) = Inl (make_error errno) \<and>
    q \<in># ring_requests (ring (snd (put_sq (ret, k) alloc errno q u)))"
  using assms ring_submit_requests [of k "(ring u)\<lparr>sq := sq (ring u) @ [q]\<rparr>"]
  by (simp add: put_sq_def try_put_sq_def ring_full_def) (simp add: ring_requests_def)

subsection \<open>File operations\<close>

text \<open>\<^verbatim>\<open>co_sqe_wait\<close>: the value of the await is the result of the completion, minus one when the request
  could not be queued. The operations return it as it is, which makes it a value of \<^verbatim>\<open>expected\<close>, also
  when it is a negated error number. \<open>queued\<close> says whether the request was queued; \<open>res\<close> is the result
  the system completes it with.\<close>

definition co_sqe_wait :: "bool \<Rightarrow> int \<Rightarrow> error_code + int" where
  "co_sqe_wait queued res = Inr (if queued then res else - 1)"

text \<open>The system does the work of the call, and completes the request with its result or the negated
  error number.\<close>

definition uring_fd_open :: "'w posix \<Rightarrow> bool \<Rightarrow> string \<Rightarrow> 32 word \<Rightarrow> nat \<Rightarrow> 'w \<Rightarrow> (error_code + int) \<times> 'w" where
  "uring_fd_open os queued path flags mode w =
     (if queued then let (res, w) = or_errno os (sys_open os path flags mode w) in (co_sqe_wait True res, w)
      else (co_sqe_wait False 0, w))"

definition uring_fd_close :: "'w posix \<Rightarrow> bool \<Rightarrow> int \<Rightarrow> 'w \<Rightarrow> (error_code + int) \<times> 'w" where
  "uring_fd_close os queued fd w =
     (if queued then let (res, w) = or_errno os (sys_close os fd w) in (co_sqe_wait True res, w)
      else (co_sqe_wait False 0, w))"

text \<open>The length of a request has 32 bits.\<close>

definition sqe_len :: "nat \<Rightarrow> nat" where
  "sqe_len n = unat (word_of_nat n :: 32 word)"

lemma sqe_len_small [simp]: "n < 2 ^ 32 \<Longrightarrow> sqe_len n = n"
  by (simp add: sqe_len_def unat_of_nat take_bit_nat_eq_self)

definition uring_fd_read :: "'w posix \<Rightarrow> bool \<Rightarrow> int \<Rightarrow> nat \<Rightarrow> 'w \<Rightarrow> ((error_code + int) \<times> byte list) \<times> 'w" where
  "uring_fd_read os queued fd n w =
     (if queued then
        let ((r, buf), w) = sys_read os fd (sqe_len n) w; (res, w) = or_errno os (r, w) in ((co_sqe_wait True res, buf), w)
      else ((co_sqe_wait False 0, []), w))"

definition uring_fd_pread :: "'w posix \<Rightarrow> bool \<Rightarrow> int \<Rightarrow> nat \<Rightarrow> int \<Rightarrow> 'w \<Rightarrow> ((error_code + int) \<times> byte list) \<times> 'w" where
  "uring_fd_pread os queued fd n offs w =
     (if queued then
        let ((r, buf), w) = sys_pread os fd (sqe_len n) offs w; (res, w) = or_errno os (r, w) in ((co_sqe_wait True res, buf), w)
      else ((co_sqe_wait False 0, []), w))"

definition uring_fd_write :: "'w posix \<Rightarrow> bool \<Rightarrow> int \<Rightarrow> byte list \<Rightarrow> 'w \<Rightarrow> (error_code + int) \<times> 'w" where
  "uring_fd_write os queued fd buf w =
     (if queued then let (res, w) = or_errno os (sys_write os fd (take (sqe_len (length buf)) buf) w) in (co_sqe_wait True res, w)
      else (co_sqe_wait False 0, w))"

definition uring_fd_pwrite :: "'w posix \<Rightarrow> bool \<Rightarrow> int \<Rightarrow> byte list \<Rightarrow> int \<Rightarrow> 'w \<Rightarrow> (error_code + int) \<times> 'w" where
  "uring_fd_pwrite os queued fd buf offs w =
     (if queued then let (res, w) = or_errno os (sys_pwrite os fd (take (sqe_len (length buf)) buf) offs w) in (co_sqe_wait True res, w)
      else (co_sqe_wait False 0, w))"

text \<open>\<^verbatim>\<open>io_uring_reactor::make\<close>: no reactor when the system lacks a feature or an operation, an error only when
  there is no memory. \<open>n\<close> is the size of the queue, which the system may make smaller than asked for.\<close>

datatype uring_op = IORING_OP_NOP | IORING_OP_OPENAT | IORING_OP_CLOSE | IORING_OP_READ | IORING_OP_WRITE

definition uring_make ::
  "bool \<Rightarrow> nat \<Rightarrow> int \<Rightarrow> bool \<Rightarrow> uring_op set option \<Rightarrow> error_code + 'r io_uring_reactor option" where
  "uring_make alloc n init features probe =
     (if \<not> alloc then Inl (generic_error ENOMEM)
      else if init < 0 \<or> \<not> features then Inr None
      else case probe of
          None \<Rightarrow> Inr None
        | Some ops \<Rightarrow>
            if IORING_OP_NOP \<in> ops \<and> IORING_OP_OPENAT \<in> ops \<and> IORING_OP_CLOSE \<in> ops \<and> IORING_OP_READ \<in> ops \<and>
              IORING_OP_WRITE \<in> ops
            then Inr (Some (uring_new n)) else Inr None)"

text \<open>\<^verbatim>\<open>linux_reactor::start\<close> and \<^verbatim>\<open>stop\<close> in a build with io_uring. \<open>made\<close> is the result of \<open>uring_make\<close>.\<close>

type_synonym ('x, 'c, 'i, 'r) linux_uring_reactor = "('x, 'c, 'i) linux_reactor \<times> 'r io_uring_reactor option"

definition linux_uring_start ::
  "'w sockets \<Rightarrow> nat \<Rightarrow> error_code + 'r io_uring_reactor option \<Rightarrow> error_code option \<Rightarrow>
   ('x, 'c, 'i, 'r) linux_uring_reactor \<Rightarrow> 'w \<Rightarrow> (error_code + unit) \<times> ('x, 'c, 'i, 'r) linux_uring_reactor \<times> 'w" where
  "linux_uring_start os cores made thrown l w =
     (case made of
        Inl e \<Rightarrow> (Inl e, ((fst l)\<lparr>lr_epoll := Some epoll_reactor_new\<rparr>, snd l), w)
      | Inr m \<Rightarrow>
          let ur = (case m of None \<Rightarrow> snd l | Some u \<Rightarrow> Some u); (ret, lr, w) = linux_start os cores (fst l) w
          in case ret of
               Inl e \<Rightarrow> (Inl e, (lr, ur), w)
             | Inr _ \<Rightarrow>
                 case ur of
                   None \<Rightarrow> (Inr (), (lr, None), w)
                 | Some u \<Rightarrow> let (ret, u) = uring_start thrown u in (ret, (lr, Some u), w))"

definition linux_uring_stop ::
  "'w sockets \<Rightarrow> int \<times> nat \<Rightarrow> bool \<Rightarrow> int \<Rightarrow> ('x, 'c, 'i, 'r) linux_uring_reactor \<Rightarrow> 'w \<Rightarrow>
   (('x, 'c, 'i, 'r) linux_uring_reactor \<times> 'w) run" where
  "linux_uring_stop os submitted alloc errno l w =
     bind_run (linux_stop os (fst l) w) (\<lambda>(lr, w). Ret ((lr, map_option (uring_stop submitted alloc errno) (snd l)), w))"

text \<open>After a start that succeeds the epoll reactor exists, and the thread of the io_uring reactor runs when
  there is such a reactor.\<close>

lemma linux_uring_start_running:
  assumes "linux_uring_start os cores made thrown l w = (Inr (), l', w')"
  shows "lr_epoll (fst l') \<noteq> None \<and> (\<forall>u. snd l' = Some u \<longrightarrow> running u)"
  using assms
  by (auto simp: linux_uring_start_def linux_start_def uring_start_def Let_def split: sum.splits option.splits prod.splits)

text \<open>The choice of \<^verbatim>\<open>linux_reactor\<close>; \<open>uring\<close> is its pointer to the io_uring reactor, if any, and whether
  requests can be queued.\<close>

definition linux_fd_open ::
  "bool option \<Rightarrow> 'w posix \<Rightarrow> string \<Rightarrow> 32 word \<Rightarrow> nat \<Rightarrow> 'w \<Rightarrow> (error_code + int) \<times> 'w" where
  "linux_fd_open uring os path flags mode w =
     (case uring of Some queued \<Rightarrow> uring_fd_open os queued path flags mode w | None \<Rightarrow> async_fd_open os path flags mode w)"

definition linux_fd_close :: "bool option \<Rightarrow> 'w posix \<Rightarrow> int \<Rightarrow> 'w \<Rightarrow> (error_code + int) \<times> 'w" where
  "linux_fd_close uring os fd w =
     (case uring of Some queued \<Rightarrow> uring_fd_close os queued fd w | None \<Rightarrow> async_fd_close os fd w)"

definition linux_fd_write ::
  "bool option \<Rightarrow> 'w posix \<Rightarrow> int \<Rightarrow> byte list \<Rightarrow> 'w \<Rightarrow> ((error_code + int) \<times> 'w) run" where
  "linux_fd_write uring os fd buf w =
     (case uring of Some queued \<Rightarrow> Ret (uring_fd_write os queued fd buf w) | None \<Rightarrow> async_fd_write os fd buf w)"

definition linux_fd_pwrite ::
  "bool option \<Rightarrow> 'w posix \<Rightarrow> int \<Rightarrow> byte list \<Rightarrow> int \<Rightarrow> 'w \<Rightarrow> ((error_code + int) \<times> 'w) run" where
  "linux_fd_pwrite uring os fd buf offs w =
     (case uring of Some queued \<Rightarrow> Ret (uring_fd_pwrite os queued fd buf offs w) | None \<Rightarrow> async_fd_pwrite os fd buf offs w)"

definition linux_fd_read ::
  "bool option \<Rightarrow> 'w posix \<Rightarrow> int \<Rightarrow> nat \<Rightarrow> 'w \<Rightarrow> ((error_code + int \<times> byte list) \<times> 'w) run" where
  "linux_fd_read uring os fd n w =
     (case uring of
        Some queued \<Rightarrow> (let ((r, buf), w) = uring_fd_read os queued fd n w in Ret (map_sum (\<lambda>e. e) (\<lambda>k. (k, buf)) r, w))
      | None \<Rightarrow> async_fd_read os fd n w)"

definition linux_fd_pread ::
  "bool option \<Rightarrow> 'w posix \<Rightarrow> int \<Rightarrow> nat \<Rightarrow> int \<Rightarrow> 'w \<Rightarrow> ((error_code + int \<times> byte list) \<times> 'w) run" where
  "linux_fd_pread uring os fd n offs w =
     (case uring of
        Some queued \<Rightarrow> (let ((r, buf), w) = uring_fd_pread os queued fd n offs w in Ret (map_sum (\<lambda>e. e) (\<lambda>k. (k, buf)) r, w))
      | None \<Rightarrow> async_fd_pread os fd n offs w)"

text \<open>Opening a file channel on Linux.\<close>

definition linux_base_open ::
  "bool option \<Rightarrow> 'w posix \<Rightarrow> filechannel \<Rightarrow> string \<Rightarrow> fileflagset \<Rightarrow> 'w \<Rightarrow> (error_code + unit) \<times> filechannel \<times> 'w" where
  "linux_base_open uring os = base_open_with (linux_fd_open uring os) os"

subsection \<open>Properties\<close>

text \<open>C10: Every request put into the io_uring reactor is completed at most once and never lost: at any time
  the requests put are those whose coroutines were resumed, those refused for lack of memory, those in
  the rings and those pending. A request that waits because the submission queue was full is never
  left alone: there is another one in the rings, whose completion makes the thread try again.\<close>

theorem uring_requests_kept:
  assumes "uring_run u A D C"
  shows "A = C + D + (ring_requests (ring u) + mset (pending u)) \<and> count C q \<le> count A q \<and>
    (pending u \<noteq> [] \<longrightarrow> ring_requests (ring u) \<noteq> {#})"
  using uring_run_inv [OF assms] by (auto simp: uring_inv_def)

theorem uring_requests_kept_witness:
  "\<exists>u. uring_run u {#Some 8, Some 7#} {#} {#} \<and> pending u = [Some (8::nat)] \<and> ring_requests (ring u) \<noteq> {#}"
proof -
  define u0 :: "nat io_uring_reactor" where "u0 = uring_new 1"
  define u1 where "u1 = u0\<lparr>ring := (ring u0)\<lparr>sq := [Some 7]\<rparr>\<rparr>"
  have r0: "uring_run u0 {#} {#} {#}" unfolding u0_def by (rule run_new) simp
  have "put_sq (- EBUSY, 0) True 0 (Some 7) u0 = (Inr (), u1)"
    by (simp add: put_sq_def try_put_sq_def u0_def uring_new_def u1_def ring_submit_def)
  from run_put [OF r0 this] have r1: "uring_run u1 {#Some 7#} {#} {#}" by simp
  have "put_sq (0, 0) True 0 (Some 8) u1 = (Inr (), u1\<lparr>pending := [Some 8]\<rparr>)"
    by (simp add: put_sq_def try_put_sq_def u0_def uring_new_def u1_def)
  from run_put [OF r1 this] have r2: "uring_run (u1\<lparr>pending := [Some 8]\<rparr>) {#Some 8, Some 7#} {#} {#}" by simp
  from uring_requests_kept [OF r2] have "ring_requests (ring (u1\<lparr>pending := [Some 8]\<rparr>)) \<noteq> {#}" by auto
  then show ?thesis using r2 by (intro exI [of _ "u1\<lparr>pending := [Some 8]\<rparr>"]) simp
qed

text \<open>C19: With io_uring errors of file operations are taken for success: when the system refuses to open a
  file, the channel is open with a descriptor that is the negated error number, and a failing read
  or write returns the negated error number as a size. The backend without io_uring reports the
  error in all of these cases.\<close>

theorem uring_loses_errors:
  assumes "sys_open os path (snd (make_flags flags)) 0x1FF w = (- 1, w')" "sys_errno os w' \<in> {1<..<2 ^ 31}"
    "\<not> filechannel_is_open c" "fst (make_flags flags)" "CHR 0x00 \<notin> set path"
  shows "(\<exists>c' w2. linux_base_open (Some True) os c path flags w = (Inr (), c', w2) \<and>
      filechannel_is_open c' \<and> fd_value (fc_fd c') = - sys_errno os w') \<and>
    linux_base_open None os c path flags w = (Inl (get_errno os w'), c, w') \<and>
    (sys_write os fd (take (sqe_len (length buf)) buf) v = (- 1, w') \<longrightarrow>
      linux_fd_write (Some True) os fd buf v = Ret (Inr (- sys_errno os w'), w')) \<and>
    (sys_write os fd buf v = (- 1, w') \<longrightarrow> linux_fd_write None os fd buf v = Ret (Inl (get_errno os w'), w'))"
proof -
  have closed: "fd_value (fc_fd c) = - 1" using assms(3) by (simp add: fd_defs)
  have "linux_base_open (Some True) os c path flags w =
      (Inr (), c\<lparr>fc_fd := (fc_fd c)\<lparr>fd_value := - sys_errno os w'\<rparr>\<rparr>, w')"
    using assms closed
    by (simp add: linux_base_open_def base_open_with_def linux_fd_open_def uring_fd_open_def co_sqe_wait_def or_errno_def
        case_prod_beta unique_fd_assign_def unique_fd_close_def invalid_fd_def)
  moreover have "linux_base_open None os c path flags w = (Inl (get_errno os w'), c, w')"
    using assms by (simp add: linux_base_open_def base_open_with_def linux_fd_open_def async_fd_open_def or_errno_def
        case_prod_beta get_errno_def)
  moreover have "linux_fd_write (Some True) os fd buf v = Ret (Inr (- sys_errno os w'), w')"
    if "sys_write os fd (take (sqe_len (length buf)) buf) v = (- 1, w')"
    using that assms(2) by (auto simp: linux_fd_write_def uring_fd_write_def co_sqe_wait_def or_errno_def)
  moreover have "linux_fd_write None os fd buf v = Ret (Inl (get_errno os w'), w')" if "sys_write os fd buf v = (- 1, w')"
    using that assms(2) by (auto simp: linux_fd_write_def async_fd_write_def or_errno_def
        async_result_def narrow_errno_def get_errno_def)
  ultimately show ?thesis using assms(2) by (simp add: fd_defs)
qed

theorem uring_loses_errors_witness:
  "linux_fd_write (Some True) full_disk 3 [1] () = Ret (Inr (- 28), ()) \<and>
   linux_fd_write None full_disk 3 [1] () = Ret (Inl (make_error 28), ())"
proof -
  define nodisk where "nodisk = full_disk\<lparr>sys_open := \<lambda>_ _ _ w. (- 1, w)\<rparr>"
  have w: "sys_write nodisk 3 [1] () = (- 1, ())" "sys_errno nodisk () = 28" by (simp_all add: nodisk_def full_disk_def)
  have f: "fst (make_flags \<lparr>flags_value = flag_value fileflags_read\<rparr>)"
    by (simp add: make_flags_meaning is_set_def fileflags_read_def fileflags_write_def fileflags_trunc_def
        fileflags_append_def fileflags_create_new_def)
  have "linux_fd_write (Some True) nodisk 3 [1] () = Ret (Inr (- 28), ()) \<and>
      linux_fd_write None nodisk 3 [1] () = Ret (Inl (make_error 28), ())"
    using uring_loses_errors [of nodisk "''a''" "\<lparr>flags_value = flag_value fileflags_read\<rparr>" "()" "()" filechannel_new 3 "[1]" "()"] w f
    by (simp add: nodisk_def filechannel_new_def fd_defs unique_fd_empty_def get_errno_def)
  then show ?thesis by (simp add: nodisk_def linux_fd_write_def uring_fd_write_def async_fd_write_def async_result_def or_errno_def full_disk_def)
qed

end
