(* ===== verification/Endpoint.thy ===== *)
theory Endpoint
  imports Streamsocket
begin

text \<open>
  TCP and UNIX endpoints and channels, \<^verbatim>\<open>src/src/include/sk/net/detail/sockets/tcpchannel.hxx\<close> and
  \<^verbatim>\<open>unixchannel.hxx\<close>, and the name resolver at the end of \<^verbatim>\<open>net/address.hxx\<close>. The layouts of the socket
  addresses are those of Linux on a machine with the low byte first, as in \<open>Address\<close>. \<^verbatim>\<open>getaddrinfo\<close> is
  a parameter; its result, a linked list, is a list of socket addresses with their lengths, and a
  pointer into it is what is left of the list from there.
\<close>

section \<open>Endpoints\<close>

subsection \<open>TCP endpoints\<close>

record tcp_endpoint =
  ep_address :: unspecified_address
  ep_port :: "16 word"

definition tcp_endpoint_set_port :: "16 word \<Rightarrow> tcp_endpoint \<Rightarrow> 16 word \<times> tcp_endpoint" where
  "tcp_endpoint_set_port p ep = (ep_port ep, ep\<lparr>ep_port := p\<rparr>)"

text \<open>\<^verbatim>\<open>htons\<close> as it lies in memory, and \<^verbatim>\<open>ntohs\<close> of two bytes in memory.\<close>

definition htons_bytes :: "16 word \<Rightarrow> byte list" where
  "htons_bytes p = [ucast (drop_bit 8 p), ucast p]"

definition ntohs_at :: "byte list \<Rightarrow> nat \<Rightarrow> 16 word" where
  "ntohs_at sa i = join16 (sa ! i) (sa ! (i + 1))"

definition family_bytes :: "nat \<Rightarrow> byte list" where
  "family_bytes af = [of_nat (af mod 256), of_nat (af div 256)]"

definition sockaddr_in_size :: nat where "sockaddr_in_size = 16"
definition sockaddr_in6_size :: nat where "sockaddr_in6_size = 28"
definition sockaddr_storage_size :: nat where "sockaddr_storage_size = 128"

text \<open>The families the switch does not name end the program.\<close>

definition tcp_as_sockaddr_storage :: "tcp_endpoint \<Rightarrow> byte list run" where
  "tcp_as_sockaddr_storage ep =
     (case ep_address ep of
        Inet a \<Rightarrow>
          let sin = family_bytes AF_INET @ htons_bytes (ep_port ep) @ a @ replicate 8 0
          in Ret (copy_at (replicate sockaddr_storage_size 0) 0 sin)
      | Inet6 a \<Rightarrow>
          let sin6 = family_bytes AF_INET6 @ htons_bytes (ep_port ep) @ replicate 4 0 @ a @ replicate 4 0
          in Ret (copy_at (replicate sockaddr_storage_size 0) 0 sin6)
      | Unix _ \<Rightarrow> Abort ''abort'')"

definition tcp_endpoint_eq :: "tcp_endpoint \<Rightarrow> tcp_endpoint \<Rightarrow> bool" where
  "tcp_endpoint_eq a b \<longleftrightarrow> address_eq (ep_address a) (ep_address b) \<and> ep_port a = ep_port b"

definition tcp_endpoint_less :: "tcp_endpoint \<Rightarrow> tcp_endpoint \<Rightarrow> bool" where
  "tcp_endpoint_less a b \<longleftrightarrow>
     (if address_less (ep_address a) (ep_address b) then True
      else if address_eq (ep_address a) (ep_address b) then ep_port a < ep_port b
      else False)"

definition tcp_endpoint_str :: "(byte list \<Rightarrow> string option) \<Rightarrow> tcp_endpoint \<Rightarrow> (error_code + string) run" where
  "tcp_endpoint_str inet_ntop6 ep =
     bind_run (unspecified_to_string inet_ntop6 (ep_address ep)) (\<lambda>s.
       case s of
         Inl e \<Rightarrow> Ret (Inl e)
       | Inr s \<Rightarrow>
           if contained_tag (ep_address ep) = AF_INET then Ret (Inr (s @ '':'' @ to_chars 10 (unat (ep_port ep))))
           else if contained_tag (ep_address ep) = AF_INET6 then
             Ret (Inr (''['' @ s @ '']:'' @ to_chars 10 (unat (ep_port ep))))
           else Abort ''abort'')"

definition make_tcp_endpoint :: "unspecified_address \<Rightarrow> 16 word \<Rightarrow> error_code + tcp_endpoint" where
  "make_tcp_endpoint a port =
     (if contained_tag a = AF_INET \<or> contained_tag a = AF_INET6 then Inr \<lparr>ep_address = a, ep_port = port\<rparr>
      else Inl errc_address_family_not_supported)"

definition make_tcp_endpoint_str :: "string \<Rightarrow> 16 word \<Rightarrow> (error_code + tcp_endpoint) run" where
  "make_tcp_endpoint_str s port =
     bind_run (make_unspecified_address s) (\<lambda>a.
       Ret (case a of Inl e \<Rightarrow> Inl e | Inr a \<Rightarrow> make_tcp_endpoint a port))"

definition make_tcp_endpoint_in :: "byte list \<Rightarrow> error_code + tcp_endpoint" where
  "make_tcp_endpoint_in sin = make_tcp_endpoint (Inet (inet_from_in_addr_t (word32_at sin 4))) (ntohs_at sin 2)"

definition make_tcp_endpoint_in6 :: "byte list \<Rightarrow> error_code + tcp_endpoint" where
  "make_tcp_endpoint_in6 sin6 = make_tcp_endpoint (Inet6 (inet6_from_in6_addr (segment sin6 8 24))) (ntohs_at sin6 2)"

definition make_tcp_endpoint_sockaddr :: "byte list \<Rightarrow> nat \<Rightarrow> (error_code + tcp_endpoint) run" where
  "make_tcp_endpoint_sockaddr sa addrlen =
     sk_check (addrlen > 0) ''invalid address length'' (
     if sa_family sa = AF_INET then
       (if addrlen < sockaddr_in_size then Ret (Inl errc_invalid_argument)
        else Ret (make_tcp_endpoint_in (take sockaddr_in_size sa)))
     else if sa_family sa = AF_INET6 then
       (if addrlen < sockaddr_in6_size then Ret (Inl errc_invalid_argument)
        else Ret (make_tcp_endpoint_in6 (take sockaddr_in6_size sa)))
     else Ret (Inl errc_address_family_not_supported))"

subsection \<open>UNIX endpoints\<close>

record unix_endpoint =
  uep_path :: string

definition as_sockaddr_un :: "unix_endpoint \<Rightarrow> byte list" where
  "as_sockaddr_un ep = family_bytes AF_UNIX @ copy_at (replicate unix_address_size 0) 0 (map of_char (uep_path ep))"

definition unix_as_sockaddr_storage :: "unix_endpoint \<Rightarrow> byte list" where
  "unix_as_sockaddr_storage ep = copy_at (replicate sockaddr_storage_size 0) 0 (as_sockaddr_un ep)"

definition unix_endpoint_str :: "unix_endpoint \<Rightarrow> error_code + string" where
  "unix_endpoint_str ep = unix_to_string (uep_path ep)"

definition make_unix_endpoint :: "string \<Rightarrow> error_code + unix_endpoint" where
  "make_unix_endpoint a = Inr \<lparr>uep_path = a\<rparr>"

definition make_unix_endpoint_unspecified :: "unspecified_address \<Rightarrow> error_code + unix_endpoint" where
  "make_unix_endpoint_unspecified a =
     (case unix_cast a of Inl e \<Rightarrow> Inl e | Inr ua \<Rightarrow> Inr \<lparr>uep_path = ua\<rparr>)"

definition make_unix_endpoint_str :: "string \<Rightarrow> error_code + unix_endpoint" where
  "make_unix_endpoint_str s = (case make_unix_address s of Inl e \<Rightarrow> Inl e | Inr a \<Rightarrow> make_unix_endpoint a)"

subsection \<open>Channels\<close>

definition tcpchannel_async_connect ::
  "'w sockets \<Rightarrow> reactor_global \<Rightarrow> ('w, 'x, 'c) surroundings \<Rightarrow> 'x option \<times> 'c \<Rightarrow> tcp_endpoint \<Rightarrow> streamsocket \<Rightarrow>
   ('w, 'x, 'c) net_state \<Rightarrow> ((error_code + unit) \<times> streamsocket \<times> ('w, 'x, 'c) net_state) run" where
  "tcpchannel_async_connect os g env co ep s st =
     bind_run (tcp_as_sockaddr_storage ep) (\<lambda>ss.
       if sa_family ss = AF_INET then
         streamsocket_async_connect os g env co (sa_family ss) (take sockaddr_in_size ss) s st
       else if sa_family ss = AF_INET6 then
         streamsocket_async_connect os g env co (sa_family ss) (take sockaddr_in6_size ss) s st
       else Ret (Inl errc_address_family_not_supported, s, st))"

definition tcpchannel_connect ::
  "'w sockets \<Rightarrow> reactor_global \<Rightarrow> ('w, 'x, 'c) surroundings \<Rightarrow> 'x \<Rightarrow> 'c \<Rightarrow> tcp_endpoint \<Rightarrow> streamsocket \<Rightarrow>
   ('w, 'x, 'c) net_state \<Rightarrow> ((error_code + unit) \<times> streamsocket \<times> ('w, 'x, 'c) net_state) run" where
  "tcpchannel_connect os g env xer h ep s st =
     bind_run (tcp_as_sockaddr_storage ep) (\<lambda>ss.
       if sa_family ss = AF_INET then streamsocket_connect os g env xer h AF_INET (take sockaddr_in_size ss) s st
       else if sa_family ss = AF_INET6 then
         streamsocket_connect os g env xer h AF_INET6 (take sockaddr_in6_size ss) s st
       else Ret (Inl errc_address_family_not_supported, s, st))"

definition tcpserverchannel_listen ::
  "'w sockets \<Rightarrow> reactor_global \<Rightarrow> tcp_endpoint \<Rightarrow> ('w, 'x, 'c) net_state \<Rightarrow>
   ((error_code + streamsocketserver) \<times> ('w, 'x, 'c) net_state) run" where
  "tcpserverchannel_listen os g ep st =
     bind_run (tcp_as_sockaddr_storage ep) (\<lambda>ss.
       if sa_family ss = AF_INET then server_listen os g AF_INET (take sockaddr_in_size ss) st
       else if sa_family ss = AF_INET6 then server_listen os g AF_INET6 (take sockaddr_in6_size ss) st
       else Ret (Inl errc_address_family_not_supported, st))"

definition unixchannel_async_connect ::
  "'w sockets \<Rightarrow> reactor_global \<Rightarrow> ('w, 'x, 'c) surroundings \<Rightarrow> 'x option \<times> 'c \<Rightarrow> unix_endpoint \<Rightarrow> streamsocket \<Rightarrow>
   ('w, 'x, 'c) net_state \<Rightarrow> ((error_code + unit) \<times> streamsocket \<times> ('w, 'x, 'c) net_state) run" where
  "unixchannel_async_connect os g env co ep s st =
     streamsocket_async_connect os g env co AF_UNIX (as_sockaddr_un ep) s st"

definition unixchannel_connect ::
  "'w sockets \<Rightarrow> reactor_global \<Rightarrow> ('w, 'x, 'c) surroundings \<Rightarrow> 'x \<Rightarrow> 'c \<Rightarrow> unix_endpoint \<Rightarrow> streamsocket \<Rightarrow>
   ('w, 'x, 'c) net_state \<Rightarrow> ((error_code + unit) \<times> streamsocket \<times> ('w, 'x, 'c) net_state) run" where
  "unixchannel_connect os g env xer h ep s st =
     streamsocket_connect os g env xer h AF_UNIX (as_sockaddr_un ep) s st"

definition unixserverchannel_listen ::
  "'w sockets \<Rightarrow> reactor_global \<Rightarrow> unix_endpoint \<Rightarrow> ('w, 'x, 'c) net_state \<Rightarrow>
   ((error_code + streamsocketserver) \<times> ('w, 'x, 'c) net_state) run" where
  "unixserverchannel_listen os g ep st = server_listen os g AF_UNIX (as_sockaddr_un ep) st"

section \<open>The name resolver\<close>

subsection \<open>Errors\<close>

definition resolver_category :: error_category where
  "resolver_category = Other_category ''cio:resolver''"

definition make_resolver_error :: "int \<Rightarrow> error_code" where
  "make_resolver_error e = \<lparr>ec_category = resolver_category, ec_value = e\<rparr>"

definition EAI_SYSTEM :: int where "EAI_SYSTEM = - 11"

definition make_gai_error :: "int \<Rightarrow> error_code" where
  "make_gai_error err = (if err = EAI_SYSTEM then generic_error err else make_resolver_error err)"

subsection \<open>Iteration over the result\<close>

type_synonym addrinfo = "(byte list \<times> nat) list"

text \<open>\<^verbatim>\<open>addrinfo_address_transform\<close> and \<^verbatim>\<open>addrinfo_tcp_endpoint_transform\<close>, where \<open>conv\<close> is the conversion they
  call: the first entry from the pointer on that converts, with the pointer moved to it.\<close>

fun addrinfo_transform ::
  "(byte list \<Rightarrow> nat \<Rightarrow> (error_code + 'a) run) \<Rightarrow> addrinfo \<Rightarrow> ('a option \<times> addrinfo) run" where
  "addrinfo_transform conv [] = Ret (None, [])"
| "addrinfo_transform conv ((sa, len) # ai) =
     bind_run (conv sa len) (\<lambda>r.
       case r of
         Inr a \<Rightarrow> Ret (Some a, (sa, len) # ai)
       | Inl _ \<Rightarrow> addrinfo_transform conv ai)"

record 'a addrinfo_iterator =
  it_ai :: addrinfo
  it_addr :: "'a option"

definition it_next_address ::
  "(byte list \<Rightarrow> nat \<Rightarrow> (error_code + 'a) run) \<Rightarrow> 'a addrinfo_iterator \<Rightarrow> 'a addrinfo_iterator run" where
  "it_next_address conv it =
     bind_run (addrinfo_transform conv (it_ai it)) (\<lambda>(r, ai).
       case r of
         Some a \<Rightarrow> Ret (it\<lparr>it_ai := ai, it_addr := Some a\<rparr>)
       | None \<Rightarrow> Ret (it\<lparr>it_ai := []\<rparr>))"

definition it_of ::
  "(byte list \<Rightarrow> nat \<Rightarrow> (error_code + 'a) run) \<Rightarrow> addrinfo \<Rightarrow> 'a addrinfo_iterator run" where
  "it_of conv ai = it_next_address conv \<lparr>it_ai = ai, it_addr = None\<rparr>"

definition it_end :: "'a addrinfo_iterator" where
  "it_end = \<lparr>it_ai = [], it_addr = None\<rparr>"

definition it_inc ::
  "(byte list \<Rightarrow> nat \<Rightarrow> (error_code + 'a) run) \<Rightarrow> 'a addrinfo_iterator \<Rightarrow> 'a addrinfo_iterator run" where
  "it_inc conv it =
     (case it_ai it of [] \<Rightarrow> Abort ''null pointer'' | _ # ai \<Rightarrow> it_next_address conv (it\<lparr>it_ai := ai\<rparr>))"

definition it_eq :: "'a addrinfo_iterator \<Rightarrow> 'a addrinfo_iterator \<Rightarrow> bool" where
  "it_eq a b \<longleftrightarrow> it_ai a = it_ai b"

text \<open>The loop \<^verbatim>\<open>std::ranges::copy\<close> makes over the container.\<close>

fun copy_from :: "(byte list \<Rightarrow> nat \<Rightarrow> (error_code + 'a) run) \<Rightarrow> nat \<Rightarrow> 'a addrinfo_iterator \<Rightarrow> 'a list \<Rightarrow> 'a list run" where
  "copy_from conv 0 it out = Diverge"
| "copy_from conv (Suc fuel) it out =
     (if it_eq it it_end then Ret out
      else case it_addr it of
        None \<Rightarrow> Abort ''no address''
      | Some a \<Rightarrow> bind_run (it_inc conv it) (\<lambda>it. copy_from conv fuel it (out @ [a])))"

definition container_copy :: "(byte list \<Rightarrow> nat \<Rightarrow> (error_code + 'a) run) \<Rightarrow> addrinfo \<Rightarrow> 'a list run" where
  "container_copy conv ai = bind_run (it_of conv ai) (\<lambda>it. copy_from conv (length ai + 1) it [])"

subsection \<open>Resolving\<close>

record hints =
  ai_family :: nat
  ai_socktype :: nat
  ai_protocol :: nat

definition SOCK_STREAM :: nat where "SOCK_STREAM = 1"
definition IPPROTO_TCP :: nat where "IPPROTO_TCP = 6"

text \<open>\<open>gai\<close> is \<^verbatim>\<open>getaddrinfo\<close>, which returns zero and a list, or an error number.\<close>

type_synonym 'w gai = "string option \<Rightarrow> string option \<Rightarrow> hints \<Rightarrow> 'w \<Rightarrow> (int \<times> addrinfo) \<times> 'w"

definition async_getaddrinfo ::
  "'w gai \<Rightarrow> hints \<Rightarrow> string option \<Rightarrow> string option \<Rightarrow> 'w \<Rightarrow> (error_code + addrinfo) \<times> 'w" where
  "async_getaddrinfo gai h hostname service w =
     (let ((ret, ai), w) = gai hostname service h w
      in (if ret \<noteq> 0 then Inl (make_gai_error ret) else Inr ai, w))"

text \<open>\<open>tag\<close> is the tag of the family of the resolver.\<close>

definition async_resolve ::
  "'w gai \<Rightarrow> nat \<Rightarrow> string option \<Rightarrow> string option \<Rightarrow> 'w \<Rightarrow> (error_code + addrinfo) \<times> 'w" where
  "async_resolve gai tag name service w =
     (let h = \<lparr>ai_family = tag, ai_socktype = SOCK_STREAM, ai_protocol = IPPROTO_TCP\<rparr>;
          (r, w) = async_getaddrinfo gai h name service w
      in (case r of Inl e \<Rightarrow> Inl e | Inr ai \<Rightarrow> Inr ai, w))"

definition async_resolve_copy ::
  "'w gai \<Rightarrow> nat \<Rightarrow> (byte list \<Rightarrow> nat \<Rightarrow> (error_code + 'a) run) \<Rightarrow> string option \<Rightarrow> string option \<Rightarrow> 'w \<Rightarrow>
   ((error_code + 'a list) \<times> 'w) run" where
  "async_resolve_copy gai tag conv name service w =
     (let (c, w) = async_resolve gai tag name service w
      in case c of
           Inl e \<Rightarrow> Ret (Inl e, w)
         | Inr ai \<Rightarrow> bind_run (container_copy conv ai) (\<lambda>out. Ret (Inr out, w)))"

section \<open>Properties\<close>

definition ip_endpoint :: "tcp_endpoint \<Rightarrow> bool" where
  "ip_endpoint ep \<longleftrightarrow> (case ep_address ep of Inet a \<Rightarrow> length a = 4 | Inet6 a \<Rightarrow> length a = 16 | Unix _ \<Rightarrow> False)"

definition sockaddr_size :: "tcp_endpoint \<Rightarrow> nat" where
  "sockaddr_size ep = (case ep_address ep of Inet _ \<Rightarrow> sockaddr_in_size | _ \<Rightarrow> sockaddr_in6_size)"

lemmas sockaddr_sizes = sockaddr_in_size_def sockaddr_in6_size_def sockaddr_storage_size_def

lemma ntohs_htons: "join16 (ucast (drop_bit 8 p)) (ucast p) = p" for p :: "16 word"
  by (rule bit_word_eqI) (auto simp: join16_def bit_simps)

lemma family_bytes_simps:
  "family_bytes AF_INET = [2, 0]" "family_bytes AF_INET6 = [10, 0]" "family_bytes AF_UNIX = [1, 0]"
  by (simp_all add: family_bytes_def AF_INET_def AF_INET6_def AF_UNIX_def)

lemma list16: "length a = 16 \<Longrightarrow> inet6_from_in6_addr a = a"
  by (simp add: inet6_from_in6_addr_def copy_at_def)

lemma inet_storage:
  assumes "length a = 4"
  shows "tcp_as_sockaddr_storage \<lparr>ep_address = Inet a, ep_port = p\<rparr> =
    Ret ([2, 0] @ htons_bytes p @ a @ replicate 120 0)"
  using assms
  by (simp add: tcp_as_sockaddr_storage_def copy_at_def family_bytes_simps htons_bytes_def sockaddr_sizes
      replicate_add [symmetric])

lemma inet6_storage:
  assumes "length a = 16"
  shows "tcp_as_sockaddr_storage \<lparr>ep_address = Inet6 a, ep_port = p\<rparr> =
    Ret ([10, 0] @ htons_bytes p @ replicate 4 0 @ a @ replicate 104 0)"
  using assms
  by (simp add: tcp_as_sockaddr_storage_def copy_at_def family_bytes_simps htons_bytes_def sockaddr_sizes
      replicate_add [symmetric])

lemma storage_roundtrip:
  assumes "ip_endpoint ep"
  obtains ss where "tcp_as_sockaddr_storage ep = Ret ss" "length ss = 128" "sa_family ss = contained_tag (ep_address ep)"
    "\<And>k. make_tcp_endpoint_sockaddr ss k = (if k = 0 then Abort ''invalid address length''
       else Ret (if k < sockaddr_size ep then Inl errc_invalid_argument else Inr ep))"
proof (cases "ep_address ep")
  case (Inet a)
  then have len: "length a = 4" using assms by (simp add: ip_endpoint_def)
  define ss where "ss = [2, 0] @ htons_bytes (ep_port ep) @ a @ replicate 120 0"
  have ep: "ep = \<lparr>ep_address = Inet a, ep_port = ep_port ep\<rparr>" using Inet by simp
  have "inet_from_in_addr_t (word32_at (take 16 ss) 4) = a"
    using inet_from_word32_at [of 4 "take 16 ss"] len by (simp add: ss_def segment_def htons_bytes_def)
  moreover have "ntohs_at (take 16 ss) 2 = ep_port ep" using ntohs_htons by (simp add: ntohs_at_def ss_def htons_bytes_def)
  moreover have fam: "sa_family ss = AF_INET" by (simp add: sa_family_def ss_def AF_INET_def)
  ultimately have "make_tcp_endpoint_sockaddr ss k = (if k = 0 then Abort ''invalid address length''
       else Ret (if k < sockaddr_size ep then Inl errc_invalid_argument else Inr ep))" for k
    using Inet ep by (simp add: make_tcp_endpoint_sockaddr_def make_tcp_endpoint_in_def make_tcp_endpoint_def
        sockaddr_size_def sockaddr_in_size_def)
  moreover have "tcp_as_sockaddr_storage ep = Ret ss" using inet_storage [OF len, of "ep_port ep"] ep ss_def by simp
  moreover have "length ss = 128" using len by (simp add: ss_def htons_bytes_def)
  ultimately show thesis using that fam Inet by simp
next
  case (Inet6 a)
  then have len: "length a = 16" using assms by (simp add: ip_endpoint_def)
  define ss where "ss = [10, 0] @ htons_bytes (ep_port ep) @ replicate 4 0 @ a @ replicate 104 0"
  have ep: "ep = \<lparr>ep_address = Inet6 a, ep_port = ep_port ep\<rparr>" using Inet6 by simp
  have "inet6_from_in6_addr (segment (take 28 ss) 8 24) = a"
    using list16 [OF len] len by (simp add: ss_def segment_def htons_bytes_def eval_nat_numeral)
  moreover have "ntohs_at (take 28 ss) 2 = ep_port ep" using ntohs_htons by (simp add: ntohs_at_def ss_def htons_bytes_def)
  moreover have fam: "sa_family ss = AF_INET6" by (simp add: sa_family_def ss_def AF_INET6_def)
  ultimately have "make_tcp_endpoint_sockaddr ss k = (if k = 0 then Abort ''invalid address length''
       else Ret (if k < sockaddr_size ep then Inl errc_invalid_argument else Inr ep))" for k
    using Inet6 ep by (simp add: make_tcp_endpoint_sockaddr_def make_tcp_endpoint_in6_def make_tcp_endpoint_def
        sockaddr_size_def sockaddr_in6_size_def AF_INET_def AF_INET6_def)
  moreover have "tcp_as_sockaddr_storage ep = Ret ss" using inet6_storage [OF len, of "ep_port ep"] ep ss_def by simp
  moreover have "length ss = 128" using len by (simp add: ss_def htons_bytes_def)
  ultimately show thesis using that fam Inet6 by simp
qed (use assms in \<open>simp add: ip_endpoint_def\<close>)

text \<open>C18: The socket address made of an IPv4 or IPv6 endpoint gives the endpoint back, address and port
  in network byte order included, and a shorter length is refused; and this socket address, cut to
  its length, with its family is what connecting and listening pass to the system.\<close>

theorem tcp_endpoint_roundtrip:
  assumes "ip_endpoint ep"
  shows "\<exists>ss. tcp_as_sockaddr_storage ep = Ret ss \<and> length ss = 128 \<and>
    make_tcp_endpoint_sockaddr ss (sockaddr_size ep) = Ret (Inr ep) \<and>
    (\<forall>k. 0 < k \<and> k < sockaddr_size ep \<longrightarrow> make_tcp_endpoint_sockaddr ss k = Ret (Inl errc_invalid_argument)) \<and>
    tcpchannel_connect os g env xer h ep s st =
      streamsocket_connect os g env xer h (socket_address_family (ep_address ep)) (take (sockaddr_size ep) ss) s st \<and>
    tcpchannel_async_connect os g env co ep s st =
      streamsocket_async_connect os g env co (socket_address_family (ep_address ep)) (take (sockaddr_size ep) ss) s st \<and>
    tcpserverchannel_listen os g ep st =
      server_listen os g (socket_address_family (ep_address ep)) (take (sockaddr_size ep) ss) st"
proof -
  from assms obtain ss where ss: "tcp_as_sockaddr_storage ep = Ret ss" "length ss = 128"
    "sa_family ss = contained_tag (ep_address ep)"
    "\<And>k. make_tcp_endpoint_sockaddr ss k = (if k = 0 then Abort ''invalid address length''
       else Ret (if k < sockaddr_size ep then Inl errc_invalid_argument else Inr ep))"
    using storage_roundtrip by blast
  have "0 < sockaddr_size ep" by (simp add: sockaddr_size_def sockaddr_sizes split: unspecified_address.splits)
  then show ?thesis using ss assms
    by (intro exI [of _ ss], cases "ep_address ep")
      (auto simp: tcpchannel_connect_def tcpchannel_async_connect_def tcpserverchannel_listen_def ip_endpoint_def
        sockaddr_size_def socket_address_family_def AF_INET_def AF_INET6_def AF_UNIX_def)
qed

definition localhost80 :: tcp_endpoint where
  "localhost80 = \<lparr>ep_address = Inet [127, 0, 0, 1], ep_port = 80\<rparr>"

theorem tcp_endpoint_roundtrip_witness:
  "\<exists>ss. tcp_as_sockaddr_storage localhost80 = Ret ss \<and> make_tcp_endpoint_sockaddr ss 16 = Ret (Inr localhost80)"
proof -
  have "ip_endpoint localhost80" "sockaddr_size localhost80 = 16"
    by (simp_all add: ip_endpoint_def localhost80_def sockaddr_size_def sockaddr_in_size_def)
  then show ?thesis using tcp_endpoint_roundtrip [of localhost80] by metis
qed

subsection \<open>The resolver lists what converts\<close>

text \<open>The specification: the entries that convert, in order.\<close>

definition converted :: "(byte list \<Rightarrow> nat \<Rightarrow> (error_code + 'a) run) \<Rightarrow> addrinfo \<Rightarrow> 'a list" where
  "converted conv ai = concat (map (\<lambda>(sa, len). case conv sa len of Ret (Inr a) \<Rightarrow> [a] | _ \<Rightarrow> []) ai)"

definition convertible :: "(byte list \<Rightarrow> nat \<Rightarrow> (error_code + 'a) run) \<Rightarrow> addrinfo \<Rightarrow> bool" where
  "convertible conv ai \<longleftrightarrow> (\<forall>(sa, len) \<in> set ai. returns (conv sa len))"

lemma transform_spec:
  assumes "convertible conv ai"
  obtains (none) "addrinfo_transform conv ai = Ret (None, [])" "converted conv ai = []"
  | (some) a e rest where "addrinfo_transform conv ai = Ret (Some a, e # rest)" "converted conv ai = a # converted conv rest"
      "convertible conv rest" "length rest < length ai"
  using assms
proof (induction ai arbitrary: thesis)
  case Nil
  then show ?case by (simp add: converted_def)
next
  case (Cons p ai)
  obtain sa len where p: "p = (sa, len)" by fastforce
  obtain r where r: "conv sa len = Ret r" using Cons.prems(3) p by (auto simp: convertible_def returns_def)
  have ai: "convertible conv ai" using Cons.prems(3) by (simp add: convertible_def)
  show ?case
  proof (cases r)
    case (Inl e)
    have eq: "addrinfo_transform conv (p # ai) = addrinfo_transform conv ai" "converted conv (p # ai) = converted conv ai"
      using p r Inl by (simp_all add: converted_def)
    show ?thesis
    proof (rule Cons.IH [OF _ _ ai])
      assume "addrinfo_transform conv ai = Ret (None, [])" "converted conv ai = []"
      then show ?thesis using Cons.prems(1) eq by simp
    next
      fix a e rest
      assume "addrinfo_transform conv ai = Ret (Some a, e # rest)" "converted conv ai = a # converted conv rest"
        "convertible conv rest" "length rest < length ai"
      then show ?thesis using Cons.prems(2) eq by simp
    qed
  next
    case (Inr a)
    then show ?thesis using Cons.prems(2) [of a p ai] p r ai by (simp add: converted_def)
  qed
qed

lemma copy_from_spec:
  assumes "convertible conv ai" "length ai < fuel"
  shows "bind_run (it_next_address conv \<lparr>it_ai = ai, it_addr = b\<rparr>) (\<lambda>it. copy_from conv fuel it out) =
    Ret (out @ converted conv ai)"
  using assms
proof (induction fuel arbitrary: ai b out)
  case (Suc fuel)
  from Suc.prems(1) show ?case
  proof (cases rule: transform_spec)
    case none
    then show ?thesis by (simp add: it_next_address_def it_eq_def it_end_def)
  next
    case (some a e rest)
    have "bind_run (it_next_address conv \<lparr>it_ai = rest, it_addr = Some a\<rparr>) (\<lambda>it. copy_from conv fuel it (out @ [a])) =
        Ret ((out @ [a]) @ converted conv rest)"
      using Suc.IH some(3,4) Suc.prems(2) by simp
    then show ?thesis using some(1,2) by (simp add: it_next_address_def [of conv "\<lparr>it_ai = ai, it_addr = b\<rparr>"] it_eq_def it_end_def it_inc_def)
  qed
qed simp

lemma make_tcp_endpoint_sockaddr_returns: "0 < len \<Longrightarrow> returns (make_tcp_endpoint_sockaddr sa len)"
  by (simp add: make_tcp_endpoint_sockaddr_def)

lemma converted_family:
  assumes "make_tcp_endpoint_sockaddr sa len = Ret (Inr ep)"
  shows "socket_address_family (ep_address ep) = sa_family sa"
  using assms
  by (auto simp: make_tcp_endpoint_sockaddr_def make_tcp_endpoint_in_def make_tcp_endpoint_in6_def make_tcp_endpoint_def
      sk_check_eq_Ret socket_address_family_def AF_INET_def AF_INET6_def split: if_splits)

text \<open>Copying the result of a name lookup ends, whatever the system returned, with exactly the
  entries that are IPv4 or IPv6 socket addresses of sufficient length, as endpoints, in the order of
  the system; the others are skipped, at the start, in the middle and at the end. An error of the
  system is returned as an error.\<close>

theorem resolver_lists_endpoints:
  assumes "gai name service \<lparr>ai_family = tag, ai_socktype = SOCK_STREAM, ai_protocol = IPPROTO_TCP\<rparr> w = ((ret, ai), w')"
    "\<forall>(sa, len) \<in> set ai. 0 < len"
  shows "async_resolve_copy gai tag make_tcp_endpoint_sockaddr name service w =
    Ret (if ret \<noteq> 0 then Inl (make_gai_error ret) else Inr (converted make_tcp_endpoint_sockaddr ai), w')"
proof -
  have "convertible make_tcp_endpoint_sockaddr ai"
    using assms(2) make_tcp_endpoint_sockaddr_returns by (auto simp: convertible_def)
  from copy_from_spec [OF this, of "length ai + 1" None "[]"]
  have "container_copy make_tcp_endpoint_sockaddr ai = Ret (converted make_tcp_endpoint_sockaddr ai)"
    by (simp add: container_copy_def it_of_def)
  then show ?thesis using assms(1)
    by (simp add: async_resolve_copy_def async_resolve_def async_getaddrinfo_def Let_def)
qed

theorem resolver_lists_endpoints_witness:
  "async_resolve_copy (\<lambda>_ _ _ w. ((0, [([1, 0], 110), ([2, 0, 0, 80, 127, 0, 0, 1] @ replicate 8 0, 16), ([2, 0], 8)]), w))
     0 make_tcp_endpoint_sockaddr (Some ''localhost'') None () = Ret (Inr [localhost80], ())"
proof -
  define ai :: addrinfo where "ai = [([1, 0], 110), ([2, 0, 0, 80, 127, 0, 0, 1] @ replicate 8 0, 16), ([2, 0], 8)]"
  have "converted make_tcp_endpoint_sockaddr ai = [localhost80]"
    by (simp add: converted_def ai_def make_tcp_endpoint_sockaddr_def sa_family_def AF_INET_def AF_INET6_def
        sockaddr_sizes make_tcp_endpoint_in_def make_tcp_endpoint_def localhost80_def ntohs_at_def join16_def
        inet_from_word32_at segment_def)
  moreover have "\<forall>(sa, len) \<in> set ai. 0 < len" by (simp add: ai_def)
  ultimately show ?thesis
    using resolver_lists_endpoints [of "\<lambda>_ _ _ w. ((0, ai), w)" "Some ''localhost''" None 0 "()" 0 ai "()"]
    by (simp add: ai_def)
qed

end
