(* ===== verification/Win32_Api.thy ===== *)
theory Win32_Api
  imports Safeint Reactor Executor
begin

unbundle bit_operations_syntax

text \<open>
  The lowest layer on Windows: \<^verbatim>\<open>win32/error.hxx\<close>, \<^verbatim>\<open>win32/handle.hxx\<close>, \<^verbatim>\<open>win32/detail/iocp_reactor.hxx\<close> and
  \<^verbatim>\<open>win32/async_api.hxx\<close>.

  The system is an argument: \<open>'w\<close> is its state and \<open>win32\<close> its calls. A call with an \<^verbatim>\<open>OVERLAPPED\<close> returns
  its \<^verbatim>\<open>BOOL\<close>, the number of bytes it stored through its pointer and the bytes it put into the buffer;
  \<open>win_GetQueuedCompletionStatus\<close> is the completion packet that the thread of the reactor dequeues for
  the operation begun last, or none when the system queues none. \<open>win_GetOverlappedResult\<close> waits for
  the operation begun last. Parameters that the code always passes in the same way are left out.
\<close>

section \<open>Windows\<close>

type_synonym HANDLE = "64 word"
type_synonym SOCKET = "64 word"
type_synonym DWORD = "32 word"

record completion =
  cp_success :: bool
  cp_error :: DWORD
  cp_bytes :: DWORD
  cp_data :: "byte list"

record 'w win32 =
  win_GetLastError :: "'w \<Rightarrow> DWORD"
  win_CloseHandle :: "HANDLE \<Rightarrow> 'w \<Rightarrow> bool \<times> 'w"
  win_CreateFileW :: "string \<Rightarrow> DWORD \<Rightarrow> DWORD \<Rightarrow> DWORD \<Rightarrow> 'w \<Rightarrow> HANDLE \<times> 'w"
  win_CreateFileA :: "string \<Rightarrow> DWORD \<Rightarrow> DWORD \<Rightarrow> DWORD \<Rightarrow> 'w \<Rightarrow> HANDLE \<times> 'w"
  win_CreateEvent :: "'w \<Rightarrow> HANDLE \<times> 'w"
  win_ReadFile :: "HANDLE \<Rightarrow> DWORD \<Rightarrow> DWORD \<times> DWORD \<Rightarrow> 'w \<Rightarrow> (bool \<times> DWORD \<times> byte list) \<times> 'w"
  win_WriteFile :: "HANDLE \<Rightarrow> byte list \<Rightarrow> DWORD \<times> DWORD \<Rightarrow> 'w \<Rightarrow> (bool \<times> DWORD) \<times> 'w"
  win_GetOverlappedResult :: "HANDLE \<Rightarrow> 'w \<Rightarrow> (bool \<times> DWORD \<times> byte list) \<times> 'w"
  win_CreateIoCompletionPort :: "HANDLE \<Rightarrow> HANDLE \<Rightarrow> 'w \<Rightarrow> HANDLE \<times> 'w"
  win_GetQueuedCompletionStatus :: "'w \<Rightarrow> completion option \<times> 'w"
  win_WSAStartup :: "'w \<Rightarrow> int \<times> 'w"
  win_WSAGetLastError :: "'w \<Rightarrow> DWORD"
  win_closesocket :: "SOCKET \<Rightarrow> 'w \<Rightarrow> int \<times> 'w"
  win_WSASocket :: "nat \<Rightarrow> 'w \<Rightarrow> SOCKET \<times> 'w"
  win_socket :: "nat \<Rightarrow> 'w \<Rightarrow> SOCKET \<times> 'w"
  win_bind :: "SOCKET \<Rightarrow> byte list \<Rightarrow> 'w \<Rightarrow> int \<times> 'w"
  win_listen :: "SOCKET \<Rightarrow> 'w \<Rightarrow> int \<times> 'w"
  win_setsockopt :: "SOCKET \<Rightarrow> 'w \<Rightarrow> int \<times> 'w"
  win_WSAConnect :: "SOCKET \<Rightarrow> byte list \<Rightarrow> 'w \<Rightarrow> int \<times> 'w"
  win_accept :: "SOCKET \<Rightarrow> 'w \<Rightarrow> SOCKET \<times> 'w"
  win_WSAIoctl :: "SOCKET \<Rightarrow> 'w \<Rightarrow> int \<times> 'w"
  win_ConnectEx :: "SOCKET \<Rightarrow> byte list \<Rightarrow> 'w \<Rightarrow> bool \<times> 'w"
  win_AcceptEx :: "SOCKET \<Rightarrow> SOCKET \<Rightarrow> 'w \<Rightarrow> bool \<times> 'w"

subsection \<open>Errors\<close>

definition ERROR_SUCCESS :: DWORD where "ERROR_SUCCESS = 0"
definition ERROR_FILE_NOT_FOUND :: DWORD where "ERROR_FILE_NOT_FOUND = 2"
definition ERROR_PATH_NOT_FOUND :: DWORD where "ERROR_PATH_NOT_FOUND = 3"
definition ERROR_TOO_MANY_OPEN_FILES :: DWORD where "ERROR_TOO_MANY_OPEN_FILES = 4"
definition ERROR_ACCESS_DENIED :: DWORD where "ERROR_ACCESS_DENIED = 5"
definition ERROR_NOT_ENOUGH_MEMORY :: DWORD where "ERROR_NOT_ENOUGH_MEMORY = 8"
definition ERROR_OUTOFMEMORY :: DWORD where "ERROR_OUTOFMEMORY = 14"
definition ERROR_HANDLE_EOF :: DWORD where "ERROR_HANDLE_EOF = 38"
definition ERROR_IO_PENDING :: DWORD where "ERROR_IO_PENDING = 997"

lemmas win32_errors = ERROR_SUCCESS_def ERROR_FILE_NOT_FOUND_def ERROR_PATH_NOT_FOUND_def ERROR_TOO_MANY_OPEN_FILES_def
  ERROR_ACCESS_DENIED_def ERROR_NOT_ENOUGH_MEMORY_def ERROR_OUTOFMEMORY_def ERROR_HANDLE_EOF_def ERROR_IO_PENDING_def

definition win32_errc_category :: error_category where
  "win32_errc_category = Other_category ''win32''"

text \<open>\<^verbatim>\<open>win32_errc_category::message\<close>; \<open>formatted\<close> is the buffer that \<^verbatim>\<open>FormatMessageA\<close> made, empty when it failed.
  The loop over line ends does not look where the text starts.\<close>

fun strip_newlines :: "string \<Rightarrow> nat \<Rightarrow> nat run" where
  "strip_newlines msgbuf 0 = Abort ''read before the buffer''"
| "strip_newlines msgbuf (Suc k) =
     (if msgbuf ! k = CHR 0x0D \<or> msgbuf ! k = CHR 0x0A then strip_newlines msgbuf k else Ret (Suc k))"

definition win32_message :: "string \<Rightarrow> string run" where
  "win32_message formatted =
     (if length formatted = 0 then Ret ''[FormatMessageA() failed]''
      else bind_run (strip_newlines formatted (length formatted)) (\<lambda>len. Ret (take len formatted)))"

definition win32_make_error_code :: "DWORD \<Rightarrow> error_code" where
  "win32_make_error_code e =
     (if e = ERROR_HANDLE_EOF then make_error_code end_of_file
      else \<lparr>ec_category = win32_errc_category, ec_value = sint e\<rparr>)"

definition make_win32_error :: "DWORD \<Rightarrow> error_code" where
  "make_win32_error e = win32_make_error_code e"

definition get_last_error :: "'w win32 \<Rightarrow> 'w \<Rightarrow> error_code" where
  "get_last_error os w = make_win32_error (win_GetLastError os w)"

definition get_last_winsock_error :: "'w win32 \<Rightarrow> 'w \<Rightarrow> error_code" where
  "get_last_winsock_error os w = make_win32_error (win_WSAGetLastError os w)"

definition win32_to_generic_error :: "error_code \<Rightarrow> error_code" where
  "win32_to_generic_error ec =
     (if ec_category ec \<noteq> win32_errc_category then ec
      else let v = ec_value ec in
        if v = sint ERROR_HANDLE_EOF then make_error_code end_of_file
        else if v = sint ERROR_FILE_NOT_FOUND \<or> v = sint ERROR_PATH_NOT_FOUND then generic_error 2
        else if v = sint ERROR_TOO_MANY_OPEN_FILES then generic_error 23
        else if v = sint ERROR_ACCESS_DENIED then generic_error 13
        else if v = sint ERROR_NOT_ENOUGH_MEMORY \<or> v = sint ERROR_OUTOFMEMORY then generic_error 12
        else ec)"

subsection \<open>Handles\<close>

definition INVALID_HANDLE_VALUE :: HANDLE where "INVALID_HANDLE_VALUE = - 1"

record unique_handle =
  is_valid :: bool
  native_handle :: HANDLE

text \<open>The check that nearly every operation makes.\<close>

definition handle_ok :: "unique_handle \<Rightarrow> bool" where
  "handle_ok h \<longleftrightarrow> is_valid h \<or> native_handle h = INVALID_HANDLE_VALUE"

definition check_handle :: "unique_handle \<Rightarrow> 'a run \<Rightarrow> 'a run" where
  "check_handle h rest = sk_check (handle_ok h) ''unique_handle: bad state'' rest"

definition unique_handle_empty :: unique_handle where
  "unique_handle_empty = \<lparr>is_valid = False, native_handle = INVALID_HANDLE_VALUE\<rparr>"

definition unique_handle_of :: "HANDLE \<Rightarrow> unique_handle run" where
  "unique_handle_of v =
     (let h = \<lparr>is_valid = True, native_handle = v\<rparr>
      in sk_check (v \<noteq> 0 \<and> v \<noteq> INVALID_HANDLE_VALUE) ''unique_handle: creating invalid handle'' (check_handle h (Ret h)))"

text \<open>The new object and what is left of the other one.\<close>

definition unique_handle_move :: "unique_handle \<Rightarrow> (unique_handle \<times> unique_handle) run" where
  "unique_handle_move other = check_handle other (Ret (other, unique_handle_empty))"

definition unique_handle_move_assign :: "unique_handle \<Rightarrow> unique_handle \<Rightarrow> (unique_handle \<times> unique_handle) run" where
  "unique_handle_move_assign this other = check_handle this (Ret (other, unique_handle_empty))"

definition unique_handle_close ::
  "'w win32 \<Rightarrow> unique_handle \<Rightarrow> 'w \<Rightarrow> ((error_code + unit) \<times> unique_handle \<times> 'w) run" where
  "unique_handle_close os h w =
     check_handle h (
     if \<not> is_valid h then Ret (Inr (), h, w)
     else let h = h\<lparr>is_valid := False\<rparr>; (ok, w) = win_CloseHandle os (native_handle h) w
     in if ok then Ret (Inr (), h\<lparr>native_handle := INVALID_HANDLE_VALUE\<rparr>, w)
     else Ret (Inl (get_last_error os w), h, w))"

definition unique_handle_destroy :: "'w win32 \<Rightarrow> unique_handle \<Rightarrow> 'w \<Rightarrow> 'w run" where
  "unique_handle_destroy os h w =
     check_handle h (
     if is_valid h then bind_run (unique_handle_close os h w) (\<lambda>(_, _, w). Ret w) else Ret w)"

definition unique_handle_bool :: "unique_handle \<Rightarrow> bool run" where
  "unique_handle_bool h = check_handle h (Ret (is_valid h))"

definition unique_handle_native :: "unique_handle \<Rightarrow> HANDLE run" where
  "unique_handle_native h =
     check_handle h (sk_check (is_valid h) ''attempt to access invalid handle'' (Ret (native_handle h)))"

definition INVALID_SOCKET :: SOCKET where "INVALID_SOCKET = - 1"

record unique_socket =
  native_socket :: SOCKET

definition unique_socket_empty :: unique_socket where
  "unique_socket_empty = \<lparr>native_socket = INVALID_SOCKET\<rparr>"

definition unique_socket_of :: "SOCKET \<Rightarrow> unique_socket" where
  "unique_socket_of s = \<lparr>native_socket = s\<rparr>"

definition unique_socket_move :: "unique_socket \<Rightarrow> unique_socket \<times> unique_socket" where
  "unique_socket_move other = (other, other\<lparr>native_socket := INVALID_SOCKET\<rparr>)"

definition unique_socket_move_assign :: "unique_socket \<Rightarrow> unique_socket \<Rightarrow> unique_socket \<times> unique_socket" where
  "unique_socket_move_assign this other =
     (this\<lparr>native_socket := native_socket other\<rparr>, other\<lparr>native_socket := INVALID_SOCKET\<rparr>)"

definition unique_socket_bool :: "unique_socket \<Rightarrow> bool" where
  "unique_socket_bool s \<longleftrightarrow> native_socket s \<noteq> INVALID_SOCKET"

definition unique_socket_close :: "'w win32 \<Rightarrow> unique_socket \<Rightarrow> 'w \<Rightarrow> error_code \<times> unique_socket \<times> 'w" where
  "unique_socket_close os s w =
     (if \<not> unique_socket_bool s then (win32_make_error_code ERROR_SUCCESS, s, w)
      else let (ret, w) = win_closesocket os (native_socket s) w; s = s\<lparr>native_socket := INVALID_SOCKET\<rparr>
      in if ret = 0 then (win32_make_error_code ERROR_SUCCESS, s, w) else (get_last_winsock_error os w, s, w))"

definition unique_socket_destroy :: "'w win32 \<Rightarrow> unique_socket \<Rightarrow> 'w \<Rightarrow> 'w" where
  "unique_socket_destroy os s w = snd (snd (unique_socket_close os s w))"

definition unique_socket_native :: "unique_socket \<Rightarrow> SOCKET run" where
  "unique_socket_native s = sk_check (unique_socket_bool s) ''attempt to access invalid socket'' (Ret (native_socket s))"

definition handle_of_socket :: "SOCKET \<Rightarrow> HANDLE" where "handle_of_socket from = from"

definition socket_of_handle :: "HANDLE \<Rightarrow> SOCKET" where "socket_of_handle from = from"

subsection \<open>The completion port\<close>

text \<open>The reactor, with the system executor, which lives as long as the program; \<open>completion_thread\<close> says
  whether the thread is joinable.\<close>

record 'i iocp_reactor =
  completion_port :: "unique_handle option"
  completion_thread :: bool
  iocp_executor :: "'i mt_executor"

text \<open>\<open>thrown\<close> is the error with which the constructor of the thread throws, if it does.\<close>

definition iocp_start ::
  "'w win32 \<Rightarrow> nat \<Rightarrow> error_code option \<Rightarrow> 'i iocp_reactor \<Rightarrow> 'w \<Rightarrow> ((error_code + unit) \<times> 'i iocp_reactor \<times> 'w) run" where
  "iocp_start os cores thrown r w =
     sk_check (completion_port r = None) ''iocp_reactor::start: already started'' (
     let (hdl, w) = win_CreateIoCompletionPort os INVALID_HANDLE_VALUE 0 w
     in if hdl = 0 then Ret (Inl (get_last_error os w), r, w)
     else bind_run (unique_handle_of hdl) (\<lambda>h.
       let r = r\<lparr>completion_port := Some h, iocp_executor := mt_start_threads cores (iocp_executor r)\<rparr>;
           (err, w) = win_WSAStartup os w
       in if err \<noteq> 0 then Ret (Inl (make_win32_error (word_of_int err)), r, w)
       else case thrown of
              Some e \<Rightarrow> Ret (Inl e, r, w)
            | None \<Rightarrow> Ret (Inr (), r\<lparr>completion_thread := True\<rparr>, w)))"

definition iocp_stop :: "'w win32 \<Rightarrow> 'i iocp_reactor \<Rightarrow> 'w \<Rightarrow> ('i iocp_reactor \<times> 'w) run" where
  "iocp_stop os r w =
     bind_run
       (case completion_port r of
          None \<Rightarrow> Ret (r, w)
        | Some h \<Rightarrow>
            bind_run (unique_handle_close os h w) (\<lambda>(ret, h, w).
            case ret of
              Inl e \<Rightarrow> Abort ''unexpected''
            | Inr _ \<Rightarrow> Ret (r\<lparr>completion_port := Some h\<rparr>, w)))
       (\<lambda>(r, w). Ret (r\<lparr>completion_thread := False\<rparr>, w))"

text \<open>The destructor stops the reactor; the optional handle is destroyed after its body.\<close>

definition iocp_destroy :: "'w win32 \<Rightarrow> 'i iocp_reactor \<Rightarrow> 'w \<Rightarrow> 'w run" where
  "iocp_destroy os r w =
     bind_run (iocp_stop os r w) (\<lambda>(r, w).
     case completion_port r of None \<Rightarrow> Ret w | Some h \<Rightarrow> unique_handle_destroy os h w)"

definition associate_handle :: "'w win32 \<Rightarrow> 'i iocp_reactor \<Rightarrow> HANDLE \<Rightarrow> 'w \<Rightarrow> ((error_code + unit) \<times> 'w) run" where
  "associate_handle os r h w =
     (case completion_port r of
        None \<Rightarrow> Abort ''iocp_reactor::associate_handle: no port''
      | Some port \<Rightarrow>
          bind_run (unique_handle_native port) (\<lambda>p.
          let (ret, w) = win_CreateIoCompletionPort os h p w
          in Ret (if ret = 0 then Inl (get_last_error os w) else Inr (), w)))"

subsection \<open>Overlapped operations\<close>

record iocp_coro_state =
  was_pending :: bool
  oc_success :: bool
  oc_error :: DWORD
  bytes_transferred :: DWORD

text \<open>The awaiter holds the mutex of the state while it begins the operation, so the thread of the reactor
  sees what it stored.\<close>

definition overlapped_suspend :: "bool \<Rightarrow> DWORD \<Rightarrow> iocp_coro_state" where
  "overlapped_suspend begun err =
     \<lparr>was_pending = (\<not> begun \<and> err = ERROR_IO_PENDING), oc_success = begun, oc_error = err, bytes_transferred = 0\<rparr>"

definition completion_thread_fn :: "completion \<Rightarrow> iocp_coro_state \<Rightarrow> iocp_coro_state" where
  "completion_thread_fn c st =
     (if was_pending st then
        st\<lparr>oc_success := cp_success c, oc_error := if cp_success c then 0 else cp_error c, bytes_transferred := cp_bytes c\<rparr>
      else st)"

definition overlapped_resume :: "iocp_coro_state \<Rightarrow> error_code + unit" where
  "overlapped_resume st = (if oc_success st then Inr () else Inl (make_win32_error (oc_error st)))"

text \<open>\<open>last_error\<close> is the error function of the operation, \<open>xer\<close> the executor of the coroutine. Whatever the
  operation returned, the coroutine is suspended until its packet arrives.\<close>

definition co_overlapped ::
  "'w win32 \<Rightarrow> ('w \<Rightarrow> DWORD) \<Rightarrow> 'x option \<Rightarrow> bool \<times> 'w \<Rightarrow> ((iocp_coro_state \<times> byte list) \<times> 'w) run" where
  "co_overlapped os last_error xer begun =
     sk_check (xer \<noteq> None) ''co_overlapped_awaiter: no executor'' (
     let (ok, w) = begun; st = overlapped_suspend ok (last_error w); (packet, w) = win_GetQueuedCompletionStatus os w
     in case packet of
          None \<Rightarrow> Diverge
        | Some c \<Rightarrow> Ret ((completion_thread_fn c st, cp_data c), w))"

text \<open>The two halves of an offset, as an \<^verbatim>\<open>OVERLAPPED\<close> has them.\<close>

definition overlapped_offset :: "64 word \<Rightarrow> DWORD \<times> DWORD" where
  "overlapped_offset off = (ucast (off AND 0xFFFFFFFF), ucast (drop_bit 32 off))"

definition AsyncReadFile ::
  "'w win32 \<Rightarrow> 'x option \<Rightarrow> HANDLE \<Rightarrow> DWORD \<Rightarrow> 64 word \<Rightarrow> 'w \<Rightarrow> (((error_code + unit) \<times> DWORD \<times> byte list) \<times> 'w) run" where
  "AsyncReadFile os xer h n off w =
     (let ((ok, k, buf), w) = win_ReadFile os h n (overlapped_offset off) w
      in bind_run (co_overlapped os (win_GetLastError os) xer (ok, w)) (\<lambda>((st, data), w).
           Ret (if was_pending st then (overlapped_resume st, bytes_transferred st, data)
                else (overlapped_resume st, k, buf), w)))"

definition AsyncWriteFile ::
  "'w win32 \<Rightarrow> 'x option \<Rightarrow> HANDLE \<Rightarrow> byte list \<Rightarrow> 64 word \<Rightarrow> 'w \<Rightarrow> (((error_code + unit) \<times> DWORD) \<times> 'w) run" where
  "AsyncWriteFile os xer h buf off w =
     (let ((ok, k), w) = win_WriteFile os h buf (overlapped_offset off) w
      in bind_run (co_overlapped os (win_GetLastError os) xer (ok, w)) (\<lambda>((st, _), w).
           Ret ((overlapped_resume st, if was_pending st then bytes_transferred st else k), w)))"

definition winsock_no_connectex :: error_code where
  "winsock_no_connectex = \<lparr>ec_category = Cio_category, ec_value = 7\<rparr>"

definition winsock_no_acceptex :: error_code where
  "winsock_no_acceptex = \<lparr>ec_category = Cio_category, ec_value = 8\<rparr>"

definition AsyncConnectEx ::
  "'w win32 \<Rightarrow> 'x option \<Rightarrow> SOCKET \<Rightarrow> byte list \<Rightarrow> 'w \<Rightarrow> ((error_code + unit) \<times> 'w) run" where
  "AsyncConnectEx os xer sock name w =
     (let (ret, w) = win_WSAIoctl os sock w
      in if ret \<noteq> 0 then Ret (Inl winsock_no_connectex, w)
      else bind_run (co_overlapped os (win_WSAGetLastError os) xer (win_ConnectEx os sock name w)) (\<lambda>((st, _), w).
           Ret (overlapped_resume st, w)))"

definition AsyncAcceptEx ::
  "'w win32 \<Rightarrow> 'x option \<Rightarrow> SOCKET \<Rightarrow> SOCKET \<Rightarrow> 'w \<Rightarrow> ((error_code + unit) \<times> 'w) run" where
  "AsyncAcceptEx os xer listener client w =
     (let (ret, w) = win_WSAIoctl os listener w
      in if ret \<noteq> 0 then Ret (Inl winsock_no_acceptex, w)
      else bind_run (co_overlapped os (win_WSAGetLastError os) xer (win_AcceptEx os listener client w)) (\<lambda>((st, _), w).
           Ret (overlapped_resume st, w)))"

text \<open>There is no overlapped \<^verbatim>\<open>CreateFile\<close>; it is called on another thread, and the handle associated there.\<close>

definition async_create_file ::
  "'w win32 \<Rightarrow> (string \<Rightarrow> DWORD \<Rightarrow> DWORD \<Rightarrow> DWORD \<Rightarrow> 'w \<Rightarrow> HANDLE \<times> 'w) \<Rightarrow> string \<Rightarrow> reactor_global \<Rightarrow> 'i iocp_reactor \<Rightarrow>
   string \<Rightarrow> DWORD \<Rightarrow> DWORD \<Rightarrow> DWORD \<Rightarrow> 'w \<Rightarrow> ((error_code + HANDLE) \<times> 'w) run" where
  "async_create_file os create msg g r path access share disposition w =
     with_weak_handle g (
     let (h, w) = create path access share disposition w
     in if h = INVALID_HANDLE_VALUE then Ret (Inl (get_last_error os w), w)
     else bind_run (associate_handle os r h w) (\<lambda>(ret, w).
       case ret of
         Inl _ \<Rightarrow>
           (let (ok, w) = win_CloseHandle os h w
            in if \<not> ok then Abort msg else Ret (Inl (make_error_code reactor_associate_failed), w))
       | Inr _ \<Rightarrow> Ret (Inr h, w)))"

definition AsyncCreateFileW ::
  "'w win32 \<Rightarrow> reactor_global \<Rightarrow> 'i iocp_reactor \<Rightarrow> string \<Rightarrow> DWORD \<Rightarrow> DWORD \<Rightarrow> DWORD \<Rightarrow> 'w \<Rightarrow> ((error_code + HANDLE) \<times> 'w) run" where
  "AsyncCreateFileW os = async_create_file os (win_CreateFileW os) ''AsyncCreateFileW: failed to close handle''"

definition AsyncCreateFileA ::
  "'w win32 \<Rightarrow> reactor_global \<Rightarrow> 'i iocp_reactor \<Rightarrow> string \<Rightarrow> DWORD \<Rightarrow> DWORD \<Rightarrow> DWORD \<Rightarrow> 'w \<Rightarrow> ((error_code + HANDLE) \<times> 'w) run" where
  "AsyncCreateFileA os = async_create_file os (win_CreateFileA os) ''AsyncCreateFileA: failed to close handle''"

subsection \<open>Properties\<close>

lemma handle_ops_bad:
  assumes "\<not> handle_ok h"
  shows "unique_handle_bool h = Abort ''unique_handle: bad state''" "unique_handle_native h = Abort ''unique_handle: bad state''"
    "unique_handle_close os h w = Abort ''unique_handle: bad state''" "unique_handle_move h = Abort ''unique_handle: bad state''"
    "unique_handle_destroy os h w = Abort ''unique_handle: bad state''"
  using assms by (simp_all add: unique_handle_bool_def unique_handle_native_def unique_handle_close_def unique_handle_move_def
      unique_handle_destroy_def check_handle_def)

lemma handle_ops_empty:
  "unique_handle_bool unique_handle_empty = Ret False"
  "unique_handle_close os unique_handle_empty w = Ret (Inr (), unique_handle_empty, w)"
  "unique_handle_destroy os unique_handle_empty w = Ret w"
  by (simp_all add: unique_handle_bool_def unique_handle_close_def unique_handle_destroy_def check_handle_def handle_ok_def
      unique_handle_empty_def)

text \<open>Closing a handle works once: afterwards the object is empty, closing it again does nothing and the
  destructor is harmless. When the system refuses to close the handle the object is in a state that
  every operation takes for an internal error: testing it, closing it again, moving it and even its
  destructor end the program.\<close>

theorem unique_handle_bad_state:
  assumes "is_valid h" "native_handle h \<noteq> INVALID_HANDLE_VALUE"
  shows "\<exists>ret h' w'. unique_handle_close os h w = Ret (ret, h', w') \<and>
    (if fst (win_CloseHandle os (native_handle h) w) then
       ret = Inr () \<and> h' = unique_handle_empty \<and> unique_handle_close os h' v = Ret (Inr (), h', v) \<and>
       unique_handle_destroy os h' v = Ret v \<and> unique_handle_bool h' = Ret False
     else
       ret = Inl (get_last_error os w') \<and> unique_handle_bool h' = Abort ''unique_handle: bad state'' \<and>
       unique_handle_native h' = Abort ''unique_handle: bad state'' \<and>
       unique_handle_close os h' v = Abort ''unique_handle: bad state'' \<and>
       unique_handle_move h' = Abort ''unique_handle: bad state'' \<and>
       unique_handle_destroy os h' v = Abort ''unique_handle: bad state'')"
proof -
  obtain ok w' where c: "win_CloseHandle os (native_handle h) w = (ok, w')" by fastforce
  then have "unique_handle_close os h w =
      Ret (if ok then (Inr (), unique_handle_empty, w') else (Inl (get_last_error os w'), h\<lparr>is_valid := False\<rparr>, w'))"
    using assms by (simp add: unique_handle_close_def check_handle_def handle_ok_def unique_handle_empty_def)
  moreover have "\<not> handle_ok (h\<lparr>is_valid := False\<rparr>)" using assms(2) by (simp add: handle_ok_def)
  ultimately show ?thesis using c handle_ops_bad handle_ops_empty by auto
qed

text \<open>A system whose calls do nothing; concrete systems change some of its calls.\<close>

definition idle_win32 :: "'w win32" where
  "idle_win32 = \<lparr>win_GetLastError = \<lambda>_. 6, win_CloseHandle = \<lambda>_ w. (True, w), win_CreateFileW = \<lambda>_ _ _ _ w. (7, w),
     win_CreateFileA = \<lambda>_ _ _ _ w. (7, w), win_CreateEvent = \<lambda>w. (9, w), win_ReadFile = \<lambda>_ _ _ w. ((False, 0, []), w),
     win_WriteFile = \<lambda>_ _ _ w. ((False, 0), w), win_GetOverlappedResult = \<lambda>_ w. ((False, 0, []), w),
     win_CreateIoCompletionPort = \<lambda>_ _ w. (5, w), win_GetQueuedCompletionStatus = \<lambda>w. (None, w),
     win_WSAStartup = \<lambda>w. (0, w), win_WSAGetLastError = \<lambda>_. 6, win_closesocket = \<lambda>_ w. (0, w),
     win_WSASocket = \<lambda>_ w. (11, w), win_socket = \<lambda>_ w. (11, w), win_bind = \<lambda>_ _ w. (0, w), win_listen = \<lambda>_ w. (0, w),
     win_setsockopt = \<lambda>_ w. (0, w), win_WSAConnect = \<lambda>_ _ w. (0, w), win_accept = \<lambda>_ w. (12, w),
     win_WSAIoctl = \<lambda>_ w. (0, w), win_ConnectEx = \<lambda>_ _ w. (True, w), win_AcceptEx = \<lambda>_ _ w. (True, w)\<rparr>"

definition stuck_win32 :: "unit win32" where
  "stuck_win32 = idle_win32\<lparr>win_CloseHandle := \<lambda>_ w. (False, w)\<rparr>"

theorem unique_handle_bad_state_witness:
  "\<exists>ret h'. unique_handle_close stuck_win32 \<lparr>is_valid = True, native_handle = 5\<rparr> () = Ret (ret, h', ()) \<and>
    unique_handle_destroy stuck_win32 h' () = Abort ''unique_handle: bad state''"
  using unique_handle_bad_state [of "\<lparr>is_valid = True, native_handle = 5\<rparr>" stuck_win32 "()" "()"]
  by (auto simp: stuck_win32_def INVALID_HANDLE_VALUE_def)

text \<open>The reactor on Windows cannot be started twice: once it has got a completion port, even if the
  start then fails, every later start ends the program, before and after a stop. The reactor is one
  object for the whole program, so this is what happens when the last handle is given up and a new
  one is taken.\<close>

theorem iocp_no_restart:
  assumes "iocp_start os cores thrown r w = Ret (ret, r1, w1)"
    "fst (win_CreateIoCompletionPort os INVALID_HANDLE_VALUE 0 w) \<noteq> 0"
  shows "iocp_start os cores' thrown' r1 v = Abort ''iocp_reactor::start: already started'' \<and>
    (iocp_stop os r1 w1 = Ret (r2, w2) \<longrightarrow>
      iocp_start os cores' thrown' r2 v = Abort ''iocp_reactor::start: already started'')"
proof -
  obtain hdl w' where p: "win_CreateIoCompletionPort os INVALID_HANDLE_VALUE 0 w = (hdl, w')" by fastforce
  obtain err w'' where e: "win_WSAStartup os w' = (err, w'')" by fastforce
  have "completion_port r1 \<noteq> None"
    using assms p e
    by (cases "err = 0"; cases thrown) (auto simp: iocp_start_def run_simps)
  moreover have "completion_port r2 \<noteq> None" if "iocp_stop os r1 w1 = Ret (r2, w2)"
    using that \<open>completion_port r1 \<noteq> None\<close>
    by (auto simp: iocp_stop_def run_simps split: sum.splits) (metis obj_sumE old.unit.exhaust)
  ultimately show ?thesis by (simp add: iocp_start_def)
qed

definition iocp_new :: "'i iocp_reactor" where
  "iocp_new = \<lparr>completion_port = None, completion_thread = False, iocp_executor = \<lparr>mt_work = [], mt_threads = [], mt_stopped = False\<rparr>\<rparr>"

theorem iocp_no_restart_witness:
  "\<exists>r1 w1. iocp_start idle_win32 4 None (iocp_new :: unit iocp_reactor) () = Ret (Inr (), r1, w1) \<and>
    iocp_start idle_win32 4 None r1 () = Abort ''iocp_reactor::start: already started''"
proof -
  obtain r1 w1 where s: "iocp_start idle_win32 4 None (iocp_new :: unit iocp_reactor) () = Ret (Inr (), r1, w1)"
    by (simp add: iocp_start_def iocp_new_def idle_win32_def unique_handle_of_def check_handle_def handle_ok_def
        INVALID_HANDLE_VALUE_def)
  then show ?thesis using iocp_no_restart [OF s] by (auto simp: idle_win32_def)
qed

end
