(* ===== verification/Win32_File.thy ===== *)
theory Win32_File
  imports Win32_Api File_Channel
begin

unbundle bit_operations_syntax

text \<open>
  Channels on files on Windows, \<^verbatim>\<open>win32/detail/filechannel_base.hxx\<close>. All operations of the system take a
  position; a sequential channel keeps its own two. \<open>g\<close> and \<open>r\<close> are the reactor handles and the reactor,
  \<open>xer\<close> is the executor of the coroutine. The path is not converted: names are strings.
\<close>

subsection \<open>Opening and closing\<close>

definition GENERIC_READ :: DWORD where "GENERIC_READ = 0x80000000"
definition GENERIC_WRITE :: DWORD where "GENERIC_WRITE = 0x40000000"
definition FILE_SHARE_READ :: DWORD where "FILE_SHARE_READ = 1"
definition CREATE_NEW :: DWORD where "CREATE_NEW = 1"
definition CREATE_ALWAYS :: DWORD where "CREATE_ALWAYS = 2"
definition OPEN_EXISTING :: DWORD where "OPEN_EXISTING = 3"
definition OPEN_ALWAYS :: DWORD where "OPEN_ALWAYS = 4"
definition TRUNCATE_EXISTING :: DWORD where "TRUNCATE_EXISTING = 5"

lemmas win32_open_defs = GENERIC_READ_def GENERIC_WRITE_def FILE_SHARE_READ_def CREATE_NEW_def CREATE_ALWAYS_def
  OPEN_EXISTING_def OPEN_ALWAYS_def TRUNCATE_EXISTING_def

text \<open>The value returned, the access, the creation disposition and the share mode, which are zero before.\<close>

definition win32_make_flags :: "fileflagset \<Rightarrow> bool \<times> DWORD \<times> DWORD \<times> DWORD" where
  "win32_make_flags flags =
     (if \<not> any_set flags (flag_or fileflags_read fileflags_write) then (False, 0, 0, 0)
      else if is_set flags fileflags_read \<and> \<not> is_set flags fileflags_write then
        (if any_set flags (flagset_or (flag_or fileflags_trunc fileflags_append) fileflags_create_new) then (False, 0, 0, 0)
         else (True, GENERIC_READ, OPEN_EXISTING, FILE_SHARE_READ))
      else if is_set flags fileflags_write then
        (if \<not> any_set flags (flag_or fileflags_create_new fileflags_open_existing) then (False, 0, 0, 0)
         else
           let disposition =
                 (if is_set flags fileflags_create_new \<and> \<not> is_set flags fileflags_open_existing then CREATE_NEW
                  else if is_set flags fileflags_create_new \<and> is_set flags fileflags_open_existing then
                    (if is_set flags fileflags_trunc then CREATE_ALWAYS else OPEN_ALWAYS)
                  else if \<not> is_set flags fileflags_create_new \<and> is_set flags fileflags_open_existing then
                    (if is_set flags fileflags_trunc then TRUNCATE_EXISTING else OPEN_EXISTING)
                  else 0)
           in (True, 0 OR (GENERIC_READ OR GENERIC_WRITE), disposition, 0))
      else (False, 0, 0, 0))"

record win32_filechannel =
  wf_handle :: unique_handle

definition win32_filechannel_new :: win32_filechannel where
  "win32_filechannel_new = \<lparr>wf_handle = unique_handle_empty\<rparr>"

definition win32_is_open :: "win32_filechannel \<Rightarrow> bool run" where
  "win32_is_open c = unique_handle_bool (wf_handle c)"

text \<open>\<^verbatim>\<open>_native_handle = unique_handle(handle)\<close>, with the temporary object.\<close>

definition assign_handle :: "'w win32 \<Rightarrow> win32_filechannel \<Rightarrow> HANDLE \<Rightarrow> 'w \<Rightarrow> (win32_filechannel \<times> 'w) run" where
  "assign_handle os c h w =
     bind_run (unique_handle_of h) (\<lambda>tmp.
     bind_run (unique_handle_move_assign (wf_handle c) tmp) (\<lambda>(u, tmp).
     bind_run (unique_handle_destroy os tmp w) (\<lambda>w. Ret (c\<lparr>wf_handle := u\<rparr>, w))))"

definition async_da_open ::
  "'w win32 \<Rightarrow> reactor_global \<Rightarrow> 'i iocp_reactor \<Rightarrow> win32_filechannel \<Rightarrow> string \<Rightarrow> fileflagset \<Rightarrow> 'w \<Rightarrow>
   ((error_code + unit) \<times> win32_filechannel \<times> 'w) run" where
  "async_da_open os g r c path flags w =
     bind_run (win32_is_open c) (\<lambda>opened.
     if opened then Ret (Inl (make_error_code channel_already_open), c, w)
     else let (valid, access, disposition, share) = win32_make_flags flags
     in if \<not> valid then Ret (Inl (make_error_code filechannel_invalid_flags), c, w)
     else bind_run (AsyncCreateFileW os g r path access share disposition w) (\<lambda>(h, w).
       case h of
         Inl e \<Rightarrow> Ret (Inl (win32_to_generic_error e), c, w)
       | Inr h \<Rightarrow> bind_run (assign_handle os c h w) (\<lambda>(c, w). Ret (Inr (), c, w))))"

definition da_open ::
  "'w win32 \<Rightarrow> reactor_global \<Rightarrow> 'i iocp_reactor \<Rightarrow> win32_filechannel \<Rightarrow> string \<Rightarrow> fileflagset \<Rightarrow> 'w \<Rightarrow>
   ((error_code + unit) \<times> win32_filechannel \<times> 'w) run" where
  "da_open os g r c path flags w =
     bind_run (win32_is_open c) (\<lambda>opened.
     if opened then Ret (Inl (make_error_code channel_already_open), c, w)
     else let (valid, access, disposition, share) = win32_make_flags flags
     in if \<not> valid then Ret (Inl (make_error_code filechannel_invalid_flags), c, w)
     else let (h, w) = win_CreateFileW os path access share disposition w
     in if h = INVALID_HANDLE_VALUE then Ret (Inl (win32_to_generic_error (get_last_error os w)), c, w)
     else with_weak_handle g (
       bind_run (associate_handle os r h w) (\<lambda>(aret, w).
       case aret of
         Inl e \<Rightarrow> Ret (Inl e, c, w)
       | Inr _ \<Rightarrow> bind_run (assign_handle os c h w) (\<lambda>(c, w). Ret (Inr (), c, w)))))"

definition win32_file_close ::
  "'w win32 \<Rightarrow> win32_filechannel \<Rightarrow> 'w \<Rightarrow> ((error_code + unit) \<times> win32_filechannel \<times> 'w) run" where
  "win32_file_close os c w =
     bind_run (win32_is_open c) (\<lambda>opened.
     if \<not> opened then Ret (Inl (make_error_code channel_not_open), c, w)
     else bind_run (unique_handle_close os (wf_handle c) w) (\<lambda>(ret, h, w). Ret (ret, c\<lparr>wf_handle := h\<rparr>, w)))"

definition win32_file_async_close ::
  "'w win32 \<Rightarrow> win32_filechannel \<Rightarrow> 'w \<Rightarrow> ((error_code + unit) \<times> win32_filechannel \<times> 'w) run" where
  "win32_file_async_close os c w =
     bind_run (unique_handle_close os (wf_handle c) w) (\<lambda>(ret, h, w). Ret (ret, c\<lparr>wf_handle := h\<rparr>, w))"

definition win32_filechannel_destroy :: "'w win32 \<Rightarrow> win32_filechannel \<Rightarrow> 'w \<Rightarrow> 'w run" where
  "win32_filechannel_destroy os c w = unique_handle_destroy os (wf_handle c) w"

subsection \<open>Reading and writing\<close>

text \<open>\<^verbatim>\<open>truncate<DWORD>(buf.size())\<close>.\<close>

definition dwbytes :: "nat \<Rightarrow> DWORD" where
  "dwbytes n = word_of_nat (min n (2 ^ 32 - 1))"

lemma unat_dwbytes [simp]: "unat (dwbytes n) = min n (2 ^ 32 - 1)"
  by (simp add: dwbytes_def unat_of_nat take_bit_nat_eq_self)

lemma dwbytes_truncate:
  assumes "n < 2 ^ 64"
  shows "dwbytes n = truncate_word (word_of_nat n :: 64 word)"
proof -
  have n: "unat (word_of_nat n :: 64 word) = n" using assms by (simp add: unat_of_nat take_bit_nat_eq_self)
  have m: "unat (widen (umax :: DWORD) :: 64 word) = 2 ^ 32 - 1"
    unfolding widen_def by transfer (simp add: mask_eq_exp_minus_1)
  show ?thesis
    by (rule word_unat_eq_iff [THEN iffD2]) (simp add: truncate_word_def word_less_nat_alt n m unsigned_ucast_eq take_bit_nat_eq_self min_def unsigned_minus_1_eq_mask mask_eq_exp_minus_1)
qed

definition win32_async_read_some_at ::
  "'w win32 \<Rightarrow> 'x option \<Rightarrow> win32_filechannel \<Rightarrow> 64 word \<Rightarrow> nat \<Rightarrow> 'w \<Rightarrow> ((error_code + DWORD \<times> byte list) \<times> 'w) run" where
  "win32_async_read_some_at os xer c loc n w =
     bind_run (win32_is_open c) (\<lambda>opened.
     sk_check opened ''attempt to read on a closed channel'' (
     bind_run (unique_handle_native (wf_handle c)) (\<lambda>h.
     bind_run (AsyncReadFile os xer h (dwbytes n) loc w) (\<lambda>((ret, k, buf), w).
       Ret (case ret of Inl e \<Rightarrow> Inl (win32_to_generic_error e) | Inr _ \<Rightarrow> Inr (k, buf), w)))))"

text \<open>An operation with an event of its own, waited for on the spot: \<open>begun\<close> begins it. The event is closed
  after the result is there.\<close>

definition overlapped_wait ::
  "'w win32 \<Rightarrow> HANDLE \<Rightarrow> ('w \<Rightarrow> (bool \<times> DWORD \<times> byte list) \<times> 'w) \<Rightarrow> 'w \<Rightarrow> ((error_code + DWORD \<times> byte list) \<times> 'w) run" where
  "overlapped_wait os h begun w =
     (let (event_handle, w) = win_CreateEvent os w
      in if event_handle = 0 then Ret (Inl (win32_to_generic_error (get_last_error os w)), w)
      else bind_run (unique_handle_of event_handle) (\<lambda>evt.
        let ((ret, k, buf), w) = begun w;
            ((ret, k, buf), w) =
              (if \<not> ret \<and> win_GetLastError os w = ERROR_IO_PENDING then win_GetOverlappedResult os h w
               else ((ret, k, buf), w));
            result = (if \<not> ret then Inl (win32_to_generic_error (get_last_error os w)) else Inr (k, buf))
        in bind_run (unique_handle_destroy os evt w) (\<lambda>w. Ret (result, w))))"

definition win32_read_some_at ::
  "'w win32 \<Rightarrow> win32_filechannel \<Rightarrow> 64 word \<Rightarrow> nat \<Rightarrow> 'w \<Rightarrow> ((error_code + DWORD \<times> byte list) \<times> 'w) run" where
  "win32_read_some_at os c loc n w =
     bind_run (win32_is_open c) (\<lambda>opened.
     sk_check opened ''attempt to read on a closed channel'' (
     bind_run (unique_handle_native (wf_handle c)) (\<lambda>h.
       overlapped_wait os h (win_ReadFile os h (dwbytes n) (overlapped_offset loc)) w)))"

text \<open>The test is the wrong way round: \<^verbatim>\<open>error()\<close> of a result that has a value is undefined.\<close>

definition win32_async_write_some_at ::
  "'w win32 \<Rightarrow> 'x option \<Rightarrow> win32_filechannel \<Rightarrow> 64 word \<Rightarrow> byte list \<Rightarrow> 'w \<Rightarrow> ((error_code + DWORD) \<times> 'w) run" where
  "win32_async_write_some_at os xer c loc buf w =
     bind_run (win32_is_open c) (\<lambda>opened.
     sk_check opened ''attempt to write on a closed channel'' (
     bind_run (unique_handle_native (wf_handle c)) (\<lambda>h.
     bind_run (AsyncWriteFile os xer h (take (unat (dwbytes (length buf))) buf) loc w) (\<lambda>((ret, k), w).
       case ret of Inr _ \<Rightarrow> Abort ''error() of an expected that has a value'' | Inl _ \<Rightarrow> Ret (Inr k, w)))))"

definition win32_write_some_at ::
  "'w win32 \<Rightarrow> win32_filechannel \<Rightarrow> 64 word \<Rightarrow> byte list \<Rightarrow> 'w \<Rightarrow> ((error_code + DWORD) \<times> 'w) run" where
  "win32_write_some_at os c loc buf w =
     bind_run (win32_is_open c) (\<lambda>opened.
     sk_check opened ''attempt to write on a closed channel'' (
     bind_run (unique_handle_native (wf_handle c)) (\<lambda>h.
     bind_run
       (overlapped_wait os h
         (\<lambda>w. let ((ret, k), w) = win_WriteFile os h (take (unat (dwbytes (length buf))) buf) (overlapped_offset loc) w
              in ((ret, k, []), w)) w)
       (\<lambda>(ret, w). Ret (map_sum (\<lambda>e. e) fst ret, w)))))"

subsection \<open>Sequential channels\<close>

record win32_seqfilechannel =
  sf_base :: win32_filechannel
  read_position :: "64 word"
  write_position :: "64 word"

definition win32_seqfilechannel_new :: win32_seqfilechannel where
  "win32_seqfilechannel_new = \<lparr>sf_base = win32_filechannel_new, read_position = 0, write_position = 0\<rparr>"

definition at_end_word :: "64 word" where
  "at_end_word = word_of_nat at_end"

text \<open>The positions are set before the file is opened.\<close>

definition reset_positions :: "fileflagset \<Rightarrow> win32_seqfilechannel \<Rightarrow> win32_seqfilechannel" where
  "reset_positions flags c =
     c\<lparr>write_position := if is_set flags fileflags_append then at_end_word else 0, read_position := 0\<rparr>"

definition async_seq_open ::
  "'w win32 \<Rightarrow> reactor_global \<Rightarrow> 'i iocp_reactor \<Rightarrow> win32_seqfilechannel \<Rightarrow> string \<Rightarrow> fileflagset \<Rightarrow> 'w \<Rightarrow>
   ((error_code + unit) \<times> win32_seqfilechannel \<times> 'w) run" where
  "async_seq_open os g r c path flags w =
     (let c = reset_positions flags c
      in bind_run (async_da_open os g r (sf_base c) path flags w) (\<lambda>(ret, b, w). Ret (ret, c\<lparr>sf_base := b\<rparr>, w)))"

definition seq_open ::
  "'w win32 \<Rightarrow> reactor_global \<Rightarrow> 'i iocp_reactor \<Rightarrow> win32_seqfilechannel \<Rightarrow> string \<Rightarrow> fileflagset \<Rightarrow> 'w \<Rightarrow>
   ((error_code + unit) \<times> win32_seqfilechannel \<times> 'w) run" where
  "seq_open os g r c path flags w =
     (let c = reset_positions flags c
      in bind_run (da_open os g r (sf_base c) path flags w) (\<lambda>(ret, b, w). Ret (ret, c\<lparr>sf_base := b\<rparr>, w)))"

definition advance_read :: "error_code + DWORD \<times> byte list \<Rightarrow> win32_seqfilechannel \<Rightarrow> win32_seqfilechannel" where
  "advance_read ret c = (case ret of Inl _ \<Rightarrow> c | Inr (k, _) \<Rightarrow> c\<lparr>read_position := read_position c + ucast k\<rparr>)"

definition advance_write :: "error_code + DWORD \<Rightarrow> win32_seqfilechannel \<Rightarrow> win32_seqfilechannel" where
  "advance_write ret c =
     (case ret of
        Inl _ \<Rightarrow> c
      | Inr k \<Rightarrow> if write_position c \<noteq> at_end_word then c\<lparr>write_position := write_position c + ucast k\<rparr> else c)"

definition win32_async_read_some ::
  "'w win32 \<Rightarrow> 'x option \<Rightarrow> win32_seqfilechannel \<Rightarrow> nat \<Rightarrow> 'w \<Rightarrow>
   ((error_code + DWORD \<times> byte list) \<times> win32_seqfilechannel \<times> 'w) run" where
  "win32_async_read_some os xer c n w =
     bind_run (win32_async_read_some_at os xer (sf_base c) (read_position c) n w) (\<lambda>(ret, w). Ret (ret, advance_read ret c, w))"

definition win32_read_some ::
  "'w win32 \<Rightarrow> win32_seqfilechannel \<Rightarrow> nat \<Rightarrow> 'w \<Rightarrow> ((error_code + DWORD \<times> byte list) \<times> win32_seqfilechannel \<times> 'w) run" where
  "win32_read_some os c n w =
     bind_run (win32_read_some_at os (sf_base c) (read_position c) n w) (\<lambda>(ret, w). Ret (ret, advance_read ret c, w))"

definition win32_async_write_some ::
  "'w win32 \<Rightarrow> 'x option \<Rightarrow> win32_seqfilechannel \<Rightarrow> byte list \<Rightarrow> 'w \<Rightarrow> ((error_code + DWORD) \<times> win32_seqfilechannel \<times> 'w) run" where
  "win32_async_write_some os xer c buf w =
     bind_run (win32_async_write_some_at os xer (sf_base c) (write_position c) buf w) (\<lambda>(ret, w). Ret (ret, advance_write ret c, w))"

definition win32_write_some ::
  "'w win32 \<Rightarrow> win32_seqfilechannel \<Rightarrow> byte list \<Rightarrow> 'w \<Rightarrow> ((error_code + DWORD) \<times> win32_seqfilechannel \<times> 'w) run" where
  "win32_write_some os c buf w =
     bind_run (win32_write_some_at os (sf_base c) (write_position c) buf w) (\<lambda>(ret, w). Ret (ret, advance_write ret c, w))"

subsection \<open>Flags\<close>

text \<open>C23: \<^verbatim>\<open>_make_flags\<close> of the two systems, compared. They accept the same combinations. Where they do, the
  disposition on Windows says the same as the flags of \<^verbatim>\<open>open\<close> about creating, about an existing file and
  about truncation, and the access the same about writing. They differ in two things: Windows always
  asks for read access, Linux not for a file that is only written; and \<^verbatim>\<open>append\<close> is lost on Linux,
  while a sequential channel on Windows starts writing at the end exactly when it is given.\<close>

theorem win32_flags_agree:
  "fst (win32_make_flags flags) = fst (make_flags flags) \<and>
   (fst (make_flags flags) \<longrightarrow>
     (let fl = snd (make_flags flags); (_, access, d, _) = win32_make_flags flags
      in (fl AND O_CREAT \<noteq> 0) = (d \<in> {CREATE_NEW, CREATE_ALWAYS, OPEN_ALWAYS}) \<and>
         (fl AND O_EXCL \<noteq> 0) = (d = CREATE_NEW) \<and>
         (fl AND O_TRUNC \<noteq> 0) = (d \<in> {CREATE_ALWAYS, TRUNCATE_EXISTING}) \<and>
         (fl AND (O_WRONLY OR O_RDWR) \<noteq> 0) = (access AND GENERIC_WRITE \<noteq> 0) \<and>
         access AND GENERIC_READ \<noteq> 0 \<and>
         (fl AND (O_WRONLY OR O_RDWR) = O_WRONLY) =
           (is_set flags fileflags_write \<and> \<not> is_set flags fileflags_read) \<and>
         fl AND O_APPEND = 0 \<and>
         (write_position (reset_positions flags c) = at_end_word) = is_set flags fileflags_append))"
proof -
  have "at_end_word \<noteq> 0" by (simp add: at_end_word_def at_end_def word_of_nat_eq_0_iff)
  then have w: "(write_position (reset_positions flags c) = at_end_word) = is_set flags fileflags_append"
    by (simp add: reset_positions_def)
  show ?thesis unfolding w
    by (cases "is_set flags fileflags_read"; cases "is_set flags fileflags_write"; cases "is_set flags fileflags_create_new";
        cases "is_set flags fileflags_open_existing"; cases "is_set flags fileflags_trunc"; cases "is_set flags fileflags_append")
      (simp_all add: make_flags_def win32_make_flags_def is_set_or win32_open_defs open_flag_defs)
qed

theorem win32_flags_agree_witness:
  "snd (make_flags (flagset_or (flag_or fileflags_write fileflags_create_new) fileflags_append)) AND (O_WRONLY OR O_RDWR) = O_WRONLY \<and>
   snd (make_flags (flagset_or (flag_or fileflags_write fileflags_create_new) fileflags_append)) AND O_APPEND = 0 \<and>
   fst (snd (win32_make_flags (flagset_or (flag_or fileflags_write fileflags_create_new) fileflags_append))) AND GENERIC_READ \<noteq> 0 \<and>
   write_position (reset_positions (flagset_or (flag_or fileflags_write fileflags_create_new) fileflags_append)
     win32_seqfilechannel_new) = at_end_word"
proof -
  let ?f = "flagset_or (flag_or fileflags_write fileflags_create_new) fileflags_append"
  have "fst (make_flags ?f)" "is_set ?f fileflags_write" "\<not> is_set ?f fileflags_read" "is_set ?f fileflags_append"
    by code_simp+
  then show ?thesis
    using win32_flags_agree [of ?f win32_seqfilechannel_new] by (simp add: Let_def case_prod_beta)
qed

subsection \<open>Reading a file\<close>

lemma overlapped_offset_value:
  "unat (snd (overlapped_offset off)) * 2 ^ 32 + unat (fst (overlapped_offset off)) = unat off"
proof -
  have "off AND 0xFFFFFFFF = take_bit 32 off" by (simp add: take_bit_eq_mask mask_eq_exp_minus_1)
  then have lo: "unat (ucast (off AND 0xFFFFFFFF) :: DWORD) = unat off mod 2 ^ 32"
    by (simp only: unsigned_ucast_eq unsigned_take_bit_eq) (simp add: take_bit_eq_mod)
  have "unat off < 2 ^ LENGTH(64)" by (rule unsigned_less)
  then have hi: "unat (ucast (drop_bit 32 off) :: DWORD) = unat off div 2 ^ 32"
    by (simp only: unsigned_ucast_eq unsigned_drop_bit_eq) (simp add: take_bit_eq_mod drop_bit_eq_div less_mult_imp_div_less)
  show ?thesis by (simp add: overlapped_offset_def lo hi div_mult_mod_eq)
qed

text \<open>What Windows documents of a file that is only read: \<open>content w\<close> are its bytes while \<open>good w\<close>. A read
  at a position gives at least one of the bytes from there on, at once or when it is waited for, or
  fails with \<^verbatim>\<open>ERROR_HANDLE_EOF\<close> when there are none. Making and closing an event does not touch the
  file.\<close>

definition win_delivers ::
  "'w win32 \<Rightarrow> ('w \<Rightarrow> bool) \<Rightarrow> ('w \<Rightarrow> byte list) \<Rightarrow> byte list \<Rightarrow> DWORD \<Rightarrow> (bool \<times> DWORD \<times> byte list) \<times> 'w \<Rightarrow> bool" where
  "win_delivers os good content file n = (\<lambda>((ok, k, data), w).
     good w \<and>
     (if ok then 0 < k \<and> k \<le> n \<and> unat k \<le> length file \<and> data = take (unat k) file
      else file = [] \<and> win_GetLastError os w = ERROR_HANDLE_EOF))"

definition win_events :: "'w win32 \<Rightarrow> HANDLE \<Rightarrow> ('w \<Rightarrow> bool) \<Rightarrow> ('w \<Rightarrow> byte list) \<Rightarrow> bool" where
  "win_events os h good content \<longleftrightarrow>
     (\<forall>w. good w \<longrightarrow> (case win_CreateEvent os w of (e, w') \<Rightarrow>
        e \<noteq> 0 \<and> e \<noteq> INVALID_HANDLE_VALUE \<and> e \<noteq> h \<and> good w' \<and> content w' = content w)) \<and>
     (\<forall>w e. good w \<and> e \<noteq> h \<longrightarrow> (case win_CloseHandle os e w of (_, w') \<Rightarrow> good w' \<and> content w' = content w))"

definition win_reads :: "'w win32 \<Rightarrow> HANDLE \<Rightarrow> ('w \<Rightarrow> bool) \<Rightarrow> ('w \<Rightarrow> byte list) \<Rightarrow> bool" where
  "win_reads os h good content \<longleftrightarrow>
     win_events os h good content \<and>
     (\<forall>w n lo hi. good w \<and> 0 < n \<longrightarrow>
        (let file = drop (unat hi * 2 ^ 32 + unat lo) (content w); (res, w1) = win_ReadFile os h n (lo, hi) w;
             (res, w2) = (if \<not> fst res \<and> win_GetLastError os w1 = ERROR_IO_PENDING then win_GetOverlappedResult os h w1
                          else (res, w1))
         in win_delivers os good content file n (res, w2) \<and> content w2 = content w))"

lemma win_events_create:
  assumes "win_events os h good content" "good w" "win_CreateEvent os w = (e, w')"
  shows "e \<noteq> 0 \<and> e \<noteq> INVALID_HANDLE_VALUE \<and> e \<noteq> h \<and> good w' \<and> content w' = content w"
  using assms by (force simp: win_events_def)

lemma win_events_close:
  assumes "win_events os h good content" "good w" "e \<noteq> h" "win_CloseHandle os e w = (b, w')"
  shows "good w' \<and> content w' = content w"
  using assms by (force simp: win_events_def)

lemma win_reads_result:
  assumes "win_reads os h good content" "good w" "0 < n"
  obtains res w2 where
    "(let (res, w1) = win_ReadFile os h n (overlapped_offset off) w
      in if \<not> fst res \<and> win_GetLastError os w1 = ERROR_IO_PENDING then win_GetOverlappedResult os h w1 else (res, w1)) =
      (res, w2)"
    "win_delivers os good content (drop (unat off) (content w)) n (res, w2)" "content w2 = content w"
proof -
  obtain lo hi where o: "overlapped_offset off = (lo, hi)" by fastforce
  have off: "unat hi * 2 ^ 32 + unat lo = unat off" using overlapped_offset_value [of off] o by simp
  have "let file = drop (unat hi * 2 ^ 32 + unat lo) (content w); (res, w1) = win_ReadFile os h n (lo, hi) w;
             (res, w2) = (if \<not> fst res \<and> win_GetLastError os w1 = ERROR_IO_PENDING then win_GetOverlappedResult os h w1
                          else (res, w1))
         in win_delivers os good content file n (res, w2) \<and> content w2 = content w"
    using assms unfolding win_reads_def by blast
  then show thesis using that o off by (auto simp: Let_def split: prod.splits if_splits)
qed

lemma event_lifetime:
  assumes "e \<noteq> 0" "e \<noteq> INVALID_HANDLE_VALUE"
  shows "unique_handle_of e = Ret \<lparr>is_valid = True, native_handle = e\<rparr>"
    "unique_handle_destroy os \<lparr>is_valid = True, native_handle = e\<rparr> w = Ret (snd (win_CloseHandle os e w))"
  using assms by (simp_all add: unique_handle_of_def check_handle_def handle_ok_def unique_handle_destroy_def
      unique_handle_close_def case_prod_beta Let_def)

lemma generic_eof [simp]: "win32_to_generic_error (make_win32_error ERROR_HANDLE_EOF) = make_error_code end_of_file"
  by (simp add: make_win32_error_def win32_make_error_code_def win32_to_generic_error_def make_error_code_def
      win32_errc_category_def)

lemma overlapped_wait_reads:
  assumes r: "win_reads os h good content" and g: "good w" and n: "0 < n"
  shows "\<exists>R w'. overlapped_wait os h (win_ReadFile os h n (overlapped_offset off)) w = Ret (R, w') \<and> good w' \<and>
    content w' = content w \<and>
    (if drop (unat off) (content w) = [] then R = Inl (make_error_code end_of_file)
     else \<exists>k. R = Inr (k, take (unat k) (drop (unat off) (content w))) \<and> 0 < k \<and> k \<le> n \<and>
       unat k \<le> length (drop (unat off) (content w)))"
proof -
  obtain e w1 where e: "win_CreateEvent os w = (e, w1)" by fastforce
  have e1: "e \<noteq> 0" "e \<noteq> INVALID_HANDLE_VALUE" "e \<noteq> h" "good w1" "content w1 = content w"
    using r win_events_create [of os h good content w e w1] g e by (auto simp: win_reads_def)
  obtain res w3 where res: "(let (res, w1) = win_ReadFile os h n (overlapped_offset off) w1
      in if \<not> fst res \<and> win_GetLastError os w1 = ERROR_IO_PENDING then win_GetOverlappedResult os h w1 else (res, w1)) =
      (res, w3)"
    "win_delivers os good content (drop (unat off) (content w1)) n (res, w3)" "content w3 = content w1"
    by (rule win_reads_result [OF r e1(4) n])
  obtain ok k buf where "res = (ok, k, buf)" by (rule prod_cases3)
  note res = res [unfolded this]
  obtain cl w4 where c: "win_CloseHandle os e w3 = (cl, w4)" by fastforce
  have c1: "good w4" "content w4 = content w3"
    using r res(2) win_events_close [of os h good content w3 e cl w4] e1(3) c by (auto simp: win_reads_def win_delivers_def)
  have "overlapped_wait os h (win_ReadFile os h n (overlapped_offset off)) w =
      Ret (if \<not> ok then Inl (win32_to_generic_error (get_last_error os w3)) else Inr (k, buf), w4)"
    using res(1) e e1 c by (auto simp: overlapped_wait_def event_lifetime Let_def split: prod.splits if_splits)
  moreover have "0 < k \<longleftrightarrow> 0 < unat k" by (simp add: word_less_nat_alt)
  ultimately show ?thesis using res(2,3) e1 c1 by (auto simp: win_delivers_def get_last_error_def)
qed

text \<open>An open channel, with the system, as the channel of \<^verbatim>\<open>read_all\<close>.\<close>

definition win32_read_op :: "'w win32 \<Rightarrow> (win32_seqfilechannel \<times> 'w, byte) read_op" where
  "win32_read_op os = (\<lambda>(c, w) n.
     case win32_read_some os c n w of
       Ret (r, c', w') \<Rightarrow> (map_sum (\<lambda>e. e) snd r, (c', w'))
     | _ \<Rightarrow> (Inl default_error_code, (c, w)))"

definition win_reading :: "HANDLE \<Rightarrow> ('w \<Rightarrow> bool) \<Rightarrow> byte list \<Rightarrow> ('w \<Rightarrow> byte list) \<Rightarrow> win32_seqfilechannel \<times> 'w \<Rightarrow> bool" where
  "win_reading h good file content = (\<lambda>(c, w).
     wf_handle (sf_base c) = \<lparr>is_valid = True, native_handle = h\<rparr> \<and> good w \<and> content w = file \<and> length file < 2 ^ 64 \<and>
     unat (read_position c) \<le> length file)"

lemma advance_position:
  assumes "unat p + unat k < 2 ^ 64"
  shows "unat (p + ucast (k :: DWORD) :: 64 word) = unat p + unat k"
proof -
  have "unat (ucast k :: 64 word) = unat k" by (simp add: unsigned_ucast_eq take_bit_nat_eq_self unsigned_less [THEN less_trans])
  then show ?thesis using assms by (simp add: unat_word_ariths)
qed

lemma win32_seq_reader:
  assumes "win_reads os h good content"
  shows "seq_reader (win_reading h good file content) (\<lambda>(c, w). drop (unat (read_position c)) file) (win32_read_op os)
    (make_error_code end_of_file)"
proof -
  have step: "\<exists>R c' w'. win32_read_op os (c, w) n = (R, c', w') \<and> win_reading h good file content (c', w') \<and>
      (if drop (unat (read_position c)) file = [] then R = Inl (make_error_code end_of_file) \<and> c' = c
       else \<exists>k. R = Inr (take k (drop (unat (read_position c)) file)) \<and> 0 < k \<and> k \<le> n \<and>
         k \<le> length (drop (unat (read_position c)) file) \<and> unat (read_position c') = unat (read_position c) + k)"
    if inv: "win_reading h good file content (c, w)" and n: "0 < n" for c w n
  proof -
    let ?p = "read_position c"
    have c: "wf_handle (sf_base c) = \<lparr>is_valid = True, native_handle = h\<rparr>" "good w" "content w = file" "length file < 2 ^ 64"
      "unat ?p \<le> length file" using inv by (auto simp: win_reading_def)
    have "0 < dwbytes n" using n by (simp add: word_less_nat_alt)
    from overlapped_wait_reads [OF assms c(2) this, of ?p] obtain R w' where
      o: "overlapped_wait os h (win_ReadFile os h (dwbytes n) (overlapped_offset ?p)) w = Ret (R, w')"
      and w': "good w'" "content w' = file"
      and R: "if drop (unat ?p) file = [] then R = Inl (make_error_code end_of_file)
        else \<exists>k. R = Inr (k, take (unat k) (drop (unat ?p) file)) \<and> 0 < k \<and> k \<le> dwbytes n \<and>
          unat k \<le> length (drop (unat ?p) file)" unfolding c(3) by blast
    have op: "win32_read_op os (c, w) n = (map_sum (\<lambda>e. e) snd R, advance_read R c, w')"
      using o c(1) by (simp add: win32_read_op_def win32_read_some_def win32_read_some_at_def win32_is_open_def
          unique_handle_bool_def check_handle_def handle_ok_def unique_handle_native_def)
    show ?thesis
    proof (cases "drop (unat ?p) file = []")
      case True
      then show ?thesis using op R w' c by (auto simp: advance_read_def win_reading_def)
    next
      case False
      with R obtain k where k: "R = Inr (k, take (unat k) (drop (unat ?p) file))" "0 < k" "k \<le> dwbytes n"
        "unat k \<le> length (drop (unat ?p) file)" by auto
      have pos: "unat (?p + ucast k) = unat ?p + unat k" using k(4) c(4,5) by (intro advance_position) simp
      have "0 < unat k" "unat k \<le> n" using k(2,3) by (simp_all add: word_less_nat_alt word_le_nat_alt)
      then show ?thesis using op False k(1,4) w' c pos by (auto simp: advance_read_def win_reading_def)
    qed
  qed
  show ?thesis
  proof (unfold_locales, goal_cases)
    case 1
    show ?case by simp
  next
    case (2 cw n)
    obtain c w where cw: "cw = (c, w)" by fastforce
    from step [of c w n] 2 cw show ?case by (auto simp: add.commute)
  next
    case (3 cw n)
    obtain c w where cw: "cw = (c, w)" by fastforce
    from step [of c w n] 3 cw show ?case by auto
  qed
qed

text \<open>C20: \<^verbatim>\<open>read_all\<close> on an open sequential file channel for both directions on Windows ends, however the system cuts the file
  into pieces and whether or not a read is pending, with exactly the bytes from the read position on
  that were asked for, or with all of them and end of file when there are fewer; the position is then
  behind them.\<close>

theorem win32_file_read_all:
  assumes "win_reads os h good content" "wf_handle (sf_base c) = \<lparr>is_valid = True, native_handle = h\<rparr>" "good w"
    "length (content w) < 2 ^ 64" "unat (read_position c) \<le> length (content w)" "min sz n \<le> fuel"
  shows "\<exists>c' w'. read_all fuel (win32_read_op os) (c, w) sz n =
      Ret (take (min sz n) (drop (unat (read_position c)) (content w)),
        if length (content w) - unat (read_position c) < min sz n then make_error_code end_of_file else make_error_code no_error,
        (c', w')) \<and>
    drop (unat (read_position c')) (content w) = drop (unat (read_position c) + min sz n) (content w) \<and> content w' = content w"
proof -
  have inv: "win_reading h good (content w) content (c, w)" using assms(2-5) by (simp add: win_reading_def)
  from seq_reader.read_all_ok [OF win32_seq_reader [OF assms(1)] inv assms(6)] show ?thesis
    by (force simp: win_reading_def add.commute)
qed

text \<open>A disk with a file of three bytes, which it delivers at most two at a time; the state is the last
  error.\<close>

definition slow_read :: "nat \<Rightarrow> DWORD \<Rightarrow> (bool \<times> DWORD \<times> byte list) \<times> DWORD" where
  "slow_read p n =
     (let f = take (min (unat n) 2) (drop p [1, 2, 3])
      in if f = [] then ((False, 0, []), ERROR_HANDLE_EOF) else ((True, word_of_nat (length f), f), 0))"

definition slow_win32 :: "DWORD win32" where
  "slow_win32 = idle_win32\<lparr>win_GetLastError := \<lambda>w. w,
     win_ReadFile := \<lambda>_ n (lo, hi) w. slow_read (unat hi * 2 ^ 32 + unat lo) n\<rparr>"

lemma slow_read_delivers:
  assumes "0 < n"
  shows "win_delivers slow_win32 (\<lambda>_. True) content (drop p [1, 2, 3]) n (slow_read p n)"
proof -
  let ?k = "min (length (drop p [1, 2, 3 :: byte])) (min (unat n) 2)"
  have n: "0 < unat n" using assms by (simp add: word_less_nat_alt)
  have k: "unat (word_of_nat ?k :: DWORD) = ?k" by (simp add: unat_of_nat take_bit_nat_eq_self)
  have t: "take m xs = take (min (length xs) m) xs" for m and xs :: "byte list" by (cases "m \<le> length xs") simp_all
  show ?thesis
    by (cases "drop p [1, 2, 3 :: byte] = []")
      (use n k t [of "min (unat n) 2" "drop p [1, 2, 3]"] in
        \<open>auto simp: win_delivers_def slow_read_def slow_win32_def Let_def word_less_nat_alt word_le_nat_alt min.commute\<close>)
qed

lemma slow_win32_reads: "win_reads slow_win32 7 (\<lambda>_. True) (\<lambda>_. [1, 2, 3])"
proof -
  have "win_events slow_win32 7 (\<lambda>_. True) (\<lambda>_. [1, 2, 3])"
    by (simp add: win_events_def slow_win32_def idle_win32_def INVALID_HANDLE_VALUE_def)
  moreover have "snd (slow_read p n) \<noteq> ERROR_IO_PENDING" for p n
    by (auto simp: slow_read_def Let_def win32_errors)
  moreover have "win_ReadFile slow_win32 h n (lo, hi) w = slow_read (unat hi * 2 ^ 32 + unat lo) n"
    "win_GetLastError slow_win32 w = w" for h n lo hi w
    by (simp_all add: slow_win32_def)
  ultimately show ?thesis using slow_read_delivers
    unfolding win_reads_def Let_def by (simp add: case_prod_beta)
qed

definition slow_channel :: win32_seqfilechannel where
  "slow_channel = win32_seqfilechannel_new\<lparr>sf_base := \<lparr>wf_handle = \<lparr>is_valid = True, native_handle = 7\<rparr>\<rparr>\<rparr>"

theorem win32_file_read_all_witness:
  "\<exists>c' w'. read_all 5 (win32_read_op slow_win32) (slow_channel, 0) 5 9 =
    Ret ([1, 2, 3], make_error_code end_of_file, (c', w'))"
  using win32_file_read_all [OF slow_win32_reads, where c = slow_channel and w = 0 and sz = 5 and n = 9 and fuel = 5]
  by (auto simp: slow_channel_def win32_seqfilechannel_new_def)

subsection \<open>Coroutines and failures\<close>

text \<open>What Windows documents of completion ports: an operation that fails at once, with another error
  than \<^verbatim>\<open>ERROR_IO_PENDING\<close>, queues no packet.\<close>

definition no_packet_on_failure :: "'w win32 \<Rightarrow> bool" where
  "no_packet_on_failure os \<longleftrightarrow>
     (\<forall>h n off w k data w1. win_ReadFile os h n off w = ((False, k, data), w1) \<and> win_GetLastError os w1 \<noteq> ERROR_IO_PENDING \<longrightarrow>
        fst (win_GetQueuedCompletionStatus os w1) = None)"

lemma open_handle:
  assumes "wf_handle c = \<lparr>is_valid = True, native_handle = h\<rparr>"
  shows "win32_is_open c = Ret True" "unique_handle_native (wf_handle c) = Ret h"
    "unique_handle_native \<lparr>is_valid = True, native_handle = h\<rparr> = Ret h"
  using assms by (simp_all add: win32_is_open_def unique_handle_bool_def unique_handle_native_def check_handle_def handle_ok_def)

text \<open>What a coroutine that reads gets, for every way the operation can go.\<close>

lemma win32_async_read_cases:
  assumes "wf_handle c = \<lparr>is_valid = True, native_handle = h\<rparr>"
    "win_ReadFile os h (dwbytes n) (overlapped_offset loc) w = ((ok, k, data), w1)"
    "win_GetQueuedCompletionStatus os w1 = (packet, w2)"
  shows "win32_async_read_some_at os (Some x) c loc n w =
    (case packet of
       None \<Rightarrow> Diverge
     | Some p \<Rightarrow>
         Ret (if ok then Inr (k, data)
              else if win_GetLastError os w1 \<noteq> ERROR_IO_PENDING then
                Inl (win32_to_generic_error (make_win32_error (win_GetLastError os w1)))
              else if cp_success p then Inr (cp_bytes p, cp_data p)
              else Inl (win32_to_generic_error (make_win32_error (cp_error p))), w2))"
  using assms
  by (auto simp: win32_async_read_some_at_def open_handle AsyncReadFile_def co_overlapped_def overlapped_suspend_def
      completion_thread_fn_def overlapped_resume_def split: option.splits)

text \<open>C22: On Windows a coroutine that reads at or behind the end of a file is never resumed when the system
  finds that out at once: no completion packet is queued for an operation that fails immediately, but
  the awaiter is suspended in every case. The blocking function reports the end of file.\<close>

theorem win32_read_eof_stuck:
  assumes "win_reads os h good content" "no_packet_on_failure os" "good w" "length (content w) \<le> unat loc" "0 < n"
    "win_GetLastError os (snd (win_ReadFile os h (dwbytes n) (overlapped_offset loc) w)) \<noteq> ERROR_IO_PENDING"
    "wf_handle c = \<lparr>is_valid = True, native_handle = h\<rparr>"
  shows "win32_async_read_some_at os (Some x) c loc n w = Diverge \<and>
    (\<exists>w'. win32_read_some_at os c loc n w = Ret (Inl (make_error_code end_of_file), w'))"
proof
  have n: "0 < dwbytes n" using assms(5) by (simp add: word_less_nat_alt)
  obtain ok k data w1 where r: "win_ReadFile os h (dwbytes n) (overlapped_offset loc) w = ((ok, k, data), w1)"
    by (metis prod.exhaust)
  obtain res w2 where res: "(let (res, w1) = win_ReadFile os h (dwbytes n) (overlapped_offset loc) w
      in if \<not> fst res \<and> win_GetLastError os w1 = ERROR_IO_PENDING then win_GetOverlappedResult os h w1 else (res, w1)) =
      (res, w2)" "win_delivers os good content (drop (unat loc) (content w)) (dwbytes n) (res, w2)"
    by (rule win_reads_result [OF assms(1,3) n])
  have "\<not> ok" using res r assms(4,6) by (auto simp: win_delivers_def word_less_nat_alt)
  then have "fst (win_GetQueuedCompletionStatus os w1) = None"
    using assms(2,6) r unfolding no_packet_on_failure_def by fastforce
  then show "win32_async_read_some_at os (Some x) c loc n w = Diverge"
    using win32_async_read_cases [OF assms(7) r surjective_pairing, of x] by simp
  show "\<exists>w'. win32_read_some_at os c loc n w = Ret (Inl (make_error_code end_of_file), w')"
    using overlapped_wait_reads [OF assms(1,3) n, of loc] assms(4)
    by (auto simp: win32_read_some_at_def open_handle [OF assms(7)])
qed

theorem win32_read_eof_stuck_witness:
  "win32_async_read_some_at slow_win32 (Some ()) (sf_base slow_channel) 3 4 0 = Diverge"
proof -
  have "no_packet_on_failure slow_win32" by (simp add: no_packet_on_failure_def slow_win32_def idle_win32_def)
  moreover have "snd (slow_read p n) \<noteq> ERROR_IO_PENDING" for p n
    by (auto simp: slow_read_def Let_def win32_errors)
  ultimately show ?thesis
    using win32_read_eof_stuck [OF slow_win32_reads, where c = "sf_base slow_channel" and w = 0 and loc = 3 and n = 4 and x = "()"]
    by (simp add: slow_channel_def slow_win32_def case_prod_beta)
qed

text \<open>A coroutine that writes to a file on Windows cannot succeed: when the operation succeeds the program
  runs into the error of a result that has none, and when it fails the coroutine reports a success
  with the number of bytes that were written before. So it never returns an error.\<close>

theorem win32_async_write_wrong:
  assumes "wf_handle c = \<lparr>is_valid = True, native_handle = h\<rparr>"
    "win_WriteFile os h (take (unat (dwbytes (length buf))) buf) (overlapped_offset loc) w = ((ok, k), w1)"
    "win_GetQueuedCompletionStatus os w1 = (Some p, w2)" "ok \<or> win_GetLastError os w1 = ERROR_IO_PENDING"
  shows "win32_async_write_some_at os (Some x) c loc buf w =
    (if ok \<or> cp_success p then Abort ''error() of an expected that has a value'' else Ret (Inr (cp_bytes p), w2))"
  using assms
  by (auto simp: win32_async_write_some_at_def open_handle AsyncWriteFile_def co_overlapped_def overlapped_suspend_def
      completion_thread_fn_def overlapped_resume_def)

definition written_win32 :: "unit win32" where
  "written_win32 = idle_win32\<lparr>win_WriteFile := \<lambda>_ data _ w. ((True, word_of_nat (length data)), w),
     win_GetQueuedCompletionStatus := \<lambda>w. (Some \<lparr>cp_success = True, cp_error = 0, cp_bytes = 2, cp_data = []\<rparr>, w)\<rparr>"

theorem win32_async_write_wrong_witness:
  "win32_async_write_some_at written_win32 (Some ()) (sf_base slow_channel) 0 [1, 2] () =
     Abort ''error() of an expected that has a value''"
  using win32_async_write_wrong [of "sf_base slow_channel" 7 written_win32 "[1, 2]" 0 "()" True 2 "()"
      "\<lparr>cp_success = True, cp_error = 0, cp_bytes = 2, cp_data = []\<rparr>" "()" "()"]
  by (simp add: slow_channel_def written_win32_def)

end
