(* ===== verification/Win32_Socket.thy ===== *)
theory Win32_Socket
  imports Win32_File Address
begin

text \<open>
  Stream sockets on Windows, \<^verbatim>\<open>win32/detail/streamsocket.hxx\<close>. \<open>g\<close> and \<open>r\<close> are the reactor handles and the
  reactor, \<open>xer\<close> is the executor of the coroutine, \<open>af\<close> an address family and \<open>sa\<close> the bytes of a socket
  address. A local \<^verbatim>\<open>unique_socket\<close> closes itself on every early return.
\<close>

subsection \<open>Channels\<close>

record win32_streamsocket =
  ws_sock :: unique_socket

definition win32_streamsocket_new :: win32_streamsocket where
  "win32_streamsocket_new = \<lparr>ws_sock = unique_socket_empty\<rparr>"

definition win32_streamsocket_of :: "unique_socket \<Rightarrow> win32_streamsocket" where
  "win32_streamsocket_of sock = \<lparr>ws_sock = fst (unique_socket_move sock)\<rparr>"

definition win32_socket_is_open :: "win32_streamsocket \<Rightarrow> bool" where
  "win32_socket_is_open s \<longleftrightarrow> unique_socket_bool (ws_sock s)"

definition win32_socket_destroy :: "'w win32 \<Rightarrow> win32_streamsocket \<Rightarrow> 'w \<Rightarrow> 'w" where
  "win32_socket_destroy os s w = unique_socket_destroy os (ws_sock s) w"

definition win32_socket_close ::
  "'w win32 \<Rightarrow> win32_streamsocket \<Rightarrow> 'w \<Rightarrow> (error_code + unit) \<times> win32_streamsocket \<times> 'w" where
  "win32_socket_close os s w =
     (if \<not> win32_socket_is_open s then (Inl (make_error_code channel_not_open), s, w)
      else let (err, sock, w) = unique_socket_close os (ws_sock s) w
      in (if is_error err then Inl err else Inr (), s\<lparr>ws_sock := sock\<rparr>, w))"

definition win32_socket_async_close ::
  "'w win32 \<Rightarrow> win32_streamsocket \<Rightarrow> 'w \<Rightarrow> (error_code + unit) \<times> win32_streamsocket \<times> 'w" where
  "win32_socket_async_close os s w =
     (let (err, sock, w) = unique_socket_close os (ws_sock s) w
      in (if is_error err then Inl err else Inr (), s\<lparr>ws_sock := sock\<rparr>, w))"

text \<open>\<^verbatim>\<open>sockaddr_storage\<close> with all bytes zero but the family.\<close>

definition zero_address :: "nat \<Rightarrow> byte list" where
  "zero_address af = [word_of_nat af, word_of_nat (af div 256)] @ replicate 126 0"

text \<open>The end of both functions that connect: the socket becomes that of the channel.\<close>

definition take_socket ::
  "'w win32 \<Rightarrow> unique_socket \<Rightarrow> win32_streamsocket \<Rightarrow> 'w \<Rightarrow> (error_code + unit) \<times> win32_streamsocket \<times> 'w" where
  "take_socket os sock s w =
     (let (u, sock) = unique_socket_move_assign (ws_sock s) sock
      in (Inr (), s\<lparr>ws_sock := u\<rparr>, unique_socket_destroy os sock w))"


definition win32_connect ::
  "'w win32 \<Rightarrow> reactor_global \<Rightarrow> 'i iocp_reactor \<Rightarrow> nat \<Rightarrow> byte list \<Rightarrow> win32_streamsocket \<Rightarrow> 'w \<Rightarrow>
   ((error_code + unit) \<times> win32_streamsocket \<times> 'w) run" where
  "win32_connect os g r af sa s w =
     sk_check (win32_socket_is_open s) ''attempt to connect on a closed channel'' (
     let (sock, w) = win_WSASocket os af w
     in if sock = INVALID_SOCKET then Ret (Inl (get_last_winsock_error os w), s, w)
     else let owner = unique_socket_of sock; (ret, w) = win_bind os sock (zero_address af) w
     in if ret \<noteq> 0 then Ret (Inl (get_last_winsock_error os w), s, unique_socket_destroy os owner w)
     else with_weak_handle g (
       bind_run (associate_handle os r (handle_of_socket sock) w) (\<lambda>(aret, w).
       case aret of
         Inl e \<Rightarrow> Ret (Inl e, s, unique_socket_destroy os owner w)
       | Inr _ \<Rightarrow>
           let (ret, w) = win_WSAConnect os sock sa w
           in if ret \<noteq> 0 then Ret (Inl (get_last_winsock_error os w), s, unique_socket_destroy os owner w)
           else Ret (take_socket os owner s w))))"

text \<open>Zero bytes read are the end of the stream.\<close>

definition stream_result :: "error_code + DWORD \<times> byte list \<Rightarrow> error_code + DWORD \<times> byte list" where
  "stream_result ret =
     (case ret of Inl e \<Rightarrow> Inl e | Inr (k, buf) \<Rightarrow> if k = 0 then Inl (make_error_code end_of_file) else Inr (k, buf))"

definition win32_socket_async_read_some ::
  "'w win32 \<Rightarrow> 'x option \<Rightarrow> win32_streamsocket \<Rightarrow> nat \<Rightarrow> 'w \<Rightarrow> ((error_code + DWORD \<times> byte list) \<times> 'w) run" where
  "win32_socket_async_read_some os xer s n w =
     sk_check (win32_socket_is_open s) ''attempt to read on a closed channel'' (
     bind_run (unique_socket_native (ws_sock s)) (\<lambda>sock.
     bind_run (AsyncReadFile os xer (handle_of_socket sock) (dwbytes n) 0 w) (\<lambda>((ret, k, buf), w).
       Ret (case ret of Inl e \<Rightarrow> Inl (win32_to_generic_error e) | Inr _ \<Rightarrow> stream_result (Inr (k, buf)), w))))"

definition win32_socket_read_some ::
  "'w win32 \<Rightarrow> win32_streamsocket \<Rightarrow> nat \<Rightarrow> 'w \<Rightarrow> ((error_code + DWORD \<times> byte list) \<times> 'w) run" where
  "win32_socket_read_some os s n w =
     sk_check (win32_socket_is_open s) ''attempt to read on a closed channel'' (
     bind_run (unique_socket_native (ws_sock s)) (\<lambda>sock.
     bind_run (overlapped_wait os (handle_of_socket sock) (win_ReadFile os (handle_of_socket sock) (dwbytes n) (0, 0)) w)
       (\<lambda>(ret, w). Ret (stream_result ret, w))))"

definition win32_socket_async_write_some ::
  "'w win32 \<Rightarrow> 'x option \<Rightarrow> win32_streamsocket \<Rightarrow> byte list \<Rightarrow> 'w \<Rightarrow> ((error_code + DWORD) \<times> 'w) run" where
  "win32_socket_async_write_some os xer s buf w =
     sk_check (win32_socket_is_open s) ''attempt to write on a closed channel'' (
     bind_run (unique_socket_native (ws_sock s)) (\<lambda>sock.
     bind_run (AsyncWriteFile os xer (handle_of_socket sock) (take (unat (dwbytes (length buf))) buf) 0 w) (\<lambda>((ret, k), w).
       Ret (case ret of Inl e \<Rightarrow> Inl (win32_to_generic_error e) | Inr _ \<Rightarrow> Inr k, w))))"

definition win32_socket_write_some ::
  "'w win32 \<Rightarrow> win32_streamsocket \<Rightarrow> byte list \<Rightarrow> 'w \<Rightarrow> ((error_code + DWORD) \<times> 'w) run" where
  "win32_socket_write_some os s buf w =
     sk_check (win32_socket_is_open s) ''attempt to write on a closed channel'' (
     bind_run (unique_socket_native (ws_sock s)) (\<lambda>sock.
     bind_run
       (overlapped_wait os (handle_of_socket sock)
         (\<lambda>w. let ((ret, k), w) = win_WriteFile os (handle_of_socket sock) (take (unat (dwbytes (length buf))) buf) (0, 0) w
              in ((ret, k, []), w)) w)
       (\<lambda>(ret, w). Ret (map_sum (\<lambda>e. e) fst ret, w))))"

subsection \<open>Servers\<close>

record win32_server =
  wv_sock :: unique_socket
  address_family :: nat

definition win32_server_of :: "unique_socket \<Rightarrow> nat \<Rightarrow> win32_server" where
  "win32_server_of sock af = \<lparr>wv_sock = fst (unique_socket_move sock), address_family = af\<rparr>"

definition win32_server_is_open :: "win32_server \<Rightarrow> bool" where
  "win32_server_is_open v \<longleftrightarrow> unique_socket_bool (wv_sock v)"


definition win32_server_close ::
  "'w win32 \<Rightarrow> win32_server \<Rightarrow> 'w \<Rightarrow> (error_code + unit) \<times> win32_server \<times> 'w" where
  "win32_server_close os v w =
     (if \<not> win32_server_is_open v then (Inl (make_error_code channel_not_open), v, w)
      else let (err, sock, w) = unique_socket_close os (wv_sock v) w
      in (if is_error err then Inl err else Inr (), v\<lparr>wv_sock := sock\<rparr>, w))"

definition win32_server_async_close ::
  "'w win32 \<Rightarrow> win32_server \<Rightarrow> 'w \<Rightarrow> (error_code + unit) \<times> win32_server \<times> 'w" where
  "win32_server_async_close os v w =
     (let (err, sock, w) = unique_socket_close os (wv_sock v) w
      in (if is_error err then Inl err else Inr (), v\<lparr>wv_sock := sock\<rparr>, w))"

text \<open>The end of both functions that accept: the client socket is associated and becomes a channel.\<close>

definition client_channel ::
  "'w win32 \<Rightarrow> reactor_global \<Rightarrow> 'i iocp_reactor \<Rightarrow> SOCKET \<Rightarrow> unique_socket \<Rightarrow> 'w \<Rightarrow> ((error_code + win32_streamsocket) \<times> 'w) run" where
  "client_channel os g r client owner w =
     with_weak_handle g (
     bind_run (associate_handle os r (handle_of_socket client) w) (\<lambda>(aret, w).
     case aret of
       Inl e \<Rightarrow> Ret (Inl e, unique_socket_destroy os owner w)
     | Inr _ \<Rightarrow> Ret (Inr (win32_streamsocket_of owner), unique_socket_destroy os (snd (unique_socket_move owner)) w)))"


definition win32_accept ::
  "'w win32 \<Rightarrow> reactor_global \<Rightarrow> 'i iocp_reactor \<Rightarrow> win32_server \<Rightarrow> 'w \<Rightarrow> ((error_code + win32_streamsocket) \<times> 'w) run" where
  "win32_accept os g r v w =
     (let (client, w) = win_socket os (address_family v) w
      in if client = INVALID_SOCKET then Ret (Inl (get_last_winsock_error os w), w)
      else let owner = unique_socket_of client
      in bind_run (unique_socket_native (wv_sock v)) (\<lambda>listener.
         let (ret, w) = win_accept os listener w
         in if ret = INVALID_SOCKET then Ret (Inl (get_last_winsock_error os w), unique_socket_destroy os owner w)
         else client_channel os g r client owner w))"

subsection \<open>Who owns which socket\<close>

text \<open>What Windows documents of sockets: the calls that make one give one that was not in use, or fail
  without effect, \<^verbatim>\<open>closesocket\<close> frees its argument, and no other call changes which sockets are in use,
  the set \<open>opened w\<close>.\<close>

definition fresh_socket :: "('w \<Rightarrow> SOCKET set) \<Rightarrow> 'w \<Rightarrow> SOCKET \<times> 'w \<Rightarrow> bool" where
  "fresh_socket opened w = (\<lambda>(s, w').
     if s = INVALID_SOCKET then opened w' = opened w else s \<notin> opened w \<and> opened w' = insert s (opened w))"

definition win_sockets :: "'w win32 \<Rightarrow> ('w \<Rightarrow> SOCKET set) \<Rightarrow> bool" where
  "win_sockets os opened \<longleftrightarrow>
     (\<forall>af w. fresh_socket opened w (win_WSASocket os af w)) \<and> (\<forall>af w. fresh_socket opened w (win_socket os af w)) \<and>
     (\<forall>s w. fresh_socket opened w (win_accept os s w)) \<and>
     (\<forall>s w. opened (snd (win_closesocket os s w)) = opened w - {s}) \<and>
     (\<forall>s a w. opened (snd (win_bind os s a w)) = opened w) \<and> (\<forall>s w. opened (snd (win_listen os s w)) = opened w) \<and>
     (\<forall>s w. opened (snd (win_setsockopt os s w)) = opened w) \<and> (\<forall>s a w. opened (snd (win_WSAConnect os s a w)) = opened w) \<and>
     (\<forall>s w. opened (snd (win_WSAIoctl os s w)) = opened w) \<and> (\<forall>s a w. opened (snd (win_ConnectEx os s a w)) = opened w) \<and>
     (\<forall>s c w. opened (snd (win_AcceptEx os s c w)) = opened w) \<and>
     (\<forall>h p w. opened (snd (win_CreateIoCompletionPort os h p w)) = opened w) \<and>
     (\<forall>w. opened (snd (win_GetQueuedCompletionStatus os w)) = opened w)"

lemma win_socketsD:
  assumes "win_sockets os opened"
  shows "win_WSASocket os af w = (s, w') \<Longrightarrow> fresh_socket opened w (s, w')"
    "win_socket os af w = (s, w') \<Longrightarrow> fresh_socket opened w (s, w')"
    "win_accept os l w = (s, w') \<Longrightarrow> fresh_socket opened w (s, w')"
    "win_bind os s sa w = (k, w') \<Longrightarrow> opened w' = opened w"
    "win_listen os s w = (k, w') \<Longrightarrow> opened w' = opened w"
    "win_setsockopt os s w = (k, w') \<Longrightarrow> opened w' = opened w"
    "win_WSAConnect os s sa w = (k, w') \<Longrightarrow> opened w' = opened w"
    "win_WSAIoctl os s w = (k, w') \<Longrightarrow> opened w' = opened w"
    "win_ConnectEx os s sa w = (b, w') \<Longrightarrow> opened w' = opened w"
    "win_AcceptEx os s c w = (b, w') \<Longrightarrow> opened w' = opened w"
    "win_CreateIoCompletionPort os h p w = (q, w') \<Longrightarrow> opened w' = opened w"
    "win_GetQueuedCompletionStatus os w = (cp, w') \<Longrightarrow> opened w' = opened w"
  using assms unfolding win_sockets_def by (metis snd_conv)+

lemma destroy_owner:
  assumes "win_sockets os opened"
  shows "s \<noteq> INVALID_SOCKET \<Longrightarrow> opened (unique_socket_destroy os (unique_socket_of s) w) = opened w - {s}"
    "unique_socket_destroy os (snd (unique_socket_move u)) w = w"
  using assms by (simp_all add: unique_socket_destroy_def unique_socket_close_def unique_socket_bool_def unique_socket_of_def
      unique_socket_move_def win_sockets_def case_prod_beta Let_def)

lemma associate_keeps_sockets:
  assumes "win_sockets os opened" "associate_handle os r h w = Ret (aret, w')"
  shows "opened w' = opened w"
  using assms by (auto simp: associate_handle_def run_simps win_sockets_def case_prod_beta Let_def split: option.splits)




lemma owner_moved:
  "ws_sock (win32_streamsocket_of (unique_socket_of x)) = unique_socket_of x"
  "wv_sock (win32_server_of (unique_socket_of x) af) = unique_socket_of x"
  "native_socket (unique_socket_of x) = x" "unique_socket_bool (unique_socket_of x) \<longleftrightarrow> x \<noteq> INVALID_SOCKET"
  by (simp_all add: win32_streamsocket_of_def win32_server_of_def unique_socket_move_def unique_socket_of_def unique_socket_bool_def)

lemma take_socket_eq:
  "take_socket os (unique_socket_of x) s w = (Inr (), s\<lparr>ws_sock := unique_socket_of x\<rparr>, w)"
  by (simp add: take_socket_def unique_socket_move_assign_def unique_socket_destroy_def unique_socket_close_def
      unique_socket_bool_def unique_socket_of_def)

lemma client_channel_owned:
  assumes W: "win_sockets os opened" and c: "client \<noteq> INVALID_SOCKET"
    and r: "client_channel os g r client (unique_socket_of client) w = Ret (ret, w')"
  shows "case ret of Inl _ \<Rightarrow> opened w' = opened w - {client}
    | Inr ch \<Rightarrow> ws_sock ch = unique_socket_of client \<and> opened w' = opened w"
proof -
  obtain aret w1 where a: "associate_handle os r (handle_of_socket client) w = Ret (aret, w1)"
    and r': "(case aret of Inl e \<Rightarrow> Ret (Inl e, unique_socket_destroy os (unique_socket_of client) w1)
      | Inr _ \<Rightarrow> Ret (Inr (win32_streamsocket_of (unique_socket_of client)),
          unique_socket_destroy os (snd (unique_socket_move (unique_socket_of client))) w1)) = Ret (ret, w')"
    using with_weak_handle_Ret [OF r [unfolded client_channel_def]] by (auto simp: run_simps)
  show ?thesis
    using r' associate_keeps_sockets [OF W a] destroy_owner(1) [OF W c, of w1] destroy_owner(2) [OF W, of "unique_socket_of client" w1]
    by (auto simp: owner_moved split: sum.splits)
qed




subsection \<open>Properties\<close>


text \<open>A system with sockets: the state is the set of those in use and the next number.\<close>

definition socket_win32 :: "(SOCKET set \<times> SOCKET) win32" where
  "socket_win32 = idle_win32\<lparr>
     win_WSASocket := \<lambda>_ (S, n). if n \<in> S \<or> n = INVALID_SOCKET then (INVALID_SOCKET, S, n) else (n, insert n S, n + 1),
     win_socket := \<lambda>_ (S, n). if n \<in> S \<or> n = INVALID_SOCKET then (INVALID_SOCKET, S, n) else (n, insert n S, n + 1),
     win_accept := \<lambda>_ (S, n). if n \<in> S \<or> n = INVALID_SOCKET then (INVALID_SOCKET, S, n) else (n, insert n S, n + 1),
     win_closesocket := \<lambda>s (S, n). (0, S - {s}, n),
     win_GetQueuedCompletionStatus := \<lambda>w. (Some \<lparr>cp_success = True, cp_error = 0, cp_bytes = 0, cp_data = []\<rparr>, w)\<rparr>"

lemma socket_win32_sockets: "win_sockets socket_win32 fst"
  by (auto simp: win_sockets_def fresh_socket_def socket_win32_def idle_win32_def split: prod.splits)

definition iocp_running :: "unit iocp_reactor" where
  "iocp_running = iocp_new\<lparr>completion_port := Some \<lparr>is_valid = True, native_handle = 5\<rparr>, completion_thread := True\<rparr>"

definition one_handle :: reactor_global where
  "one_handle = \<lparr>reactor_refs = 1, reactor_running = True\<rparr>"

lemmas socket_eval = socket_win32_def idle_win32_def iocp_running_def iocp_new_def one_handle_def with_weak_handle_def weak_get_def
  weak_destroy_def handle_deref_def associate_handle_def unique_handle_native_def check_handle_def handle_ok_def
  AsyncConnectEx_def AsyncAcceptEx_def co_overlapped_def overlapped_suspend_def completion_thread_fn_def overlapped_resume_def
  INVALID_SOCKET_def unique_socket_native_def unique_socket_bool_def unique_socket_of_def unique_socket_move_def
  handle_of_socket_def


text \<open>C24: The blocking \<^verbatim>\<open>accept\<close> on Windows does not work: it accepts a connection on a socket that it then
  loses, and returns a channel on another socket, which it made before and which is not connected.\<close>

theorem win32_accept_leaks:
  assumes "win_sockets os opened" "win32_accept os g r v w = Ret (Inr ch, w')"
  shows "\<exists>client accepted w1 w2. win_socket os (address_family v) w = (client, w1) \<and>
    win_accept os (native_socket (wv_sock v)) w1 = (accepted, w2) \<and> ws_sock ch = unique_socket_of client \<and>
    accepted \<noteq> client \<and> accepted \<notin> opened w \<and> opened w' = insert accepted (insert client (opened w))"
proof -
  obtain client w1 where k: "win_socket os (address_family v) w = (client, w1)" by fastforce
  obtain x w2 where a: "win_accept os (native_socket (wv_sock v)) w1 = (x, w2)" by fastforce
  have n: "client \<noteq> INVALID_SOCKET" "x \<noteq> INVALID_SOCKET"
    and c: "client_channel os g r client (unique_socket_of client) w2 = Ret (Inr ch, w')"
    using assms(2) k a by (auto simp: win32_accept_def Let_def run_simps unique_socket_native_def split: if_splits)
  have "opened w1 = insert client (opened w)" "x \<notin> opened w1" "opened w2 = insert x (opened w1)"
    using win_socketsD(2) [OF assms(1) k] win_socketsD(3) [OF assms(1) a] n by (auto simp: fresh_socket_def)
  then show ?thesis using client_channel_owned [OF assms(1) n(1) c] k a by auto
qed

theorem win32_accept_leaks_witness:
  "\<exists>ch. win32_accept socket_win32 one_handle iocp_running (win32_server_of (unique_socket_of 7) 2) ({7}, 20) =
      Ret (Inr ch, {7, 20, 21}, 22) \<and> native_socket (ws_sock ch) = 20 \<and> 21 \<in> fst ({7, 20, 21 :: SOCKET}, 22 :: SOCKET)"
proof -
  have c: "win32_accept socket_win32 one_handle iocp_running (win32_server_of (unique_socket_of 7) 2) ({7}, 20) =
      Ret (Inr (win32_streamsocket_of (unique_socket_of 20)), {7, 20, 21}, 22)"
    by (simp add: win32_accept_def win32_server_of_def client_channel_def win32_streamsocket_of_def unique_socket_destroy_def
        unique_socket_close_def socket_eval insert_commute)
  then show ?thesis using win32_accept_leaks [OF socket_win32_sockets c] by (auto simp: owner_moved)
qed

text \<open>The blocking \<^verbatim>\<open>connect\<close> on Windows ends the program on a channel that is not connected, which is the
  only use it has; on a channel that is, it replaces the socket without closing the old one.\<close>

theorem win32_connect_unusable:
  "win32_connect os g r af sa win32_streamsocket_new w = Abort ''attempt to connect on a closed channel'' \<and>
   (\<forall>opened s s' w'. win_sockets os opened \<longrightarrow> win32_connect os g r af sa s w = Ret (Inr (), s', w') \<longrightarrow>
      native_socket (ws_sock s) \<in> opened w \<longrightarrow>
      native_socket (ws_sock s) \<in> opened w' \<and> native_socket (ws_sock s') \<noteq> native_socket (ws_sock s))"
proof (intro conjI allI impI)
  show "win32_connect os g r af sa win32_streamsocket_new w = Abort ''attempt to connect on a closed channel''"
    by (simp add: win32_connect_def win32_socket_is_open_def win32_streamsocket_new_def unique_socket_empty_def unique_socket_bool_def)
next
  fix opened s s' w'
  assume W: "win_sockets os opened" and r: "win32_connect os g r af sa s w = Ret (Inr (), s', w')"
    and i: "native_socket (ws_sock s) \<in> opened w"
  obtain sock w1 where k: "win_WSASocket os af w = (sock, w1)" by fastforce
  obtain b w2 where b: "win_bind os sock (zero_address af) w1 = (b, w2)" by fastforce
  have n: "sock \<noteq> INVALID_SOCKET" "b = 0" using r k b by (auto simp: win32_connect_def Let_def run_simps split: if_splits)
  obtain w3 where a: "associate_handle os r (handle_of_socket sock) w2 = Ret (Inr (), w3)"
    and r': "(let (ret, w) = win_WSAConnect os sock sa w3
       in if ret \<noteq> 0 then Ret (Inl (get_last_winsock_error os w), s, unique_socket_destroy os (unique_socket_of sock) w)
       else Ret (take_socket os (unique_socket_of sock) s w)) = Ret (Inr (), s', w')"
    using r k b n by (auto simp: win32_connect_def Let_def run_simps dest!: with_weak_handle_Ret split: sum.splits)
      (metis obj_sumE old.unit.exhaust)
  obtain c w4 where c: "win_WSAConnect os sock sa w3 = (c, w4)" by fastforce
  have e: "s' = s\<lparr>ws_sock := unique_socket_of sock\<rparr>" "w' = w4" using r' c by (auto simp: take_socket_eq split: if_splits)
  have "opened w4 = insert sock (opened w)" "sock \<notin> opened w"
    using win_socketsD(1) [OF W k] win_socketsD(4) [OF W b] associate_keeps_sockets [OF W a] win_socketsD(7) [OF W c] n
    by (auto simp: fresh_socket_def)
  then show "native_socket (ws_sock s) \<in> opened w'" "native_socket (ws_sock s') \<noteq> native_socket (ws_sock s)"
    using e i by (auto simp: owner_moved)
qed

theorem win32_connect_unusable_witness:
  "\<exists>s'. win32_connect socket_win32 one_handle iocp_running 2 [] (win32_streamsocket_of (unique_socket_of 7)) ({7}, 20) =
      Ret (Inr (), s', {20, 7}, 21) \<and> native_socket (ws_sock s') \<noteq> 7"
proof -
  let ?s = "win32_streamsocket_of (unique_socket_of 7)"
  have c: "win32_connect socket_win32 one_handle iocp_running 2 [] ?s ({7}, 20) =
      Ret (Inr (), ?s\<lparr>ws_sock := unique_socket_of 20\<rparr>, {20, 7}, 21)"
    by (simp add: win32_connect_def win32_streamsocket_of_def win32_socket_is_open_def
        take_socket_eq [unfolded unique_socket_of_def] socket_eval)
  then show ?thesis
    using win32_connect_unusable [of socket_win32 one_handle iocp_running 2 "[]" "({7}, 20)"] socket_win32_sockets
    by (force simp: owner_moved)
qed

end
