(* ===== verification/Task.thy ===== *)
theory Task
  imports Executor Reactor
begin

text \<open>
  Coroutines: \<^verbatim>\<open>src/src/include/sk/task.hxx\<close>, \<^verbatim>\<open>co_detach.hxx\<close> and \<^verbatim>\<open>async_invoke.hxx\<close>. The body of a coroutine,
  which is not part of the library, is a tree of what it does next: it returns a value, throws an
  exception, awaits a task, waits for an event, or asks for its executor. Values and exceptions have
  the same type. A coroutine has a frame in a store, with its promise; a resumption runs one coroutine
  after the other until one waits for an event or the chain of awaiting coroutines is at its end.
\<close>

section \<open>Tasks\<close>

datatype ('v, 'x) coro =
    Co_return 'v
  | Co_throw 'v
  | Co_await "('v, 'x) coro" "'v + 'v \<Rightarrow> ('v, 'x) coro"
  | Co_event "'v \<Rightarrow> ('v, 'x) coro"
  | Co_executor "'x option \<Rightarrow> ('v, 'x) coro"

text \<open>Where a coroutine is: at the start of what it does next, suspended until the task at an address is
  done, or until an event happens, or at its final suspension.\<close>

datatype ('v, 'x) point =
    At "('v, 'x) coro"
  | Awaiting nat "'v + 'v \<Rightarrow> ('v, 'x) coro"
  | Suspended "'v \<Rightarrow> ('v, 'x) coro"
  | Final

subsection \<open>Promises\<close>

record ('v, 'x) promise_type =
  pr_result :: 'v
  pr_previous :: "nat option"
  pr_exception :: "'v option"
  pr_executor :: "'x option"

text \<open>\<open>dflt\<close> is the value of \<^verbatim>\<open>T{}\<close>.\<close>

definition promise_new :: "'v \<Rightarrow> ('v, 'x) promise_type" where
  "promise_new dflt = \<lparr>pr_result = dflt, pr_previous = None, pr_exception = None, pr_executor = None\<rparr>"

definition return_value :: "'v \<Rightarrow> ('v, 'x) promise_type \<Rightarrow> ('v, 'x) promise_type" where
  "return_value v p = p\<lparr>pr_result := v\<rparr>"

definition unhandled_exception :: "'v \<Rightarrow> ('v, 'x) promise_type \<Rightarrow> ('v, 'x) promise_type" where
  "unhandled_exception e p = p\<lparr>pr_exception := Some e\<rparr>"

text \<open>\<^verbatim>\<open>task::await_suspend\<close>, by the coroutine at \<open>h\<close> with the executor \<open>xer\<close>, on the promise of the task; then the
  task runs.\<close>

definition task_await_suspend :: "nat \<Rightarrow> 'x option \<Rightarrow> ('v, 'x) promise_type \<Rightarrow> ('v, 'x) promise_type" where
  "task_await_suspend h xer p =
     (let p = p\<lparr>pr_previous := Some h\<rparr>
      in if pr_executor p = None then p\<lparr>pr_executor := xer\<rparr> else p)"

definition task_await_resume :: "('v, 'x) promise_type \<Rightarrow> 'v + 'v" where
  "task_await_resume p = (case pr_exception p of Some e \<Rightarrow> Inl e | None \<Rightarrow> Inr (pr_result p))"

text \<open>Awaiting \<^verbatim>\<open>co_get_executor\<close> does not suspend.\<close>

definition co_get_executor :: "('v, 'x) promise_type \<Rightarrow> 'x option" where
  [simp]: "co_get_executor p = pr_executor p"

text \<open>\<^verbatim>\<open>final_awaiter::await_suspend\<close>: the coroutine that runs next, if any.\<close>

definition final_await_suspend :: "('v, 'x) promise_type \<Rightarrow> nat option" where
  "final_await_suspend p = pr_previous p"

subsection \<open>Running\<close>

text \<open>A frame; \<open>fr_detached\<close> says whether it belongs to a \<^verbatim>\<open>detach_task\<close>, whose frame is destroyed when it
  ends.\<close>

record ('v, 'x) frame =
  fr_point :: "('v, 'x) point"
  fr_promise :: "('v, 'x) promise_type"
  fr_detached :: bool

record ('v, 'x) coro_state =
  frames :: "nat \<Rightarrow> ('v, 'x) frame option"
  next_frame :: nat
  control :: "nat option"

text \<open>Calling a coroutine makes its frame, and suspends it at once.\<close>

definition task_create :: "'v \<Rightarrow> ('v, 'x) coro \<Rightarrow> ('v, 'x) coro_state \<Rightarrow> nat \<times> ('v, 'x) coro_state" where
  "task_create dflt c s =
     (next_frame s,
      s\<lparr>frames := (frames s)(next_frame s \<mapsto> \<lparr>fr_point = At c, fr_promise = promise_new dflt, fr_detached = False\<rparr>),
        next_frame := next_frame s + 1\<rparr>)"

definition set_frame :: "nat \<Rightarrow> ('v, 'x) frame \<Rightarrow> ('v, 'x) coro_state \<Rightarrow> ('v, 'x) coro_state" where
  "set_frame i f s = s\<lparr>frames := (frames s)(i \<mapsto> f)\<rparr>"

definition task_destroy :: "nat \<Rightarrow> ('v, 'x) coro_state \<Rightarrow> ('v, 'x) coro_state" where
  "task_destroy i s = s\<lparr>frames := (frames s)(i := None)\<rparr>"

text \<open>The end of a coroutine with a promise \<open>p\<close>.\<close>

definition task_end :: "nat \<Rightarrow> ('v, 'x) frame \<Rightarrow> ('v, 'x) promise_type \<Rightarrow> ('v, 'x) coro_state \<Rightarrow> ('v, 'x) coro_state" where
  "task_end i f p s =
     (set_frame i (f\<lparr>fr_point := Final, fr_promise := p\<rparr>) s)\<lparr>control := final_await_suspend p\<rparr>"

text \<open>What the running coroutine does next. The promise of a detached coroutine rethrows the exception, out
  of the call that resumed it.\<close>

definition coro_step :: "'v \<Rightarrow> nat \<Rightarrow> ('v, 'x) coro_state \<Rightarrow> ('v, 'x) coro_state run" where
  "coro_step dflt i s =
     (case frames s i of
        None \<Rightarrow> Abort ''resumed a coroutine that was destroyed''
      | Some f \<Rightarrow>
          case fr_point f of
            At (Co_return v) \<Rightarrow>
              if fr_detached f then Ret ((task_destroy i s)\<lparr>control := None\<rparr>)
              else Ret (task_end i f (return_value v (fr_promise f)) s)
          | At (Co_throw e) \<Rightarrow>
              if fr_detached f then Abort ''an exception leaves a detached task''
              else Ret (task_end i f (unhandled_exception e (fr_promise f)) s)
          | At (Co_await c k) \<Rightarrow>
              let (j, s) = task_create dflt c s;
                  g = \<lparr>fr_point = At c, fr_promise = task_await_suspend i (pr_executor (fr_promise f)) (promise_new dflt),
                       fr_detached = False\<rparr>
              in Ret ((set_frame j g (set_frame i (f\<lparr>fr_point := Awaiting j k\<rparr>) s))\<lparr>control := Some j\<rparr>)
          | At (Co_event k) \<Rightarrow> Ret ((set_frame i (f\<lparr>fr_point := Suspended k\<rparr>) s)\<lparr>control := None\<rparr>)
          | At (Co_executor k) \<Rightarrow> Ret (set_frame i (f\<lparr>fr_point := At (k (co_get_executor (fr_promise f)))\<rparr>) s)
          | Awaiting j k \<Rightarrow>
              (case frames s j of
                 None \<Rightarrow> Abort ''read the result of a coroutine that was destroyed''
               | Some g \<Rightarrow>
                   Ret (set_frame i (f\<lparr>fr_point := At (k (task_await_resume (fr_promise g)))\<rparr>) (task_destroy j s)))
          | Suspended k \<Rightarrow> Abort ''ran a suspended coroutine''
          | Final \<Rightarrow> Abort ''resumed a coroutine that is done'')"

text \<open>An event resumes the coroutine that waits for it, with a value.\<close>

definition coro_resume :: "nat \<Rightarrow> 'v \<Rightarrow> ('v, 'x) coro_state \<Rightarrow> ('v, 'x) coro_state run" where
  "coro_resume i v s =
     (case frames s i of
        None \<Rightarrow> Abort ''resumed a coroutine that was destroyed''
      | Some f \<Rightarrow>
          case fr_point f of
            Suspended k \<Rightarrow> Ret ((set_frame i (f\<lparr>fr_point := At (k v)\<rparr>) s)\<lparr>control := Some i\<rparr>)
          | _ \<Rightarrow> Abort ''resumed a coroutine that does not wait'')"

text \<open>A run, with the values of the events.\<close>

inductive coro_run :: "'v \<Rightarrow> ('v, 'x) coro_state \<Rightarrow> 'v list \<Rightarrow> ('v, 'x) coro_state \<Rightarrow> bool" for dflt where
  run_stop: "coro_run dflt s [] s"
| run_step: "control s = Some i \<Longrightarrow> coro_step dflt i s = Ret s' \<Longrightarrow> coro_run dflt s' vs t \<Longrightarrow> coro_run dflt s vs t"
| run_event: "control s = None \<Longrightarrow> coro_resume i v s = Ret s' \<Longrightarrow> coro_run dflt s' vs t \<Longrightarrow> coro_run dflt s (v # vs) t"

text \<open>What a body means: it is run from its start to its end, every task it awaits in its place and with
  its executor. The events that are left over are part of the result; there is none when the body
  waits for an event that does not happen.\<close>

primrec coro_eval :: "('v, 'x) coro \<Rightarrow> 'x option \<Rightarrow> 'v list \<Rightarrow> (('v + 'v) \<times> 'v list) option" where
  "coro_eval (Co_return v) xer vs = Some (Inr v, vs)"
| "coro_eval (Co_throw e) xer vs = Some (Inl e, vs)"
| "coro_eval (Co_await c k) xer vs =
     (case coro_eval c xer vs of None \<Rightarrow> None | Some (r, vs') \<Rightarrow> coro_eval (k r) xer vs')"
| "coro_eval (Co_event k) xer vs = (case vs of [] \<Rightarrow> None | v # vs' \<Rightarrow> coro_eval (k v) xer vs')"
| "coro_eval (Co_executor k) xer vs = coro_eval (k xer) xer vs"

subsection \<open>Facts\<close>

lemma coro_run_trans:
  "coro_run dflt s vs t \<Longrightarrow> coro_run dflt t ws u \<Longrightarrow> coro_run dflt s (vs @ ws) u"
  by (induction rule: coro_run.induct) (auto intro: run_step run_event)

lemma coro_run_one:
  assumes "control s = Some i" "coro_step dflt i s = Ret t"
  shows "coro_run dflt s [] t"
  using run_step [OF assms run_stop] .

lemmas frame_defs = set_frame_def task_destroy_def task_create_def task_end_def final_await_suspend_def

text \<open>The frames of coroutines that do not exist yet are free, and the running one exists.\<close>

definition coro_wf :: "('v, 'x) coro_state \<Rightarrow> bool" where
  "coro_wf s \<longleftrightarrow> (\<forall>j \<ge> next_frame s. frames s j = None)"

lemma coro_wf_less: "coro_wf s \<Longrightarrow> frames s i = Some f \<Longrightarrow> i < next_frame s"
  by (metis coro_wf_def linorder_not_le option.distinct(1))

text \<open>The coroutine at \<open>i\<close>, with the frame \<open>f\<close>, runs to its end with the result \<open>r\<close>, while the events \<open>vs\<close> up to
  \<open>rest\<close> happen; it goes on with the coroutine that awaits it. All other frames are then as in \<open>F\<close>.\<close>

definition coro_ends ::
  "'v \<Rightarrow> ('v, 'x) coro_state \<Rightarrow> nat \<Rightarrow> (nat \<Rightarrow> ('v, 'x) frame option) \<Rightarrow> ('v, 'x) frame \<Rightarrow> 'v list \<Rightarrow> 'v + 'v \<Rightarrow> 'v list \<Rightarrow> bool" where
  "coro_ends dflt s i F f vs r rest \<longleftrightarrow>
     (\<exists>used p s'. vs = used @ rest \<and> coro_run dflt s used s' \<and> frames s' = F(i \<mapsto> f\<lparr>fr_point := Final, fr_promise := p\<rparr>) \<and>
        task_await_resume p = r \<and> pr_previous p = pr_previous (fr_promise f) \<and> control s' = pr_previous (fr_promise f) \<and> coro_wf s')"

lemma coro_ends_point [simp]: "coro_ends dflt s i F (f\<lparr>fr_point := q\<rparr>) vs r rest = coro_ends dflt s i F f vs r rest"
  by (simp add: coro_ends_def)

lemma coro_ends_frame [simp]: "coro_ends dflt s i (F(i \<mapsto> g)) f vs r rest = coro_ends dflt s i F f vs r rest"
  by (simp add: coro_ends_def)

lemma coro_ends_before:
  assumes "coro_run dflt s us t" "coro_ends dflt t i F f vs r rest"
  shows "coro_ends dflt s i F f (us @ vs) r rest"
proof -
  obtain used p s' where "vs = used @ rest" "coro_run dflt t used s'" "frames s' = F(i \<mapsto> f\<lparr>fr_point := Final, fr_promise := p\<rparr>)"
    "task_await_resume p = r" "pr_previous p = pr_previous (fr_promise f)" "control s' = pr_previous (fr_promise f)" "coro_wf s'"
    using assms(2) by (auto simp: coro_ends_def)
  then show ?thesis unfolding coro_ends_def using coro_run_trans [OF assms(1)]
    by (intro exI [of _ "us @ used"] exI [of _ p] exI [of _ s']) auto
qed

lemma coro_ends_now:
  assumes "coro_wf s" "control s = Some i" "frames s i = Some f" "coro_step dflt i s = Ret (task_end i f p s)"
    "pr_previous p = pr_previous (fr_promise f)"
  shows "coro_ends dflt s i (frames s) f vs (task_await_resume p) vs"
  unfolding coro_ends_def using coro_run_one [OF assms(2,4)] assms(1,5) coro_wf_less [OF assms(1,3)]
  by (intro exI [of _ "[]"] exI [of _ p] exI [of _ "task_end i f p s"]) (auto simp: frame_defs coro_wf_def)

lemma coro_run_eval:
  assumes "coro_eval c xer vs = Some (r, rest)" "coro_wf s" "control s = Some i" "frames s i = Some f" "fr_point f = At c"
    "pr_executor (fr_promise f) = xer" "\<not> fr_detached f" "pr_exception (fr_promise f) = None"
  shows "coro_ends dflt s i (frames s) f vs r rest"
  using assms
proof (induction c arbitrary: vs r rest s i f)
  case (Co_return v)
  then show ?case using coro_ends_now [of s i f dflt "return_value v (fr_promise f)" vs]
    by (simp add: coro_step_def return_value_def task_await_resume_def)
next
  case (Co_throw e)
  then show ?case using coro_ends_now [of s i f dflt "unhandled_exception e (fr_promise f)" vs]
    by (simp add: coro_step_def unhandled_exception_def task_await_resume_def)
next
  case (Co_executor k)
  let ?s = "set_frame i (f\<lparr>fr_point := At (k xer)\<rparr>) s"
  have "coro_step dflt i s = Ret ?s" using Co_executor by (simp add: coro_step_def)
  moreover have "coro_ends dflt ?s i (frames ?s) (f\<lparr>fr_point := At (k xer)\<rparr>) vs r rest"
    using Co_executor coro_wf_less [OF Co_executor(3,5)] by (intro Co_executor(1)) (auto simp: frame_defs coro_wf_def)
  ultimately show ?case using coro_ends_before [OF coro_run_one [OF Co_executor(4)]] by (fastforce simp: frame_defs)
next
  case (Co_event k)
  obtain v ws where vs: "vs = v # ws" "coro_eval (k v) xer ws = Some (r, rest)"
    using Co_event(2) by (auto split: list.splits)
  let ?s = "(set_frame i (f\<lparr>fr_point := Suspended k\<rparr>) s)\<lparr>control := None\<rparr>"
  let ?t = "(set_frame i (f\<lparr>fr_point := At (k v)\<rparr>) s)\<lparr>control := Some i\<rparr>"
  have "coro_step dflt i s = Ret ?s" "coro_resume i v ?s = Ret ?t"
    using Co_event by (simp_all add: coro_step_def coro_resume_def frame_defs)
  then have run: "coro_run dflt s [v] ?t"
    by (intro run_step [OF Co_event(4)] run_event [where v = v and i = i and s' = ?t] run_stop) simp_all
  have "coro_ends dflt ?t i (frames ?t) (f\<lparr>fr_point := At (k v)\<rparr>) ws r rest"
    using Co_event vs(2) coro_wf_less [OF Co_event(3,5)] by (intro Co_event(1)) (auto simp: frame_defs coro_wf_def)
  then show ?case using coro_ends_before [OF run] vs(1) by (simp add: frame_defs)
next
  case (Co_await c k)
  note i = coro_wf_less [OF Co_await(4,6)]
  obtain r1 vs1 where e1: "coro_eval c xer vs = Some (r1, vs1)" and e2: "coro_eval (k r1) xer vs1 = Some (r, rest)"
    using Co_await(3) by (auto split: option.splits)
  let ?j = "next_frame s"
  let ?g = "\<lparr>fr_point = At c, fr_promise = task_await_suspend i xer (promise_new dflt), fr_detached = False\<rparr>"
  let ?s1 = "(set_frame ?j ?g (set_frame i (f\<lparr>fr_point := Awaiting ?j k\<rparr>) (snd (task_create dflt c s))))\<lparr>control := Some ?j\<rparr>"
  have st1: "coro_step dflt i s = Ret ?s1" using Co_await by (simp add: coro_step_def task_create_def)
  have ex: "pr_executor (fr_promise ?g) = xer" "pr_previous (fr_promise ?g) = Some i" "pr_exception (fr_promise ?g) = None"
    by (simp_all add: task_await_suspend_def promise_new_def Let_def)
  have "coro_ends dflt ?s1 ?j (frames ?s1) ?g vs r1 vs1"
    by (rule Co_await(1) [OF e1]) (use Co_await(4) i ex in \<open>auto simp: frame_defs coro_wf_def\<close>)
  then obtain used1 p1 s2 where u1: "vs = used1 @ vs1" "coro_run dflt ?s1 used1 s2" "task_await_resume p1 = r1"
    "control s2 = Some i" "coro_wf s2"
    and f2: "frames s2 = (frames s)(i \<mapsto> f\<lparr>fr_point := Awaiting ?j k\<rparr>, ?j \<mapsto> ?g\<lparr>fr_point := Final, fr_promise := p1\<rparr>)"
    using ex i by (auto simp: coro_ends_def frame_defs fun_upd_twist)
  let ?f = "f\<lparr>fr_point := At (k r1)\<rparr>"
  let ?s3 = "set_frame i ?f (task_destroy ?j s2)"
  have st3: "coro_step dflt i s2 = Ret ?s3" using f2 i u1(3) by (simp add: coro_step_def frame_defs)
  have f3: "frames ?s3 = (frames s)(i \<mapsto> ?f)"
    using f2 i Co_await(4) by (auto simp: frame_defs fun_eq_iff coro_wf_def)
  have run: "coro_run dflt s used1 ?s3"
    using run_step [OF Co_await(5) st1 coro_run_trans [OF u1(2) coro_run_one [OF u1(4) st3]]] by simp
  have "i < next_frame s2" using coro_wf_less [OF u1(5), of i] f2 i by simp
  then have wf3: "coro_wf ?s3" using u1(5) by (auto simp: coro_wf_def frame_defs)
  have "coro_ends dflt ?s3 i (frames ?s3) ?f vs1 r rest"
    by (rule Co_await(2) [OF _ e2]) (use Co_await(4-10) u1(4) f3 wf3 in \<open>simp_all add: frame_defs\<close>)
  then show ?case using coro_ends_before [OF run] u1(1) f3 by simp
qed

subsection \<open>One coroutine at a time\<close>

definition waits :: "('v, 'x) coro_state \<Rightarrow> nat \<Rightarrow> bool" where
  "waits s i \<longleftrightarrow> (\<exists>f k. frames s i = Some f \<and> fr_point f = Suspended k)"

text \<open>At most one coroutine waits for an event, and none while another one runs.\<close>

definition coro_single :: "('v, 'x) coro_state \<Rightarrow> bool" where
  "coro_single s \<longleftrightarrow> (\<forall>i j. waits s i \<longrightarrow> waits s j \<longrightarrow> i = j) \<and> (control s \<noteq> None \<longrightarrow> (\<forall>i. \<not> waits s i))"

lemma coro_step_waits:
  assumes "coro_step dflt i s = Ret s'" "\<forall>j. \<not> waits s j"
  shows "(\<forall>j. waits s' j \<longrightarrow> j = i) \<and> (control s' \<noteq> None \<longrightarrow> \<not> waits s' i)"
proof -
  obtain f where f: "frames s i = Some f" using assms(1) by (cases "frames s i") (auto simp: coro_step_def)
  note d = coro_step_def frame_defs waits_def
  show ?thesis
  proof (cases "fr_point f")
    case (At c)
    then show ?thesis using assms f by (cases c) (auto simp: d Let_def split: if_splits)
  next
    case (Awaiting j k)
    then show ?thesis using assms f by (cases "frames s j") (auto simp: d split: if_splits)
  qed (use assms f in \<open>auto simp: d\<close>)
qed

lemma coro_single_step:
  assumes "coro_single s" "control s = Some i" "coro_step dflt i s = Ret s'"
  shows "coro_single s'"
proof -
  have "\<forall>j. \<not> waits s j" using assms(1,2) by (simp add: coro_single_def)
  from coro_step_waits [OF assms(3) this] show ?thesis unfolding coro_single_def by blast
qed

lemma coro_resume_waits: "coro_resume i v s = Ret s' \<Longrightarrow> waits s i"
  by (auto simp: coro_resume_def waits_def split: option.splits point.splits)

lemma coro_single_resume:
  assumes "coro_single s" "coro_resume i v s = Ret s'"
  shows "coro_single s'"
proof -
  have "waits s j \<Longrightarrow> j = i" for j
    using assms(1) coro_resume_waits [OF assms(2)] unfolding coro_single_def by blast
  moreover have "waits s' j \<Longrightarrow> j \<noteq> i \<and> waits s j" for j
    using assms(2) by (auto simp: coro_resume_def waits_def frame_defs split: option.splits point.splits if_splits)
  ultimately show ?thesis unfolding coro_single_def by blast
qed

inductive_cases run_nilE: "coro_run dflt s [] t"
inductive_cases run_consE: "coro_run dflt s (v # vs) t"

text \<open>So there is only one way to go: a run that has ended is where every other run with the same events
  ends.\<close>

lemma coro_run_confluent:
  assumes "coro_run dflt s vs u" "coro_run dflt s vs t" "coro_single s" "control u = None"
  shows "coro_run dflt t [] u"
  using assms
proof (induction rule: coro_run.induct)
  case (run_stop s)
  then show ?case by (auto elim: run_nilE intro: coro_run.run_stop)
next
  case (run_step s i s' vs u)
  from run_step(5) show ?case
  proof cases
    case run_stop
    then show ?thesis using run_step(1-3) coro_run.run_step by fastforce
  next
    case (run_step i' s'')
    then show ?thesis using run_step.IH run_step.hyps run_step.prems coro_single_step by (metis option.inject run.inject)
  next
    case (run_event i' v s'' ws)
    then show ?thesis using run_step.hyps by simp
  qed
next
  case (run_event s i v s' vs u)
  from run_event(5) show ?case
  proof cases
    case (run_step i' s'')
    then show ?thesis using run_event.hyps by simp
  next
    case (run_event i' s'')
    have "i' = i" using coro_resume_waits [OF run_event(2)] coro_resume_waits [OF run_event.hyps(2)] run_event.prems(2)
      unfolding coro_single_def by blast
    then show ?thesis using run_event run_event.IH run_event.hyps run_event.prems coro_single_resume by (metis run.inject)
  qed
qed

subsection \<open>Starting and detaching tasks\<close>

text \<open>\<^verbatim>\<open>wait\<close>: the executor is set and the task is started.\<close>

definition coro_start :: "'v \<Rightarrow> ('v, 'x) coro \<Rightarrow> 'x option \<Rightarrow> ('v, 'x) coro_state" where
  "coro_start dflt c xer =
     \<lparr>frames = [0 \<mapsto> \<lparr>fr_point = At c, fr_promise = (promise_new dflt)\<lparr>pr_executor := xer\<rparr>, fr_detached = False\<rparr>],
      next_frame = 1, control = Some 0\<rparr>"

text \<open>The coroutine of \<^verbatim>\<open>_internal_detach\<close>, when it awaits the task at \<open>j\<close>.\<close>

definition detach_frame :: "'v \<Rightarrow> nat \<Rightarrow> ('v, 'x) frame" where
  [simp]: "detach_frame dflt j =
     \<lparr>fr_point = Awaiting j (\<lambda>r. case r of Inl e \<Rightarrow> Co_throw e | Inr v \<Rightarrow> Co_return v),
      fr_promise = promise_new dflt, fr_detached = True\<rparr>"

text \<open>\<^verbatim>\<open>co_detach\<close> of the task at \<open>j\<close>, in a coroutine with the executor \<open>cur\<close>: the frame of \<^verbatim>\<open>_internal_detach\<close> is made
  and started, and awaits the task.\<close>

definition co_detach :: "'v \<Rightarrow> nat \<Rightarrow> 'x option \<Rightarrow> 'x option \<Rightarrow> ('v, 'x) coro_state \<Rightarrow> ('v, 'x) coro_state run" where
  "co_detach dflt j xer cur s =
     (case frames s j of
        None \<Rightarrow> Abort ''detached a task that was destroyed''
      | Some f \<Rightarrow>
          let x = (case xer of Some _ \<Rightarrow> xer | None \<Rightarrow> cur); p = (fr_promise f)\<lparr>pr_executor := x\<rparr>
          in sk_check (pr_executor p \<noteq> None) ''_internal_detach: no executor?'' (
             let d = next_frame s;
                 g = detach_frame dflt j;
                 p = task_await_suspend d None (p\<lparr>pr_previous := None\<rparr>)
             in Ret ((set_frame j (f\<lparr>fr_promise := p\<rparr>) (set_frame d g s))\<lparr>next_frame := d + 1, control := Some j\<rparr>)))"

lemma co_detach_runs:
  assumes wf: "coro_wf s" and ev: "coro_eval c x vs = Some (r, [])" and x: "x = (case xer of Some _ \<Rightarrow> xer | None \<Rightarrow> cur)"
    and s2: "co_detach dflt (next_frame s) xer cur (snd (task_create dflt c s)) = Ret s2"
  shows "\<exists>t. coro_run dflt s2 vs t \<and> control t = Some (next_frame s + 1) \<and>
    frames t = (frames s)(next_frame s + 1 \<mapsto>
      \<lparr>fr_point = At (case r of Inl e \<Rightarrow> Co_throw e | Inr v \<Rightarrow> Co_return v), fr_promise = promise_new dflt, fr_detached = True\<rparr>)"
proof -
  let ?j = "next_frame s" let ?d = "next_frame s + 1"
  let ?k = "\<lambda>r. case r of Inl e \<Rightarrow> Co_throw e | Inr v \<Rightarrow> Co_return v"
  let ?g = "\<lparr>fr_point = Awaiting ?j ?k, fr_promise = promise_new dflt, fr_detached = True\<rparr>"
  let ?f = "\<lparr>fr_point = At c, fr_promise = (promise_new dflt)\<lparr>pr_executor := x, pr_previous := Some ?d\<rparr>, fr_detached = False\<rparr>"
  have "x \<noteq> None" using s2 x by (auto simp: co_detach_def frame_defs Let_def run_simps)
  then have s2': "frames s2 = (frames s)(?d \<mapsto> ?g, ?j \<mapsto> ?f)" "control s2 = Some ?j" "next_frame s2 = ?d + 1"
    using s2 x by (auto simp: co_detach_def frame_defs Let_def run_simps task_await_suspend_def promise_new_def fun_upd_twist)
  have wf2: "coro_wf s2" using wf s2' by (auto simp: coro_wf_def)
  have "coro_ends dflt s2 ?j (frames s2) ?f vs r []"
    by (rule coro_run_eval [OF ev wf2 s2'(2)]) (simp_all add: s2' promise_new_def)
  then obtain p t where t: "coro_run dflt s2 vs t" "task_await_resume p = r" "control t = Some ?d"
    "frames t = (frames s)(?d \<mapsto> ?g, ?j \<mapsto> ?f\<lparr>fr_point := Final, fr_promise := p\<rparr>)"
    by (auto simp: coro_ends_def s2')
  let ?t = "set_frame ?d (?g\<lparr>fr_point := At (?k r)\<rparr>) (task_destroy ?j t)"
  have "coro_step dflt ?d t = Ret ?t" using t by (simp add: coro_step_def)
  then have "coro_run dflt s2 vs ?t" using coro_run_trans [OF t(1) coro_run_one [OF t(3)]] by simp
  moreover have "frames s ?j = None" using wf by (simp add: coro_wf_def)
  then have "frames ?t = (frames s)(?d \<mapsto> ?g\<lparr>fr_point := At (?k r)\<rparr>)" using t(4) by (auto simp: frame_defs fun_eq_iff)
  moreover have "control ?t = Some ?d" using t(3) by (simp add: frame_defs)
  ultimately show ?thesis by (intro exI [of _ ?t]) simp
qed

subsection \<open>Properties of tasks\<close>

text \<open>C7: Running a task is running its body, with the tasks it awaits in their places: for every body that
  comes to its end with some events, the machinery of promises, suspensions and resumptions brings it
  to its end, whatever it awaits, with the value or the exception of the body, every awaited task on
  the executor of the task that awaits it, and with no frame left but that of the task. There is no
  other way to go: from wherever the machinery is after these events it gets there.\<close>

theorem task_runs_body:
  assumes "coro_eval c xer vs = Some (r, [])"
  shows "\<exists>p u. coro_run dflt (coro_start dflt c xer) vs u \<and> control u = None \<and>
    frames u = [0 \<mapsto> \<lparr>fr_point = Final, fr_promise = p, fr_detached = False\<rparr>] \<and> task_await_resume p = r \<and>
    (\<forall>t. coro_run dflt (coro_start dflt c xer) vs t \<longrightarrow> coro_run dflt t [] u)"
proof -
  let ?s = "coro_start dflt c xer"
  have wf: "coro_wf ?s" "coro_single ?s"
    by (auto simp: coro_wf_def coro_start_def coro_single_def waits_def split: if_splits)
  have "coro_ends dflt ?s 0 (frames ?s) (the (frames ?s 0)) vs r []"
    by (rule coro_run_eval [OF assms wf(1)]) (simp_all add: coro_start_def promise_new_def)
  then obtain p u where u: "coro_run dflt ?s vs u" "control u = None"
    "frames u = [0 \<mapsto> \<lparr>fr_point = Final, fr_promise = p, fr_detached = False\<rparr>]" "task_await_resume p = r"
    by (auto simp: coro_ends_def coro_start_def promise_new_def)
  then show ?thesis using coro_run_confluent [OF u(1) _ wf(2) u(2)] by blast
qed

text \<open>A task that awaits a task, which asks for its executor and fails after an event; the first one catches
  the exception.\<close>

definition catching :: "(nat, nat) coro" where
  "catching =
     Co_await
       (Co_executor (\<lambda>x. case x of None \<Rightarrow> Co_return 0 | Some n \<Rightarrow> Co_event (\<lambda>v. Co_throw (v + n))))
       (\<lambda>r. case r of Inl e \<Rightarrow> Co_return (e + 1) | Inr v \<Rightarrow> Co_return v)"

theorem task_runs_body_witness:
  "\<exists>p u. coro_run 0 (coro_start 0 catching (Some 10)) [5] u \<and> control u = None \<and>
    frames u = [0 \<mapsto> \<lparr>fr_point = Final, fr_promise = p, fr_detached = False\<rparr>] \<and> task_await_resume p = Inr 16"
proof -
  have "coro_eval catching (Some 10) [5] = Some (Inr 16, [])" by (simp add: catching_def)
  from task_runs_body [OF this, of 0] show ?thesis by blast
qed

text \<open>C26: A detached task is run to its end on the executor that was given, or on that of the coroutine that
  detaches it, and then nothing of it is left: both frames are freed. When it ends with an exception
  the exception leaves the coroutine that detaches, and so whatever resumed it last. Without an
  executor \<^verbatim>\<open>co_detach\<close> ends the program.\<close>

theorem detached_task_freed:
  assumes "coro_wf s"
  shows "(xer = None \<and> cur = None \<longrightarrow>
      co_detach dflt (next_frame s) xer cur (snd (task_create dflt c s)) = Abort ''_internal_detach: no executor?'') \<and>
    (coro_eval c (case xer of Some _ \<Rightarrow> xer | None \<Rightarrow> cur) vs = Some (r, []) \<longrightarrow>
      co_detach dflt (next_frame s) xer cur (snd (task_create dflt c s)) = Ret s2 \<longrightarrow>
      (case r of
         Inr v \<Rightarrow> (\<exists>u. coro_run dflt s2 vs u \<and> control u = None \<and> frames u = frames s)
       | Inl e \<Rightarrow> (\<exists>t i. coro_run dflt s2 vs t \<and> control t = Some i \<and>
           coro_step dflt i t = Abort ''an exception leaves a detached task'')))"
proof (intro conjI impI)
  assume "xer = None \<and> cur = None"
  then show "co_detach dflt (next_frame s) xer cur (snd (task_create dflt c s)) = Abort ''_internal_detach: no executor?''"
    by (simp add: co_detach_def frame_defs)
next
  assume ev: "coro_eval c (case xer of Some _ \<Rightarrow> xer | None \<Rightarrow> cur) vs = Some (r, [])"
    and s2: "co_detach dflt (next_frame s) xer cur (snd (task_create dflt c s)) = Ret s2"
  obtain t where t: "coro_run dflt s2 vs t" "control t = Some (next_frame s + 1)"
    "frames t = (frames s)(next_frame s + 1 \<mapsto>
      \<lparr>fr_point = At (case r of Inl e \<Rightarrow> Co_throw e | Inr v \<Rightarrow> Co_return v), fr_promise = promise_new dflt, fr_detached = True\<rparr>)"
    using co_detach_runs [OF assms ev refl s2] by blast
  have free: "frames s (next_frame s + 1) = None" using assms by (simp add: coro_wf_def)
  show "case r of Inr v \<Rightarrow> (\<exists>u. coro_run dflt s2 vs u \<and> control u = None \<and> frames u = frames s)
    | Inl e \<Rightarrow> (\<exists>t i. coro_run dflt s2 vs t \<and> control t = Some i \<and> coro_step dflt i t = Abort ''an exception leaves a detached task'')"
  proof (cases r)
    case (Inl e)
    then show ?thesis using t by (auto simp: coro_step_def intro!: exI [of _ t])
  next
    case (Inr v)
    let ?u = "(task_destroy (next_frame s + 1) t)\<lparr>control := None\<rparr>"
    have "coro_step dflt (next_frame s + 1) t = Ret ?u" using t(3) Inr by (simp add: coro_step_def)
    then have "coro_run dflt s2 vs ?u" using coro_run_trans [OF t(1) coro_run_one [OF t(2)]] by simp
    moreover have "frames ?u = frames s" using t(3) free by (auto simp: frame_defs fun_eq_iff)
    ultimately show ?thesis using Inr by (auto intro!: exI [of _ ?u])
  qed
qed

definition no_coroutines :: "(nat, nat) coro_state" where
  "no_coroutines = \<lparr>frames = \<lambda>_. None, next_frame = 0, control = None\<rparr>"

theorem detached_task_freed_witness:
  "\<exists>s2 u. co_detach 0 0 None (Some 10) (snd (task_create 0 catching no_coroutines)) = Ret s2 \<and>
    coro_run 0 s2 [5] u \<and> control u = None \<and> frames u = (\<lambda>_. None)"
proof -
  have wf: "coro_wf no_coroutines" by (simp add: coro_wf_def no_coroutines_def)
  have ev: "coro_eval catching (Some 10) [5] = Some (Inr 16, [])" by (simp add: catching_def)
  obtain s2 where s2: "co_detach 0 0 None (Some 10) (snd (task_create 0 catching no_coroutines)) = Ret s2"
    by (simp add: co_detach_def frame_defs no_coroutines_def Let_def)
  then show ?thesis
    using detached_task_freed [OF wf, of None "Some 10" 0 catching "[5]" "Inr 16" s2] ev by (auto simp: no_coroutines_def)
qed

subsection \<open>The implementation without symmetric transfer\<close>

text \<open>Compilers without C++20 coroutines: the awaiting coroutine resumes the task inside \<^verbatim>\<open>await_suspend\<close>, and
  the flag \<^verbatim>\<open>ready\<close> decides who goes on with the awaiting coroutine. \<open>legacy_suspend\<close> is the exchange after the
  call, whose result says whether the coroutine is suspended; \<open>legacy_final\<close> is the one at the end of the
  task, with the coroutine it resumes.\<close>

definition legacy_suspend :: "bool \<Rightarrow> bool \<times> bool" where
  "legacy_suspend ready = (\<not> ready, True)"

definition legacy_final :: "nat option \<Rightarrow> bool \<Rightarrow> nat option \<times> bool" where
  "legacy_final previous ready =
     (case previous of None \<Rightarrow> (None, ready) | Some h \<Rightarrow> (if ready then Some h else None, True))"

text \<open>The two exchanges in either order: \<open>True\<close> is that of the awaiting coroutine. The result is how often the
  coroutine \<open>h\<close> goes on.\<close>

fun legacy_order :: "nat \<Rightarrow> bool list \<Rightarrow> bool \<Rightarrow> nat" where
  "legacy_order h [] ready = 0"
| "legacy_order h (True # es) ready =
     (let (suspended, ready) = legacy_suspend ready in (if suspended then 0 else 1) + legacy_order h es ready)"
| "legacy_order h (False # es) ready =
     (let (next, ready) = legacy_final (Some h) ready in (if next = Some h then 1 else 0) + legacy_order h es ready)"

lemma legacy_once:
  assumes "mset es = {#True, False#}"
  shows "legacy_order h es False = 1"
proof -
  have "length es = 2" using assms by (metis size_mset size_add_mset size_empty One_nat_def numeral_2_eq_2)
  then obtain a b where es: "es = [a, b]" by (auto simp: numeral_2_eq_2 length_Suc_conv)
  then have "a \<noteq> b" using assms by (cases a; cases b) (auto simp: add_mset_eq_single)
  then show ?thesis using es by (cases a; cases b) (simp_all add: legacy_suspend_def legacy_final_def)
qed

subsection \<open>async_invoke\<close>

text \<open>Where the awaiting coroutine, the other thread and the work it posts are. The mutex is held by the
  coroutine from the start until \<^verbatim>\<open>await_suspend\<close> returns, and by the work while it is at \<open>L_locked\<close>.\<close>

datatype invoke_main = M_locked | M_stored | M_unlocked

datatype 'r invoke_thread = T_none | T_run | T_called 'r | T_posted 'r | T_done 'r | T_threw

datatype 'r invoke_work = L_none | L_posted | L_locked | L_resumed | L_got 'r

record 'r invoke =
  iv_main :: invoke_main
  iv_thread :: "'r invoke_thread"
  iv_work :: "'r invoke_work"

definition invoke_start :: "'r invoke" where
  "invoke_start = \<lparr>iv_main = M_locked, iv_thread = T_none, iv_work = L_none\<rparr>"

text \<open>\<open>callable\<close> is what the call does: it throws or returns a value.\<close>

inductive invoke_step :: "unit + 'r \<Rightarrow> 'r invoke \<Rightarrow> 'r invoke \<Rightarrow> bool" for callable where
  iv_async: "iv_main s = M_locked \<Longrightarrow> iv_thread s = T_none \<Longrightarrow> invoke_step callable s (s\<lparr>iv_thread := T_run\<rparr>)"
| iv_store: "iv_main s = M_locked \<Longrightarrow> iv_thread s \<noteq> T_none \<Longrightarrow> invoke_step callable s (s\<lparr>iv_main := M_stored\<rparr>)"
| iv_unlock: "iv_main s = M_stored \<Longrightarrow> invoke_step callable s (s\<lparr>iv_main := M_unlocked\<rparr>)"
| iv_call: "iv_thread s = T_run \<Longrightarrow>
    invoke_step callable s (s\<lparr>iv_thread := case callable of Inl _ \<Rightarrow> T_threw | Inr r \<Rightarrow> T_called r\<rparr>)"
| iv_post: "iv_thread s = T_called r \<Longrightarrow> invoke_step callable s (s\<lparr>iv_thread := T_posted r, iv_work := L_posted\<rparr>)"
| iv_return: "iv_thread s = T_posted r \<Longrightarrow> invoke_step callable s (s\<lparr>iv_thread := T_done r\<rparr>)"
| iv_lock: "iv_work s = L_posted \<Longrightarrow> iv_main s = M_unlocked \<Longrightarrow> invoke_step callable s (s\<lparr>iv_work := L_locked\<rparr>)"
| iv_resume: "iv_work s = L_locked \<Longrightarrow> invoke_step callable s (s\<lparr>iv_work := L_resumed\<rparr>)"
| iv_get: "iv_work s = L_resumed \<Longrightarrow> iv_thread s = T_done r \<Longrightarrow> invoke_step callable s (s\<lparr>iv_work := L_got r\<rparr>)"

inductive invoke_steps :: "unit + 'r \<Rightarrow> nat \<Rightarrow> 'r invoke \<Rightarrow> bool" for callable where
  iv_begin: "invoke_steps callable 0 invoke_start"
| iv_next: "invoke_steps callable n s \<Longrightarrow> invoke_step callable s s' \<Longrightarrow> invoke_steps callable (Suc n) s'"

fun main_left :: "invoke_main \<Rightarrow> nat" where
  "main_left M_locked = 2" | "main_left M_stored = 1" | "main_left M_unlocked = 0"

fun thread_left :: "'r invoke_thread \<Rightarrow> nat" where
  "thread_left T_none = 4" | "thread_left T_run = 3" | "thread_left (T_called r) = 2" | "thread_left (T_posted r) = 1"
| "thread_left (T_done r) = 0" | "thread_left T_threw = 0"

fun work_left :: "'r invoke_work \<Rightarrow> nat" where
  "work_left L_none = 3" | "work_left L_posted = 3" | "work_left L_locked = 2" | "work_left L_resumed = 1" | "work_left (L_got r) = 0"

definition invoke_left :: "'r invoke \<Rightarrow> nat" where
  "invoke_left s = main_left (iv_main s) + thread_left (iv_thread s) + work_left (iv_work s)"

text \<open>What holds at any time: the work is there when the thread has posted it, the results are those of the
  call, and the coroutine is resumed only after \<^verbatim>\<open>await_suspend\<close> is through, when the future is stored.\<close>

definition invoke_inv :: "unit + 'r \<Rightarrow> 'r invoke \<Rightarrow> bool" where
  "invoke_inv callable s \<longleftrightarrow>
     (case iv_thread s of
        T_none \<Rightarrow> iv_main s = M_locked \<and> iv_work s = L_none
      | T_run \<Rightarrow> iv_work s = L_none
      | T_called r \<Rightarrow> callable = Inr r \<and> iv_work s = L_none
      | T_posted r \<Rightarrow> callable = Inr r \<and> iv_work s \<noteq> L_none \<and> (\<forall>v. iv_work s \<noteq> L_got v)
      | T_done r \<Rightarrow> callable = Inr r \<and> iv_work s \<noteq> L_none
      | T_threw \<Rightarrow> callable = Inl () \<and> iv_work s = L_none) \<and>
     (iv_work s \<notin> {L_none, L_posted} \<longrightarrow> iv_main s = M_unlocked) \<and>
     (\<forall>v. iv_work s = L_got v \<longrightarrow> callable = Inr v)"

lemma invoke_step_ok:
  assumes "invoke_step callable s s'" "invoke_inv callable s"
  shows "invoke_inv callable s' \<and> Suc (invoke_left s') \<le> invoke_left s"
  using assms by cases (auto simp: invoke_inv_def invoke_left_def split: invoke_thread.splits sum.splits)

lemma invoke_steps_ok: "invoke_steps callable n s \<Longrightarrow> invoke_inv callable s \<and> n + invoke_left s \<le> 9"
proof (induction rule: invoke_steps.induct)
  case iv_begin
  show ?case by (simp add: invoke_start_def invoke_inv_def invoke_left_def)
next
  case (iv_next n s s')
  then show ?case using invoke_step_ok [OF iv_next(2)] by simp
qed

lemma invoke_progress:
  assumes "invoke_inv callable s" "\<forall>s'. \<not> invoke_step callable s s'"
  shows "iv_main s = M_unlocked \<and>
    (case callable of Inl _ \<Rightarrow> iv_thread s = T_threw \<and> iv_work s = L_none | Inr r \<Rightarrow> iv_work s = L_got r)"
proof -
  have m: "iv_main s = M_unlocked"
    using assms(2) iv_async [of s callable] iv_store [of s callable] iv_unlock [of s callable] by (cases "iv_main s") auto
  show ?thesis
    using m assms iv_call [of s callable] iv_post [of s] iv_return [of s] iv_lock [of s callable] iv_resume [of s callable]
      iv_get [of s]
    by (cases "iv_thread s"; cases "iv_work s") (auto simp: invoke_inv_def)
qed

text \<open>C25: \<^verbatim>\<open>async_invoke\<close> ends, in whatever order the coroutine, the other thread and the executor take their
  steps: there is no deadlock, after at most nine steps the coroutine has the value the callable
  returned, and it is never resumed before its awaiter is set up. But when the callable throws, the
  coroutine is not resumed at all.\<close>

theorem async_invoke_returns:
  assumes "invoke_steps callable n s"
  shows "n \<le> 9 \<and> (iv_work s = L_resumed \<longrightarrow> iv_main s = M_unlocked) \<and> (\<forall>v. iv_work s = L_got v \<longrightarrow> callable = Inr v) \<and>
    ((\<exists>s'. invoke_step callable s s') \<or>
     (case callable of Inl _ \<Rightarrow> iv_thread s = T_threw \<and> iv_work s = L_none | Inr r \<Rightarrow> iv_work s = L_got r))"
  using invoke_steps_ok [OF assms] invoke_progress [of callable s] by (auto simp: invoke_inv_def)

theorem async_invoke_returns_witness:
  "\<exists>s. invoke_steps (Inr (5 :: nat)) 9 s \<and> iv_work s = L_got 5 \<and> (\<forall>v. iv_work s = L_got v \<longrightarrow> Inr 5 = (Inr v :: unit + nat))"
proof -
  let ?c = "Inr 5 :: unit + nat"
  have "invoke_steps ?c 1 (invoke_start\<lparr>iv_thread := T_run\<rparr>)"
    using iv_next [OF iv_begin iv_async, of ?c] by (simp add: invoke_start_def)
  from iv_next [OF this iv_store] have "invoke_steps ?c 2 (invoke_start\<lparr>iv_thread := T_run, iv_main := M_stored\<rparr>)"
    by (simp add: invoke_start_def numeral_2_eq_2)
  from iv_next [OF iv_next [OF this iv_unlock] iv_call]
  have "invoke_steps ?c 4 \<lparr>iv_main = M_unlocked, iv_thread = T_called 5, iv_work = L_none\<rparr>"
    by (simp add: invoke_start_def eval_nat_numeral)
  from iv_next [OF iv_next [OF this iv_post [where r = 5]] iv_return [where r = 5]]
  have "invoke_steps ?c 6 \<lparr>iv_main = M_unlocked, iv_thread = T_done 5, iv_work = L_posted\<rparr>"
    by (simp add: eval_nat_numeral)
  from iv_next [OF iv_next [OF this iv_lock] iv_resume]
  have "invoke_steps ?c 8 \<lparr>iv_main = M_unlocked, iv_thread = T_done 5, iv_work = L_resumed\<rparr>"
    by (simp add: eval_nat_numeral)
  from iv_next [OF this iv_get [where r = 5]]
  have run: "invoke_steps ?c 9 \<lparr>iv_main = M_unlocked, iv_thread = T_done 5, iv_work = L_got 5\<rparr>"
    by (simp add: eval_nat_numeral)
  have val: "\<forall>v. iv_work \<lparr>iv_main = M_unlocked, iv_thread = T_done 5, iv_work = L_got 5\<rparr> = L_got v \<longrightarrow> ?c = Inr v"
    using async_invoke_returns [OF run] by blast
  show ?thesis by (intro exI conjI, rule run, simp, rule val)
qed

subsection \<open>The main program\<close>

text \<open>\<^verbatim>\<open>co_main.hxx\<close>: \<^verbatim>\<open>main\<close> takes a handle of the reactor, with \<open>result\<close> the result of its start, waits for the
  program's coroutine, and gives the handle back.\<close>

definition co_main :: "error_code + unit \<Rightarrow> (reactor_global \<Rightarrow> (int \<times> reactor_global) run) \<Rightarrow> reactor_global \<Rightarrow> (int \<times> reactor_global) run" where
  "co_main result body g =
     (case shared_get result g of
        (Inl e, g) \<Rightarrow> Ret (1, g)
      | (Inr h, g) \<Rightarrow> bind_run (body g) (\<lambda>(ret, g). Ret (ret, shared_destroy h g)))"

text \<open>The reactor runs while the coroutine does, and is stopped afterwards when the coroutine has given back
  the handles it took.\<close>

lemma co_main_reactor:
  assumes "reactor_refs g = 0" "\<not> reactor_running g"
    "\<And>g ret g'. reactor_refs g = 1 \<Longrightarrow> reactor_running g \<Longrightarrow> body g = Ret (ret, g') \<Longrightarrow> reactor_refs g' = 1 \<and> reactor_running g'"
    "co_main result body g = Ret (ret, g')"
  shows "reactor_refs g' = 0 \<and> \<not> reactor_running g'"
proof (cases result)
  case (Inl e)
  then show ?thesis using assms(1,2,4) by (auto simp: co_main_def shared_get_def)
next
  case (Inr u)
  let ?g = "g\<lparr>reactor_refs := 1, reactor_running := True\<rparr>"
  obtain g1 where g1: "body ?g = Ret (ret, g1)" "g' = shared_destroy True g1"
    using assms(1,4) Inr by (auto simp: co_main_def shared_get_def run_simps)
  then show ?thesis using assms(3) [OF _ _ g1(1)] by (simp add: shared_destroy_def shared_release_def reactor_stop_def)
qed

end
