(* ===== verification/Charchannel.thy ===== *)
theory Charchannel
  imports Channel_IO Memchannel
begin

text \<open>
  Character channels, \<^verbatim>\<open>channel/charchannel.hxx\<close>: a channel of characters of one byte over a channel of bytes.
  A span of characters is viewed as the span of its bytes, \<^verbatim>\<open>as_bytes\<close> and \<^verbatim>\<open>as_writable_bytes\<close>. The operations
  of the channel below are arguments.
\<close>

definition char_bytes :: "string \<Rightarrow> byte list" where
  "char_bytes cs = map of_char cs"

definition from_bytes :: "byte list \<Rightarrow> string" where
  "from_bytes bs = map (\<lambda>b. char_of (unat b)) bs"

record 'c charchannel =
  cc_base :: 'c

definition charchannel_base :: "'c \<Rightarrow> 'c charchannel" where
  "charchannel_base b = \<lparr>cc_base = b\<rparr>"

definition charchannel_is_open :: "('c \<Rightarrow> bool) \<Rightarrow> 'c charchannel \<Rightarrow> bool" where
  "charchannel_is_open base_is_open c \<longleftrightarrow> base_is_open (cc_base c)"

definition charchannel_close ::
  "('c \<Rightarrow> (error_code + unit) \<times> 'c) \<Rightarrow> 'c charchannel \<Rightarrow> (error_code + unit) \<times> 'c charchannel" where
  "charchannel_close base_close c = (let (r, b) = base_close (cc_base c) in (r, c\<lparr>cc_base := b\<rparr>))"

definition charchannel_async_close ::
  "('c \<Rightarrow> (error_code + unit) \<times> 'c) \<Rightarrow> 'c charchannel \<Rightarrow> (error_code + unit) \<times> 'c charchannel" where
  "charchannel_async_close base_async_close c = (let (r, b) = base_async_close (cc_base c) in (r, c\<lparr>cc_base := b\<rparr>))"

definition iseqcharchannel_read_some :: "('c, byte) read_op \<Rightarrow> ('c charchannel, char) read_op" where
  "iseqcharchannel_read_some base_read c n =
     (let (r, b) = base_read (cc_base c) n in (map_sum (\<lambda>e. e) from_bytes r, c\<lparr>cc_base := b\<rparr>))"

definition iseqcharchannel_async_read_some :: "('c, byte) read_op \<Rightarrow> ('c charchannel, char) read_op" where
  "iseqcharchannel_async_read_some base_async_read c n =
     (let (r, b) = base_async_read (cc_base c) n in (map_sum (\<lambda>e. e) from_bytes r, c\<lparr>cc_base := b\<rparr>))"

definition oseqcharchannel_write_some :: "('c, byte) write_op \<Rightarrow> ('c charchannel, char) write_op" where
  "oseqcharchannel_write_some base_write c buf =
     (let (r, b) = base_write (cc_base c) (char_bytes buf) in (r, c\<lparr>cc_base := b\<rparr>))"

definition oseqcharchannel_async_write_some :: "('c, byte) write_op \<Rightarrow> ('c charchannel, char) write_op" where
  "oseqcharchannel_async_write_some base_async_write c buf =
     (let (r, b) = base_async_write (cc_base c) (char_bytes buf) in (r, c\<lparr>cc_base := b\<rparr>))"

text \<open>The channel for both directions has the same four operations.\<close>

definition seqcharchannel_read_some :: "('c, byte) read_op \<Rightarrow> ('c charchannel, char) read_op" where
  "seqcharchannel_read_some base_read c n =
     (let (r, b) = base_read (cc_base c) n in (map_sum (\<lambda>e. e) from_bytes r, c\<lparr>cc_base := b\<rparr>))"

definition seqcharchannel_async_read_some :: "('c, byte) read_op \<Rightarrow> ('c charchannel, char) read_op" where
  "seqcharchannel_async_read_some base_async_read c n =
     (let (r, b) = base_async_read (cc_base c) n in (map_sum (\<lambda>e. e) from_bytes r, c\<lparr>cc_base := b\<rparr>))"

definition seqcharchannel_write_some :: "('c, byte) write_op \<Rightarrow> ('c charchannel, char) write_op" where
  "seqcharchannel_write_some base_write c buf =
     (let (r, b) = base_write (cc_base c) (char_bytes buf) in (r, c\<lparr>cc_base := b\<rparr>))"

definition seqcharchannel_async_write_some :: "('c, byte) write_op \<Rightarrow> ('c charchannel, char) write_op" where
  "seqcharchannel_async_write_some base_async_write c buf =
     (let (r, b) = base_async_write (cc_base c) (char_bytes buf) in (r, c\<lparr>cc_base := b\<rparr>))"

definition make_iseqcharchannel :: "'c \<Rightarrow> 'c charchannel" where
  "make_iseqcharchannel c = charchannel_base c"

definition make_oseqcharchannel :: "'c \<Rightarrow> 'c charchannel" where
  "make_oseqcharchannel c = charchannel_base c"

definition make_seqcharchannel :: "'c \<Rightarrow> 'c charchannel" where
  "make_seqcharchannel c = charchannel_base c"

subsection \<open>The contracts\<close>

lemma from_char_bytes [simp]: "from_bytes (char_bytes cs) = cs"
proof -
  have "char_of (unat (of_char c :: byte)) = c" for c :: char
  proof -
    have "unat (of_char c :: byte) = of_char c" by (cases c) (simp add: of_char_def horner_sum_simps split: if_splits)
    then show ?thesis by simp
  qed
  then show ?thesis by (simp add: from_bytes_def char_bytes_def comp_def)
qed

lemma char_bytes_simps [simp]:
  "length (char_bytes cs) = length cs" "char_bytes cs = [] \<longleftrightarrow> cs = []" "char_bytes (take k cs) = take k (char_bytes cs)"
  "char_bytes (xs @ ys) = char_bytes xs @ char_bytes ys"
  by (simp_all add: char_bytes_def take_map)

lemma from_bytes_simps [simp]:
  "length (from_bytes bs) = length bs" "from_bytes bs = [] \<longleftrightarrow> bs = []" "from_bytes (take k bs) = take k (from_bytes bs)"
  "from_bytes (drop k bs) = drop k (from_bytes bs)" "from_bytes (xs @ ys) = from_bytes xs @ from_bytes ys"
  by (simp_all add: from_bytes_def take_map drop_map)

text \<open>Over a channel of bytes that keeps the contract of a reader or of a writer, the character channel keeps
  it too, for the text that the bytes are.\<close>

locale char_reader = seq_reader inv stream byte_read eof
  for inv :: "'c \<Rightarrow> bool" and stream :: "'c \<Rightarrow> byte list" and byte_read :: "('c, byte) read_op" and eof :: error_code

sublocale char_reader \<subseteq> chars: seq_reader "\<lambda>c. inv (cc_base c)" "\<lambda>c. from_bytes (stream (cc_base c))"
  "iseqcharchannel_read_some byte_read" eof
proof unfold_locales
  fix c :: "'c charchannel" and n :: nat
  assume c: "inv (cc_base c)" "0 < n"
  show "\<exists>k c'. iseqcharchannel_read_some byte_read c n = (Inr (take k (from_bytes (stream (cc_base c)))), c') \<and> 0 < k \<and> k \<le> n \<and>
      k \<le> length (from_bytes (stream (cc_base c))) \<and> inv (cc_base c') \<and>
      from_bytes (stream (cc_base c')) = drop k (from_bytes (stream (cc_base c)))"
    if "from_bytes (stream (cc_base c)) \<noteq> []"
    using read_progress [OF c] that by (fastforce simp: iseqcharchannel_read_some_def)
  show "\<exists>c'. iseqcharchannel_read_some byte_read c n = (Inl eof, c') \<and> inv (cc_base c') \<and> from_bytes (stream (cc_base c')) = []"
    if "from_bytes (stream (cc_base c)) = []"
    using read_eof [OF c] that by (fastforce simp: iseqcharchannel_read_some_def)
qed (rule eof_error)

locale char_writer = seq_writer inv sent space byte_write full
  for inv :: "'c \<Rightarrow> bool" and sent :: "'c \<Rightarrow> byte list" and space :: "'c \<Rightarrow> nat" and byte_write :: "('c, byte) write_op"
    and full :: error_code

sublocale char_writer \<subseteq> chars: seq_writer "\<lambda>c. inv (cc_base c)" "\<lambda>c. from_bytes (sent (cc_base c))" "\<lambda>c. space (cc_base c)"
  "oseqcharchannel_write_some byte_write" full
proof unfold_locales
  fix c :: "'c charchannel" and xs :: string
  assume c: "inv (cc_base c)" and xs: "xs \<noteq> []"
  then have b: "char_bytes xs \<noteq> []" by simp
  show "\<exists>k c'. oseqcharchannel_write_some byte_write c xs = (Inr k, c') \<and> 0 < k \<and> k \<le> length xs \<and> k \<le> space (cc_base c) \<and>
      inv (cc_base c') \<and> from_bytes (sent (cc_base c')) = from_bytes (sent (cc_base c)) @ take k xs \<and>
      space (cc_base c') = space (cc_base c) - k" if "0 < space (cc_base c)"
    using write_progress [OF c b that] by (fastforce simp: oseqcharchannel_write_some_def)
  show "\<exists>c'. oseqcharchannel_write_some byte_write c xs = (Inl full, c') \<and> inv (cc_base c') \<and>
      from_bytes (sent (cc_base c')) = from_bytes (sent (cc_base c)) \<and> space (cc_base c') = 0" if "space (cc_base c) = 0"
    using write_full [OF c b that] by (fastforce simp: oseqcharchannel_write_some_def)
qed (rule full_error)

interpretation mem_text_in: char_reader memchannel_inv memchannel_stream memchannel_read_some "make_error_code end_of_file" ..

interpretation mem_text_out: char_writer memchannel_inv memchannel_sent memchannel_space memchannel_write_some
  "make_error_code end_of_file" ..

subsection \<open>Properties\<close>

lemma twins:
  "seqcharchannel_read_some = iseqcharchannel_read_some" "seqcharchannel_async_read_some = iseqcharchannel_async_read_some"
  "seqcharchannel_write_some = oseqcharchannel_write_some" "seqcharchannel_async_write_some = oseqcharchannel_async_write_some"
  "iseqcharchannel_async_read_some = iseqcharchannel_read_some" "oseqcharchannel_async_write_some = oseqcharchannel_write_some"
  by (rule ext; rule ext; rule ext; simp add: seqcharchannel_read_some_def iseqcharchannel_read_some_def
      seqcharchannel_async_read_some_def iseqcharchannel_async_read_some_def seqcharchannel_write_some_def
      oseqcharchannel_write_some_def seqcharchannel_async_write_some_def oseqcharchannel_async_write_some_def)+

text \<open>What every write of a channel keeps, \<^verbatim>\<open>write_all\<close> keeps.\<close>

lemma write_all_loop_keeps:
  assumes "\<And>c xs. P c \<Longrightarrow> P (snd (w c xs))" "write_all_loop fuel w c xs k = Ret (n, e, c')" "P c"
  shows "P c'"
  using assms
proof (induction fuel w c xs k rule: write_all_loop.induct)
  case (3 fuel w c x xs nw)
  have "P (snd (w c (x # xs)))" by (rule 3(2) [OF 3(4)])
  then show ?case using 3(1) [OF _ refl] 3(2,3)
    by (cases "w c (x # xs)") (auto simp: sk_check_def split: sum.splits if_splits)
qed simp_all

lemma memchannel_write_keeps_position:
  "mc_read_position (snd (memchannel_write_some c xs)) = mc_read_position c"
  by (simp add: memchannel_write_some_def memchannel_write_some_at_def Let_def)

text \<open>C27: A text that \<^verbatim>\<open>write_all\<close> puts into memory through a character channel for both directions is what
  \<^verbatim>\<open>read_all\<close> then returns through the same channel, for every text that fits. (A channel for input only does
  not satisfy the constraint of \<^verbatim>\<open>read_all\<close>.)\<close>

theorem charchannel_roundtrip:
  assumes "length cs \<le> length mem" "length mem < 2 ^ 64"
  shows "\<exists>c' c''. write_all (length cs) (seqcharchannel_write_some memchannel_write_some)
        (make_seqcharchannel (memchannel_base mem)) cs unlimited = Ret (length cs, make_error_code no_error, c') \<and>
    read_all (length cs) (seqcharchannel_read_some memchannel_read_some) c' (length cs) unlimited =
      Ret (cs, make_error_code no_error, c'')"
  unfolding twins
proof -
  let ?c = "make_seqcharchannel (memchannel_base mem)"
  have c: "memchannel_inv (cc_base ?c)" "memchannel_space (cc_base ?c) = length mem" "memchannel_sent (cc_base ?c) = []"
    using assms(2) by (simp_all add: make_seqcharchannel_def charchannel_base_def)
  have lim: "min (length cs) unlimited = length cs" using assms by (simp add: unlimited_def)
  from mem_text_out.chars.write_all_ok [OF c(1), of cs unlimited "length cs"] lim assms c obtain c' where
    w: "write_all (length cs) (oseqcharchannel_write_some memchannel_write_some) ?c cs unlimited =
        Ret (length cs, make_error_code no_error, c')"
      "memchannel_inv (cc_base c')" "from_bytes (memchannel_sent (cc_base c')) = cs" by (auto simp: from_bytes_def)
  have "mc_read_position (cc_base c') = 0"
  proof (rule write_all_loop_keeps [OF _ w(1) [unfolded write_all_def]])
    show "mc_read_position (cc_base (snd (oseqcharchannel_write_some memchannel_write_some c xs))) = 0"
      if "mc_read_position (cc_base c) = 0" for c xs
      using that by (simp add: oseqcharchannel_write_some_def case_prod_beta memchannel_write_keeps_position)
    show "mc_read_position (cc_base ?c) = 0"
      by (simp add: make_seqcharchannel_def charchannel_base_def memchannel_base_def)
  qed
  then have d: "memchannel_stream (cc_base c') = mc_bytes (cc_base c')" by (simp add: memchannel_stream_def)
  have "take (length cs) (from_bytes (mc_bytes (cc_base c'))) = cs \<and> length cs \<le> length (mc_bytes (cc_base c'))"
    using w(2,3) by (auto simp: memchannel_sent_def memchannel_inv_def min_def dest: arg_cong [of _ cs length] split: if_splits)
  then show "\<exists>c' c''. write_all (length cs) (oseqcharchannel_write_some memchannel_write_some) ?c cs unlimited =
      Ret (length cs, make_error_code no_error, c') \<and>
    read_all (length cs) (iseqcharchannel_read_some memchannel_read_some) c' (length cs) unlimited =
      Ret (cs, make_error_code no_error, c'')"
    using mem_text_in.chars.read_all_ok [OF w(2), of "length cs" unlimited "length cs"] lim d w(1)
    by (auto simp: not_less)
qed

theorem charchannel_roundtrip_witness:
  "\<exists>c' c''. write_all 2 (seqcharchannel_write_some memchannel_write_some) (make_seqcharchannel (memchannel_base [0, 0, 0])) ''hi''
      unlimited = Ret (2, make_error_code no_error, c') \<and>
    read_all 2 (seqcharchannel_read_some memchannel_read_some) c' 2 unlimited = Ret (''hi'', make_error_code no_error, c'')"
  using charchannel_roundtrip [of "''hi''" "[0, 0, 0]"] by (simp flip: numeral_2_eq_2)

end
