(* ===== verification/Spec2Isabelle.thy ===== *)
theory Spec2Isabelle
  imports Channel_Transfer Dynamic_Buffer Uri Patricia_Containers Patricia_Memory Io_Uring Endpoint Win32_Socket Task Charchannel
begin

text \<open>
  A model of sk-cio, a C++20 library for input and output with coroutines. Paths are relative to
  \<^verbatim>\<open>src/src/include/sk\<close>.

  The program. \<^emph>\<open>Buffers\<close> hold objects between a producer and a consumer, by copying or through ranges
  of their memory. \<^emph>\<open>Channels\<close> move bytes: memory, files and stream sockets offer operations that read
  or write some bytes, and generic functions repeat them to read or write all, from and to ranges
  and buffers. The \<^emph>\<open>network\<close> part has URIs, addresses, endpoints and a name resolver. The \<^emph>\<open>Patricia
  trie\<close> is a set and a map with keys that are bit sequences, such as integers and addresses.
  Coroutines run on \<^emph>\<open>executors\<close>; the \<^emph>\<open>reactor\<close> resumes those that wait for a descriptor, and is kept
  alive by reference-counted handles.

  Conventions. A check that fails (\<^verbatim>\<open>SK_CHECK\<close>), an abort, an assertion or undefined behaviour is the
  outcome \<open>Abort\<close>, a loop whose fuel is used up \<open>Diverge\<close>, everything else \<open>Ret\<close> with the result, of the
  type \<open>run\<close> in \<open>Prelude\<close>; one exception is the negation in the key maker of signed integers (\<open>signed_image\<close>),
  which overflows for types as wide as \<^verbatim>\<open>int\<close> and is taken to wrap around. \<^verbatim>\<open>expected\<close> is a sum with the error on the left. Sizes are natural numbers
  where the code cannot overflow and are reduced modulo \<open>2 ^ 64\<close> where it can; other integers are
  words. Objects are records that operations return updated; linked structures are stores of nodes
  with addresses. The operating system is an argument: its state is a type variable, its calls are
  the fields of a record, and what the properties need of it is a named hypothesis. A coroutine is a
  function for what it computes; where it is suspended, what happens meanwhile is an argument. How
  coroutines are suspended and resumed is the subject of \<open>Task\<close>. A coroutine that the system never resumes
  is \<open>Diverge\<close>.

  Theories and sources.
  \<^item> \<open>Prelude\<close>: outcomes, list segments and shared lemmas (\<^verbatim>\<open>check.hxx\<close>).
  \<^item> \<open>Static_Vector\<close>, \<open>Buffer_Interface\<close> (the locales of a queue behind a buffer and of its ranges),
    \<open>Fixed_Buffer\<close>, \<open>Range_Buffer\<close>, \<open>Circular_Buffer\<close>, \<open>Dynamic_Buffer\<close>: \<^verbatim>\<open>static_vector.hxx\<close> and
    \<^verbatim>\<open>buffer/*.hxx\<close>. The circular and the dynamic buffer refine a queue; filling the writable ranges
    and committing is writing; what they do beyond their limits.
  \<^item> \<open>Channel_Types\<close>, \<open>Memchannel\<close>, \<open>Channel_IO\<close> (the locales of sequential readers and writers),
    \<open>Channel_Transfer\<close>, \<open>Charchannel\<close>: \<^verbatim>\<open>channel/types.hxx\<close>, \<^verbatim>\<open>error.hxx\<close>, \<^verbatim>\<open>memchannel.hxx\<close>, \<^verbatim>\<open>read.hxx\<close>, \<^verbatim>\<open>write.hxx\<close>,
    \<^verbatim>\<open>charchannel.hxx\<close>. Transfers between buffers
    and channels move exactly the right bytes.
  \<^item> \<open>Safeint\<close>, \<open>Strparse\<close>, \<open>Uri\<close>, \<open>Address\<close>: \<^verbatim>\<open>detail/safeint.hxx\<close>, \<^verbatim>\<open>flagset.hxx\<close>, \<^verbatim>\<open>detail/strparse.hxx\<close>,
    \<^verbatim>\<open>net/uri.hxx\<close>, \<^verbatim>\<open>net/address.hxx\<close>. Parsing and printing, with the accepted languages.
  \<^item> \<open>Patricia_Key\<close>, \<open>Patricia_Trie\<close>, \<open>Patricia_Shape\<close>, \<open>Patricia_Insert\<close>, \<open>Patricia_Remove\<close>, \<open>Patricia_Store\<close>
    (the locales of a map with lookup, growth, order, removal and order after removals, interpreted on the trie),
    \<open>Patricia_Containers\<close>, \<open>Patricia_Memory\<close>: \<^verbatim>\<open>patricia.hxx\<close>. The trie, as nodes in a store, represents a
    finite map; set and map are sets and maps; iteration is sorted; destroying frees every node and
    copying shares none. What removals break, exactly: after one, insertion and iteration may follow a
    null pointer.
  \<^item> \<open>Posix_Api\<close>, \<open>File_Channel\<close>: \<^verbatim>\<open>posix/error.hxx\<close>, \<^verbatim>\<open>posix/fd.hxx\<close>, the file operations of
    \<^verbatim>\<open>posix/detail/epoll_reactor.hxx\<close>, \<^verbatim>\<open>posix/detail/filechannel_base.hxx\<close>, \<^verbatim>\<open>channel/filechannel.hxx\<close>. The
    coroutines agree with the blocking operations; reading a file to its end.
  \<^item> \<open>Executor\<close> (the locale of an executor, interpreted on all three), \<open>Reactor\<close>: \<^verbatim>\<open>executor.hxx\<close>, \<^verbatim>\<open>wait.hxx\<close>,
    \<^verbatim>\<open>reactor.hxx\<close>, as labelled step relations whose steps are the critical sections. Order, no lost
    wakeup, bounded waiting, shutdown; the reference counter.
  \<^item> \<open>Task\<close>: \<^verbatim>\<open>task.hxx\<close>, \<^verbatim>\<open>co_detach.hxx\<close>, \<^verbatim>\<open>async_invoke.hxx\<close>, \<^verbatim>\<open>co_main.hxx\<close>. Coroutines as frames in a store, with their
    promises; running them refines the meaning of their bodies, and every frame is freed. Calls on
    another thread as steps of three parties, without deadlock.
  \<^item> \<open>Epoll_Reactor\<close>, \<open>Streamsocket\<close>, \<open>Endpoint\<close>: the rest of \<^verbatim>\<open>posix/detail/epoll_reactor.hxx\<close>,
    \<^verbatim>\<open>posix/detail/linux_reactor.hxx\<close>, \<^verbatim>\<open>posix/detail/streamsocket.hxx\<close>, \<^verbatim>\<open>net/detail/sockets/*.hxx\<close> and the
    resolver of \<^verbatim>\<open>net/address.hxx\<close>. Coroutines are resumed at most once for a registration, writers
    never; descriptors are not lost; endpoints and socket addresses.
  \<^item> \<open>Io_Uring\<close>: \<^verbatim>\<open>posix/detail/io_uring_reactor.hxx\<close> and the choice of the backend in
    \<^verbatim>\<open>posix/detail/linux_reactor.hxx\<close>. No request is lost or resumed twice; errors are taken for results.
  \<^item> \<open>Win32_Api\<close>, \<open>Win32_File\<close>, \<open>Win32_Socket\<close>: \<^verbatim>\<open>win32/*.hxx\<close> and \<^verbatim>\<open>win32/detail/*.hxx\<close>, the same parts on Windows.
    The open flags against those on POSIX, where they agree and where not; reading a file to its end; sockets are not lost, but for the
    blocking \<^verbatim>\<open>accept\<close> and \<^verbatim>\<open>connect\<close>; coroutines that are not resumed.

  Fuel. The loops of \<open>Channel_IO\<close> take one unit per call to the channel; the bytes asked for are
  enough, as every call moves a byte. Walks through a trie take \<open>walk_bound\<close>, twice the number of nodes
  ever allocated and two, which is more than the steps of any traversal; \<open>copy_from\<close> takes one unit
  per entry and one for the end; the socket loops take one per attempt. That the fuel suffices is
  part of the properties. \<open>st_run\<close> is partial; that it returns is proved for work of decreasing rank.

  Not modelled: the parts that do not compile (\<^verbatim>\<open>pmr_buffer.hxx\<close>, \<^verbatim>\<open>pmr_channel.hxx\<close>); most failing allocations;
  concepts, platform headers and the copy of a compiler's coroutine header, which have no operations of
  their own.
\<close>

end
